(* ===== verification/Maple_Prelude.thy ===== *)
theory Maple_Prelude
  imports Complex_Main "HOL-Library.AList" "HOL-Library.Word"
begin

text \<open>
  Shared vocabulary of the development: the fragment of JavaScript's run-time semantics that the
  modelled sources rely on (numbers with their non-finite values, array slicing, searching and
  stable sorting, insertion-ordered maps) and the generic lemmas the components share.

  \<^item> A JavaScript number that is only compared, rounded or copied is a \<open>jsnum\<close>: a rational
    (every finite double is one) or one of the three non-finite values. Comparisons are exact, and
    every comparison with \<open>NaN\<close> is false.
  \<^item> A JavaScript number that the code uses as an integer (a counter, a row, an epoch in
    milliseconds) is an \<open>int\<close>; these stay below \<open>2 ^ 53\<close> in the program, where double
    arithmetic on integers is exact.
  \<^item> A \<open>Map\<close> is an association list in insertion order: \<open>set\<close> overwrites in place or appends.
\<close>

named_theorems js_simps \<open>unfolding of the JavaScript run-time fragment\<close>

section \<open>Numbers\<close>

datatype jsnum = Fin rat | PosInf | NegInf | NaN

fun js_lt :: "jsnum \<Rightarrow> jsnum \<Rightarrow> bool" where
  "js_lt (Fin a) (Fin b) = (a < b)"
| "js_lt (Fin a) PosInf = True"
| "js_lt NegInf (Fin b) = True"
| "js_lt NegInf PosInf = True"
| "js_lt _ _ = False"

fun js_eq :: "jsnum \<Rightarrow> jsnum \<Rightarrow> bool" where
  "js_eq NaN _ = False"
| "js_eq a b = (a = b)"

definition js_le :: "jsnum \<Rightarrow> jsnum \<Rightarrow> bool" where
  "js_le a b \<longleftrightarrow> js_lt a b \<or> js_eq a b"

fun js_isFinite :: "jsnum \<Rightarrow> bool" where
  "js_isFinite (Fin _) = True"
| "js_isFinite _ = False"

text \<open>\<open>Math.round\<close>: to the nearest integer, halves towards positive infinity.\<close>

fun js_round :: "jsnum \<Rightarrow> jsnum" where
  "js_round (Fin r) = Fin (of_int \<lfloor>r + 1 / 2\<rfloor>)"
| "js_round x = x"

lemma js_lt_irrefl [simp]: "\<not> js_lt a a"
  by (cases a) auto

lemma js_lt_trans: "js_lt a b \<Longrightarrow> js_lt b c \<Longrightarrow> js_lt a c"
  by (cases a; cases b; cases c) auto

lemma js_lt_asym: "js_lt a b \<Longrightarrow> \<not> js_lt b a"
  by (cases a; cases b) auto

lemma js_le_lt_trans: "js_le a b \<Longrightarrow> js_lt b c \<Longrightarrow> js_lt a c"
  unfolding js_le_def by (cases a; cases b; cases c) auto

lemma js_lt_le_trans: "js_lt a b \<Longrightarrow> js_le b c \<Longrightarrow> js_lt a c"
  unfolding js_le_def by (cases a; cases b; cases c) auto

lemma js_le_trans: "js_le a b \<Longrightarrow> js_le b c \<Longrightarrow> js_le a c"
  unfolding js_le_def by (cases a; cases b; cases c) auto

lemma js_le_refl: "a \<noteq> NaN \<Longrightarrow> js_le a a"
  unfolding js_le_def by (cases a) auto

lemma js_lt_not_le: "js_lt a b \<Longrightarrow> \<not> js_le b a"
  unfolding js_le_def by (cases a; cases b) auto

lemma js_total: "a \<noteq> NaN \<Longrightarrow> b \<noteq> NaN \<Longrightarrow> js_lt a b \<or> js_eq a b \<or> js_lt b a"
  by (cases a; cases b) auto

lemma js_le_not_NaN: "js_le a b \<Longrightarrow> a \<noteq> NaN \<and> b \<noteq> NaN"
  unfolding js_le_def by (cases a; cases b) auto

lemma js_not_lt: "a \<noteq> NaN \<Longrightarrow> b \<noteq> NaN \<Longrightarrow> \<not> js_lt a b \<longleftrightarrow> js_le b a"
  unfolding js_le_def by (cases a; cases b) auto

text \<open>The operator \<open>%\<close> on integers: the remainder has the sign of the dividend.\<close>

definition js_rem :: "int \<Rightarrow> int \<Rightarrow> int" where
  "js_rem a b = (if a < 0 then - ((- a) mod b) else a mod b)"

lemma js_rem_nonneg: "0 \<le> a \<Longrightarrow> js_rem a b = a mod b"
  by (simp add: js_rem_def)

section \<open>Arrays\<close>

text \<open>
  \<open>xs.slice(k)\<close>: a negative start counts from the end and is clamped to the array. A start of
  \<open>-0\<close> is \<open>0\<close> and returns the whole array.
\<close>

definition js_slice :: "int \<Rightarrow> 'a list \<Rightarrow> 'a list" where
  "js_slice k xs = (if k < 0 then drop (nat (int (length xs) + k)) xs else drop (nat k) xs)"

text \<open>The index of the last element that satisfies \<open>P\<close>, as \<open>findLastIndex\<close> returns it.\<close>

fun findLastIndex :: "('a \<Rightarrow> bool) \<Rightarrow> 'a list \<Rightarrow> nat option" where
  "findLastIndex P [] = None"
| "findLastIndex P (x # xs) =
     (case findLastIndex P xs of Some i \<Rightarrow> Some (Suc i) | None \<Rightarrow> if P x then Some 0 else None)"

lemma js_slice_neg:
  assumes "0 < n"
  shows "js_slice (- n) xs = drop (length xs - nat n) xs"
proof -
  have "nat (int (length xs) - n) = length xs - nat n"
    using assms by linarith
  with assms show ?thesis by (simp add: js_slice_def)
qed

lemma js_slice_zero [simp]: "js_slice 0 xs = xs"
  by (simp add: js_slice_def)

lemma length_js_slice_neg: "0 < n \<Longrightarrow> length (js_slice (- n) xs) = min (length xs) (nat n)"
  by (simp add: js_slice_neg)

lemma js_slice_short: "0 \<le> n \<Longrightarrow> int (length xs) \<le> n \<Longrightarrow> js_slice (- n) xs = xs"
  by (cases "n = 0") (simp_all add: js_slice_neg)

lemma findLastIndex_None: "findLastIndex P xs = None \<longleftrightarrow> (\<forall>x\<in>set xs. \<not> P x)"
  by (induction xs) (auto split: option.splits)

text \<open>
  Read backwards, the part after the last element satisfying \<open>P\<close> is the longest prefix without
  it: the form in which trailing runs are reasoned about.
\<close>

lemma findLastIndex_snoc:
  "findLastIndex P (xs @ [x]) = (if P x then Some (length xs) else findLastIndex P xs)"
  by (induction xs) (auto split: option.splits)

subsection \<open>Suffixes, runs and first matches\<close>

lemma take_takeWhile_le: "takeWhile P (take n xs) = take n (takeWhile P xs)"
  by (induction xs arbitrary: n) (auto simp: take_Cons split: nat.splits)

lemma length_takeWhile_ge:
  "n \<le> length (takeWhile P xs) \<longleftrightarrow> n \<le> length xs \<and> (\<forall>x\<in>set (take n xs). P x)"
proof (induction xs arbitrary: n)
  case (Cons x xs)
  then show ?case by (cases n) auto
qed simp

lemma js_slice_twice:
  assumes "0 < m" "m \<le> n"
  shows "js_slice (- m) (js_slice (- n) xs) = js_slice (- m) xs"
  using assms by (simp add: js_slice_neg) (rule arg_cong[where f = "\<lambda>k. drop k xs"], linarith)

lemma js_slice_append:
  assumes "0 < n"
  shows "js_slice (- n) (js_slice (- n) xs @ [x]) = js_slice (- n) (xs @ [x])"
proof (cases "length xs \<le> nat n")
  case True
  with assms show ?thesis by (simp add: js_slice_neg)
next
  case False
  with assms show ?thesis by (simp add: js_slice_neg Suc_diff_le)
qed

lemma foldl_js_slice_append:
  assumes "0 < n"
  shows "foldl (\<lambda>h x. js_slice (- n) (h @ [x])) [] xs = js_slice (- n) xs"
proof (induction xs rule: rev_induct)
  case Nil
  from assms show ?case by (simp add: js_slice_neg)
next
  case (snoc x xs)
  then show ?case using js_slice_append [OF assms] by simp
qed

lemma find_sorted_Some:
  assumes "sorted (map f xs)" "find P xs = Some x"
  shows "x \<in> set xs \<and> P x \<and> (\<forall>y\<in>set xs. P y \<longrightarrow> f x \<le> (f y :: int))"
  using assms by (induction xs) (auto split: if_splits)

lemma last_js_slice: "0 < n \<Longrightarrow> history \<noteq> [] \<Longrightarrow> last (js_slice (- n) history) = last history"
  by (simp add: js_slice_neg last_drop)

lemma js_slice_eq_Nil: "0 < n \<Longrightarrow> js_slice (- n) xs = [] \<longleftrightarrow> xs = []"
  using length_js_slice_neg [of n xs] by (auto simp flip: length_0_conv)

subsection \<open>Updates, folds and pairwise relations\<close>

lemma nth_update_if: "xs[k := v] ! j = (if j = k \<and> k < length xs then v else xs ! j)"
  by (auto simp: list_update_beyond)

lemma map_update_same: "f a = f (xs ! k) \<Longrightarrow> map f (xs[k := a]) = map f xs"
  by (cases "k < length xs") (simp_all add: map_update list_update_beyond list_update_same_conv)

lemma foldl_max_init: "m \<le> foldl (\<lambda>m item. max m (f item)) (m :: int) xs"
proof (induction xs arbitrary: m)
  case (Cons a xs)
  from Cons [of "max m (f a)"] show ?case by simp
qed simp

lemma foldl_max_elem: "x \<in> set xs \<Longrightarrow> f x \<le> foldl (\<lambda>m item. max m (f item)) (m :: int) xs"
proof (induction xs arbitrary: m)
  case (Cons a xs)
  then show ?case using foldl_max_init [of "max m (f a)" f xs] by auto
qed simp

lemma find_unique:
  assumes "distinct (map f xs)" "x \<in> set xs"
  shows "find (\<lambda>a. f a = f x) xs = Some x"
  using assms by (induction xs) (auto simp: image_iff)

lemma list_all2_set2_ex: "list_all2 P xs ys \<Longrightarrow> y \<in> set ys \<Longrightarrow> \<exists>x\<in>set xs. P x y"
  by (metis in_set_conv_nth list_all2_conv_all_nth)

section \<open>Insertion-ordered maps\<close>

type_synonym ('k, 'v) jsmap = "('k \<times> 'v) list"

abbreviation jsmap_get :: "('k, 'v) jsmap \<Rightarrow> 'k \<Rightarrow> 'v option" where
  "jsmap_get m \<equiv> map_of m"

abbreviation jsmap_set :: "'k \<Rightarrow> 'v \<Rightarrow> ('k, 'v) jsmap \<Rightarrow> ('k, 'v) jsmap" where
  "jsmap_set \<equiv> AList.update"

abbreviation jsmap_has :: "('k, 'v) jsmap \<Rightarrow> 'k \<Rightarrow> bool" where
  "jsmap_has m k \<equiv> map_of m k \<noteq> None"

abbreviation jsmap_delete :: "'k \<Rightarrow> ('k, 'v) jsmap \<Rightarrow> ('k, 'v) jsmap" where
  "jsmap_delete \<equiv> AList.delete"

subsection \<open>Lemmas on maps\<close>

lemma length_update: "length (AList.update k v m) = (if map_of m k = None then Suc (length m) else length m)"
  by (induction m) auto

lemma AList_update_set: "p \<in> set (AList.update k v m) \<Longrightarrow> p = (k, v) \<or> p \<in> set m"
  by (induction m) (auto split: if_splits)

lemma set_AList_update: "distinct (map fst m) \<Longrightarrow> set (AList.update k v m) = insert (k, v) {p \<in> set m. fst p \<noteq> k}"
  by (induction m) (auto simp: image_iff)

lemma map_of_butlast: "distinct (map fst l) \<Longrightarrow> map_of (butlast l) j = Some v \<Longrightarrow> map_of l j = Some v"
  by (metis distinct_butlast in_set_butlastD map_butlast map_of_SomeD map_of_is_SomeI)

lemma sum_update_new: "map_of m k = None \<Longrightarrow> sum_list (map (f \<circ> snd) (AList.update k v m)) = sum_list (map (f \<circ> snd) m) + (f v :: nat)"
  by (induction m) auto

lemma sum_update_old:
  "map_of m k = Some old \<Longrightarrow> sum_list (map (f \<circ> snd) (AList.update k v m)) + f old = sum_list (map (f \<circ> snd) m) + (f v :: nat)"
  by (induction m) auto

section \<open>Strings\<close>

text \<open>
  Strings are lists of 8-bit characters. \<open>js_space\<close> is the part of JavaScript's white space that lies
  in that range, as \<open>trim\<close> and \<open>\s\<close> use it.
\<close>

definition js_space :: "char \<Rightarrow> bool" where
  "js_space c \<longleftrightarrow> (of_char c :: nat) \<in> {9, 10, 11, 12, 13, 32, 160}"

definition js_trim :: "string \<Rightarrow> string" where
  "js_trim s = rev (dropWhile js_space (rev (dropWhile js_space s)))"

text \<open>\<open>s.split(d).join(r)\<close> for a non-empty separator: the occurrences from the left, without overlap.\<close>

function split_join :: "string \<Rightarrow> string \<Rightarrow> string \<Rightarrow> string" where
  "split_join d r s =
     (if s = [] then []
      else if d \<noteq> [] \<and> take (length d) s = d then r @ split_join d r (drop (length d) s)
      else hd s # split_join d r (tl s))"
  by pat_completeness auto
termination
  by (relation "measure (\<lambda>(d, r, s). length s)") auto

declare split_join.simps [simp del]

fun intersperse :: "'a \<Rightarrow> 'a list \<Rightarrow> 'a list" where
  "intersperse sep (x # y # zs) = x # sep # intersperse sep (y # zs)"
| "intersperse sep xs = xs"

definition js_split_join_space :: "string \<Rightarrow> string \<Rightarrow> string" where
  "js_split_join_space d s = (if d = [] then intersperse (CHR '' '') s else split_join d '' '' s)"

text \<open>\<open>s.split(/\s+/)\<close>: the pieces between runs of white space; leading or trailing space gives an empty piece.\<close>

function split_space :: "string \<Rightarrow> string \<Rightarrow> string list" where
  "split_space cur s =
     (case s of
        [] \<Rightarrow> [rev cur]
      | c # cs \<Rightarrow> if js_space c then rev cur # split_space [] (dropWhile js_space cs) else split_space (c # cur) cs)"
  by pat_completeness auto
termination
  by (relation "measure (\<lambda>(cur, s). length s)") (auto simp: less_Suc_eq_le length_dropWhile_le)

declare split_space.simps [simp del]

text \<open>\<open>String(n)\<close> for a natural number: its decimal digits.\<close>

fun js_String_nat :: "nat \<Rightarrow> string" where
  "js_String_nat n =
     (if n < 10 then [char_of (48 + n)] else js_String_nat (n div 10) @ [char_of (48 + n mod 10)])"

declare js_String_nat.simps [simp del]

lemma js_String_nat_ne [simp]: "js_String_nat n \<noteq> []" "[] \<noteq> js_String_nat n"
  by (subst js_String_nat.simps, simp)+

lemma digit_char_inj: "m < 10 \<Longrightarrow> n < 10 \<Longrightarrow> (char_of (48 + m :: nat) :: char) = char_of (48 + n) \<longleftrightarrow> m = n"
  by (auto simp: char_of_eq_iff take_bit_eq_mod)

lemma js_String_nat_inj: "js_String_nat m = js_String_nat n \<longleftrightarrow> m = n"
proof (induction m arbitrary: n rule: less_induct)
  case (less m)
  show ?case
  proof (cases "m < 10")
    case True
    show ?thesis
    proof (cases "n < 10")
      case True
      with \<open>m < 10\<close> show ?thesis by (subst (1 2) js_String_nat.simps) (simp add: digit_char_inj)
    next
      case False
      with \<open>m < 10\<close> show ?thesis by (subst (1 2) js_String_nat.simps) auto
    qed
  next
    case False
    show ?thesis
    proof (cases "n < 10")
      case True
      with False show ?thesis by (subst (1 2) js_String_nat.simps) auto
    next
      case big: False
      have "js_String_nat m = js_String_nat n \<longleftrightarrow> m div 10 = n div 10 \<and> m mod 10 = n mod 10"
        using False big less [of "m div 10" "n div 10"] digit_char_inj [of "m mod 10" "n mod 10"]
        by (subst (1 2) js_String_nat.simps) auto
      then show ?thesis by (metis div_mult_mod_eq)
    qed
  qed
qed

definition js_String_int :: "int \<Rightarrow> string" where
  "js_String_int i = (if i < 0 then ''-'' @ js_String_nat (nat (- i)) else js_String_nat (nat i))"

section \<open>JSON values\<close>

text \<open>A value of type \<open>unknown\<close> that came out of a JSON parser; the fields of an object are in order.\<close>

datatype json =
    JNull
  | JBool bool
  | JNum jsnum
  | JString string
  | JArray "json list"
  | JObject "(string \<times> json) list"

fun json_get :: "string \<Rightarrow> json \<Rightarrow> json option" where
  "json_get k (JObject fields) = map_of fields k"
| "json_get k _ = None"

end
