(* ===== verification/Alert_Tiers.thy ===== *)
theory Alert_Tiers
  imports Maple_Prelude
begin

text \<open>
  Severity tiers of an alert rule, after \<^verbatim>\<open>packages/alerting-core/src/tiers.ts\<close> and
  the severity ranks of \<^verbatim>\<open>packages/domain/src/http/alerts.ts\<close>: how one observed value
  is classified against a tier, how a tick is packed into two bits per tier, and how the recent
  ticks decide which severity an incident stands at. A tick is a 32-bit integer, because the code
  packs it with JavaScript's 32-bit operators.
\<close>

unbundle bit_operations_syntax

section \<open>Data\<close>

datatype AlertSeverity = Warning | Critical

datatype AlertTierStatus = TierClear | TierHold | TierBreach

datatype AlertComparator = gt | gte | lt | lte | eq | neq | between | not_between

record AlertThresholdTier =
  tier_severity :: AlertSeverity
  tier_value :: jsnum
  tier_upper :: "jsnum option"
  tier_recoveryValue :: "jsnum option"

record AlertTierLevel =
  level_severity :: AlertSeverity
  level_status :: AlertTierStatus

record TieredHysteresisPolicy =
  breachesToOpen :: int
  breachWindow :: int
  healthyToResolve :: int

type_synonym tick = "32 word"

fun ALERT_SEVERITY_RANK :: "AlertSeverity \<Rightarrow> int" where
  "ALERT_SEVERITY_RANK Warning = 1"
| "ALERT_SEVERITY_RANK Critical = 2"

section \<open>Classifying one value\<close>

fun compareAlertThreshold :: "jsnum \<Rightarrow> AlertComparator \<Rightarrow> jsnum \<Rightarrow> jsnum option \<Rightarrow> bool" where
  "compareAlertThreshold value gt threshold _ = js_lt threshold value"
| "compareAlertThreshold value gte threshold _ = js_le threshold value"
| "compareAlertThreshold value lt threshold _ = js_lt value threshold"
| "compareAlertThreshold value lte threshold _ = js_le value threshold"
| "compareAlertThreshold value eq threshold _ = js_eq value threshold"
| "compareAlertThreshold value neq threshold _ = (\<not> js_eq value threshold)"
| "compareAlertThreshold value between threshold thresholdUpper =
     (case thresholdUpper of None \<Rightarrow> False
      | Some upper \<Rightarrow> js_le threshold value \<and> js_le value upper)"
| "compareAlertThreshold value not_between threshold thresholdUpper =
     (case thresholdUpper of None \<Rightarrow> False
      | Some upper \<Rightarrow> js_lt value threshold \<or> js_lt upper value)"

definition classifyTier :: "jsnum \<Rightarrow> AlertComparator \<Rightarrow> AlertThresholdTier \<Rightarrow> AlertTierStatus" where
  "classifyTier value comparator tier =
     (if compareAlertThreshold value comparator (tier_value tier) (tier_upper tier) then TierBreach
      else case tier_recoveryValue tier of
        None \<Rightarrow> TierClear
      | Some recovery \<Rightarrow>
          if compareAlertThreshold value comparator recovery None then TierHold else TierClear)"

section \<open>Ticks: two bits per tier\<close>

fun STATUS_CODE :: "AlertTierStatus \<Rightarrow> tick" where
  "STATUS_CODE TierClear = 0"
| "STATUS_CODE TierHold = 1"
| "STATUS_CODE TierBreach = 2"

definition CODE_STATUS :: "AlertTierStatus list" where
  "CODE_STATUS = [TierClear, TierHold, TierBreach]"

definition shiftOf :: "AlertSeverity \<Rightarrow> nat" where
  "shiftOf severity = nat ((ALERT_SEVERITY_RANK severity - 1) * 2)"

definition encodeTick :: "AlertTierLevel list \<Rightarrow> tick" where
  "encodeTick levels =
     foldl (\<lambda>code level.
        code OR push_bit (shiftOf (level_severity level)) (STATUS_CODE (level_status level))) 0 levels"

definition tierStatusAt :: "tick \<Rightarrow> AlertSeverity \<Rightarrow> AlertTierStatus" where
  "tierStatusAt code severity =
     (let index = unat (signed_drop_bit (shiftOf severity) code AND 3)
      in if index < length CODE_STATUS then CODE_STATUS ! index else TierClear)"

section \<open>The tick history\<close>

definition historyLength :: "TieredHysteresisPolicy \<Rightarrow> int" where
  "historyLength policy = max (max (breachWindow policy) (breachesToOpen policy)) (healthyToResolve policy)"

definition appendTick :: "tick list \<Rightarrow> tick \<Rightarrow> TieredHysteresisPolicy \<Rightarrow> tick list" where
  "appendTick history code policy = js_slice (- historyLength policy) (history @ [code])"

definition trailingRun :: "tick list \<Rightarrow> (tick \<Rightarrow> bool) \<Rightarrow> int" where
  "trailingRun history matches =
     (case findLastIndex (\<lambda>code. \<not> matches code) history of
        None \<Rightarrow> int (length history)
      | Some index \<Rightarrow> int (length history) - 1 - int index)"

definition anyBreach :: "tick \<Rightarrow> bool" where
  "anyBreach code \<longleftrightarrow> tierStatusAt code Warning = TierBreach \<or> tierStatusAt code Critical = TierBreach"

definition allClear :: "tick \<Rightarrow> bool" where
  "allClear code \<longleftrightarrow> tierStatusAt code Warning = TierClear \<and> tierStatusAt code Critical = TierClear"

text \<open>
  The loop of \<open>resolveActiveSeverity\<close> over the severities, highest rank first: a tier stands if
  the newest tick and enough of the recent ones breach it, or if it was active and its trailing
  clear run is still too short.
\<close>

fun resolve_loop ::
  "tick list \<Rightarrow> tick \<Rightarrow> tick list \<Rightarrow> int \<Rightarrow> TieredHysteresisPolicy \<Rightarrow> AlertSeverity list \<Rightarrow> AlertSeverity option"
where
  "resolve_loop history newest recent currentRank policy [] = None"
| "resolve_loop history newest recent currentRank policy (severity # ordered) =
     (let breaches = int (length (filter (\<lambda>code. tierStatusAt code severity = TierBreach) recent)) in
      if tierStatusAt newest severity = TierBreach \<and> breaches \<ge> breachesToOpen policy
      then Some severity
      else if currentRank \<ge> ALERT_SEVERITY_RANK severity \<and>
              trailingRun history (\<lambda>code. tierStatusAt code severity = TierClear) < healthyToResolve policy
      then Some severity
      else resolve_loop history newest recent currentRank policy ordered)"

definition resolveActiveSeverity ::
  "tick list \<Rightarrow> AlertSeverity list \<Rightarrow> AlertSeverity option \<Rightarrow> TieredHysteresisPolicy \<Rightarrow> AlertSeverity option"
where
  "resolveActiveSeverity history severities current policy =
     (if history = [] then current
      else resolve_loop history (last history) (js_slice (- breachWindow policy) history)
             (case current of None \<Rightarrow> 0 | Some s \<Rightarrow> ALERT_SEVERITY_RANK s) policy
             (sort_key (\<lambda>s. - ALERT_SEVERITY_RANK s) severities))"

definition countersFromHistory :: "tick list \<Rightarrow> TieredHysteresisPolicy \<Rightarrow> int \<times> int" where
  "countersFromHistory history policy =
     (min (trailingRun history anyBreach) (breachesToOpen policy),
      min (trailingRun history allClear) (healthyToResolve policy))"

text \<open>The counters come as (consecutive breaches, consecutive healthy); \<open>Array.from\<close> reads a
  negative length as zero.\<close>

definition seedHistory :: "int \<times> int \<Rightarrow> AlertSeverity \<Rightarrow> TieredHysteresisPolicy \<Rightarrow> tick list" where
  "seedHistory counters severity policy =
     (let breach = encodeTick [\<lparr>level_severity = severity, level_status = TierBreach\<rparr>];
          ticks = replicate (nat (snd counters)) 0 @ replicate (nat (fst counters)) breach
      in js_slice (- historyLength policy) ticks)"

section \<open>Severities\<close>

text \<open>\<open>Arr.headNonEmpty\<close> of the sorted tiers; the tier list of a rule is never empty.\<close>

definition tierFor :: "AlertThresholdTier list \<Rightarrow> AlertSeverity \<Rightarrow> AlertThresholdTier option" where
  "tierFor tiers severity =
     (case find (\<lambda>tier. tier_severity tier = severity) tiers of
        Some tier \<Rightarrow> Some tier
      | None \<Rightarrow> (case sort_key (\<lambda>tier. ALERT_SEVERITY_RANK (tier_severity tier)) tiers of
                   [] \<Rightarrow> None | tier # _ \<Rightarrow> Some tier))"

definition nearestSeverity :: "AlertSeverity \<Rightarrow> AlertSeverity list \<Rightarrow> AlertSeverity" where
  "nearestSeverity severity severities =
     (if severity \<in> set severities then severity
      else case severities of [] \<Rightarrow> severity | s # _ \<Rightarrow> s)"

fun maxSeverity :: "AlertSeverity option \<Rightarrow> AlertSeverity option \<Rightarrow> AlertSeverity option" where
  "maxSeverity None b = b"
| "maxSeverity (Some a) None = Some a"
| "maxSeverity (Some a) (Some b) =
     (if ALERT_SEVERITY_RANK a \<ge> ALERT_SEVERITY_RANK b then Some a else Some b)"

definition highestBreachedLevel :: "AlertTierLevel list \<Rightarrow> AlertSeverity option" where
  "highestBreachedLevel levels =
     foldl (\<lambda>highest level. maxSeverity highest (Some (level_severity level))) None
       (filter (\<lambda>level. level_status level = TierBreach) levels)"

section \<open>Trailing runs\<close>

lemma trailingRun_takeWhile:
  "trailingRun history matches = int (length (takeWhile matches (rev history)))"
  unfolding trailingRun_def
  by (induction history rule: rev_induct) (auto simp: findLastIndex_snoc split: option.splits)

lemma trailingRun_suffix:
  "trailingRun (drop k history) matches = min (int (length history - k)) (trailingRun history matches)"
  by (simp add: trailingRun_takeWhile rev_drop take_takeWhile_le min_def)

lemma trailingRun_ge:
  assumes "0 < n"
  shows "n \<le> trailingRun history matches \<longleftrightarrow>
    n \<le> int (length history) \<and> (\<forall>code\<in>set (js_slice (- n) history). matches code)"
proof -
  have "n \<le> trailingRun history matches \<longleftrightarrow> nat n \<le> length (takeWhile matches (rev history))"
    by (simp add: trailingRun_takeWhile nat_le_iff)
  also have "\<dots> \<longleftrightarrow> nat n \<le> length history \<and> (\<forall>x\<in>set (take (nat n) (rev history)). matches x)"
    by (simp add: length_takeWhile_ge)
  also have "set (take (nat n) (rev history)) = set (js_slice (- n) history)"
    using assms by (simp add: js_slice_neg take_rev)
  finally show ?thesis by (simp add: nat_le_iff)
qed

lemma trailingRun_bounds: "0 \<le> trailingRun history matches" "trailingRun history matches \<le> int (length history)"
  by (simp_all add: trailingRun_takeWhile length_takeWhile_le le_trans[OF length_takeWhile_le])

section \<open>Packing and unpacking a tick\<close>

lemma distinct_severities_length:
  assumes "distinct (ss :: AlertSeverity list)"
  shows "length ss \<le> 2"
proof -
  have "card (set ss) \<le> card {Warning, Critical}"
    by (rule card_mono) (auto intro: AlertSeverity.exhaust)
  with assms show ?thesis by (simp add: distinct_card)
qed

definition level_at :: "AlertTierLevel list \<Rightarrow> AlertSeverity \<Rightarrow> AlertTierStatus" where
  "level_at levels severity =
     (case find (\<lambda>level. level_severity level = severity) levels of
        None \<Rightarrow> TierClear | Some level \<Rightarrow> level_status level)"

lemma encode_one:
  "tierStatusAt (encodeTick [l]) s = level_at [l] s"
  by (cases l; cases "level_severity l"; cases "level_status l"; cases s)
     (simp_all add: encodeTick_def tierStatusAt_def shiftOf_def CODE_STATUS_def level_at_def)

lemma encode_two:
  assumes "level_severity l \<noteq> level_severity m"
  shows "tierStatusAt (encodeTick [l, m]) s = level_at [l, m] s"
  using assms
  by (cases l; cases m; cases "level_severity l"; cases "level_status l"; cases "level_severity m"; cases "level_status m"; cases s)
     (simp_all add: encodeTick_def tierStatusAt_def shiftOf_def CODE_STATUS_def level_at_def)

lemma tierStatusAt_encodeTick:
  assumes "distinct (map level_severity levels)"
  shows "tierStatusAt (encodeTick levels) severity = level_at levels severity"
proof -
  from distinct_severities_length [OF assms] consider "levels = []"
    | l where "levels = [l]" | l m where "levels = [l, m]"
    by (cases levels; cases "tl levels") auto
  then show ?thesis
  proof cases
    case 1
    then show ?thesis
      by (cases severity) (simp_all add: encodeTick_def tierStatusAt_def level_at_def CODE_STATUS_def)
  next
    case 2
    then show ?thesis by (simp add: encode_one)
  next
    case 3
    with assms show ?thesis by (simp add: encode_two)
  qed
qed


section \<open>Which severity stands\<close>

text \<open>Policies the rule schema admits: at least one breach to open, a window that can hold them, at
  least one healthy tick to resolve.\<close>

definition policy_ok :: "TieredHysteresisPolicy \<Rightarrow> bool" where
  "policy_ok p \<longleftrightarrow> 1 \<le> breachesToOpen p \<and> breachesToOpen p \<le> breachWindow p \<and> 1 \<le> healthyToResolve p"

lemma historyLength_bounds:
  assumes "policy_ok p"
  shows "0 < historyLength p" "breachWindow p \<le> historyLength p"
    "breachesToOpen p \<le> historyLength p" "healthyToResolve p \<le> historyLength p"
  using assms by (auto simp: policy_ok_def historyLength_def)

text \<open>What a tier's standing means, stated on the ticks themselves.\<close>

definition current_rank :: "AlertSeverity option \<Rightarrow> int" where
  "current_rank current = (case current of None \<Rightarrow> 0 | Some s \<Rightarrow> ALERT_SEVERITY_RANK s)"

definition tier_stands ::
  "tick list \<Rightarrow> AlertSeverity option \<Rightarrow> TieredHysteresisPolicy \<Rightarrow> AlertSeverity \<Rightarrow> bool" where
  "tier_stands history current p s \<longleftrightarrow>
     (tierStatusAt (last history) s = TierBreach \<and>
      breachesToOpen p \<le> int (length (filter (\<lambda>c. tierStatusAt c s = TierBreach)
                               (js_slice (- breachWindow p) history)))) \<or>
     (ALERT_SEVERITY_RANK s \<le> current_rank current \<and>
      \<not> (healthyToResolve p \<le> int (length history) \<and>
         (\<forall>c\<in>set (js_slice (- healthyToResolve p) history). tierStatusAt c s = TierClear)))"

lemma tier_stands_trailing:
  assumes "0 < healthyToResolve p"
  shows "tier_stands history current p s \<longleftrightarrow>
      (tierStatusAt (last history) s = TierBreach \<and>
       breachesToOpen p \<le> int (length (filter (\<lambda>c. tierStatusAt c s = TierBreach)
                               (js_slice (- breachWindow p) history)))) \<or>
      (ALERT_SEVERITY_RANK s \<le> current_rank current \<and>
       trailingRun history (\<lambda>code. tierStatusAt code s = TierClear) < healthyToResolve p)"
  unfolding tier_stands_def using trailingRun_ge [OF assms] by (simp flip: not_le)

lemma resolve_loop_find:
  assumes "1 \<le> healthyToResolve p" "history \<noteq> []"
  shows "resolve_loop history (last history) (js_slice (- breachWindow p) history) (current_rank current) p ss
       = find (tier_stands history current p) ss"
  using assms(1) by (induction ss) (auto simp: Let_def tier_stands_trailing)

lemma resolveActiveSeverity_find:
  assumes "1 \<le> healthyToResolve p" "history \<noteq> []"
  shows "resolveActiveSeverity history severities current p =
    find (tier_stands history current p) (sort_key (\<lambda>s. - ALERT_SEVERITY_RANK s) severities)"
  using resolve_loop_find [OF assms] assms(2) by (simp add: resolveActiveSeverity_def current_rank_def)

lemma rank_inj: "ALERT_SEVERITY_RANK s = ALERT_SEVERITY_RANK t \<Longrightarrow> s = t"
  by (cases s; cases t) simp_all

lemma resolveActiveSeverity_Some:
  assumes "1 \<le> healthyToResolve p" "history \<noteq> []"
  shows "resolveActiveSeverity history severities current p = Some s \<longleftrightarrow>
    s \<in> set severities \<and> tier_stands history current p s \<and>
    (\<forall>t\<in>set severities. tier_stands history current p t \<longrightarrow> ALERT_SEVERITY_RANK t \<le> ALERT_SEVERITY_RANK s)"
    (is "?R = Some s \<longleftrightarrow> ?S")
proof
  let ?f = "\<lambda>s. - ALERT_SEVERITY_RANK s"
  have srt: "sorted (map ?f (sort_key ?f severities))" by simp
  note eq = resolveActiveSeverity_find [OF assms, of severities current]
  { assume "?R = Some s"
    with find_sorted_Some [OF srt] eq show ?S by (metis neg_le_iff_le set_sort) }
  { assume S: ?S
    then have "?R \<noteq> None" by (auto simp: eq find_None_iff)
    then obtain t where t: "?R = Some t" by blast
    with find_sorted_Some [OF srt] eq have "t \<in> set severities" "tier_stands history current p t"
      "ALERT_SEVERITY_RANK s \<le> ALERT_SEVERITY_RANK t"
      using S by (metis neg_le_iff_le set_sort)+
    with S have "t = s" by (meson order_antisym rank_inj)
    with t show "?R = Some s" by simp }
qed

lemma resolveActiveSeverity_None:
  assumes "1 \<le> healthyToResolve p" "history \<noteq> []"
  shows "resolveActiveSeverity history severities current p = None \<longleftrightarrow>
    (\<forall>s\<in>set severities. \<not> tier_stands history current p s)"
  by (auto simp: resolveActiveSeverity_find [OF assms] find_None_iff)

section \<open>Trimming and replaying histories\<close>

text \<open>Trimming the history loses nothing the policy reads.\<close>

lemma trailingRun_slice:
  assumes "0 < n" "r \<le> n"
  shows "min (trailingRun (js_slice (- n) history) m) r = min (trailingRun history m) r"
proof (cases "length history \<le> nat n")
  case True
  with assms show ?thesis by (simp add: js_slice_neg)
next
  case False
  with assms have "int (length history - (length history - nat n)) = n" by linarith
  with assms show ?thesis by (simp add: js_slice_neg trailingRun_suffix)
qed

lemma countersFromHistory_slice:
  assumes "policy_ok p"
  shows "countersFromHistory (js_slice (- historyLength p) history) p = countersFromHistory history p"
  using historyLength_bounds [OF assms] by (simp add: countersFromHistory_def trailingRun_slice)

lemma tier_stands_slice:
  assumes "policy_ok p" "history \<noteq> []"
  shows "tier_stands (js_slice (- historyLength p) history) current p s = tier_stands history current p s"
proof -
  have pos: "0 < breachWindow p" "0 < healthyToResolve p" using assms(1) by (auto simp: policy_ok_def)
  note b = historyLength_bounds [OF assms(1)]
  have "healthyToResolve p \<le> int (length (js_slice (- historyLength p) history)) \<longleftrightarrow>
        healthyToResolve p \<le> int (length history)"
    using b by (simp add: length_js_slice_neg) linarith
  then show ?thesis
    unfolding tier_stands_def using assms(2) b pos
    by (simp add: js_slice_twice last_js_slice)
qed

lemma resolveActiveSeverity_slice:
  assumes "policy_ok p"
  shows "resolveActiveSeverity (js_slice (- historyLength p) history) severities current p =
         resolveActiveSeverity history severities current p"
proof (cases "history = []")
  case True
  with assms show ?thesis by (simp add: historyLength_bounds js_slice_neg resolveActiveSeverity_def)
next
  case False
  have R: "1 \<le> healthyToResolve p" using assms by (simp add: policy_ok_def)
  have ne: "js_slice (- historyLength p) history \<noteq> []"
    using False historyLength_bounds [OF assms] by (simp add: js_slice_eq_Nil)
  show ?thesis
    unfolding resolveActiveSeverity_find [OF R False] resolveActiveSeverity_find [OF R ne]
    using tier_stands_slice [OF assms False] by (simp cong: find_cong)
qed

lemma foldl_appendTick:
  assumes "policy_ok p"
  shows "foldl (\<lambda>h c. appendTick h c p) [] codes = js_slice (- historyLength p) codes"
  unfolding appendTick_def using foldl_js_slice_append historyLength_bounds(1) [OF assms] by blast

lemma appendTick_steady:
  assumes "policy_ok p" "int n = historyLength p"
  shows "appendTick (replicate n code) code p = replicate n code"
proof -
  obtain m where "n = Suc m" "nat (historyLength p) = n"
    using assms historyLength_bounds(1) [OF assms(1)] by (cases n) auto
  then show ?thesis
    using historyLength_bounds(1) [OF assms(1)]
    by (simp add: appendTick_def js_slice_neg replicate_append_same)
qed

text \<open>Replaying a row written before histories existed.\<close>

lemma tick_breach_lane: "tierStatusAt (encodeTick [\<lparr>level_severity = sev, level_status = TierBreach\<rparr>]) s =
   (if s = sev then TierBreach else TierClear)"
  by (simp add: encode_one level_at_def)

lemma tierStatusAt_zero [simp]: "tierStatusAt 0 s = TierClear"
  by (simp add: tierStatusAt_def CODE_STATUS_def)


section \<open>Properties\<close>

lemma foldl_maxSeverity_Some:
  "\<exists>t. foldl (\<lambda>h l. maxSeverity h (Some (level_severity l))) (Some s) ls = Some t"
  by (induction ls arbitrary: s) simp_all

lemma highestBreachedLevel_None:
  "highestBreachedLevel levels = None \<longleftrightarrow> (\<forall>level\<in>set levels. level_status level \<noteq> TierBreach)"
proof (cases "filter (\<lambda>level. level_status level = TierBreach) levels")
  case Nil
  then show ?thesis by (simp add: highestBreachedLevel_def filter_empty_conv)
next
  case (Cons l ls)
  then have "l \<in> set levels" "level_status l = TierBreach"
    by (auto simp: filter_eq_Cons_iff)
  with Cons foldl_maxSeverity_Some [of "level_severity l" ls] show ?thesis
    by (auto simp: highestBreachedLevel_def)
qed

lemma level_at_breach:
  assumes "distinct (map level_severity levels)"
  shows "(\<exists>s. level_at levels s = TierBreach) \<longleftrightarrow> (\<exists>level\<in>set levels. level_status level = TierBreach)"
proof -
  have "level_at levels (level_severity l) = level_status l" if "l \<in> set levels" for l
    using that assms unfolding level_at_def
    by (induction levels) (auto split: option.splits)
  moreover have "level_at levels s = TierBreach \<Longrightarrow> \<exists>level\<in>set levels. level_status level = TierBreach" for s
    unfolding level_at_def by (auto split: option.splits simp: find_Some_iff)
  ultimately show ?thesis by metis
qed

text \<open>
  Packing the verdicts of a tick into two bits per tier loses nothing: with at most one level
  per severity, unpacking the code gives each tier's status (clear for a tier that is absent), and
  the audit trail's highest breached level is null exactly when no tier of the packed code breaches.
\<close>

theorem tick_codec:
  assumes "distinct (map level_severity levels)"
  shows "(\<forall>severity. tierStatusAt (encodeTick levels) severity = level_at levels severity) \<and>
    (anyBreach (encodeTick levels) \<longleftrightarrow> highestBreachedLevel levels \<noteq> None)"
proof -
  have "anyBreach (encodeTick levels) \<longleftrightarrow> (\<exists>s. level_at levels s = TierBreach)"
    unfolding anyBreach_def tierStatusAt_encodeTick [OF assms] by (metis AlertSeverity.exhaust)
  then show ?thesis
    by (simp add: tierStatusAt_encodeTick [OF assms] level_at_breach [OF assms] highestBreachedLevel_None)
qed

theorem tick_codec_witness:
  "tierStatusAt (encodeTick [\<lparr>level_severity = Warning, level_status = TierHold\<rparr>,
     \<lparr>level_severity = Critical, level_status = TierBreach\<rparr>]) Critical = TierBreach"
  using tick_codec [of "[\<lparr>level_severity = Warning, level_status = TierHold\<rparr>,
     \<lparr>level_severity = Critical, level_status = TierBreach\<rparr>]"]
  by (simp add: level_at_def)

text \<open>
  C23. After a non-empty history, the resolved severity is the highest of the rule's severities that
  stands: one the newest tick and at least \<open>N\<close> of the last \<open>M\<close> ticks breach, or one that was active
  and has not had its last \<open>R\<close> ticks clear. It is null exactly when none stands.
\<close>

theorem resolveActiveSeverity_correct:
  assumes "1 \<le> healthyToResolve p" "history \<noteq> []"
  shows "(resolveActiveSeverity history severities current p = Some s \<longleftrightarrow>
      s \<in> set severities \<and> tier_stands history current p s \<and>
      (\<forall>t\<in>set severities. tier_stands history current p t \<longrightarrow>
         ALERT_SEVERITY_RANK t \<le> ALERT_SEVERITY_RANK s)) \<and>
    (resolveActiveSeverity history severities current p = None \<longleftrightarrow>
      (\<forall>s\<in>set severities. \<not> tier_stands history current p s))"
  using resolveActiveSeverity_Some [OF assms] resolveActiveSeverity_None [OF assms] by blast

theorem resolveActiveSeverity_correct_witness:
  "tier_stands [0, 2, 10] None \<lparr>breachesToOpen = 1, breachWindow = 3, healthyToResolve = 2\<rparr> Critical"
proof -
  let ?p = "\<lparr>breachesToOpen = 1, breachWindow = 3, healthyToResolve = 2\<rparr>"
  have r: "resolveActiveSeverity [0, 2, 10] [Warning, Critical] None ?p = Some Critical" by code_simp
  have "(1::int) \<le> healthyToResolve ?p" "[0, 2, 10 :: tick] \<noteq> []" by simp_all
  from resolveActiveSeverity_correct [OF this, of "[Warning, Critical]" None Critical] r
  show ?thesis by blast
qed

text \<open>
  C24. The scheduler keeps only the last ticks a policy can read, and nothing is lost by it: after any
  sequence of ticks the kept history has at most \<open>historyLength\<close> entries and yields the same
  severity and the same counters as the whole sequence.
\<close>

theorem appendTick_lossless:
  assumes "policy_ok p"
  shows "let kept = foldl (\<lambda>h c. appendTick h c p) [] codes in
     int (length kept) \<le> historyLength p \<and>
     resolveActiveSeverity kept severities current p = resolveActiveSeverity codes severities current p \<and>
     countersFromHistory kept p = countersFromHistory codes p"
  using assms historyLength_bounds(1) [OF assms]
  by (simp add: foldl_appendTick resolveActiveSeverity_slice countersFromHistory_slice length_js_slice_neg)

theorem appendTick_lossless_witness:
  "resolveActiveSeverity (foldl (\<lambda>h c. appendTick h c \<lparr>breachesToOpen = 1, breachWindow = 2, healthyToResolve = 1\<rparr>) [] [8, 0, 2])
     [Warning, Critical] None \<lparr>breachesToOpen = 1, breachWindow = 2, healthyToResolve = 1\<rparr> = Some Warning"
proof -
  let ?p = "\<lparr>breachesToOpen = 1, breachWindow = 2, healthyToResolve = 1\<rparr>"
  have ok: "policy_ok ?p" by (simp add: policy_ok_def)
  have "resolveActiveSeverity [8, 0, 2] [Warning, Critical] None ?p = Some Warning" by code_simp
  with appendTick_lossless [OF ok, of "[8, 0, 2]" "[Warning, Critical]" None] show ?thesis
    by (simp add: Let_def)
qed

text \<open>
  A state row written before histories existed replays exactly: when its counters are within the
  policy and at most one of them is non-zero, the counters of the seeded history are the row's.
\<close>

theorem seedHistory_replays:
  assumes "policy_ok p" "0 \<le> b" "b \<le> breachesToOpen p" "0 \<le> h" "h \<le> healthyToResolve p" "b = 0 \<or> h = 0"
  shows "countersFromHistory (seedHistory (b, h) severity p) p = (b, h)"
proof -
  let ?br = "encodeTick [\<lparr>level_severity = severity, level_status = TierBreach\<rparr>]"
  have any: "anyBreach ?br" "\<not> allClear ?br" "\<not> anyBreach 0" "allClear 0"
    by (cases severity; simp add: anyBreach_def allClear_def tick_breach_lane)+
  have "seedHistory (b, h) severity p = js_slice (- historyLength p) (replicate (nat h) 0 @ replicate (nat b) ?br)"
    by (simp add: seedHistory_def Let_def)
  then have "countersFromHistory (seedHistory (b, h) severity p) p =
     countersFromHistory (replicate (nat h) 0 @ replicate (nat b) ?br) p"
    by (simp add: countersFromHistory_slice assms(1))
  also have "\<dots> = (b, h)"
    using assms any by (auto simp: countersFromHistory_def trailingRun_takeWhile takeWhile_replicate)
  finally show ?thesis .
qed

theorem seedHistory_replays_witness:
  "countersFromHistory (seedHistory (2, 0) Critical \<lparr>breachesToOpen = 3, breachWindow = 5, healthyToResolve = 2\<rparr>)
     \<lparr>breachesToOpen = 3, breachWindow = 5, healthyToResolve = 2\<rparr> = (2, 0)"
  by (rule seedHistory_replays) (simp_all add: policy_ok_def)

text \<open>
  A \<open>gt\<close> tier with a recovery value at or below its trigger has three disjoint ranges: above the
  trigger it breaches, between the two it holds (the dead band, neither breaching nor recovered), and
  at or below the recovery value it is clear.
\<close>

theorem classifyTier_gt_deadband:
  assumes "tier_recoveryValue tier = Some r" "js_le r (tier_value tier)" "value \<noteq> NaN"
  shows "(classifyTier value gt tier = TierBreach \<longleftrightarrow> js_lt (tier_value tier) value) \<and>
     (classifyTier value gt tier = TierHold \<longleftrightarrow> js_lt r value \<and> js_le value (tier_value tier)) \<and>
     (classifyTier value gt tier = TierClear \<longleftrightarrow> js_le value r)"
proof -
  have fin: "r \<noteq> NaN" "tier_value tier \<noteq> NaN"
    using js_le_not_NaN [OF assms(2)] by simp_all
  have "js_lt (tier_value tier) value \<Longrightarrow> js_lt r value"
    using assms(2) by (rule js_le_lt_trans)
  then show ?thesis
    using assms(1) js_not_lt [OF fin(1) assms(3)] js_not_lt [OF fin(2) assms(3)]
    unfolding classifyTier_def by (auto split: if_splits)
qed

theorem classifyTier_gt_deadband_witness:
  "classifyTier (Fin 85) gt \<lparr>tier_severity = Critical, tier_value = Fin 90, tier_upper = None,
     tier_recoveryValue = Some (Fin 80)\<rparr> = TierHold"
  using classifyTier_gt_deadband [of "\<lparr>tier_severity = Critical, tier_value = Fin 90, tier_upper = None,
     tier_recoveryValue = Some (Fin 80)\<rparr>" "Fin 80" "Fin 85"]
  by (simp add: js_le_def)

end
