(* ===== verification/Alert_Hysteresis.thy ===== *)
theory Alert_Hysteresis
  imports Alert_Tiers
begin

text \<open>
  The breach and recovery counters of \<^verbatim>\<open>packages/alerting-core/src/hysteresis.ts\<close>:
  the state machine \<open>IncidentHysteresis\<close> (one handler per state and event), the rebuilding of a
  snapshot from a persisted row, and \<open>foldObservation\<close>, which folds one evaluated window into the
  row. The planner \<open>Machine.plan\<close> and the snapshot decoder belong to the package
  \<^verbatim>\<open>@typeonce/effect-machine\<close>; they are parameters of \<open>foldObservation\<close>, and the
  locale \<open>machine_library\<close> states what the code relies on: planning one event runs the handler of
  the active state, and decoding returns the encoded active state.
\<close>

section \<open>Data\<close>

record HysteresisConfig =
  cfg_breachesToOpen :: int
  cfg_healthyToResolve :: int
  cfg_cooldownMs :: int

datatype HysteresisState =
    Clear (clear_consecutiveHealthy: int) (clear_cooldownUntilMs: "int option")
  | Breaching (breaching_consecutiveBreaches: int) (breaching_cooldownUntilMs: "int option")
  | Open (open_consecutiveBreaches: int) (open_consecutiveHealthy: int)

datatype HysteresisEvent =
    Breached int HysteresisConfig
  | Recovered int HysteresisConfig
  | Skipped

datatype HysteresisEmit = IncidentOpened int | IncidentResolved int

record HysteresisRow =
  row_consecutiveBreaches :: int
  row_consecutiveHealthy :: int
  row_incidentOpen :: bool
  row_lastResolvedAtMs :: "int option"

datatype HysteresisTransition = h_open | h_continue | h_resolve | h_noop

record HysteresisOutcome =
  out_transition :: HysteresisTransition
  out_consecutiveBreaches :: int
  out_consecutiveHealthy :: int

datatype EvaluationStatus = breached | healthy | skipped

section \<open>The machine\<close>

definition cooling :: "int option \<Rightarrow> int \<Rightarrow> bool" where
  "cooling untilMs nowMs = (case untilMs of None \<Rightarrow> False | Some u \<Rightarrow> nowMs < u)"

definition carryCooldown :: "int option \<Rightarrow> int \<Rightarrow> int option" where
  "carryCooldown untilMs nowMs = (if cooling untilMs nowMs then untilMs else None)"

text \<open>The \<open>breach\<close> branch that \<open>Clear\<close> and \<open>Breaching\<close> share, with the new breach count.\<close>

definition breach_branch ::
  "int \<Rightarrow> int option \<Rightarrow> int \<Rightarrow> HysteresisConfig \<Rightarrow> HysteresisState \<times> HysteresisEmit list" where
  "breach_branch consecutiveBreaches cooldownUntilMs nowMs config =
     (if consecutiveBreaches \<ge> cfg_breachesToOpen config \<and> \<not> cooling cooldownUntilMs nowMs
      then (Open consecutiveBreaches 0, [IncidentOpened nowMs])
      else (Breaching consecutiveBreaches (carryCooldown cooldownUntilMs nowMs), []))"

fun IncidentHysteresis :: "HysteresisState \<Rightarrow> HysteresisEvent \<Rightarrow> HysteresisState \<times> HysteresisEmit list" where
  "IncidentHysteresis (Clear h c) (Breached now config) =
     breach_branch (min 1 (cfg_breachesToOpen config)) c now config"
| "IncidentHysteresis (Clear h c) (Recovered now config) =
     (Clear (min (h + 1) (cfg_healthyToResolve config)) (carryCooldown c now), [])"
| "IncidentHysteresis (Breaching b c) (Breached now config) =
     breach_branch (min (b + 1) (cfg_breachesToOpen config)) c now config"
| "IncidentHysteresis (Breaching b c) (Recovered now config) =
     (Clear (min 1 (cfg_healthyToResolve config)) (carryCooldown c now), [])"
| "IncidentHysteresis (Open b h) (Breached now config) =
     (Open (min (b + 1) (cfg_breachesToOpen config)) 0, [])"
| "IncidentHysteresis (Open b h) (Recovered now config) =
     (let consecutiveHealthy = min (h + 1) (cfg_healthyToResolve config) in
      if consecutiveHealthy < cfg_healthyToResolve config
      then (Open 0 consecutiveHealthy, [])
      else (Clear consecutiveHealthy
              (if cfg_cooldownMs config > 0 then Some (now + cfg_cooldownMs config) else None),
            [IncidentResolved now]))"
| "IncidentHysteresis s Skipped = (s, [])"

definition initial_snapshot :: HysteresisState where
  "initial_snapshot = Clear 0 None"

section \<open>One tick over a persisted row\<close>

text \<open>The encoded snapshot \<open>snapshotFrom\<close> hands to the decoder: its active child.\<close>

definition encodedSnapshot :: "HysteresisRow \<Rightarrow> HysteresisConfig \<Rightarrow> HysteresisState" where
  "encodedSnapshot row config =
     (let cooldownUntilMs =
        (case row_lastResolvedAtMs row of
           None \<Rightarrow> None
         | Some t \<Rightarrow> if cfg_cooldownMs config > 0 then Some (t + cfg_cooldownMs config) else None)
      in if row_incidentOpen row
         then Open (row_consecutiveBreaches row) (row_consecutiveHealthy row)
         else if row_consecutiveBreaches row > 0
         then Breaching (row_consecutiveBreaches row) cooldownUntilMs
         else Clear (row_consecutiveHealthy row) cooldownUntilMs)"

definition snapshotFrom ::
  "(HysteresisState \<Rightarrow> HysteresisState option) \<Rightarrow> HysteresisRow \<Rightarrow> HysteresisConfig \<Rightarrow> HysteresisState option"
where
  "snapshotFrom decodeSnapshot row config = decodeSnapshot (encodedSnapshot row config)"

fun countersOf :: "HysteresisState \<Rightarrow> int \<times> int" where
  "countersOf (Clear h c) = (0, h)"
| "countersOf (Breaching b c) = (b, 0)"
| "countersOf (Open b h) = (b, h)"

fun eventOf :: "EvaluationStatus \<Rightarrow> HysteresisConfig \<Rightarrow> int \<Rightarrow> HysteresisEvent" where
  "eventOf skipped config nowMs = Skipped"
| "eventOf breached config nowMs = Breached nowMs config"
| "eventOf healthy config nowMs = Recovered nowMs config"

fun isOpened :: "HysteresisEmit \<Rightarrow> bool" where
  "isOpened (IncidentOpened t) = True"
| "isOpened (IncidentResolved t) = False"

text \<open>A failure of the planner or of the decoder dies: the outcome is \<open>None\<close>.\<close>

definition foldObservation ::
  "(HysteresisState \<Rightarrow> HysteresisState option) \<Rightarrow>
   (HysteresisState \<Rightarrow> HysteresisEvent \<Rightarrow> (HysteresisState \<times> HysteresisEmit list) option) \<Rightarrow>
   HysteresisRow \<Rightarrow> EvaluationStatus \<Rightarrow> HysteresisConfig \<Rightarrow> int \<Rightarrow> HysteresisOutcome option"
where
  "foldObservation decodeSnapshot plan row status config nowMs =
     (case snapshotFrom decodeSnapshot row config of
        None \<Rightarrow> None
      | Some snapshot \<Rightarrow>
          (case plan snapshot (eventOf status config nowMs) of
             None \<Rightarrow> None
           | Some (nxt, emitted) \<Rightarrow>
               let counters = countersOf nxt;
                   transition =
                     (if list_ex isOpened emitted then h_open
                      else if list_ex (\<lambda>e. \<not> isOpened e) emitted then h_resolve
                      else if row_incidentOpen row \<and> status = breached then h_continue
                      else h_noop)
               in Some \<lparr>out_transition = transition, out_consecutiveBreaches = fst counters,
                        out_consecutiveHealthy = snd counters\<rparr>))"

section \<open>What the machine library promises\<close>

locale machine_library =
  fixes decodeSnapshot :: "HysteresisState \<Rightarrow> HysteresisState option"
    and plan :: "HysteresisState \<Rightarrow> HysteresisEvent \<Rightarrow> (HysteresisState \<times> HysteresisEmit list) option"
  assumes decode_active: "decodeSnapshot s = Some s"
    and plan_handler: "plan s e = Some (IncidentHysteresis s e)"
begin

lemma foldObservation_handler:
  "foldObservation decodeSnapshot plan row status config nowMs =
     (let (nxt, emitted) = IncidentHysteresis (encodedSnapshot row config) (eventOf status config nowMs)
      in Some \<lparr>out_transition =
                 (if list_ex isOpened emitted then h_open
                  else if list_ex (\<lambda>e. \<not> isOpened e) emitted then h_resolve
                  else if row_incidentOpen row \<and> status = breached then h_continue
                  else h_noop),
               out_consecutiveBreaches = fst (countersOf nxt),
               out_consecutiveHealthy = snd (countersOf nxt)\<rparr>)"
  by (simp add: foldObservation_def snapshotFrom_def decode_active plan_handler Let_def split: prod.split)

lemma foldObservation_total: "\<exists>out. foldObservation decodeSnapshot plan row status config nowMs = Some out"
  by (simp add: foldObservation_handler split: prod.split)

lemma foldObservation_skipped:
  "foldObservation decodeSnapshot plan row skipped config nowMs =
     Some \<lparr>out_transition = h_noop,
           out_consecutiveBreaches = fst (countersOf (encodedSnapshot row config)),
           out_consecutiveHealthy = snd (countersOf (encodedSnapshot row config))\<rparr>"
  by (simp add: foldObservation_handler)

end

interpretation handler_table: machine_library Some "\<lambda>s e. Some (IncidentHysteresis s e)"
  by unfold_locales simp_all

section \<open>Reachable states and their emitted events\<close>

text \<open>
  All runs of the machine under one configuration, over evaluations at non-decreasing times; the
  emitted events are kept newest first.
\<close>

inductive machine_reach :: "HysteresisConfig \<Rightarrow> int \<Rightarrow> HysteresisState \<Rightarrow> HysteresisEmit list \<Rightarrow> bool" for config where
  start: "machine_reach config now initial_snapshot []"
| step: "machine_reach config now s es \<Longrightarrow> now \<le> now' \<Longrightarrow>
         IncidentHysteresis s (eventOf status config now') = (s', out) \<Longrightarrow>
         machine_reach config now' s' (out @ es)"

definition config_ok :: "HysteresisConfig \<Rightarrow> bool" where
  "config_ok config \<longleftrightarrow> 1 \<le> cfg_breachesToOpen config \<and> 1 \<le> cfg_healthyToResolve config"

text \<open>Counters stay within their saturation bounds, and a healthy run that suffices to resolve never
  stands in an open incident.\<close>

fun counters_inv :: "HysteresisConfig \<Rightarrow> HysteresisState \<Rightarrow> bool" where
  "counters_inv config (Clear h c) = (0 \<le> h \<and> h \<le> cfg_healthyToResolve config)"
| "counters_inv config (Breaching b c) = (1 \<le> b \<and> b \<le> cfg_breachesToOpen config)"
| "counters_inv config (Open b h) =
     (0 \<le> b \<and> b \<le> cfg_breachesToOpen config \<and> 0 \<le> h \<and> h < cfg_healthyToResolve config \<and> (b = 0 \<or> h = 0))"

lemma counters_inv_step:
  assumes "config_ok config" "counters_inv config s"
    and "IncidentHysteresis s (eventOf status config now) = (s', out)"
  shows "counters_inv config s'"
  using assms
  by (cases s; cases status) (auto simp: config_ok_def breach_branch_def Let_def split: if_splits)

text \<open>Incidents open and resolve in turn, and re-open no earlier than the cooldown allows.\<close>

fun trace_inv :: "int \<Rightarrow> HysteresisEmit list \<Rightarrow> bool" where
  "trace_inv d [] = True"
| "trace_inv d [IncidentOpened t] = True"
| "trace_inv d (IncidentOpened t # IncidentResolved u # es) =
     (u + max 0 d \<le> t \<and> trace_inv d (IncidentResolved u # es))"
| "trace_inv d (IncidentResolved t # IncidentOpened u # es) = (u \<le> t \<and> trace_inv d (IncidentOpened u # es))"
| "trace_inv d _ = False"

text \<open>How the last emitted event shows in the state at time \<open>now\<close>.\<close>

fun quiet_inv :: "int \<Rightarrow> int \<Rightarrow> int option \<Rightarrow> HysteresisEmit list \<Rightarrow> bool" where
  "quiet_inv d now c [] = (c = None)"
| "quiet_inv d now c (IncidentResolved u # es) =
     (u \<le> now \<and> (if 0 < d then c = Some (u + d) \<or> c = None \<and> u + d \<le> now else c = None))"
| "quiet_inv d now c (IncidentOpened u # es) = False"

fun emit_inv :: "int \<Rightarrow> int \<Rightarrow> HysteresisState \<Rightarrow> HysteresisEmit list \<Rightarrow> bool" where
  "emit_inv d now (Open b h) es = (case es of IncidentOpened t # _ \<Rightarrow> t \<le> now | _ \<Rightarrow> False)"
| "emit_inv d now (Clear h c) es = quiet_inv d now c es"
| "emit_inv d now (Breaching b c) es = quiet_inv d now c es"

lemma quiet_inv_carry:
  assumes "quiet_inv d now c es" "now \<le> now'"
  shows "quiet_inv d now' (carryCooldown c now') es"
  using assms
  by (cases "(d, now, c, es)" rule: quiet_inv.cases)
     (auto simp: carryCooldown_def cooling_def split: if_splits)

lemma quiet_inv_open:
  assumes "quiet_inv d now c es" "now \<le> now'" "\<not> cooling c now'" "trace_inv d es"
  shows "trace_inv d (IncidentOpened now' # es)"
  using assms
  by (cases "(d, now, c, es)" rule: quiet_inv.cases) (auto simp: cooling_def split: if_splits)

lemma emit_inv_breach_branch:
  assumes "quiet_inv (cfg_cooldownMs config) now c es" "now \<le> now'" "trace_inv (cfg_cooldownMs config) es"
    and "breach_branch b c now' config = (s', out)"
  shows "emit_inv (cfg_cooldownMs config) now' s' (out @ es) \<and> trace_inv (cfg_cooldownMs config) (out @ es)"
  using assms quiet_inv_carry [OF assms(1,2)] quiet_inv_open [OF assms(1,2)]
  by (auto simp: breach_branch_def split: if_splits)

lemma quiet_inv_mono: "quiet_inv d now c es \<Longrightarrow> now \<le> now' \<Longrightarrow> quiet_inv d now' c es"
  by (cases "(d, now, c, es)" rule: quiet_inv.cases) (auto split: if_splits)

lemma emit_inv_mono: "emit_inv d now s es \<Longrightarrow> now \<le> now' \<Longrightarrow> emit_inv d now' s es"
  by (cases s) (auto simp: quiet_inv_mono split: list.splits HysteresisEmit.splits)

lemma emit_inv_open:
  assumes "emit_inv (cfg_cooldownMs config) now (Open b h) es" "trace_inv (cfg_cooldownMs config) es" "now \<le> now'"
    and "IncidentHysteresis (Open b h) (Recovered now' config) = (s', out)"
  shows "emit_inv (cfg_cooldownMs config) now' s' (out @ es) \<and> trace_inv (cfg_cooldownMs config) (out @ es)"
  using assms by (auto simp: Let_def split: if_splits list.splits HysteresisEmit.splits)

lemma emit_inv_step:
  assumes inv: "emit_inv (cfg_cooldownMs config) now s es" "trace_inv (cfg_cooldownMs config) es"
    and le: "now \<le> now'"
    and st: "IncidentHysteresis s (eventOf status config now') = (s', out)"
  shows "emit_inv (cfg_cooldownMs config) now' s' (out @ es) \<and> trace_inv (cfg_cooldownMs config) (out @ es)"
proof (cases status)
  case breached
  show ?thesis
  proof (cases s)
    case (Open b h)
    with breached st inv le show ?thesis by (auto split: list.splits HysteresisEmit.splits)
  qed (use breached st inv le emit_inv_breach_branch in auto)
next
  case healthy
  show ?thesis
  proof (cases s)
    case (Open b h)
    with healthy st inv le show ?thesis by (intro emit_inv_open) auto
  qed (use healthy st inv le quiet_inv_carry in auto)
next
  case skipped
  with st inv emit_inv_mono [OF inv(1) le] show ?thesis by simp
qed

lemma machine_reach_inv:
  assumes "machine_reach config now s es" "config_ok config"
  shows "counters_inv config s \<and> emit_inv (cfg_cooldownMs config) now s es \<and> trace_inv (cfg_cooldownMs config) es"
  using assms
proof (induction rule: machine_reach.induct)
  case (start now)
  then show ?case by (simp add: initial_snapshot_def config_ok_def)
next
  case (step now s es now' status s' out)
  from step.IH [OF step.prems] have "counters_inv config s" "emit_inv (cfg_cooldownMs config) now s es"
    "trace_inv (cfg_cooldownMs config) es" by simp_all
  with step.hyps step.prems show ?case
    by (simp add: counters_inv_step emit_inv_step)
qed

definition run_events :: "HysteresisState \<Rightarrow> HysteresisEvent list \<Rightarrow> HysteresisState" where
  "run_events s evs = foldl (\<lambda>s e. fst (IncidentHysteresis s e)) s evs"

lemma run_events_simps [simp]:
  "run_events s [] = s"
  "run_events s (e # es) = run_events (fst (IncidentHysteresis s e)) es"
  by (simp_all add: run_events_def)

lemma breaches_keep_open: "\<exists>b' h'. run_events (Open b h) (map (\<lambda>t. Breached t config) ts) = Open b' h'"
  by (induction ts arbitrary: b h) auto

lemma breaching_opens:
  assumes "cfg_breachesToOpen config - b \<le> int (length ts)" "ts \<noteq> []"
  shows "is_Open (run_events (Breaching b None) (map (\<lambda>t. Breached t config) ts))"
  using assms
proof (induction ts arbitrary: b)
  case (Cons t ts)
  then show ?case
    using breaches_keep_open [of "min (b + 1) (cfg_breachesToOpen config)" 0 config ts]
    by (cases "ts = []")
       (auto simp: breach_branch_def cooling_def carryCooldown_def)
qed simp

lemma enough_breaches_open:
  assumes "config_ok config" "cfg_breachesToOpen config \<le> int (length ts)" "counters_inv config s"
    and "case s of Clear h c \<Rightarrow> c = None | Breaching b c \<Rightarrow> c = None | Open b h \<Rightarrow> True"
  shows "is_Open (run_events s (map (\<lambda>t. Breached t config) ts))"
proof -
  have ne: "ts \<noteq> []" using assms(1,2) by (auto simp: config_ok_def)
  show ?thesis
  proof (cases s)
    case (Open b h)
    then show ?thesis using breaches_keep_open [of b h config ts] by auto
  next
    case (Breaching b c)
    with assms ne show ?thesis by (auto intro!: breaching_opens)
  next
    case (Clear h c)
    with assms ne have "run_events s (map (\<lambda>t. Breached t config) ts) =
       run_events (Breaching 0 None) (map (\<lambda>t. Breached t config) ts)"
      by (cases ts) (auto simp: config_ok_def min_absorb1)
    then show ?thesis using assms ne by (simp add: breaching_opens)
  qed
qed

lemma clear_stays: "is_Clear (run_events (Clear h c) (map (\<lambda>t. Recovered t config) ts))"
  by (induction ts arbitrary: h c) auto

lemma open_resolves:
  assumes "cfg_healthyToResolve config - h \<le> int (length ts)" "ts \<noteq> []"
  shows "is_Clear (run_events (Open b h) (map (\<lambda>t. Recovered t config) ts))"
  using assms
proof (induction ts arbitrary: b h)
  case (Cons t ts)
  show ?case
  proof (cases "min (h + 1) (cfg_healthyToResolve config) < cfg_healthyToResolve config")
    case True
    with Cons.prems have "ts \<noteq> []" by auto
    with True Cons show ?thesis by (simp add: Let_def min_def)
  next
    case False
    then show ?thesis by (simp add: Let_def clear_stays)
  qed
qed simp

lemma enough_healthy_clears:
  assumes "config_ok config" "cfg_healthyToResolve config \<le> int (length ts)" "counters_inv config s"
  shows "is_Clear (run_events s (map (\<lambda>t. Recovered t config) ts))"
proof -
  have ne: "ts \<noteq> []" using assms(1,2) by (auto simp: config_ok_def)
  show ?thesis
  proof (cases s)
    case (Open b h)
    with assms ne show ?thesis by (auto intro!: open_resolves)
  next
    case (Breaching b c)
    with ne show ?thesis by (cases ts) (auto simp: clear_stays)
  qed (simp add: clear_stays)
qed


section \<open>Tiers against the counters\<close>



















section \<open>Rows and snapshots\<close>

text \<open>The row a host stores for a machine state: the counters and whether an incident stands.\<close>

definition row_of :: "HysteresisState \<Rightarrow> int option \<Rightarrow> HysteresisRow" where
  "row_of s resolvedAt =
     \<lparr>row_consecutiveBreaches = fst (countersOf s), row_consecutiveHealthy = snd (countersOf s),
      row_incidentOpen = is_Open s, row_lastResolvedAtMs = resolvedAt\<rparr>"

definition cooldown_until :: "HysteresisConfig \<Rightarrow> int option \<Rightarrow> int option" where
  "cooldown_until config resolvedAt =
     (case resolvedAt of None \<Rightarrow> None
      | Some t \<Rightarrow> if cfg_cooldownMs config > 0 then Some (t + cfg_cooldownMs config) else None)"

fun cooldown_agrees :: "HysteresisConfig \<Rightarrow> int option \<Rightarrow> HysteresisState \<Rightarrow> bool" where
  "cooldown_agrees config resolvedAt (Clear h c) = (c = cooldown_until config resolvedAt)"
| "cooldown_agrees config resolvedAt (Breaching b c) = (c = cooldown_until config resolvedAt)"
| "cooldown_agrees config resolvedAt (Open b h) = True"

lemma encodedSnapshot_row_of:
  assumes "counters_inv config s" "cooldown_agrees config resolvedAt s"
  shows "encodedSnapshot (row_of s resolvedAt) config = s"
  using assms by (cases s) (auto simp: encodedSnapshot_def row_of_def cooldown_until_def Let_def)


section \<open>Properties\<close>

text \<open>
  C8. In every run of the hysteresis machine over evaluations at non-decreasing times, incidents open
  and resolve in turn, a re-open comes no earlier than the resolve time plus the cooldown, and the
  counters stay saturated: never above their requirement, and an open incident never carries a
  healthy run long enough to resolve it.
\<close>

theorem incident_trace:
  assumes "machine_reach config now s es" "config_ok config"
  shows "trace_inv (cfg_cooldownMs config) es \<and> counters_inv config s"
  using machine_reach_inv [OF assms] by blast

theorem incident_trace_witness:
  "trace_inv 100 [IncidentOpened 130, IncidentResolved 30, IncidentOpened 20]"
proof -
  let ?c = "\<lparr>cfg_breachesToOpen = 1, cfg_healthyToResolve = 1, cfg_cooldownMs = 100\<rparr>"
  have "machine_reach ?c 20 (Open 1 0) ([IncidentOpened 20] @ [])"
    by (rule machine_reach.step [OF machine_reach.start [of _ 0], of _ breached])
       (simp_all add: initial_snapshot_def breach_branch_def cooling_def)
  then have "machine_reach ?c 30 (Clear 1 (Some 130)) ([IncidentResolved 30] @ [IncidentOpened 20] @ [])"
    by (rule machine_reach.step [of _ _ _ _ _ healthy]) simp_all
  then have "machine_reach ?c 130 (Open 1 0) ([IncidentOpened 130] @ [IncidentResolved 30] @ [IncidentOpened 20] @ [])"
    by (rule machine_reach.step [of _ _ _ _ _ breached]) (simp_all add: breach_branch_def cooling_def)
  from incident_trace [OF this] show ?thesis by (simp add: config_ok_def)
qed

text \<open>
  C25. The hysteresis is live: with no cooldown pending, as many consecutive breaches as the policy
  asks for leave an incident open, and as many consecutive healthy evaluations leave none open.
\<close>

theorem hysteresis_progress:
  assumes "config_ok config" "counters_inv config s"
  shows "(cfg_breachesToOpen config \<le> int (length ts) \<longrightarrow>
      (case s of Clear h c \<Rightarrow> c = None | Breaching b c \<Rightarrow> c = None | Open b h \<Rightarrow> True) \<longrightarrow>
      is_Open (run_events s (map (\<lambda>t. Breached t config) ts))) \<and>
    (cfg_healthyToResolve config \<le> int (length ts) \<longrightarrow>
      is_Clear (run_events s (map (\<lambda>t. Recovered t config) ts)))"
  using enough_breaches_open [OF assms(1) _ assms(2)] enough_healthy_clears [OF assms(1) _ assms(2)] by blast

theorem hysteresis_progress_witness:
  "is_Open (run_events initial_snapshot (map (\<lambda>t. Breached t
     \<lparr>cfg_breachesToOpen = 2, cfg_healthyToResolve = 3, cfg_cooldownMs = 60\<rparr>) [10, 20]))"
proof -
  let ?c = "\<lparr>cfg_breachesToOpen = 2, cfg_healthyToResolve = 3, cfg_cooldownMs = 60\<rparr>"
  have "config_ok ?c" "counters_inv ?c initial_snapshot"
    by (simp_all add: config_ok_def initial_snapshot_def)
  from hysteresis_progress [OF this, of "[10, 20]"] show ?thesis
    by (simp add: initial_snapshot_def)
qed



text \<open>
  Rebuilding the snapshot from the row on every tick loses nothing: with a machine library that
  decodes the active state and plans with its handler, folding an observation into the row stored for
  a state returns the verdict and the counters of the machine's own next state.
\<close>

theorem foldObservation_follows_machine:
  assumes "\<forall>s. decodeSnapshot s = Some s" "\<forall>s e. plan s e = Some (IncidentHysteresis s e)"
    and "counters_inv config s" "cooldown_agrees config resolvedAt s"
    and "IncidentHysteresis s (eventOf status config nowMs) = (s', emitted)"
  shows "foldObservation decodeSnapshot plan (row_of s resolvedAt) status config nowMs =
    Some \<lparr>out_transition =
            (if list_ex isOpened emitted then h_open else if emitted \<noteq> [] then h_resolve
             else if is_Open s \<and> status = breached then h_continue else h_noop),
          out_consecutiveBreaches = fst (countersOf s'), out_consecutiveHealthy = snd (countersOf s')\<rparr>"
proof -
  have lib: "machine_library decodeSnapshot plan"
    using assms(1,2) by unfold_locales simp_all
  have "length emitted \<le> 1"
    using assms(5) by (cases s; cases status) (auto simp: breach_branch_def Let_def split: if_splits)
  then have "list_ex isOpened emitted \<or> list_ex (\<lambda>e. \<not> isOpened e) emitted \<longleftrightarrow> emitted \<noteq> []"
    by (cases emitted) auto
  then show ?thesis
    using assms(5) encodedSnapshot_row_of [OF assms(3,4)]
    by (auto simp: machine_library.foldObservation_handler [OF lib] row_of_def)
qed

theorem foldObservation_follows_machine_witness:
  "foldObservation Some (\<lambda>s e. Some (IncidentHysteresis s e)) (row_of (Open 2 0) None) healthy
     \<lparr>cfg_breachesToOpen = 2, cfg_healthyToResolve = 1, cfg_cooldownMs = 60\<rparr> 500 =
   Some \<lparr>out_transition = h_resolve, out_consecutiveBreaches = 0, out_consecutiveHealthy = 1\<rparr>"
  using foldObservation_follows_machine [of Some "\<lambda>s e. Some (IncidentHysteresis s e)"
    "\<lparr>cfg_breachesToOpen = 2, cfg_healthyToResolve = 1, cfg_cooldownMs = 60\<rparr>" "Open 2 0" None healthy 500
    "Clear 1 (Some 560)" "[IncidentResolved 500]"]
  by simp

end
