(* ===== verification/Alert_Lifecycle.thy ===== *)
theory Alert_Lifecycle
  imports Alert_Hysteresis "HOL-Library.Multiset"
begin

text \<open>
  Alert evaluation and the incident lifecycle, after \<^verbatim>\<open>packages/alerting-core/src/index.ts\<close>:
  \<open>evaluateAlertObservation\<close> turns an observation into a verdict per tier, \<open>planAlertLifecycle\<close>
  turns a verdict and the persisted state into the next state, the incident transition and the
  notification to send, and the delivery helpers bound the retries. The projection of a transition
  into a CloudEvents envelope is in the theory of the event envelope.
\<close>

section \<open>Evaluating an observation\<close>

record AlertObservation =
  obs_value :: "jsnum option"
  obs_sampleCount :: jsnum
  obs_hasData :: bool

datatype NoDataBehavior = nd_skip | nd_zero | nd_alert

record AlertEvaluationPolicy =
  pol_comparator :: AlertComparator
  pol_threshold :: jsnum
  pol_thresholdUpper :: "jsnum option"
  pol_tiers :: "AlertThresholdTier list"
  pol_minimumSampleCount :: jsnum
  pol_noDataBehavior :: NoDataBehavior

datatype SkipReason = no_data | below_min_samples | no_value

text \<open>One constructor per message the code writes; \<open>BelowMinimum\<close> carries the two numbers that the
  template prints.\<close>

datatype EvaluationReason =
    NoDataInWindow
  | BelowMinimum jsnum jsnum
  | NoScalarValue
  | CallerReason string

record AlertEvaluation =
  ev_status :: EvaluationStatus
  ev_value :: "jsnum option"
  ev_sampleCount :: jsnum
  ev_threshold :: jsnum
  ev_thresholdUpper :: "jsnum option"
  ev_comparator :: AlertComparator
  ev_reason :: EvaluationReason
  ev_skipReason :: "SkipReason option"
  ev_derivedFromNoData :: bool
  ev_levels :: "AlertTierLevel list"

definition evaluateAlertObservation ::
  "AlertEvaluationPolicy \<Rightarrow> AlertObservation \<Rightarrow> string \<Rightarrow> AlertEvaluation" where
  "evaluateAlertObservation policy observation reason =
     (let sampleCount = js_round (obs_sampleCount observation);
          value = (if obs_hasData observation
                   then (case obs_value observation of
                           Some v \<Rightarrow> if js_isFinite v then Some v else None
                         | None \<Rightarrow> None)
                   else if pol_noDataBehavior policy = nd_zero then Some (Fin 0) else None);
          base = \<lparr>ev_status = skipped, ev_value = None, ev_sampleCount = sampleCount,
                  ev_threshold = pol_threshold policy, ev_thresholdUpper = pol_thresholdUpper policy,
                  ev_comparator = pol_comparator policy, ev_reason = NoDataInWindow,
                  ev_skipReason = None, ev_derivedFromNoData = False, ev_levels = []\<rparr>
      in if \<not> obs_hasData observation \<and> pol_noDataBehavior policy = nd_skip
         then base\<lparr>ev_skipReason := Some no_data\<rparr>
         else if \<not> obs_hasData observation \<and> pol_noDataBehavior policy = nd_alert
         then base\<lparr>ev_status := breached, ev_derivedFromNoData := True,
                   ev_levels := map (\<lambda>tier. \<lparr>level_severity = tier_severity tier,
                                             level_status = TierBreach\<rparr>) (pol_tiers policy)\<rparr>
         else if js_lt sampleCount (pol_minimumSampleCount policy)
         then base\<lparr>ev_value := value,
                   ev_reason := BelowMinimum sampleCount (pol_minimumSampleCount policy),
                   ev_skipReason := Some below_min_samples\<rparr>
         else case value of
           None \<Rightarrow> base\<lparr>ev_reason := NoScalarValue, ev_skipReason := Some no_value\<rparr>
         | Some v \<Rightarrow>
             let levels = map (\<lambda>tier. \<lparr>level_severity = tier_severity tier,
                                level_status = classifyTier v (pol_comparator policy) tier\<rparr>) (pol_tiers policy)
             in base\<lparr>ev_status := (if \<exists>level\<in>set levels. level_status level = TierBreach
                                   then breached else healthy),
                     ev_levels := levels, ev_value := Some v, ev_reason := CallerReason reason,
                     ev_derivedFromNoData := \<not> obs_hasData observation\<rparr>)"

section \<open>The lifecycle of an incident\<close>

record AlertLifecyclePolicy =
  lp_consecutiveBreachesRequired :: int
  lp_breachWindow :: int
  lp_consecutiveHealthyRequired :: int
  lp_renotifyIntervalMinutes :: int
  lp_severities :: "AlertSeverity list"

record AlertLifecycleState =
  st_consecutiveBreaches :: int
  st_consecutiveHealthy :: int
  st_history :: "tick list"

text \<open>A persisted row: the history of a row written before tiers is missing or null.\<close>

record AlertStateRow =
  sr_consecutiveBreaches :: int
  sr_consecutiveHealthy :: int
  sr_history :: "tick list option"

datatype AlertEventType = ev_trigger | ev_resolve | ev_renotify | ev_test

record AlertLifecycleIncident =
  inc_severity :: AlertSeverity
  inc_firstTriggeredAtMs :: int
  inc_lastNotifiedAtMs :: "int option"
  inc_lastDeliveredEventType :: "AlertEventType option"

datatype AlertIncidentTransition = tr_none | opened | continued | escalated | deescalated | resolved

datatype AlertNotificationSuppression = flapping | flap_resolution

datatype AlertLifecycleHold = missing_telemetry

record AlertLifecycleInput =
  in_policy :: AlertLifecyclePolicy
  in_evaluation :: AlertEvaluation
  in_state :: "AlertStateRow option"
  in_openIncident :: "AlertLifecycleIncident option"
  in_nowMs :: int
  in_previousNotificationAtMs :: "int option"
  in_allowNoDataResolution :: bool

record AlertLifecyclePlan =
  plan_state :: AlertLifecycleState
  plan_transition :: AlertIncidentTransition
  plan_severity :: "AlertSeverity option"
  plan_eventType :: "AlertEventType option"
  plan_notificationSuppression :: "AlertNotificationSuppression option"
  plan_hold :: "AlertLifecycleHold option"
  plan_inheritedNotificationAtMs :: "int option"
  plan_advanceNotificationAnchor :: bool

definition noTransition ::
  "AlertLifecycleState \<Rightarrow> AlertSeverity option \<Rightarrow> AlertLifecycleHold option \<Rightarrow> AlertLifecyclePlan" where
  "noTransition state severity hold =
     \<lparr>plan_state = state, plan_transition = tr_none, plan_severity = severity, plan_eventType = None,
      plan_notificationSuppression = None, plan_hold = hold, plan_inheritedNotificationAtMs = None,
      plan_advanceNotificationAnchor = False\<rparr>"

definition resolutionPlan :: "AlertLifecycleState \<Rightarrow> AlertLifecycleIncident \<Rightarrow> AlertLifecyclePlan" where
  "resolutionPlan state openIncident =
     (let flapResolutionSuppressed =
        inc_lastDeliveredEventType openIncident = None \<and> inc_lastNotifiedAtMs openIncident \<noteq> None
      in \<lparr>plan_state = state, plan_transition = resolved, plan_severity = None,
          plan_eventType = (if flapResolutionSuppressed then None else Some ev_resolve),
          plan_notificationSuppression = (if flapResolutionSuppressed then Some flap_resolution else None),
          plan_hold = None, plan_inheritedNotificationAtMs = None,
          plan_advanceNotificationAnchor = False\<rparr>)"

definition hysteresisOf :: "AlertLifecyclePolicy \<Rightarrow> TieredHysteresisPolicy" where
  "hysteresisOf policy =
     \<lparr>breachesToOpen = lp_consecutiveBreachesRequired policy, breachWindow = lp_breachWindow policy,
      healthyToResolve = lp_consecutiveHealthyRequired policy\<rparr>"

definition currentSeverity :: "AlertLifecycleInput \<Rightarrow> AlertSeverity option" where
  "currentSeverity input =
     map_option (\<lambda>inc. nearestSeverity (inc_severity inc) (lp_severities (in_policy input))) (in_openIncident input)"

definition seedSeverity :: "AlertLifecycleInput \<Rightarrow> AlertSeverity" where
  "seedSeverity input =
     (case currentSeverity input of
        Some s \<Rightarrow> s
      | None \<Rightarrow> foldl (\<lambda>highest s. case maxSeverity (Some highest) (Some s) of Some m \<Rightarrow> m | None \<Rightarrow> s)
                  Warning (lp_severities (in_policy input)))"

definition previousState :: "AlertLifecycleInput \<Rightarrow> AlertLifecycleState" where
  "previousState input =
     (let counters = (case in_state input of
            Some row \<Rightarrow> row
          | None \<Rightarrow> \<lparr>sr_consecutiveBreaches = 0, sr_consecutiveHealthy = 0, sr_history = Some []\<rparr>)
      in \<lparr>st_consecutiveBreaches = sr_consecutiveBreaches counters,
          st_consecutiveHealthy = sr_consecutiveHealthy counters,
          st_history = (case sr_history counters of
             Some h \<Rightarrow> h
           | None \<Rightarrow> seedHistory (sr_consecutiveBreaches counters, sr_consecutiveHealthy counters)
                      (seedSeverity input) (hysteresisOf (in_policy input)))\<rparr>)"

text \<open>The state after a tick that was not skipped.\<close>

definition nextState :: "AlertLifecycleInput \<Rightarrow> AlertLifecycleState" where
  "nextState input =
     (let hysteresis = hysteresisOf (in_policy input);
          history = appendTick (st_history (previousState input))
                      (encodeTick (ev_levels (in_evaluation input))) hysteresis;
          counters = countersFromHistory history hysteresis
      in \<lparr>st_consecutiveBreaches = fst counters, st_consecutiveHealthy = snd counters, st_history = history\<rparr>)"

definition nextSeverity :: "AlertLifecycleInput \<Rightarrow> AlertSeverity option" where
  "nextSeverity input =
     resolveActiveSeverity (st_history (nextState input)) (lp_severities (in_policy input))
       (currentSeverity input) (hysteresisOf (in_policy input))"

definition openedPlan :: "AlertLifecycleInput \<Rightarrow> AlertSeverity \<Rightarrow> AlertLifecyclePlan" where
  "openedPlan input nxt =
     (let flapSuppressed =
        (case in_previousNotificationAtMs input of
           None \<Rightarrow> False
         | Some t \<Rightarrow> t \<ge> in_nowMs input - lp_renotifyIntervalMinutes (in_policy input) * 60000)
      in \<lparr>plan_state = nextState input, plan_transition = opened, plan_severity = Some nxt,
          plan_eventType = (if flapSuppressed then None else Some ev_trigger),
          plan_notificationSuppression = (if flapSuppressed then Some flapping else None),
          plan_hold = None,
          plan_inheritedNotificationAtMs = (if flapSuppressed then in_previousNotificationAtMs input else None),
          plan_advanceNotificationAnchor = False\<rparr>)"

definition severityChangePlan ::
  "AlertLifecycleInput \<Rightarrow> AlertLifecycleIncident \<Rightarrow> AlertSeverity \<Rightarrow> AlertLifecyclePlan" where
  "severityChangePlan input openIncident nxt =
     (let up = (maxSeverity (Some nxt) (Some (inc_severity openIncident)) = Some nxt)
      in \<lparr>plan_state = nextState input, plan_transition = (if up then escalated else deescalated),
          plan_severity = Some nxt, plan_eventType = Some (if up then ev_trigger else ev_renotify),
          plan_notificationSuppression = None, plan_hold = None, plan_inheritedNotificationAtMs = None,
          plan_advanceNotificationAnchor = True\<rparr>)"

definition continuedPlan ::
  "AlertLifecycleInput \<Rightarrow> AlertLifecycleIncident \<Rightarrow> AlertSeverity \<Rightarrow> AlertLifecyclePlan" where
  "continuedPlan input openIncident nxt =
     (let renotifyDueAt =
            (case inc_lastNotifiedAtMs openIncident of Some t \<Rightarrow> t | None \<Rightarrow> inc_firstTriggeredAtMs openIncident)
            + lp_renotifyIntervalMinutes (in_policy input) * 60000;
          renotifyDue = (renotifyDueAt \<le> in_nowMs input)
      in \<lparr>plan_state = nextState input, plan_transition = continued, plan_severity = Some nxt,
          plan_eventType = (if renotifyDue then Some ev_renotify else None),
          plan_notificationSuppression = None, plan_hold = None, plan_inheritedNotificationAtMs = None,
          plan_advanceNotificationAnchor = renotifyDue\<rparr>)"

definition planAlertLifecycle :: "AlertLifecycleInput \<Rightarrow> AlertLifecyclePlan" where
  "planAlertLifecycle input =
     (let evaluation = in_evaluation input; current = currentSeverity input; previous = previousState input
      in if ev_status evaluation = skipped
         then (case in_openIncident input of
                 Some openIncident \<Rightarrow>
                   if ev_skipReason evaluation = Some no_data
                   then if in_allowNoDataResolution input then resolutionPlan previous openIncident
                        else noTransition previous current (Some missing_telemetry)
                   else noTransition previous current None
               | None \<Rightarrow> noTransition previous current None)
         else case in_openIncident input of
           None \<Rightarrow>
             (case nextSeverity input of
                None \<Rightarrow> noTransition (nextState input) None None
              | Some nxt \<Rightarrow> openedPlan input nxt)
         | Some openIncident \<Rightarrow>
             (case nextSeverity input of
                None \<Rightarrow>
                  if ev_derivedFromNoData evaluation \<and> \<not> in_allowNoDataResolution input
                  then noTransition (nextState input) current (Some missing_telemetry)
                  else resolutionPlan (nextState input) openIncident
              | Some nxt \<Rightarrow>
                  if nxt \<noteq> inc_severity openIncident \<and>
                     (Some nxt \<noteq> current \<or> ev_status evaluation = breached)
                  then severityChangePlan input openIncident nxt
                  else if ev_status evaluation = breached then continuedPlan input openIncident nxt
                  else noTransition (nextState input) (Some nxt) None))"

section \<open>Delivery retries\<close>

record AlertDeliveryRetryPolicy =
  maxAttempts :: int
  baseDelayMs :: int
  maxDelayMs :: int

definition DEFAULT_ALERT_DELIVERY_RETRY_POLICY :: AlertDeliveryRetryPolicy where
  "DEFAULT_ALERT_DELIVERY_RETRY_POLICY = \<lparr>maxAttempts = 5, baseDelayMs = 60000, maxDelayMs = 15 * 60000\<rparr>"

definition canRetryAlertDelivery :: "int \<Rightarrow> bool \<Rightarrow> AlertDeliveryRetryPolicy \<Rightarrow> bool" where
  "canRetryAlertDelivery attemptNumber retryable policy \<longleftrightarrow> retryable \<and> attemptNumber < maxAttempts policy"

definition alertDeliveryRetryDelayMs :: "int \<Rightarrow> rat \<Rightarrow> AlertDeliveryRetryPolicy \<Rightarrow> int" where
  "alertDeliveryRetryDelayMs attemptNumber jitterMs policy =
     (let exponent = max 0 (attemptNumber - 1);
          base = min (baseDelayMs policy * 2 ^ nat exponent) (maxDelayMs policy)
      in base + max 0 \<lfloor>jitterMs\<rfloor>)"

section \<open>Fair order of due rules\<close>

text \<open>The queues of \<open>interleaveAlertRulesByTenant\<close>, in order of each tenant's first row.\<close>

definition tenant_queues :: "('r \<Rightarrow> 't) \<Rightarrow> 'r list \<Rightarrow> ('t, 'r list) jsmap" where
  "tenant_queues tenantIdOf rows =
     foldl (\<lambda>queues row.
        case jsmap_get queues (tenantIdOf row) of
          Some queue \<Rightarrow> jsmap_set (tenantIdOf row) (queue @ [row]) queues
        | None \<Rightarrow> jsmap_set (tenantIdOf row) [row] queues) [] rows"

text \<open>One pass over the queues at one index; a queue that is shorter contributes nothing.\<close>

definition interleave_round :: "('t, 'r list) jsmap \<Rightarrow> nat \<Rightarrow> 'r list" where
  "interleave_round queues index =
     concat (map (\<lambda>(t, queue). if index < length queue then [queue ! index] else []) queues)"

text \<open>The \<open>while\<close> loop, as a function that may not return.\<close>

partial_function (option) interleave_loop ::
  "('t, 'r list) jsmap \<Rightarrow> nat \<Rightarrow> nat \<Rightarrow> 'r list \<Rightarrow> 'r list option" where
  "interleave_loop queues rowCount index fair =
     (if length fair < rowCount
      then interleave_loop queues rowCount (Suc index) (fair @ interleave_round queues index)
      else Some fair)"

declare interleave_loop.simps [code]

definition interleaveAlertRulesByTenant :: "'r list \<Rightarrow> ('r \<Rightarrow> 't) \<Rightarrow> 'r list option" where
  "interleaveAlertRulesByTenant rows tenantIdOf =
     interleave_loop (tenant_queues tenantIdOf rows) (length rows) 0 []"

section \<open>Evaluations\<close>

lemmas evaluation_defs = evaluateAlertObservation_def Let_def

definition evaluation_wf :: "AlertEvaluationPolicy \<Rightarrow> AlertObservation \<Rightarrow> AlertEvaluation \<Rightarrow> bool" where
  "evaluation_wf policy observation ev \<longleftrightarrow>
     (ev_status ev = skipped \<longleftrightarrow> ev_skipReason ev \<noteq> None) \<and>
     (ev_status ev = skipped \<longrightarrow> ev_levels ev = []) \<and>
     (ev_status ev \<noteq> skipped \<longrightarrow> map level_severity (ev_levels ev) = map tier_severity (pol_tiers policy)) \<and>
     (ev_status ev = breached \<longleftrightarrow> (\<exists>level\<in>set (ev_levels ev). level_status level = TierBreach)) \<and>
     (ev_status ev = healthy \<longrightarrow> (\<exists>v. ev_value ev = Some (Fin v))) \<and>
     (ev_derivedFromNoData ev \<longrightarrow> \<not> obs_hasData observation \<and> ev_status ev \<noteq> skipped)"

lemma evaluateAlertObservation_wf:
  assumes "pol_tiers policy \<noteq> []"
  shows "evaluation_wf policy observation (evaluateAlertObservation policy observation reason)"
proof -
  have "js_isFinite v \<Longrightarrow> \<exists>r. v = Fin r" for v by (cases v) auto
  then show ?thesis
    using assms unfolding evaluation_defs evaluation_wf_def
    by (auto split: option.splits simp: neq_Nil_conv)
qed

section \<open>Plans\<close>

lemmas plan_defs = planAlertLifecycle_def Let_def noTransition_def resolutionPlan_def openedPlan_def
  severityChangePlan_def continuedPlan_def



lemma plan_state_cases:
  "plan_state (planAlertLifecycle input) =
     (if ev_status (in_evaluation input) = skipped then previousState input else nextState input)"
  unfolding plan_defs by (simp split: option.split)

definition state_inv :: "TieredHysteresisPolicy \<Rightarrow> AlertLifecycleState \<Rightarrow> bool" where
  "state_inv p st \<longleftrightarrow>
     int (length (st_history st)) \<le> historyLength p \<and>
     (st_consecutiveBreaches st, st_consecutiveHealthy st) = countersFromHistory (st_history st) p \<and>
     (st_consecutiveBreaches st = 0 \<or> st_consecutiveHealthy st = 0)"

lemma anyBreach_allClear: "anyBreach c \<Longrightarrow> \<not> allClear c"
  by (auto simp: anyBreach_def allClear_def)

lemma counters_exclusive:
  assumes "policy_ok p"
  shows "fst (countersFromHistory h p) = 0 \<or> snd (countersFromHistory h p) = 0"
proof (cases "rev h")
  case Nil
  with assms show ?thesis by (simp add: countersFromHistory_def trailingRun_takeWhile policy_ok_def)
next
  case (Cons c cs)
  with assms show ?thesis
    using anyBreach_allClear [of c] by (auto simp: countersFromHistory_def trailingRun_takeWhile policy_ok_def)
qed

lemma nextState_inv:
  assumes "policy_ok (hysteresisOf (in_policy input))"
  shows "state_inv (hysteresisOf (in_policy input)) (nextState input)"
  using counters_exclusive [OF assms] historyLength_bounds(1) [OF assms]
  by (auto simp: state_inv_def nextState_def Let_def appendTick_def length_js_slice_neg)


section \<open>Interleaving tenants\<close>

lemma tenant_queues_snoc:
  "tenant_queues f (rows @ [row]) =
     (case map_of (tenant_queues f rows) (f row) of
        Some queue \<Rightarrow> AList.update (f row) (queue @ [row]) (tenant_queues f rows)
      | None \<Rightarrow> AList.update (f row) [row] (tenant_queues f rows))"
  by (simp only: tenant_queues_def foldl_append foldl.simps)

lemma tenant_queues_get:
  "map_of (tenant_queues f rows) t =
     (if \<exists>row\<in>set rows. f row = t then Some (filter (\<lambda>row. f row = t) rows) else None)"
proof (induction rows rule: rev_induct)
  case Nil
  show ?case by (simp add: tenant_queues_def)
next
  case (snoc row rows)
  have "map_of (tenant_queues f rows) (f row) =
     (if \<exists>r\<in>set rows. f r = f row then Some (filter (\<lambda>r. f r = f row) rows) else None)" if "t = f row"
    using snoc.IH that by simp
  then show ?case using snoc.IH
    by (cases "t = f row") (auto simp: tenant_queues_snoc update_conv' filter_empty_conv split: option.splits if_splits)
qed

lemma distinct_tenant_queues: "distinct (map fst (tenant_queues f rows))"
  by (induction rows rule: rev_induct)
     (auto simp: tenant_queues_snoc distinct_update tenant_queues_def split: option.splits)

definition rounds :: "('t, 'r list) jsmap \<Rightarrow> nat \<Rightarrow> 'r list" where
  "rounds queues k = concat (map (interleave_round queues) [0..<k])"

lemma rounds_Suc [simp]: "rounds queues (Suc k) = rounds queues k @ interleave_round queues k"
  by (simp add: rounds_def)

lemma rounds_0 [simp]: "rounds queues 0 = []"
  by (simp add: rounds_def)

text \<open>One tenant's share of a round: at most one row, taken from its own queue.\<close>

lemma filter_concat_queues:
  assumes "distinct (map fst queues)" "\<forall>(t', q)\<in>set queues. \<forall>row\<in>set q. f row = t'"
  shows "filter (\<lambda>row. f row = t) (interleave_round queues i) =
     (case map_of queues t of None \<Rightarrow> [] | Some q \<Rightarrow> if i < length q then [q ! i] else [])"
  using assms
proof (induction queues)
  case Nil
  show ?case by (simp add: interleave_round_def)
next
  case (Cons tq queues)
  obtain t' q where tq: "tq = (t', q)" by fastforce
  have none: "map_of queues t' = None" using Cons.prems(1) tq by (simp add: map_of_eq_None_iff)
  have own: "i < length q \<Longrightarrow> f (q ! i) = t'" using Cons.prems(2) tq by auto
  have IH: "filter (\<lambda>row. f row = t) (interleave_round queues i) =
     (case map_of queues t of None \<Rightarrow> [] | Some q \<Rightarrow> if i < length q then [q ! i] else [])"
    using Cons by auto
  show ?case
    using IH none own by (cases "t = t'") (auto simp: tq interleave_round_def)
qed

lemma filter_round:
  "filter (\<lambda>row. f row = t) (interleave_round (tenant_queues f rows) i) =
     (let q = filter (\<lambda>row. f row = t) rows in if i < length q then [q ! i] else [])"
proof -
  have "\<forall>(t', q)\<in>set (tenant_queues f rows). \<forall>row\<in>set q. f row = t'"
    using distinct_tenant_queues [of f rows]
    by (auto simp: map_of_eq_Some_iff [symmetric] tenant_queues_get split: if_splits)
  then show ?thesis
    by (auto simp: filter_concat_queues [OF distinct_tenant_queues] tenant_queues_get Let_def filter_empty_conv)
qed

lemma filter_rounds:
  "filter (\<lambda>row. f row = t) (rounds (tenant_queues f rows) k) = take k (filter (\<lambda>row. f row = t) rows)"
  by (induction k) (simp_all add: filter_round Let_def take_Suc_conv_app_nth)

lemma count_by_tenant: "count (mset xs) x = count (mset (filter (\<lambda>row. f row = f x) xs)) x"
  by (induction xs) auto

lemma mset_rounds_subset: "mset (rounds (tenant_queues f rows) k) \<subseteq># mset rows"
proof (rule mset_subset_eqI)
  fix x
  have "count (mset (take k (filter (\<lambda>row. f row = f x) rows))) x \<le> count (mset (filter (\<lambda>row. f row = f x) rows)) x"
    by (metis append_take_drop_id count_union le_add1 mset_append)
  then show "count (mset (rounds (tenant_queues f rows) k)) x \<le> count (mset rows) x"
    by (subst (1 2) count_by_tenant [where f = f]) (simp add: filter_rounds)
qed

lemma mset_rounds_enough:
  assumes "length rows \<le> k"
  shows "mset (rounds (tenant_queues f rows) k) = mset rows"
proof (rule multiset_eqI)
  fix x
  have "length (filter (\<lambda>row. f row = f x) rows) \<le> k"
    using assms length_filter_le le_trans by blast
  then show "count (mset (rounds (tenant_queues f rows) k)) x = count (mset rows) x"
    by (subst (1 2) count_by_tenant [where f = f]) (simp add: filter_rounds)
qed

lemma interleave_loop_rounds:
  assumes "k \<le> length rows"
  shows "\<exists>K. interleave_loop (tenant_queues f rows) (length rows) k (rounds (tenant_queues f rows) k) =
      Some (rounds (tenant_queues f rows) K) \<and> mset (rounds (tenant_queues f rows) K) = mset rows"
  using assms
proof (induction "length rows - k" arbitrary: k)
  case 0
  then have m: "mset (rounds (tenant_queues f rows) k) = mset rows"
    by (intro mset_rounds_enough) simp
  then have "length (rounds (tenant_queues f rows) k) = length rows" by (metis size_mset)
  with m show ?case by (subst interleave_loop.simps) auto
next
  case (Suc d)
  let ?q = "tenant_queues f rows"
  show ?case
  proof (cases "length (rounds ?q k) < length rows")
    case True
    with Suc have "\<exists>K. interleave_loop ?q (length rows) (Suc k) (rounds ?q (Suc k)) = Some (rounds ?q K) \<and>
        mset (rounds ?q K) = mset rows"
      by (intro Suc.hyps(1)) auto
    with True show ?thesis by (subst interleave_loop.simps) simp
  next
    case False
    with mset_rounds_subset [of f rows k] have "mset (rounds ?q k) = mset rows"
      by (metis mset_subset_size size_mset subset_mset.le_imp_less_or_eq)
    with False show ?thesis by (subst interleave_loop.simps) auto
  qed
qed

lemma interleave_result:
  obtains K where "interleaveAlertRulesByTenant rows f = Some (rounds (tenant_queues f rows) K)"
    "mset (rounds (tenant_queues f rows) K) = mset rows"
  using interleave_loop_rounds [of 0 rows f] by (auto simp: interleaveAlertRulesByTenant_def)

text \<open>Where a prefix of the result ends decides every tenant's share up to one row.\<close>

lemma prefix_shares:
  assumes "j \<le> length (rounds (tenant_queues f rows) K)"
  shows "\<exists>i. \<forall>t. let n = length (filter (\<lambda>row. f row = t) (take j (rounds (tenant_queues f rows) K)))
       in n \<le> Suc i \<and> (i \<le> n \<or> n = length (filter (\<lambda>row. f row = t) rows))"
  using assms
proof (induction K)
  case 0
  then show ?case by (auto intro: exI [of _ 0])
next
  case (Suc K)
  let ?q = "tenant_queues f rows"
  show ?case
  proof (cases "j \<le> length (rounds ?q K)")
    case True
    with Suc.IH show ?thesis by simp
  next
    case False
    let ?r = "take (j - length (rounds ?q K)) (interleave_round ?q K)"
    have eq: "take j (rounds ?q (Suc K)) = rounds ?q K @ ?r" using False by simp
    have share: "length (filter (\<lambda>row. f row = t) ?r) \<le> (if K < length (filter (\<lambda>row. f row = t) rows) then 1 else 0)" for t
    proof -
      have "length (filter (\<lambda>row. f row = t) ?r) \<le> length (filter (\<lambda>row. f row = t) (interleave_round ?q K))"
        by (metis append_take_drop_id filter_append le_add1 length_append)
      then show ?thesis by (auto simp: filter_round Let_def split: if_splits)
    qed
    have "let n = length (filter (\<lambda>row. f row = t) (take j (rounds ?q (Suc K))))
       in n \<le> Suc K \<and> (K \<le> n \<or> n = length (filter (\<lambda>row. f row = t) rows))" for t
      using share [of t] unfolding eq
      by (auto simp: filter_rounds Let_def min_def split: if_splits)
    then show ?thesis by blast
  qed
qed


section \<open>Concrete inputs\<close>

definition ex_policy :: AlertLifecyclePolicy where
  "ex_policy = \<lparr>lp_consecutiveBreachesRequired = 1, lp_breachWindow = 1, lp_consecutiveHealthyRequired = 1,
     lp_renotifyIntervalMinutes = 30, lp_severities = [Warning, Critical]\<rparr>"

definition ex_evaluation :: "EvaluationStatus \<Rightarrow> SkipReason option \<Rightarrow> AlertTierLevel list \<Rightarrow> AlertEvaluation" where
  "ex_evaluation status reason levels =
     \<lparr>ev_status = status, ev_value = None, ev_sampleCount = Fin 1, ev_threshold = Fin 0,
      ev_thresholdUpper = None, ev_comparator = gt, ev_reason = NoDataInWindow, ev_skipReason = reason,
      ev_derivedFromNoData = False, ev_levels = levels\<rparr>"

definition ex_incident :: AlertLifecycleIncident where
  "ex_incident = \<lparr>inc_severity = Warning, inc_firstTriggeredAtMs = 0, inc_lastNotifiedAtMs = Some 0,
     inc_lastDeliveredEventType = Some ev_trigger\<rparr>"

definition ex_input :: "AlertEvaluation \<Rightarrow> AlertLifecycleIncident option \<Rightarrow> int \<Rightarrow> AlertLifecycleInput" where
  "ex_input evaluation incident now =
     \<lparr>in_policy = ex_policy, in_evaluation = evaluation, in_state = None, in_openIncident = incident,
      in_nowMs = now, in_previousNotificationAtMs = None, in_allowNoDataResolution = False\<rparr>"

section \<open>Properties\<close>

text \<open>
  Every evaluation is well formed: it is skipped exactly when it names a skip reason, and then
  carries no levels; otherwise it has one level per tier in the rule's order, is breached exactly when
  a level breaches, and is healthy only on a finite value. A verdict derived from an empty window is
  never a skip.
\<close>

theorem evaluation_well_formed:
  assumes "pol_tiers policy \<noteq> []"
  shows "evaluation_wf policy observation (evaluateAlertObservation policy observation reason)"
  using assms by (rule evaluateAlertObservation_wf)

theorem evaluation_well_formed_witness:
  "ev_status (evaluateAlertObservation
     \<lparr>pol_comparator = gt, pol_threshold = Fin 5, pol_thresholdUpper = None,
      pol_tiers = [\<lparr>tier_severity = Critical, tier_value = Fin 5, tier_upper = None, tier_recoveryValue = None\<rparr>],
      pol_minimumSampleCount = Fin 3, pol_noDataBehavior = nd_skip\<rparr>
     \<lparr>obs_value = Some (Fin 9), obs_sampleCount = Fin (5 / 2), obs_hasData = True\<rparr> ''r'') = breached"
proof -
  let ?p = "\<lparr>pol_comparator = gt, pol_threshold = Fin 5, pol_thresholdUpper = None,
      pol_tiers = [\<lparr>tier_severity = Critical, tier_value = Fin 5, tier_upper = None, tier_recoveryValue = None\<rparr>],
      pol_minimumSampleCount = Fin 3, pol_noDataBehavior = nd_skip\<rparr>"
  let ?o = "\<lparr>obs_value = Some (Fin 9), obs_sampleCount = Fin (5 / 2), obs_hasData = True\<rparr>"
  have "ev_levels (evaluateAlertObservation ?p ?o ''r'') = [\<lparr>level_severity = Critical, level_status = TierBreach\<rparr>]"
    by (simp add: evaluation_defs classifyTier_def)
  with evaluation_well_formed [of ?p ?o "''r''"] show ?thesis by (simp add: evaluation_wf_def)
qed


text \<open>
  Missing evidence changes nothing: a skipped tick keeps the counters and the history as they
  were, and neither a skipped tick nor a healthy verdict read from an empty window resolves an incident
  unless the host's liveness gate allowed it; with a null skip reason or one other than an empty
  window the incident is frozen even then.
\<close>

theorem skipped_tick_freezes:
  assumes "ev_status (in_evaluation input) = skipped"
  shows "plan_state (planAlertLifecycle input) = previousState input \<and>
     (plan_transition (planAlertLifecycle input) = tr_none \<or>
      plan_transition (planAlertLifecycle input) = resolved \<and> in_allowNoDataResolution input \<and>
      ev_skipReason (in_evaluation input) = Some no_data \<and> in_openIncident input \<noteq> None)"
  using assms unfolding plan_defs by (auto split: option.split)

theorem skipped_tick_freezes_witness:
  "plan_transition (planAlertLifecycle (ex_input (ex_evaluation skipped (Some no_data) []) (Some ex_incident) 7)) = tr_none"
  using skipped_tick_freezes [of "ex_input (ex_evaluation skipped (Some no_data) []) (Some ex_incident) 7"]
  by (auto simp: ex_input_def ex_evaluation_def)

text \<open>
  A healthy verdict derived from an empty window resolves an incident only when the liveness gate
  allows it: otherwise the incident stands and the plan asks for a missing-telemetry hold.
\<close>

theorem no_data_recovery_is_held:
  assumes "ev_status (in_evaluation input) \<noteq> skipped" "ev_derivedFromNoData (in_evaluation input)"
    and "\<not> in_allowNoDataResolution input" "in_openIncident input = Some incident"
    and "nextSeverity input = None"
  shows "plan_transition (planAlertLifecycle input) = tr_none \<and>
     plan_hold (planAlertLifecycle input) = Some missing_telemetry \<and>
     plan_severity (planAlertLifecycle input) =
       Some (nearestSeverity (inc_severity incident) (lp_severities (in_policy input)))"
  using assms unfolding plan_defs by (simp add: currentSeverity_def)

theorem no_data_recovery_is_held_witness:
  "plan_hold (planAlertLifecycle (ex_input ((ex_evaluation healthy None
     [\<lparr>level_severity = Warning, level_status = TierClear\<rparr>])\<lparr>ev_derivedFromNoData := True\<rparr>) (Some ex_incident) 9)) =
   Some missing_telemetry"
proof -
  let ?i = "ex_input ((ex_evaluation healthy None
     [\<lparr>level_severity = Warning, level_status = TierClear\<rparr>])\<lparr>ev_derivedFromNoData := True\<rparr>) (Some ex_incident) 9"
  have "nextSeverity ?i = None" by code_simp
  then show ?thesis
    using no_data_recovery_is_held [of ?i ex_incident] by (simp add: ex_input_def ex_evaluation_def)
qed

text \<open>
  After every tick that is not skipped the persisted state is consistent, whatever the row held
  before: the history is within the policy's bound, the counters are the trailing runs of that history,
  and at most one of them is non-zero.
\<close>

theorem plan_state_consistent:
  assumes "policy_ok (hysteresisOf (in_policy input))" "ev_status (in_evaluation input) \<noteq> skipped"
  shows "state_inv (hysteresisOf (in_policy input)) (plan_state (planAlertLifecycle input))"
  using assms by (simp add: plan_state_cases nextState_inv)

theorem plan_state_consistent_witness:
  "state_inv (hysteresisOf ex_policy) (plan_state (planAlertLifecycle
     (ex_input (ex_evaluation breached None [\<lparr>level_severity = Warning, level_status = TierBreach\<rparr>]) None 5)))"
  using plan_state_consistent [of "ex_input (ex_evaluation breached None
     [\<lparr>level_severity = Warning, level_status = TierBreach\<rparr>]) None 5"]
  by (simp add: ex_input_def ex_evaluation_def ex_policy_def hysteresisOf_def policy_ok_def)

text \<open>
  Notification discipline. A continued incident is renotified exactly when the interval since its
  last notification (or its first trigger) has passed, and then the anchor advances; an incident that
  opens within the interval of the last notification for its group opens silently and inherits that
  anchor; an incident opened silently and never delivered resolves silently.
\<close>

theorem notification_discipline:
  "(plan_transition (planAlertLifecycle input) = continued \<longrightarrow>
      (plan_eventType (planAlertLifecycle input) = Some ev_renotify \<longleftrightarrow>
         (case in_openIncident input of None \<Rightarrow> False
          | Some inc \<Rightarrow> (case inc_lastNotifiedAtMs inc of Some t \<Rightarrow> t | None \<Rightarrow> inc_firstTriggeredAtMs inc)
              + lp_renotifyIntervalMinutes (in_policy input) * 60000 \<le> in_nowMs input)) \<and>
      (plan_advanceNotificationAnchor (planAlertLifecycle input) \<longleftrightarrow>
         plan_eventType (planAlertLifecycle input) = Some ev_renotify)) \<and>
   (plan_transition (planAlertLifecycle input) = opened \<longrightarrow>
      (case in_previousNotificationAtMs input of
         Some t \<Rightarrow> in_nowMs input - lp_renotifyIntervalMinutes (in_policy input) * 60000 \<le> t \<longrightarrow>
           plan_eventType (planAlertLifecycle input) = None \<and>
           plan_inheritedNotificationAtMs (planAlertLifecycle input) = Some t
       | None \<Rightarrow> plan_eventType (planAlertLifecycle input) = Some ev_trigger)) \<and>
   (plan_transition (planAlertLifecycle input) = resolved \<longrightarrow>
      (plan_eventType (planAlertLifecycle input) = None \<longleftrightarrow>
         (case in_openIncident input of None \<Rightarrow> False
          | Some inc \<Rightarrow> inc_lastDeliveredEventType inc = None \<and> inc_lastNotifiedAtMs inc \<noteq> None)))"
  unfolding plan_defs by (auto split: option.splits)

theorem notification_discipline_witness:
  "plan_eventType (planAlertLifecycle (ex_input (ex_evaluation breached None
     [\<lparr>level_severity = Warning, level_status = TierBreach\<rparr>]) (Some ex_incident) 1800000)) = Some ev_renotify"
proof -
  let ?i = "ex_input (ex_evaluation breached None
     [\<lparr>level_severity = Warning, level_status = TierBreach\<rparr>]) (Some ex_incident) 1800000"
  have "plan_transition (planAlertLifecycle ?i) = continued" by code_simp
  with notification_discipline [of ?i] show ?thesis
    by (simp add: ex_input_def ex_incident_def ex_policy_def)
qed

text \<open>
  Delivery retries back off and stay bounded: with a policy whose base delay is within its
  maximum, the delay without jitter lies between the two, never decreases with the attempt number, and
  the jitter adds a non-negative whole number of milliseconds.
\<close>

theorem retry_delay_bounds:
  assumes "0 \<le> baseDelayMs policy" "baseDelayMs policy \<le> maxDelayMs policy" "n \<le> m"
  shows "baseDelayMs policy \<le> alertDeliveryRetryDelayMs n 0 policy \<and>
     alertDeliveryRetryDelayMs n 0 policy \<le> alertDeliveryRetryDelayMs m 0 policy \<and>
     alertDeliveryRetryDelayMs m 0 policy \<le> maxDelayMs policy \<and>
     alertDeliveryRetryDelayMs n jitter policy = alertDeliveryRetryDelayMs n 0 policy + max 0 \<lfloor>jitter\<rfloor>"
proof -
  let ?e = "\<lambda>k. nat (max 0 (k - 1))"
  have "(2::int) ^ ?e n \<le> 2 ^ ?e m"
    using assms(3) by (intro power_increasing) auto
  then have mono: "baseDelayMs policy * 2 ^ ?e n \<le> baseDelayMs policy * 2 ^ ?e m"
    using assms(1) by (rule mult_left_mono)
  have "(1::int) \<le> 2 ^ ?e n" by simp
  then have "baseDelayMs policy \<le> baseDelayMs policy * 2 ^ ?e n"
    using assms(1) by (metis mult.right_neutral mult_left_mono)
  with mono assms(2) show ?thesis
    unfolding alertDeliveryRetryDelayMs_def Let_def by (auto simp: min_def)
qed

theorem retry_delay_bounds_witness:
  "alertDeliveryRetryDelayMs 2 0 DEFAULT_ALERT_DELIVERY_RETRY_POLICY \<le>
     maxDelayMs DEFAULT_ALERT_DELIVERY_RETRY_POLICY"
  using retry_delay_bounds [of DEFAULT_ALERT_DELIVERY_RETRY_POLICY 2 2 0]
  by (simp add: DEFAULT_ALERT_DELIVERY_RETRY_POLICY_def)

text \<open>
  Interleaving the due rules by tenant returns, and returns a reordering of the rows that keeps
  every tenant's own order and is fair at every prefix: no tenant is ever more than one row ahead of
  another that still has rows waiting.
\<close>

theorem interleave_fair:
  "\<exists>fair. interleaveAlertRulesByTenant rows tenantIdOf = Some fair \<and>
     mset fair = mset rows \<and>
     (\<forall>t. filter (\<lambda>row. tenantIdOf row = t) fair = filter (\<lambda>row. tenantIdOf row = t) rows) \<and>
     (\<forall>j a b. let taken = (\<lambda>t. length (filter (\<lambda>row. tenantIdOf row = t) (take j fair)))
        in taken a \<le> taken b + 1 \<or> taken b = length (filter (\<lambda>row. tenantIdOf row = b) rows))"
proof -
  obtain K where K: "interleaveAlertRulesByTenant rows tenantIdOf = Some (rounds (tenant_queues tenantIdOf rows) K)"
    and m: "mset (rounds (tenant_queues tenantIdOf rows) K) = mset rows"
    by (rule interleave_result)
  let ?fair = "rounds (tenant_queues tenantIdOf rows) K"
  have same: "filter (\<lambda>row. tenantIdOf row = t) ?fair = filter (\<lambda>row. tenantIdOf row = t) rows" for t
  proof -
    have "length (filter (\<lambda>row. tenantIdOf row = t) ?fair) = length (filter (\<lambda>row. tenantIdOf row = t) rows)"
      using m by (metis mset_filter size_mset)
    then show ?thesis by (simp add: filter_rounds)
  qed
  have "let taken = (\<lambda>t. length (filter (\<lambda>row. tenantIdOf row = t) (take j ?fair)))
      in taken a \<le> taken b + 1 \<or> taken b = length (filter (\<lambda>row. tenantIdOf row = b) rows)" for j a b
  proof (cases "j \<le> length ?fair")
    case True
    from prefix_shares [OF this] obtain i where i:
      "let n = length (filter (\<lambda>row. tenantIdOf row = t) (take j ?fair))
       in n \<le> Suc i \<and> (i \<le> n \<or> n = length (filter (\<lambda>row. tenantIdOf row = t) rows))" for t
      by blast
    from i [of a] i [of b] show ?thesis by (simp add: Let_def) linarith
  next
    case False
    then show ?thesis by (simp add: same Let_def)
  qed
  with K m same show ?thesis by blast
qed

end
