(* ===== verification/Js_Regex.thy ===== *)
theory Js_Regex
  imports Maple_Prelude
begin

text \<open>
  Regular expressions as the sources write them: classes, literals, sequence, alternation, counted
  repetition and greedy closure, over an arbitrary alphabet. \<open>rests\<close> is the backtracking matcher of
  ECMAScript: it lists what is left after a match, in the order in which the matcher tries them, so that the
  first entry is the match that \<open>exec\<close> reports. \<open>lang\<close> is the language of a pattern, and the lemmas relate
  the two.
\<close>

section \<open>Patterns and their matcher\<close>

datatype 'a rx =
    Cls "'a list"
  | Lit "'a list"
  | Cat "'a rx list"
  | Alt "'a rx list"
  | Rep nat nat "'a rx"
  | Star "'a rx"

text \<open>\<open>r{lo,hi}\<close>: more repetitions are tried first.\<close>

primrec rep_rests :: "('a list \<Rightarrow> 'a list list) \<Rightarrow> nat \<Rightarrow> nat \<Rightarrow> 'a list \<Rightarrow> 'a list list" where
  "rep_rests f 0 lo s = (if lo = 0 then [s] else [])"
| "rep_rests f (Suc hi) lo s = concat (map (rep_rests f hi (lo - 1)) (f s)) @ (if lo = 0 then [s] else [])"

text \<open>\<open>r*\<close>: a repetition that consumes nothing is not taken, as in \<open>RepeatMatcher\<close>.\<close>

function star_rests :: "('a list \<Rightarrow> 'a list list) \<Rightarrow> 'a list \<Rightarrow> 'a list list" where
  "star_rests f s = concat (map (\<lambda>t. if length t < length s then star_rests f t else []) (f s)) @ [s]"
  by pat_completeness auto
termination
  by (relation "measure (\<lambda>(f, s). length s)") auto

declare star_rests.simps [simp del]

text \<open>\<open>rests r s\<close> lists what can be left of \<open>s\<close> after a prefix that \<open>r\<close> matches.\<close>

fun rests :: "'a rx \<Rightarrow> 'a list \<Rightarrow> 'a list list" where
  "rests (Cls cs) s = (case s of [] \<Rightarrow> [] | c # s' \<Rightarrow> if c \<in> set cs then [s'] else [])"
| "rests (Lit w) s = (if take (length w) s = w then [drop (length w) s] else [])"
| "rests (Cat []) s = [s]"
| "rests (Cat (r # rs)) s = concat (map (rests (Cat rs)) (rests r s))"
| "rests (Alt []) s = []"
| "rests (Alt (r # rs)) s = rests r s @ rests (Alt rs) s"
| "rests (Rep lo hi r) s = rep_rests (rests r) hi lo s"
| "rests (Star r) s = star_rests (rests r) s"

text \<open>\<open>test\<close> of a pattern of the form \<open>^...$\<close>: the whole string.\<close>

definition rx_test :: "'a rx \<Rightarrow> 'a list \<Rightarrow> bool" where
  "rx_test r s \<longleftrightarrow> [] \<in> set (rests r s)"

text \<open>
  \<open>exec\<close> of a global pattern from \<open>lastIndex\<close>: start and length of the first match at the leftmost possible
  start.
\<close>

definition rx_exec :: "'a rx \<Rightarrow> 'a list \<Rightarrow> nat \<Rightarrow> (nat \<times> nat) option" where
  "rx_exec r text lastIndex =
     (case find (\<lambda>i. rests r (drop i text) \<noteq> []) [lastIndex..<Suc (length text)] of
        None \<Rightarrow> None
      | Some i \<Rightarrow> Some (i, length text - i - length (hd (rests r (drop i text)))))"

section \<open>The language of a pattern\<close>

fun lang_pow :: "'a list set \<Rightarrow> nat \<Rightarrow> 'a list set" where
  "lang_pow L 0 = {[]}"
| "lang_pow L (Suc n) = {u @ v | u v. u \<in> L \<and> v \<in> lang_pow L n}"

fun lang :: "'a rx \<Rightarrow> 'a list set" where
  "lang (Cls cs) = (\<lambda>c. [c]) ` set cs"
| "lang (Lit w) = {w}"
| "lang (Cat []) = {[]}"
| "lang (Cat (r # rs)) = {u @ v | u v. u \<in> lang r \<and> v \<in> lang (Cat rs)}"
| "lang (Alt []) = {}"
| "lang (Alt (r # rs)) = lang r \<union> lang (Alt rs)"
| "lang (Rep lo hi r) = (\<Union>k\<in>{lo..hi}. lang_pow (lang r) k)"
| "lang (Star r) = (\<Union>k. lang_pow (lang r) k)"

lemma rep_rests_lang:
  assumes f: "\<And>s s'. s' \<in> set (f s) \<longleftrightarrow> (\<exists>u\<in>L. s = u @ s')"
  shows "s' \<in> set (rep_rests f hi lo s) \<longleftrightarrow> (\<exists>k u. lo \<le> k \<and> k \<le> hi \<and> u \<in> lang_pow L k \<and> s = u @ s')"
proof (induction hi arbitrary: lo s)
  case (Suc hi)
  have "s' \<in> set (rep_rests f (Suc hi) lo s) \<longleftrightarrow>
      (lo = 0 \<and> s' = s) \<or> (\<exists>t. t \<in> set (f s) \<and> s' \<in> set (rep_rests f hi (lo - 1) t))" by auto
  also have "\<dots> \<longleftrightarrow> (lo = 0 \<and> s' = s) \<or>
      (\<exists>t v k u. v \<in> L \<and> s = v @ t \<and> lo - 1 \<le> k \<and> k \<le> hi \<and> u \<in> lang_pow L k \<and> t = u @ s')"
    unfolding Suc.IH f by blast
  also have "\<dots> \<longleftrightarrow> (\<exists>k u. lo \<le> k \<and> k \<le> Suc hi \<and> u \<in> lang_pow L k \<and> s = u @ s')" (is "?l \<longleftrightarrow> ?r")
  proof
    assume ?l
    then show ?r
    proof
      assume "lo = 0 \<and> s' = s"
      then show ?r by (intro exI [of _ 0] exI [of _ "[]"]) simp
    next
      assume "\<exists>t v k u. v \<in> L \<and> s = v @ t \<and> lo - 1 \<le> k \<and> k \<le> hi \<and> u \<in> lang_pow L k \<and> t = u @ s'"
      then obtain t v k u where "v \<in> L" "s = v @ t" "lo - 1 \<le> k" "k \<le> hi" "u \<in> lang_pow L k" "t = u @ s'" by blast
      then show ?r by (intro exI [of _ "Suc k"] exI [of _ "v @ u"]) auto
    qed
  next
    assume ?r
    then obtain k u where k: "lo \<le> k" "k \<le> Suc hi" "u \<in> lang_pow L k" "s = u @ s'" by blast
    show ?l
    proof (cases k)
      case 0
      then show ?thesis using k by simp
    next
      case (Suc j)
      then obtain v w where "u = v @ w" "v \<in> L" "w \<in> lang_pow L j" using k(3) by auto
      then show ?thesis using k Suc by (intro disjI2 exI [of _ "w @ s'"] exI [of _ v] exI [of _ j] exI [of _ w]) auto
    qed
  qed
  finally show ?case .
qed auto

lemma star_rests_lang:
  assumes f: "\<And>s s'. s' \<in> set (f s) \<longleftrightarrow> (\<exists>u\<in>L. s = u @ s')"
  shows "s' \<in> set (star_rests f s) \<longleftrightarrow> (\<exists>k. \<exists>u\<in>lang_pow L k. s = u @ s')"
proof (induction s rule: length_induct)
  case (1 s)
  have "s' \<in> set (star_rests f s) \<longleftrightarrow> s' = s \<or> (\<exists>t\<in>set (f s). length t < length s \<and> s' \<in> set (star_rests f t))"
    by (subst star_rests.simps) auto
  also have "\<dots> \<longleftrightarrow> s' = s \<or> (\<exists>t\<in>set (f s). length t < length s \<and> (\<exists>k. \<exists>u\<in>lang_pow L k. t = u @ s'))" using 1 by blast
  also have "\<dots> \<longleftrightarrow> (\<exists>k. \<exists>u\<in>lang_pow L k. s = u @ s')" (is "?l \<longleftrightarrow> ?r")
  proof
    assume ?l
    then show ?r
    proof
      assume "s' = s"
      then show ?r by (intro exI [of _ 0]) simp
    next
      assume "\<exists>t\<in>set (f s). length t < length s \<and> (\<exists>k. \<exists>u\<in>lang_pow L k. t = u @ s')"
      then obtain t k u where t: "t \<in> set (f s)" "u \<in> lang_pow L k" "t = u @ s'" by blast
      then obtain v where "v \<in> L" "s = v @ t" using f [of t s] by blast
      then have "v @ u \<in> lang_pow L (Suc k)" "s = (v @ u) @ s'" using t by auto
      then show ?r by blast
    qed
  next
    assume ?r
    then obtain k u where "u \<in> lang_pow L k" "s = u @ s'" by blast
    then show ?l
    proof (induction k arbitrary: u)
      case (Suc k)
      then obtain v w where v: "u = v @ w" "v \<in> L" "w \<in> lang_pow L k" by auto
      show ?case
      proof (cases "v = []")
        case True
        then show ?thesis using Suc v by simp
      next
        case False
        then have "length (w @ s') < length s" "w @ s' \<in> set (f s)" unfolding f using Suc(3) v by auto
        then show ?thesis using v(3) by blast
      qed
    qed simp
  qed
  finally show ?case .
qed

lemma rests_lang: "s' \<in> set (rests r s) \<longleftrightarrow> (\<exists>u\<in>lang r. s = u @ s')"
proof (induction r s arbitrary: s' rule: rests.induct)
  case (1 cs s)
  then show ?case by (cases s) auto
next
  case (2 w s)
  show ?case by (auto simp: append_eq_conv_conj) (metis append_take_drop_id)
next
  case (4 r rs s)
  have "s' \<in> set (rests (Cat (r # rs)) s) \<longleftrightarrow> (\<exists>t. t \<in> set (rests r s) \<and> s' \<in> set (rests (Cat rs) t))" by auto
  also have "\<dots> \<longleftrightarrow> (\<exists>t. (\<exists>u\<in>lang r. s = u @ t) \<and> (\<exists>v\<in>lang (Cat rs). t = v @ s'))"
    using 4 by blast
  also have "\<dots> \<longleftrightarrow> (\<exists>u\<in>lang (Cat (r # rs)). s = u @ s')" by fastforce
  finally show ?case .
next
  case (7 lo hi r s)
  have "t' \<in> set (rests r t) \<longleftrightarrow> (\<exists>u\<in>lang r. t = u @ t')" for t t' by (rule 7)
  from rep_rests_lang [OF this] show ?case by auto
next
  case (8 r s)
  have "t' \<in> set (rests r t) \<longleftrightarrow> (\<exists>u\<in>lang r. t = u @ t')" for t t' by (rule 8)
  from star_rests_lang [OF this] show ?case by auto
qed auto

lemma rx_test_lang: "rx_test r s \<longleftrightarrow> s \<in> lang r"
  by (simp add: rx_test_def rests_lang)

section \<open>Leftmost matches\<close>

text \<open>What a client of \<open>exec\<close> may rely on, whatever the pattern: matches lie in the text, not before \<open>lastIndex\<close>.\<close>

locale regex_engine =
  fixes exec :: "'a list \<Rightarrow> nat \<Rightarrow> (nat \<times> nat) option"
  assumes exec_inside: "exec text i = Some (start, len) \<Longrightarrow> i \<le> start \<and> start + len \<le> length text"

lemma find_upt:
  "find P [i..<n] = Some k \<longleftrightarrow> i \<le> k \<and> k < n \<and> P k \<and> (\<forall>j. i \<le> j \<and> j < k \<longrightarrow> \<not> P j)"
proof (induction "n - i" arbitrary: i)
  case 0
  then show ?case by simp
next
  case (Suc d)
  then have i: "i < n" by simp
  have "find P [i..<n] = (if P i then Some i else find P [Suc i..<n])" using i by (simp add: upt_conv_Cons)
  also have "\<dots> = Some k \<longleftrightarrow> i \<le> k \<and> k < n \<and> P k \<and> (\<forall>j. i \<le> j \<and> j < k \<longrightarrow> \<not> P j)"
    using Suc(1) [of "Suc i"] Suc(2) i
    by (auto simp: Suc_le_eq not_less_eq_eq) (metis le_eq_less_or_eq Suc_leI)+
  finally show ?case .
qed

lemma rests_nonempty: "rests r s \<noteq> [] \<longleftrightarrow> (\<exists>u\<in>lang r. \<exists>s'. s = u @ s')"
proof -
  have "rests r s \<noteq> [] \<longleftrightarrow> (\<exists>s'. s' \<in> set (rests r s))" by (cases "rests r s") auto
  then show ?thesis unfolding rests_lang by blast
qed

lemma rx_exec_Some:
  assumes "rx_exec r text i = Some (start, len)"
  shows "i \<le> start" "start + len \<le> length text" "take len (drop start text) \<in> lang r"
    "\<And>j. i \<le> j \<Longrightarrow> j < start \<Longrightarrow> rests r (drop j text) = []"
proof -
  from assms have s: "find (\<lambda>i. rests r (drop i text) \<noteq> []) [i..<Suc (length text)] = Some start"
    and len: "len = length text - start - length (hd (rests r (drop start text)))"
    by (auto simp: rx_exec_def simp del: upt_Suc split: option.splits)
  from s have f: "i \<le> start" "start \<le> length text" "rests r (drop start text) \<noteq> []" "\<And>j. i \<le> j \<Longrightarrow> j < start \<Longrightarrow> rests r (drop j text) = []"
    unfolding find_upt by auto
  then have "hd (rests r (drop start text)) \<in> set (rests r (drop start text))" by simp
  then obtain u where u: "u \<in> lang r" "drop start text = u @ hd (rests r (drop start text))" unfolding rests_lang by blast
  have "length (drop start text) = length u + length (hd (rests r (drop start text)))" by (subst u(2)) simp
  then have l: "len = length u" "start + length u \<le> length text" using len f(2) by simp_all
  then have "take len (drop start text) = u" by (subst u(2)) simp
  then show "i \<le> start" "start + len \<le> length text" "take len (drop start text) \<in> lang r"
    "\<And>j. i \<le> j \<Longrightarrow> j < start \<Longrightarrow> rests r (drop j text) = []" using f l u by simp_all
qed

lemma rx_exec_None:
  "rx_exec r text i = None \<longleftrightarrow> (\<forall>j. i \<le> j \<and> j \<le> length text \<longrightarrow> rests r (drop j text) = [])"
proof -
  have "rx_exec r text i = None \<longleftrightarrow> find (\<lambda>i. rests r (drop i text) \<noteq> []) [i..<Suc (length text)] = None"
    by (simp add: rx_exec_def del: upt_Suc split: option.splits)
  then show ?thesis unfolding find_None_iff by auto
qed

interpretation matcher: regex_engine "rx_exec r" for r
  by unfold_locales (use rx_exec_Some in blast)

end
