(* ===== verification/Event_Scalars.thy ===== *)
theory Event_Scalars
  imports Js_Regex
begin

text \<open>
  The scalar values of eventing signals, after \<^verbatim>\<open>packages/eventing-core/src/scalar-patterns.ts\<close>,
  \<^verbatim>\<open>limits.ts\<close> and the scalar part of \<^verbatim>\<open>model.ts\<close> and \<^verbatim>\<open>predicate.ts\<close>: the patterns for 64-bit
  decimals and RFC 3339 timestamps, the timestamp parser, validation, equality and order.

  The patterns are terms of the language of regular expressions of \<open>Js_Regex\<close>. Strings
  are lists of 8-bit characters, so that each is one code point and \<open>Array.from(s).length\<close> is the length.
  \<open>Schema.BigIntFromString\<close> belongs to the library \<open>effect\<close> and is an argument, \<open>bigIntFromString\<close>.
\<close>

section \<open>Decimal digits\<close>

definition is_digit :: "char \<Rightarrow> bool" where
  "is_digit c \<longleftrightarrow> (of_char c :: nat) \<in> {48..57}"

definition digit_val :: "char \<Rightarrow> nat" where
  "digit_val c = of_char c - 48"

definition dval :: "string \<Rightarrow> nat" where
  "dval s = foldl (\<lambda>a c. 10 * a + digit_val c) 0 s"

definition digit_char :: "nat \<Rightarrow> char" where
  "digit_char n = char_of (48 + n)"

definition digit_range :: "nat \<Rightarrow> nat \<Rightarrow> char list" where
  "digit_range a b = map digit_char [a..<Suc b]"

section \<open>Patterns\<close>

definition magnitude_step :: "string \<Rightarrow> nat \<Rightarrow> char rx list" where
  "magnitude_step digits index =
     (let minimumDigit = (if index = 0 then 1 else 0 :: int);
          lastDigit = int (digit_val (digits ! index)) - 1
      in if lastDigit < minimumDigit then []
         else let digit = (if lastDigit = minimumDigit then Lit (js_String_int lastDigit)
                           else Cls (digit_range (nat minimumDigit) (nat lastDigit)));
                  remaining = length digits - index - 1
              in [Cat [Lit (take index digits), digit,
                       (if remaining = 0 then Lit [] else Rep remaining remaining (Cls (digit_range 0 9)))]])"

definition magnitudePattern :: "nat \<Rightarrow> char rx" where
  "magnitudePattern maximum =
     (let digits = js_String_nat maximum
      in Alt ([Lit ''0'', Cat [Cls (digit_range 1 9), Rep 0 (length digits - 2) (Cls (digit_range 0 9))]]
              @ concat (map (magnitude_step digits) [0..<length digits]) @ [Lit digits]))"

definition INT64_MIN :: int where
  "INT64_MIN = - (2 ^ 63)"

definition INT64_MAX :: int where
  "INT64_MAX = 2 ^ 63 - 1"

definition DECIMAL_INT64_PATTERN :: "char rx" where
  "DECIMAL_INT64_PATTERN =
     Alt [magnitudePattern (nat INT64_MAX), Cat [Lit ''-'', magnitudePattern (nat (- INT64_MIN))]]"

definition leapYear :: "char rx" where
  "leapYear =
     Alt [Cat [Rep 2 2 (Cls (digit_range 0 9)),
               Alt [Cat [Lit ''0'', Cls ''48''], Cat [Cls ''2468'', Cls ''048''], Cat [Cls ''13579'', Cls ''26'']]],
          Cat [Alt [Cat [Cls ''02468'', Cls ''048''], Cat [Cls ''13579'', Cls ''26'']], Lit ''00'']]"

definition ordinaryDate :: "char rx" where
  "ordinaryDate =
     Cat [Rep 4 4 (Cls (digit_range 0 9)), Lit ''-'',
          Alt [Cat [Alt [Lit ''01'', Lit ''03'', Lit ''05'', Lit ''07'', Lit ''08'', Lit ''10'', Lit ''12''], Lit ''-'',
                    Alt [Cat [Lit ''0'', Cls (digit_range 1 9)], Cat [Cls ''12'', Cls (digit_range 0 9)], Cat [Lit ''3'', Cls ''01'']]],
               Cat [Alt [Lit ''04'', Lit ''06'', Lit ''09'', Lit ''11''], Lit ''-'',
                    Alt [Cat [Lit ''0'', Cls (digit_range 1 9)], Cat [Cls ''12'', Cls (digit_range 0 9)], Lit ''30'']],
               Cat [Lit ''02-'',
                    Alt [Cat [Lit ''0'', Cls (digit_range 1 9)], Cat [Lit ''1'', Cls (digit_range 0 9)], Cat [Lit ''2'', Cls (digit_range 0 8)]]]]]"

definition hour_rx :: "char rx" where
  "hour_rx = Alt [Cat [Cls ''01'', Cls (digit_range 0 9)], Cat [Lit ''2'', Cls (digit_range 0 3)]]"

definition minuteOrSecond :: "char rx" where
  "minuteOrSecond = Cat [Cls (digit_range 0 5), Cls (digit_range 0 9)]"

definition RFC3339_TIMESTAMP_PATTERN :: "char rx" where
  "RFC3339_TIMESTAMP_PATTERN =
     Cat [Alt [ordinaryDate, Cat [leapYear, Lit ''-02-29'']], Lit ''T'', hour_rx, Lit '':'', minuteOrSecond, Lit '':'',
          minuteOrSecond, Rep 0 1 (Cat [Lit ''.'', Rep 1 9 (Cls (digit_range 0 9))]),
          Alt [Lit ''Z'', Cat [Cls ''+-'', hour_rx, Lit '':'', minuteOrSecond]]]"

section \<open>Timestamps\<close>

definition isLeapYear :: "nat \<Rightarrow> bool" where
  "isLeapYear year \<longleftrightarrow> year mod 4 = 0 \<and> (year mod 100 \<noteq> 0 \<or> year mod 400 = 0)"

definition daysInMonth :: "nat \<Rightarrow> nat \<Rightarrow> nat" where
  "daysInMonth year month =
     (if month = 2 then if isLeapYear year then 29 else 28
      else if month = 4 \<or> month = 6 \<or> month = 9 \<or> month = 11 then 30
      else 31)"

datatype ts_zone = Zulu | Offset char string string

record ts_match =
  m_year :: string
  m_month :: string
  m_day :: string
  m_hour :: string
  m_minute :: string
  m_second :: string
  m_fraction :: string
  m_zone :: ts_zone

definition digits_n :: "nat \<Rightarrow> string \<Rightarrow> bool" where
  "digits_n n s \<longleftrightarrow> length s = n \<and> list_all is_digit s"

definition zone_exec :: "string \<Rightarrow> ts_zone option" where
  "zone_exec z =
     (if z = ''Z'' then Some Zulu
      else if length z = 6 \<and> z ! 0 \<in> set ''+-'' \<and> digits_n 2 (take 2 (drop 1 z)) \<and> z ! 3 = CHR '':'' \<and> digits_n 2 (drop 4 z)
      then Some (Offset (z ! 0) (take 2 (drop 1 z)) (drop 4 z))
      else None)"

text \<open>\<open>(?:\.(\d{1,9}))?\<close> and what follows; no group is the empty string, as \<open>match[7] ?? ""\<close> reads it.\<close>

definition fraction_exec :: "string \<Rightarrow> (string \<times> ts_zone) option" where
  "fraction_exec r =
     (case r of
        [] \<Rightarrow> None
      | c # r' \<Rightarrow>
          if c = CHR ''.'' then
            (let f = takeWhile is_digit r'
             in if 1 \<le> length f \<and> length f \<le> 9 then map_option (Pair f) (zone_exec (drop (length f) r')) else None)
          else map_option (Pair '''') (zone_exec r))"

text \<open>\<open>TIMESTAMP.exec\<close>\<close>

definition TIMESTAMP_exec :: "string \<Rightarrow> ts_match option" where
  "TIMESTAMP_exec s =
     (if 19 \<le> length s \<and> digits_n 4 (take 4 s) \<and> s ! 4 = CHR ''-'' \<and> digits_n 2 (take 2 (drop 5 s)) \<and> s ! 7 = CHR ''-'' \<and>
         digits_n 2 (take 2 (drop 8 s)) \<and> s ! 10 = CHR ''T'' \<and> digits_n 2 (take 2 (drop 11 s)) \<and> s ! 13 = CHR '':'' \<and>
         digits_n 2 (take 2 (drop 14 s)) \<and> s ! 16 = CHR '':'' \<and> digits_n 2 (take 2 (drop 17 s))
      then map_option (\<lambda>(f, z). \<lparr>m_year = take 4 s, m_month = take 2 (drop 5 s), m_day = take 2 (drop 8 s),
             m_hour = take 2 (drop 11 s), m_minute = take 2 (drop 14 s), m_second = take 2 (drop 17 s),
             m_fraction = f, m_zone = z\<rparr>) (fraction_exec (drop 19 s))
      else None)"

text \<open>
  The day number of a date, as \<open>setUTCFullYear\<close> and \<open>getTime\<close> give it: the day of the first of January,
  then the days of the months before.
\<close>

definition day_from_year :: "int \<Rightarrow> int" where
  "day_from_year y = 365 * (y - 1970) + (y - 1969) div 4 - (y - 1901) div 100 + (y - 1601) div 400"

definition month_offset :: "nat \<Rightarrow> nat \<Rightarrow> int" where
  "month_offset year month =
     [0, 31, 59, 90, 120, 151, 181, 212, 243, 273, 304, 334] ! (month - 1) + (if month > 2 \<and> isLeapYear year then 1 else 0)"

definition utc_day :: "nat \<Rightarrow> nat \<Rightarrow> nat \<Rightarrow> int" where
  "utc_day year month day = day_from_year (int year) + month_offset year month + int day - 1"

definition padEnd9 :: "string \<Rightarrow> string" where
  "padEnd9 f = f @ replicate (9 - length f) (CHR ''0'')"

definition timestampToEpochNanos :: "string \<Rightarrow> int option" where
  "timestampToEpochNanos value =
     (case TIMESTAMP_exec value of
        None \<Rightarrow> None
      | Some m \<Rightarrow>
          (let year = dval (m_year m); month = dval (m_month m); day = dval (m_day m);
               hour = dval (m_hour m); minute = dval (m_minute m); second = dval (m_second m);
               fraction = m_fraction m
           in if month < 1 \<or> month > 12 \<or> day < 1 \<or> day > daysInMonth year month \<or> hour > 23 \<or> minute > 59 \<or> second > 59
              then None
              else
                (case (case m_zone m of
                         Zulu \<Rightarrow> Some 0
                       | Offset sg hh mm \<Rightarrow>
                           if dval hh > 23 \<or> dval mm > 59 then None
                           else Some (if sg = CHR ''-'' then - int (dval hh * 60 + dval mm) else int (dval hh * 60 + dval mm))) of
                   None \<Rightarrow> None
                 | Some offsetMinutes \<Rightarrow>
                     (let milliseconds = utc_day year month day * 86400000 +
                            int (hour * 3600000 + minute * 60000 + second * 1000) - offsetMinutes * 60000
                      in Some (milliseconds * 1000000 + int (dval (padEnd9 fraction)))))))"

section \<open>Scalars\<close>

datatype SignalScalarType = ty_string | ty_boolean | ty_int64 | ty_float64 | ty_timestamp | ty_duration

datatype SignalScalar =
    StringScalar string
  | BooleanScalar bool
  | Int64Scalar string
  | Float64Scalar jsnum
  | TimestampScalar string
  | DurationScalar string

fun scalar_type :: "SignalScalar \<Rightarrow> SignalScalarType" where
  "scalar_type (StringScalar _) = ty_string"
| "scalar_type (BooleanScalar _) = ty_boolean"
| "scalar_type (Int64Scalar _) = ty_int64"
| "scalar_type (Float64Scalar _) = ty_float64"
| "scalar_type (TimestampScalar _) = ty_timestamp"
| "scalar_type (DurationScalar _) = ty_duration"

fun type_name :: "SignalScalarType \<Rightarrow> string" where
  "type_name ty_string = ''string''"
| "type_name ty_boolean = ''boolean''"
| "type_name ty_int64 = ''int64''"
| "type_name ty_float64 = ''float64''"
| "type_name ty_timestamp = ''timestamp''"
| "type_name ty_duration = ''duration''"

definition MAX_PREDICATE_DEPTH :: nat where "MAX_PREDICATE_DEPTH = 8"
definition MAX_PREDICATE_NODES :: nat where "MAX_PREDICATE_NODES = 64"
definition MAX_IN_VALUES :: nat where "MAX_IN_VALUES = 100"
definition MAX_DECIMAL_INT64_LENGTH :: nat where "MAX_DECIMAL_INT64_LENGTH = 20"
definition MAX_STRING_LITERAL_CHARACTERS :: nat where "MAX_STRING_LITERAL_CHARACTERS = 1024"

lemmas limit_defs = MAX_PREDICATE_DEPTH_def MAX_PREDICATE_NODES_def MAX_IN_VALUES_def MAX_DECIMAL_INT64_LENGTH_def
  MAX_STRING_LITERAL_CHARACTERS_def

record ValidationIssue =
  issue_path :: string
  issue_message :: string

type_synonym bigint_decoder = "string \<Rightarrow> int option"

definition parseInt64 :: "bigint_decoder \<Rightarrow> string \<Rightarrow> int option" where
  "parseInt64 bigIntFromString value =
     (case bigIntFromString value of
        None \<Rightarrow> None
      | Some v \<Rightarrow> if v \<ge> INT64_MIN \<and> v \<le> INT64_MAX then Some v else None)"

fun validateSignalScalar :: "bigint_decoder \<Rightarrow> SignalScalar \<Rightarrow> string \<Rightarrow> ValidationIssue list" where
  "validateSignalScalar bi (StringScalar _) path = []"
| "validateSignalScalar bi (BooleanScalar _) path = []"
| "validateSignalScalar bi (Int64Scalar v) path =
     (if parseInt64 bi v = None
      then [\<lparr>issue_path = path, issue_message = ''int64 must be a signed 64-bit decimal integer''\<rparr>] else [])"
| "validateSignalScalar bi (DurationScalar v) path =
     (if parseInt64 bi v = None
      then [\<lparr>issue_path = path, issue_message = ''duration must be a signed 64-bit decimal integer''\<rparr>] else [])"
| "validateSignalScalar bi (Float64Scalar v) path =
     (if \<not> js_isFinite v then [\<lparr>issue_path = path, issue_message = ''float64 must be finite''\<rparr>] else [])"
| "validateSignalScalar bi (TimestampScalar v) path =
     (if timestampToEpochNanos v = None
      then [\<lparr>issue_path = path, issue_message = ''timestamp must be a valid RFC 3339 instant with an explicit offset''\<rparr>] else [])"

definition validateSignalLiteral :: "bigint_decoder \<Rightarrow> SignalScalar \<Rightarrow> string \<Rightarrow> ValidationIssue list" where
  "validateSignalLiteral bi literal path =
     validateSignalScalar bi literal path @
     (case literal of
        StringScalar v \<Rightarrow>
          if length v > MAX_STRING_LITERAL_CHARACTERS
          then [\<lparr>issue_path = path, issue_message = ''string exceeds 1024 Unicode code points''\<rparr>] else []
      | _ \<Rightarrow> [])"

text \<open>
  \<open>BigInt(s)\<close>: white space around the text is ignored, the empty text is zero, a sign goes with decimal
  digits only, and the prefixes \<open>0x\<close>, \<open>0o\<close> and \<open>0b\<close> select a radix. \<open>None\<close> is a \<open>SyntaxError\<close>.
\<close>

definition radix_digit :: "char \<Rightarrow> nat option" where
  "radix_digit c =
     (let n = (of_char c :: nat)
      in if n \<in> {48..57} then Some (n - 48)
         else if n \<in> {65..70} then Some (n - 55)
         else if n \<in> {97..102} then Some (n - 87)
         else None)"

definition radix_value :: "nat \<Rightarrow> string \<Rightarrow> nat option" where
  "radix_value b s =
     (if s \<noteq> [] \<and> list_all (\<lambda>c. case radix_digit c of Some d \<Rightarrow> d < b | None \<Rightarrow> False) s
      then Some (foldl (\<lambda>a c. b * a + the (radix_digit c)) 0 s) else None)"

definition js_BigInt :: "string \<Rightarrow> int option" where
  "js_BigInt s =
     (let t = js_trim s
      in if t = [] then Some 0
         else if take 2 t \<in> {''0x'', ''0X''} then map_option int (radix_value 16 (drop 2 t))
         else if take 2 t \<in> {''0o'', ''0O''} then map_option int (radix_value 8 (drop 2 t))
         else if take 2 t \<in> {''0b'', ''0B''} then map_option int (radix_value 2 (drop 2 t))
         else if hd t = CHR ''-'' then map_option (\<lambda>n. - int n) (radix_value 10 (tl t))
         else if hd t = CHR ''+'' then map_option int (radix_value 10 (tl t))
         else map_option int (radix_value 10 t))"

text \<open>Comparing two scalars; the outer \<open>None\<close> is the \<open>SyntaxError\<close> of \<open>BigInt\<close>.\<close>

definition bigint_cmp :: "(int \<Rightarrow> int \<Rightarrow> 'a) \<Rightarrow> string \<Rightarrow> string \<Rightarrow> 'a option" where
  "bigint_cmp f a b =
     (case js_BigInt a of None \<Rightarrow> None | Some x \<Rightarrow> (case js_BigInt b of None \<Rightarrow> None | Some y \<Rightarrow> Some (f x y)))"

fun scalarEquals :: "SignalScalar \<Rightarrow> SignalScalar \<Rightarrow> bool option" where
  "scalarEquals (StringScalar a) (StringScalar b) = Some (a = b)"
| "scalarEquals (BooleanScalar a) (BooleanScalar b) = Some (a = b)"
| "scalarEquals (Float64Scalar a) (Float64Scalar b) = Some (js_eq a b)"
| "scalarEquals (Int64Scalar a) (Int64Scalar b) = bigint_cmp (=) a b"
| "scalarEquals (DurationScalar a) (DurationScalar b) = bigint_cmp (=) a b"
| "scalarEquals (TimestampScalar a) (TimestampScalar b) = Some (timestampToEpochNanos a = timestampToEpochNanos b)"
| "scalarEquals _ _ = Some False"

definition three_way :: "int \<Rightarrow> int \<Rightarrow> int" where
  "three_way a b = (if a < b then - 1 else if a > b then 1 else 0)"

text \<open>The inner \<open>None\<close> is \<open>null\<close>: the scalars cannot be ordered.\<close>

fun scalarOrder :: "SignalScalar \<Rightarrow> SignalScalar \<Rightarrow> int option option" where
  "scalarOrder (Int64Scalar a) (Int64Scalar b) = map_option Some (bigint_cmp three_way a b)"
| "scalarOrder (DurationScalar a) (DurationScalar b) = map_option Some (bigint_cmp three_way a b)"
| "scalarOrder (Float64Scalar a) (Float64Scalar b) = Some (Some (if js_lt a b then - 1 else if js_lt b a then 1 else 0))"
| "scalarOrder (TimestampScalar a) (TimestampScalar b) =
     Some (case timestampToEpochNanos a of
             None \<Rightarrow> None
           | Some x \<Rightarrow> (case timestampToEpochNanos b of None \<Rightarrow> None | Some y \<Rightarrow> Some (three_way x y)))"
| "scalarOrder _ _ = Some None"

lemma lang_Alt: "lang (Alt rs) = (\<Union>r\<in>set rs. lang r)"
  by (induction rs) auto

lemma lang_pow_class: "lang_pow ((\<lambda>c. [c]) ` C) n = {s. length s = n \<and> set s \<subseteq> C}"
proof (induction n)
  case (Suc n)
  have "s \<in> lang_pow ((\<lambda>c. [c]) ` C) (Suc n) \<longleftrightarrow> length s = Suc n \<and> set s \<subseteq> C" for s
  proof (cases s)
    case (Cons a t)
    show ?thesis unfolding lang_pow.simps Suc.IH
    proof
      assume "length s = Suc n \<and> set s \<subseteq> C"
      then show "s \<in> {u @ v |u v. u \<in> (\<lambda>c. [c]) ` C \<and> v \<in> {s. length s = n \<and> set s \<subseteq> C}}"
        unfolding Cons by (intro CollectI exI [of _ "[a]"] exI [of _ t]) auto
    qed auto
  qed auto
  then show ?case by blast
qed auto

lemma lang_Rep_Cls: "lang (Rep lo hi (Cls cs)) = {s. lo \<le> length s \<and> length s \<le> hi \<and> set s \<subseteq> set cs}"
  by (auto simp: lang_pow_class)

section \<open>Digits\<close>

lemma of_char_digit [simp]: "n < 10 \<Longrightarrow> (of_char (digit_char n) :: nat) = 48 + n"
  by (simp add: digit_char_def take_bit_eq_mod)

lemma digit_val_char [simp]: "n < 10 \<Longrightarrow> digit_val (digit_char n) = n"
  by (simp add: digit_val_def)

lemma is_digit_char [simp]: "n < 10 \<Longrightarrow> is_digit (digit_char n)"
  by (simp add: is_digit_def)

lemma digit_char_val [simp]: "is_digit c \<Longrightarrow> digit_char (digit_val c) = c"
  by (auto simp: is_digit_def digit_char_def digit_val_def)

lemma digit_val_less [simp]: "is_digit c \<Longrightarrow> digit_val c < 10"
  by (auto simp: is_digit_def digit_val_def)

lemma digit_val_inj: "is_digit c \<Longrightarrow> is_digit d \<Longrightarrow> digit_val c = digit_val d \<longleftrightarrow> c = d"
  by (metis digit_char_val)

lemma digit_range_mem: "b < 10 \<Longrightarrow> c \<in> set (digit_range a b) \<longleftrightarrow> is_digit c \<and> a \<le> digit_val c \<and> digit_val c \<le> b"
proof
  assume "b < 10" "c \<in> set (digit_range a b)"
  then show "is_digit c \<and> a \<le> digit_val c \<and> digit_val c \<le> b" by (auto simp: digit_range_def)
next
  assume "b < 10" "is_digit c \<and> a \<le> digit_val c \<and> digit_val c \<le> b"
  then show "c \<in> set (digit_range a b)" unfolding digit_range_def set_map
    by (intro image_eqI [of _ _ "digit_val c"]) auto
qed

lemma digits_09: "set s \<subseteq> set (digit_range 0 9) \<longleftrightarrow> list_all is_digit s"
proof -
  have "digit_val c \<le> 9" if "is_digit c" for c using digit_val_less [OF that] by linarith
  then have "c \<in> set (digit_range 0 9) \<longleftrightarrow> is_digit c" for c by (auto simp: digit_range_mem)
  then show ?thesis by (auto simp: list_all_iff)
qed

lemma dval_Nil [simp]: "dval [] = 0"
  by (simp add: dval_def)

lemma dval_snoc: "dval (s @ [c]) = 10 * dval s + digit_val c"
  by (simp add: dval_def)

lemma dval_append: "dval (s @ t) = dval s * 10 ^ length t + dval t"
  by (induction t rule: rev_induct) (simp_all add: dval_snoc algebra_simps flip: append_assoc)

lemma dval_Cons: "dval (c # t) = digit_val c * 10 ^ length t + dval t"
  using dval_append [of "[c]" t] by (simp add: dval_def)

lemma dval_less: "list_all is_digit s \<Longrightarrow> dval s < 10 ^ length s"
proof (induction s rule: rev_induct)
  case (snoc c s)
  then have "dval s < 10 ^ length s" "digit_val c < 10" by simp_all
  then show ?case by (simp add: dval_snoc)
qed simp

definition canonical :: "string \<Rightarrow> bool" where
  "canonical s \<longleftrightarrow> s \<noteq> [] \<and> list_all is_digit s \<and> (length s = 1 \<or> hd s \<noteq> CHR ''0'')"

lemma String_nat_rec: "js_String_nat n = (if n < 10 then [digit_char n] else js_String_nat (n div 10) @ [digit_char (n mod 10)])"
  by (subst js_String_nat.simps) (simp add: digit_char_def)

lemma digit_zero: "digit_char 0 = CHR ''0''"
  by code_simp

lemma digit_val_zero: "is_digit c \<Longrightarrow> digit_val c = 0 \<longleftrightarrow> c = CHR ''0''"
  using digit_char_val [of c] digit_zero by (auto simp: digit_val_def)

lemma String_nat_digits: "list_all is_digit (js_String_nat n) \<and> dval (js_String_nat n) = n \<and> (0 < n \<longrightarrow> hd (js_String_nat n) \<noteq> CHR ''0'')"
proof (induction n rule: less_induct)
  case (less n)
  show ?case
  proof (cases "n < 10")
    case True
    then show ?thesis using digit_val_zero [of "digit_char n"]
      by (subst (1 2 3) String_nat_rec) (auto simp: dval_def)
  next
    case False
    then show ?thesis using less [of "n div 10"] by (subst (1 2 3) String_nat_rec) (simp add: dval_snoc)
  qed
qed

lemma canonical_String: "canonical (js_String_nat n)"
  using String_nat_digits [of n] by (cases "n = 0") (simp_all add: canonical_def String_nat_rec [of 0])

lemma canonical_pos: "canonical s \<Longrightarrow> 1 < length s \<Longrightarrow> 10 ^ (length s - 1) \<le> dval s"
proof (cases s)
  case (Cons c t)
  assume "canonical s" "1 < length s"
  then have "is_digit c" "c \<noteq> CHR ''0''" using Cons by (auto simp: canonical_def)
  then have "1 \<le> digit_val c" using digit_val_zero [of c] by linarith
  then have "1 * 10 ^ length t \<le> digit_val c * 10 ^ length t" by (rule mult_right_mono) simp
  then have "10 ^ length t \<le> digit_val c * 10 ^ length t + dval t" by linarith
  then show ?thesis using Cons by (simp add: dval_Cons)
qed simp

lemma canonical_String_dval: "canonical s \<Longrightarrow> js_String_nat (dval s) = s"
proof (induction s rule: rev_induct)
  case (snoc c s)
  then have c: "is_digit c" "list_all is_digit s" by (auto simp: canonical_def)
  show ?case
  proof (cases s)
    case Nil
    then show ?thesis using c by (simp add: String_nat_rec dval_Cons)
  next
    case (Cons a t)
    then have "canonical s" using snoc.prems by (auto simp: canonical_def)
    moreover from this have "0 < dval s"
    proof -
      have "a \<noteq> CHR ''0''" "is_digit a" using snoc.prems Cons by (auto simp: canonical_def)
      then have "1 \<le> digit_val a" using digit_val_zero [of a] by linarith
      then show ?thesis using Cons by (simp add: dval_Cons)
    qed
    ultimately show ?thesis using snoc.IH c String_nat_rec [of "dval (s @ [c])"] by (simp add: dval_snoc)
  qed
qed (simp add: canonical_def)

section \<open>Bounded decimals\<close>

lemma dval_first_difference:
  assumes "list_all is_digit s" "list_all is_digit d" "length s = length d" "i < length d" "take i s = take i d"
    "digit_val (s ! i) < digit_val (d ! i)"
  shows "dval s < dval d"
proof -
  let ?k = "length d - Suc i"
  have split: "x = take i x @ x ! i # drop (Suc i) x" if "length x = length d" for x :: string
    using that assms(4) by (simp add: id_take_nth_drop)
  have v: "dval x = dval (take i x) * 10 ^ Suc ?k + digit_val (x ! i) * 10 ^ ?k + dval (drop (Suc i) x)"
    if "length x = length d" for x :: string
    by (subst split [OF that]) (simp only: dval_append dval_Cons length_Cons length_drop that add.assoc)
  have "list_all is_digit (drop (Suc i) s)" using assms(1) by (metis list_all_append append_take_drop_id)
  from dval_less [OF this] have "dval (drop (Suc i) s) < 10 ^ ?k" using assms(3) by simp
  moreover have "(digit_val (s ! i) + 1) * 10 ^ ?k \<le> digit_val (d ! i) * 10 ^ ?k" using assms(6) by (intro mult_right_mono) auto
  ultimately show ?thesis unfolding v [OF assms(3)] v [OF refl] assms(5) by (simp add: algebra_simps)
qed

lemma first_difference:
  assumes "length s = length d" "s \<noteq> d"
  obtains i where "i < length d" "take i s = take i d" "s ! i \<noteq> d ! i"
proof -
  from assms have "\<exists>i. i < length d \<and> s ! i \<noteq> d ! i" by (metis nth_equalityI)
  then obtain i where i: "i < length d" "s ! i \<noteq> d ! i" "\<And>j. j < i \<Longrightarrow> \<not> (j < length d \<and> s ! j \<noteq> d ! j)"
    using exists_least_iff [of "\<lambda>i. i < length d \<and> s ! i \<noteq> d ! i"] by metis
  then have "take i s = take i d" using assms(1) by (intro nth_take_lemma) auto
  then show thesis using i that by blast
qed

lemma lang_Cat3: "lang (Cat [a, b, c]) = {u @ v @ w | u v w. u \<in> lang a \<and> v \<in> lang b \<and> w \<in> lang c}"
  by fastforce

lemma js_String_int_digit: "0 \<le> i \<Longrightarrow> i < 10 \<Longrightarrow> js_String_int i = [digit_char (nat i)]"
  by (simp add: js_String_int_def String_nat_rec)

lemma magnitude_digit_lang:
  assumes "lo \<le> hi" "0 \<le> lo" "hi < 10"
  shows "lang (if hi = lo then Lit (js_String_int hi) else Cls (digit_range (nat lo) (nat hi))) =
    {[c] | c. is_digit c \<and> lo \<le> int (digit_val c) \<and> int (digit_val c) \<le> hi}" (is "?l = ?r")
proof (cases "hi = lo")
  case True
  have "c = digit_char (nat hi) \<longleftrightarrow> is_digit c \<and> hi \<le> int (digit_val c) \<and> int (digit_val c) \<le> hi" for c
  proof
    assume "is_digit c \<and> hi \<le> int (digit_val c) \<and> int (digit_val c) \<le> hi"
    then show "c = digit_char (nat hi)" using digit_char_val [of c] by (metis nat_int order_antisym)
  next
    assume "c = digit_char (nat hi)"
    then show "is_digit c \<and> hi \<le> int (digit_val c) \<and> int (digit_val c) \<le> hi" using assms by simp
  qed
  then show ?thesis using True assms by (auto simp: js_String_int_digit)
next
  case False
  then show ?thesis using assms by (auto simp: image_iff digit_range_mem le_nat_iff nat_le_iff)
qed

lemma magnitude_step_lang:
  assumes d: "list_all is_digit d" "i < length d"
  shows "(\<exists>r\<in>set (magnitude_step d i). s \<in> lang r) \<longleftrightarrow>
    length s = length d \<and> take i s = take i d \<and> list_all is_digit (drop i s) \<and>
    (if i = 0 then 1 else 0) \<le> digit_val (s ! i) \<and> digit_val (s ! i) < digit_val (d ! i)"
proof -
  let ?lo = "if i = 0 then 1 else 0 :: int"
  let ?hi = "int (digit_val (d ! i)) - 1"
  let ?k = "length d - i - 1"
  have "is_digit (d ! i)" using d by (simp add: list_all_length)
  then have l10: "?hi < 10" using digit_val_less [of "d ! i"] by linarith
  have rem: "lang (if ?k = 0 then Lit [] else Rep ?k ?k (Cls (digit_range 0 9))) = {w. length w = ?k \<and> list_all is_digit w}"
    by (auto simp: lang_Rep_Cls digits_09 simp del: lang.simps(7))
  have R: "(length s = length d \<and> take i s = take i d \<and> list_all is_digit (drop i s) \<and>
      ?lo \<le> int (digit_val (s ! i)) \<and> int (digit_val (s ! i)) \<le> ?hi) \<longleftrightarrow>
    (\<exists>c w. s = take i d @ [c] @ w \<and> is_digit c \<and> ?lo \<le> int (digit_val c) \<and> int (digit_val c) \<le> ?hi \<and>
       length w = ?k \<and> list_all is_digit w)" (is "?a \<longleftrightarrow> ?b")
  proof
    assume a: ?a
    then have "s = take i d @ [s ! i] @ drop (Suc i) s" using d(2) by (metis append_Cons append_Nil id_take_nth_drop)
    moreover have "drop i s = s ! i # drop (Suc i) s" using a d(2) by (simp add: Cons_nth_drop_Suc)
    ultimately show ?b using a by (intro exI [of _ "s ! i"] exI [of _ "drop (Suc i) s"]) auto
  next
    assume ?b
    then obtain c w where "s = take i d @ [c] @ w" "is_digit c" "?lo \<le> int (digit_val c)" "int (digit_val c) \<le> ?hi"
      "length w = ?k" "list_all is_digit w" by blast
    then show ?a using d(2) by (simp add: nth_append)
  qed
  show ?thesis
  proof (cases "?hi < ?lo")
    case True
    then show ?thesis by (auto simp: magnitude_step_def Let_def split: if_splits)
  next
    case False
    then have m: "magnitude_step d i = [Cat [Lit (take i d),
        if ?hi = ?lo then Lit (js_String_int ?hi) else Cls (digit_range (nat ?lo) (nat ?hi)),
        if ?k = 0 then Lit [] else Rep ?k ?k (Cls (digit_range 0 9))]]"
      by (simp only: magnitude_step_def Let_def if_False)
    have "(\<exists>r\<in>set (magnitude_step d i). s \<in> lang r) \<longleftrightarrow> (\<exists>c w. s = take i d @ [c] @ w \<and> is_digit c \<and> ?lo \<le> int (digit_val c) \<and>
        int (digit_val c) \<le> ?hi \<and> length w = ?k \<and> list_all is_digit w)"
    proof -
      have lo: "?lo \<le> ?hi" "0 \<le> ?lo" using False by (auto split: if_splits)
      note ml = magnitude_digit_lang [OF lo l10]
      have "(\<exists>r\<in>set (magnitude_step d i). s \<in> lang r) \<longleftrightarrow> s \<in> {u @ v @ w |u v w. u \<in> {take i d} \<and>
          v \<in> {[c] | c. is_digit c \<and> ?lo \<le> int (digit_val c) \<and> int (digit_val c) \<le> ?hi} \<and>
          w \<in> {w. length w = ?k \<and> list_all is_digit w}}"
        unfolding ml [symmetric] rem [symmetric] lang.simps(2) [symmetric] lang_Cat3 [symmetric] m by (simp only: list.set bex_simps insert_iff empty_iff) blast
      then show ?thesis by blast
    qed
    also have "\<dots> \<longleftrightarrow> (length s = length d \<and> take i s = take i d \<and> list_all is_digit (drop i s) \<and>
      ?lo \<le> int (digit_val (s ! i)) \<and> int (digit_val (s ! i)) \<le> ?hi)" using R by blast
    also have "\<dots> \<longleftrightarrow> length s = length d \<and> take i s = take i d \<and> list_all is_digit (drop i s) \<and>
      (if i = 0 then 1 else 0) \<le> digit_val (s ! i) \<and> digit_val (s ! i) < digit_val (d ! i)" by auto
    finally show ?thesis .
  qed
qed

lemma magnitude_alternatives:
  "s \<in> lang (Alt ([Lit ''0'', R] @ concat (map f [0..<n]) @ [Lit d])) \<longleftrightarrow>
     s = ''0'' \<or> s \<in> lang R \<or> (\<exists>i<n. \<exists>r\<in>set (f i). s \<in> lang r) \<or> s = d"
  unfolding lang_Alt by auto

lemma magnitude_short_lang:
  "s \<in> lang (Cat [Cls (digit_range 1 9), Rep 0 n (Cls (digit_range 0 9))]) \<longleftrightarrow>
     (\<exists>c w. s = c # w \<and> is_digit c \<and> 1 \<le> digit_val c \<and> list_all is_digit w \<and> length w \<le> n)"
proof -
  have "digit_val c \<le> 9" if "is_digit c" for c using digit_val_less [OF that] by linarith
  then have "set (digit_range 1 9) = {c. is_digit c \<and> 1 \<le> digit_val c}" by (auto simp: digit_range_mem)
  moreover have "lang (Cat [Cls (digit_range 1 9), Rep 0 n (Cls (digit_range 0 9))]) =
        {u @ v |u v. u \<in> (\<lambda>c. [c]) ` set (digit_range 1 9) \<and> v \<in> lang (Rep 0 n (Cls (digit_range 0 9)))}"
    by (simp del: lang.simps(7))
  ultimately have "s \<in> lang (Cat [Cls (digit_range 1 9), Rep 0 n (Cls (digit_range 0 9))]) \<longleftrightarrow>
      (\<exists>u v. s = u @ v \<and> (\<exists>c. u = [c] \<and> is_digit c \<and> 1 \<le> digit_val c) \<and> length v \<le> n \<and> list_all is_digit v)"
    unfolding lang_Rep_Cls digits_09 by auto
  then show ?thesis by (metis append_Cons append_Nil)
qed

lemma magnitude_lang:
  assumes "10 \<le> mx"
  shows "s \<in> lang (magnitudePattern mx) \<longleftrightarrow> canonical s \<and> dval s \<le> mx"
proof -
  define d where "d = js_String_nat mx"
  have d: "canonical d" "dval d = mx" "list_all is_digit d" using String_nat_digits [of mx] canonical_String by (auto simp: d_def)
  have len: "2 \<le> length d"
  proof (rule ccontr)
    assume "\<not> 2 \<le> length d"
    then have "10 ^ length d \<le> (10 :: nat) ^ 1" by (intro power_increasing) auto
    then show False using dval_less [OF d(3)] d(2) assms by simp
  qed
  have "canonical s \<and> dval s \<le> mx \<longleftrightarrow>
    s = ''0'' \<or> (\<exists>c w. s = c # w \<and> is_digit c \<and> 1 \<le> digit_val c \<and> list_all is_digit w \<and> length w \<le> length d - 2) \<or>
    (\<exists>i<length d. length s = length d \<and> take i s = take i d \<and> list_all is_digit (drop i s) \<and>
      (if i = 0 then 1 else 0) \<le> digit_val (s ! i) \<and> digit_val (s ! i) < digit_val (d ! i)) \<or> s = d" (is "?l \<longleftrightarrow> ?r")
  proof
    assume l: ?l
    then obtain c w where s: "s = c # w" "is_digit c" "list_all is_digit w" by (cases s) (auto simp: canonical_def)
    have le: "length s \<le> length d"
    proof (rule ccontr)
      assume n: "\<not> length s \<le> length d"
      have "dval d < 10 ^ length d" using dval_less [OF d(3)] .
      also have "(10 :: nat) ^ length d \<le> 10 ^ (length s - 1)" using n by (intro power_increasing) auto
      also have "\<dots> \<le> dval s" using canonical_pos l n len by auto
      finally show False using l d(2) by simp
    qed
    show ?r
    proof (cases "length s = length d")
      case False
      show ?thesis
      proof (cases "c = CHR ''0''")
        case True
        then show ?thesis using l s by (auto simp: canonical_def)
      next
        case nz: False
        then have "1 \<le> digit_val c" using digit_val_zero s(2) by (metis less_one not_le)
        moreover have "length w \<le> length d - 2" using False le s(1) by simp
        ultimately show ?thesis using s by blast
      qed
    next
      case True
      show ?thesis
      proof (cases "s = d")
        case False
        from first_difference [OF True False] obtain i where i: "i < length d" "take i s = take i d" "s ! i \<noteq> d ! i" .
        have sd: "list_all is_digit s" using l by (simp add: canonical_def)
        have "is_digit (s ! i)" "is_digit (d ! i)" using sd d(3) i(1) True by (auto simp: list_all_length)
        then have ne: "digit_val (s ! i) \<noteq> digit_val (d ! i)" using i(3) digit_val_inj by blast
        have "\<not> digit_val (d ! i) < digit_val (s ! i)"
          using dval_first_difference [OF d(3) sd True [symmetric] _ i(2) [symmetric]] i(1) True l d(2) by auto
        then have "digit_val (s ! i) < digit_val (d ! i)" using ne by simp
        moreover have "(if i = 0 then 1 else 0) \<le> digit_val (s ! i)"
        proof (cases "i = 0")
          case True
          have "hd s \<noteq> CHR ''0''" using l \<open>length s = length d\<close> len by (auto simp: canonical_def)
          then show ?thesis using True s digit_val_zero [of c] by auto
        qed simp
        moreover have "list_all is_digit (drop i s)" using sd by (metis list_all_append append_take_drop_id)
        ultimately show ?thesis using i(1,2) True by blast
      qed simp
    qed
  next
    assume ?r
    then show ?l
    proof (elim disjE exE conjE)
      assume "s = ''0''"
      then show ?thesis using assms by (simp add: canonical_def is_digit_def dval_def digit_val_def)
    next
      fix c w
      assume s: "s = c # w" "is_digit c" "1 \<le> digit_val c" "list_all is_digit w" "length w \<le> length d - 2"
      then have "c \<noteq> CHR ''0''" using digit_val_zero by fastforce
      then have c: "canonical s" using s by (simp add: canonical_def)
      have "dval s < 10 ^ length s" using dval_less [of s] s by simp
      also have "(10 :: nat) ^ length s \<le> 10 ^ (length d - 1)" using s len by (intro power_increasing) auto
      also have "\<dots> \<le> dval d" using canonical_pos [OF d(1)] len by simp
      finally show ?thesis using c d(2) by simp
    next
      fix i
      assume i: "i < length d" "length s = length d" "take i s = take i d" "list_all is_digit (drop i s)"
        "(if i = 0 then 1 else 0) \<le> digit_val (s ! i)" "digit_val (s ! i) < digit_val (d ! i)"
      have "list_all is_digit (take i s)" unfolding i(3) using d(3) by (metis list_all_append append_take_drop_id)
      then have sd: "list_all is_digit s" using i(4) by (metis list_all_append append_take_drop_id)
      have "hd s \<noteq> CHR ''0''"
      proof (cases "i = 0")
        case True
        have "s \<noteq> []" using i(2) len by auto
        then have "hd s = s ! 0" by (rule hd_conv_nth)
        moreover have "is_digit (s ! 0)" using sd i(1,2) True by (auto simp: list_all_length)
        ultimately show ?thesis using i(5) True digit_val_zero [of "s ! 0"] by auto
      next
        case False
        then have "hd s = hd d" using i(3) by (metis hd_take neq0_conv)
        then show ?thesis using d(1) len by (simp add: canonical_def)
      qed
      then have "canonical s" using sd i(2) len by (auto simp: canonical_def)
      moreover have "dval s < dval d" using dval_first_difference [OF sd d(3) i(2,1,3,6)] .
      ultimately show ?thesis using d(2) by simp
    next
      assume "s = d"
      then show ?thesis using d by simp
    qed
  qed
  moreover have "s \<in> lang (magnitudePattern mx) \<longleftrightarrow> s = ''0'' \<or>
      s \<in> lang (Cat [Cls (digit_range 1 9), Rep 0 (length d - 2) (Cls (digit_range 0 9))]) \<or>
      (\<exists>i<length d. \<exists>r\<in>set (magnitude_step d i). s \<in> lang r) \<or> s = d"
    unfolding magnitudePattern_def Let_def d_def [symmetric] by (rule magnitude_alternatives)
  ultimately show ?thesis unfolding magnitude_short_lang using magnitude_step_lang [OF d(3)] by (simp only: cong: conj_cong)
qed

lemma decimal_int64:
  "rx_test DECIMAL_INT64_PATTERN s \<longleftrightarrow>
     (\<exists>v. INT64_MIN \<le> v \<and> v \<le> INT64_MAX \<and> (s = js_String_int v \<or> v = 0 \<and> s = ''-0''))"
proof -
  have mag: "s \<in> lang (magnitudePattern mx) \<longleftrightarrow> (\<exists>n\<le>mx. s = js_String_nat n)" if "10 \<le> mx" for s mx
    unfolding magnitude_lang [OF that] using canonical_String_dval canonical_String String_nat_digits by (metis)
  have "s \<in> lang DECIMAL_INT64_PATTERN \<longleftrightarrow>
      s \<in> lang (magnitudePattern (nat INT64_MAX)) \<or> (\<exists>t. s = CHR ''-'' # t \<and> t \<in> lang (magnitudePattern (nat (- INT64_MIN))))"
    by (auto simp: DECIMAL_INT64_PATTERN_def)
  also have "\<dots> \<longleftrightarrow> (\<exists>n\<le>nat INT64_MAX. s = js_String_nat n) \<or> (\<exists>n\<le>nat (- INT64_MIN). s = CHR ''-'' # js_String_nat n)"
    using mag [of "nat INT64_MAX"] mag [of "nat (- INT64_MIN)"] by (auto simp: INT64_MAX_def INT64_MIN_def)
  also have "\<dots> \<longleftrightarrow> (\<exists>v. INT64_MIN \<le> v \<and> v \<le> INT64_MAX \<and> (s = js_String_int v \<or> v = 0 \<and> s = ''-0''))" (is "?l \<longleftrightarrow> ?r")
  proof
    assume ?l
    then show ?r
    proof (elim disjE exE conjE)
      fix n assume "n \<le> nat INT64_MAX" "s = js_String_nat n"
      then show ?r by (intro exI [of _ "int n"]) (auto simp: js_String_int_def INT64_MAX_def INT64_MIN_def)
    next
      fix n assume n: "n \<le> nat (- INT64_MIN)" "s = CHR ''-'' # js_String_nat n"
      then show ?r using digit_zero
        by (intro exI [of _ "- int n"]) (auto simp: js_String_int_def INT64_MAX_def INT64_MIN_def String_nat_rec [of 0])
    qed
  next
    assume ?r
    then obtain v where v: "INT64_MIN \<le> v" "v \<le> INT64_MAX" "s = js_String_int v \<or> v = 0 \<and> s = ''-0''" by blast
    have z: "''-0'' = CHR ''-'' # js_String_nat 0" using digit_zero by (simp add: String_nat_rec [of 0])
    show ?l
    proof (cases "v < 0 \<or> s = ''-0''")
      case True
      then have "s = CHR ''-'' # js_String_nat (nat (- v))" 
      proof (cases "v < 0")
        case False
        have "js_String_nat (nat v) \<noteq> ''-0''" using String_nat_digits [of "nat v"] by (auto simp: is_digit_def)
        then have "v = 0" using False \<open>v < 0 \<or> s = ''-0''\<close> v(3) by (auto simp: js_String_int_def)
        then show ?thesis using False \<open>v < 0 \<or> s = ''-0''\<close> z by simp
      qed (use v(3) in \<open>auto simp: js_String_int_def\<close>)
      then show ?thesis using v(1) by (intro disjI2 exI [of _ "nat (- v)"]) auto
    next
      case False
      then have "s = js_String_nat (nat v)" using v(3) by (auto simp: js_String_int_def)
      then show ?thesis using v(2) by (intro disjI1 exI [of _ "nat v"]) auto
    qed
  qed
  finally show ?thesis unfolding rx_test_lang .
qed

section \<open>Timestamps\<close>

lemma digits_n2: "digits_n 2 s \<longleftrightarrow> (\<exists>a b. s = [a, b] \<and> is_digit a \<and> is_digit b)"
  by (auto simp: digits_n_def numeral_2_eq_2 length_Suc_conv)

lemma digit_DD: "is_digit c \<longleftrightarrow> c \<in> set (digit_range 0 9)"
  using digits_09 [of "[c]"] by simp

lemma lang_Cat2: "lang (Cat [a, b]) = {u @ v | u v. u \<in> lang a \<and> v \<in> lang b}"
  by simp

lemma pair_Cls [simp]: "[a, b] \<in> lang (Cat [Cls A, Cls B]) \<longleftrightarrow> a \<in> set A \<and> b \<in> set B"
proof
  assume "a \<in> set A \<and> b \<in> set B"
  then show "[a, b] \<in> lang (Cat [Cls A, Cls B])"
    unfolding lang_Cat2 lang.simps(1) by (intro CollectI exI [of _ "[a]"] exI [of _ "[b]"] conjI) auto
qed auto

lemma pair_Lit [simp]: "[a, b] \<in> lang (Cat [Lit [c], Cls B]) \<longleftrightarrow> a = c \<and> b \<in> set B"
  by (auto simp: image_iff)

lemma lt10: "(x :: nat) < 10 \<Longrightarrow> x = 0 \<or> x = 1 \<or> x = 2 \<or> x = 3 \<or> x = 4 \<or> x = 5 \<or> x = 6 \<or> x = 7 \<or> x = 8 \<or> x = 9"
  by presburger

lemma digit_char_eq: "n < 10 \<Longrightarrow> c = digit_char n \<longleftrightarrow> is_digit c \<and> digit_val c = n"
  by auto

lemma digit_lits:
  "CHR ''0'' = digit_char 0" "CHR ''1'' = digit_char 1" "CHR ''2'' = digit_char 2" "CHR ''3'' = digit_char 3"
  "CHR ''4'' = digit_char 4" "CHR ''5'' = digit_char 5" "CHR ''6'' = digit_char 6" "CHR ''7'' = digit_char 7"
  "CHR ''8'' = digit_char 8" "CHR ''9'' = digit_char 9"
  by code_simp+

lemma char_digit:
  "c = CHR ''0'' \<longleftrightarrow> is_digit c \<and> digit_val c = 0" "c = CHR ''1'' \<longleftrightarrow> is_digit c \<and> digit_val c = 1"
  "c = CHR ''2'' \<longleftrightarrow> is_digit c \<and> digit_val c = 2" "c = CHR ''3'' \<longleftrightarrow> is_digit c \<and> digit_val c = 3"
  "c = CHR ''4'' \<longleftrightarrow> is_digit c \<and> digit_val c = 4" "c = CHR ''5'' \<longleftrightarrow> is_digit c \<and> digit_val c = 5"
  "c = CHR ''6'' \<longleftrightarrow> is_digit c \<and> digit_val c = 6" "c = CHR ''7'' \<longleftrightarrow> is_digit c \<and> digit_val c = 7"
  "c = CHR ''8'' \<longleftrightarrow> is_digit c \<and> digit_val c = 8" "c = CHR ''9'' \<longleftrightarrow> is_digit c \<and> digit_val c = 9"
  unfolding digit_lits by (simp_all add: digit_char_eq)

text \<open>A pattern for two digits is given by the values it allows.\<close>

lemma two_digit_rx:
  assumes "\<And>s. s \<in> lang R \<Longrightarrow> length s = 2"
    "\<And>a b. [a, b] \<in> lang R \<longleftrightarrow> is_digit a \<and> is_digit b \<and> Q (digit_val a) (digit_val b)"
    "\<And>x y. x < 10 \<Longrightarrow> y < 10 \<Longrightarrow> Q x y \<longleftrightarrow> P (10 * x + y)"
  shows "s \<in> lang R \<longleftrightarrow> digits_n 2 s \<and> P (dval s)"
proof (cases "length s = 2")
  case True
  then obtain a b where s: "s = [a, b]" by (auto simp: numeral_2_eq_2 length_Suc_conv)
  have "dval s = 10 * digit_val a + digit_val b" by (simp add: s dval_Cons)
  then show ?thesis using assms(2) [of a b] assms(3) digit_val_less by (auto simp: s digits_n2)
next
  case False
  then show ?thesis using assms(1) by (auto simp: digits_n_def)
qed

definition dd31 :: "char rx" where
  "dd31 = Alt [Cat [Lit ''0'', Cls (digit_range 1 9)], Cat [Cls ''12'', Cls (digit_range 0 9)], Cat [Lit ''3'', Cls ''01'']]"

definition dd30 :: "char rx" where
  "dd30 = Alt [Cat [Lit ''0'', Cls (digit_range 1 9)], Cat [Cls ''12'', Cls (digit_range 0 9)], Lit ''30'']"

definition dd28 :: "char rx" where
  "dd28 = Alt [Cat [Lit ''0'', Cls (digit_range 1 9)], Cat [Lit ''1'', Cls (digit_range 0 9)], Cat [Lit ''2'', Cls (digit_range 0 8)]]"

definition mm31 :: "char rx" where
  "mm31 = Alt [Lit ''01'', Lit ''03'', Lit ''05'', Lit ''07'', Lit ''08'', Lit ''10'', Lit ''12'']"

definition mm30 :: "char rx" where
  "mm30 = Alt [Lit ''04'', Lit ''06'', Lit ''09'', Lit ''11'']"

definition yy4 :: "char rx" where
  "yy4 = Alt [Cat [Lit ''0'', Cls ''48''], Cat [Cls ''2468'', Cls ''048''], Cat [Cls ''13579'', Cls ''26'']]"

definition cc4 :: "char rx" where
  "cc4 = Alt [Cat [Cls ''02468'', Cls ''048''], Cat [Cls ''13579'', Cls ''26'']]"

lemmas two_digit_defs = hour_rx_def minuteOrSecond_def dd31_def dd30_def dd28_def mm31_def mm30_def yy4_def cc4_def

lemma hour_lang: "s \<in> lang hour_rx \<longleftrightarrow> digits_n 2 s \<and> dval s \<le> 23"
proof (rule two_digit_rx [where Q = "\<lambda>x y. x \<le> 1 \<or> x = 2 \<and> y \<le> 3"])
  show "length s = 2" if "s \<in> lang hour_rx" for s using that by (auto simp: two_digit_defs)
  show "[a, b] \<in> lang hour_rx \<longleftrightarrow> is_digit a \<and> is_digit b \<and> (digit_val a \<le> 1 \<or> digit_val a = 2 \<and> digit_val b \<le> 3)" for a b
    unfolding two_digit_defs lang_Alt by (auto simp: digit_range_mem char_digit dest: digit_val_less simp del: lang.simps(3,4))
qed auto


lemma minute_lang: "s \<in> lang minuteOrSecond \<longleftrightarrow> digits_n 2 s \<and> dval s \<le> 59"
proof (rule two_digit_rx [where Q = "\<lambda>x y. x \<le> 5"])
  show "length s = 2" if "s \<in> lang minuteOrSecond" for s using that by (auto simp: two_digit_defs)
  show "[a, b] \<in> lang minuteOrSecond \<longleftrightarrow> is_digit a \<and> is_digit b \<and> (digit_val a \<le> 5)" for a b
    unfolding two_digit_defs lang_Alt by (auto simp: digit_range_mem char_digit dest: digit_val_less simp del: lang.simps(3,4))
qed auto


lemma dd31_lang: "s \<in> lang dd31 \<longleftrightarrow> digits_n 2 s \<and> (1 \<le> dval s \<and> dval s \<le> 31)"
proof (rule two_digit_rx [where Q = "\<lambda>x y. x = 0 \<and> 1 \<le> y \<or> (x = 1 \<or> x = 2) \<or> x = 3 \<and> (y = 0 \<or> y = 1)"])
  show "length s = 2" if "s \<in> lang dd31" for s using that by (auto simp: two_digit_defs)
  show "[a, b] \<in> lang dd31 \<longleftrightarrow> is_digit a \<and> is_digit b \<and> (digit_val a = 0 \<and> 1 \<le> digit_val b \<or> (digit_val a = 1 \<or> digit_val a = 2) \<or> digit_val a = 3 \<and> (digit_val b = 0 \<or> digit_val b = 1))" for a b
    unfolding two_digit_defs lang_Alt by (auto simp: digit_range_mem char_digit dest: digit_val_less simp del: lang.simps(3,4))
qed auto


lemma dd30_lang: "s \<in> lang dd30 \<longleftrightarrow> digits_n 2 s \<and> (1 \<le> dval s \<and> dval s \<le> 30)"
proof (rule two_digit_rx [where Q = "\<lambda>x y. x = 0 \<and> 1 \<le> y \<or> (x = 1 \<or> x = 2) \<or> x = 3 \<and> y = 0"])
  show "length s = 2" if "s \<in> lang dd30" for s using that by (auto simp: two_digit_defs)
  show "[a, b] \<in> lang dd30 \<longleftrightarrow> is_digit a \<and> is_digit b \<and> (digit_val a = 0 \<and> 1 \<le> digit_val b \<or> (digit_val a = 1 \<or> digit_val a = 2) \<or> digit_val a = 3 \<and> digit_val b = 0)" for a b
    unfolding two_digit_defs lang_Alt by (auto simp: digit_range_mem char_digit dest: digit_val_less simp del: lang.simps(3,4))
qed auto


lemma dd28_lang: "s \<in> lang dd28 \<longleftrightarrow> digits_n 2 s \<and> (1 \<le> dval s \<and> dval s \<le> 28)"
proof (rule two_digit_rx [where Q = "\<lambda>x y. x = 0 \<and> 1 \<le> y \<or> x = 1 \<or> x = 2 \<and> y \<le> 8"])
  show "length s = 2" if "s \<in> lang dd28" for s using that by (auto simp: two_digit_defs)
  show "[a, b] \<in> lang dd28 \<longleftrightarrow> is_digit a \<and> is_digit b \<and> (digit_val a = 0 \<and> 1 \<le> digit_val b \<or> digit_val a = 1 \<or> digit_val a = 2 \<and> digit_val b \<le> 8)" for a b
    unfolding two_digit_defs lang_Alt by (auto simp: digit_range_mem char_digit dest: digit_val_less simp del: lang.simps(3,4))
qed auto


lemma mm31_lang: "s \<in> lang mm31 \<longleftrightarrow> digits_n 2 s \<and> dval s \<in> {1, 3, 5, 7, 8, 10, 12}"
proof (rule two_digit_rx [where Q = "\<lambda>x y. x = 0 \<and> (y = 1 \<or> y = 3 \<or> y = 5 \<or> y = 7 \<or> y = 8) \<or> x = 1 \<and> (y = 0 \<or> y = 2)"])
  show "length s = 2" if "s \<in> lang mm31" for s using that by (auto simp: two_digit_defs)
  show "[a, b] \<in> lang mm31 \<longleftrightarrow> is_digit a \<and> is_digit b \<and> (digit_val a = 0 \<and> (digit_val b = 1 \<or> digit_val b = 3 \<or> digit_val b = 5 \<or> digit_val b = 7 \<or> digit_val b = 8) \<or> digit_val a = 1 \<and> (digit_val b = 0 \<or> digit_val b = 2))" for a b
    unfolding two_digit_defs lang_Alt by (auto simp: digit_range_mem char_digit dest: digit_val_less simp del: lang.simps(3,4))
qed (simp, presburger)


lemma mm30_lang: "s \<in> lang mm30 \<longleftrightarrow> digits_n 2 s \<and> dval s \<in> {4, 6, 9, 11}"
proof (rule two_digit_rx [where Q = "\<lambda>x y. x = 0 \<and> (y = 4 \<or> y = 6 \<or> y = 9) \<or> x = 1 \<and> y = 1"])
  show "length s = 2" if "s \<in> lang mm30" for s using that by (auto simp: two_digit_defs)
  show "[a, b] \<in> lang mm30 \<longleftrightarrow> is_digit a \<and> is_digit b \<and> (digit_val a = 0 \<and> (digit_val b = 4 \<or> digit_val b = 6 \<or> digit_val b = 9) \<or> digit_val a = 1 \<and> digit_val b = 1)" for a b
    unfolding two_digit_defs lang_Alt by (auto simp: digit_range_mem char_digit dest: digit_val_less simp del: lang.simps(3,4))
qed (simp, presburger)


lemma yy4_lang: "s \<in> lang yy4 \<longleftrightarrow> digits_n 2 s \<and> (dval s mod 4 = 0 \<and> dval s \<noteq> 0)"
proof (rule two_digit_rx [where Q = "\<lambda>x y. x = 0 \<and> (y = 4 \<or> y = 8) \<or> (x = 2 \<or> x = 4 \<or> x = 6 \<or> x = 8) \<and> (y = 0 \<or> y = 4 \<or> y = 8) \<or> (x = 1 \<or> x = 3 \<or> x = 5 \<or> x = 7 \<or> x = 9) \<and> (y = 2 \<or> y = 6)"])
  show "length s = 2" if "s \<in> lang yy4" for s using that by (auto simp: two_digit_defs)
  show "[a, b] \<in> lang yy4 \<longleftrightarrow> is_digit a \<and> is_digit b \<and> (digit_val a = 0 \<and> (digit_val b = 4 \<or> digit_val b = 8) \<or> (digit_val a = 2 \<or> digit_val a = 4 \<or> digit_val a = 6 \<or> digit_val a = 8) \<and> (digit_val b = 0 \<or> digit_val b = 4 \<or> digit_val b = 8) \<or> (digit_val a = 1 \<or> digit_val a = 3 \<or> digit_val a = 5 \<or> digit_val a = 7 \<or> digit_val a = 9) \<and> (digit_val b = 2 \<or> digit_val b = 6))" for a b
    unfolding two_digit_defs lang_Alt by (simp add: char_digit del: lang.simps(3,4)) blast
qed (drule lt10, drule lt10, elim disjE; simp)


lemma cc4_lang: "s \<in> lang cc4 \<longleftrightarrow> digits_n 2 s \<and> dval s mod 4 = 0"
proof (rule two_digit_rx [where Q = "\<lambda>x y. (x = 0 \<or> x = 2 \<or> x = 4 \<or> x = 6 \<or> x = 8) \<and> (y = 0 \<or> y = 4 \<or> y = 8) \<or> (x = 1 \<or> x = 3 \<or> x = 5 \<or> x = 7 \<or> x = 9) \<and> (y = 2 \<or> y = 6)"])
  show "length s = 2" if "s \<in> lang cc4" for s using that by (auto simp: two_digit_defs)
  show "[a, b] \<in> lang cc4 \<longleftrightarrow> is_digit a \<and> is_digit b \<and> ((digit_val a = 0 \<or> digit_val a = 2 \<or> digit_val a = 4 \<or> digit_val a = 6 \<or> digit_val a = 8) \<and> (digit_val b = 0 \<or> digit_val b = 4 \<or> digit_val b = 8) \<or> (digit_val a = 1 \<or> digit_val a = 3 \<or> digit_val a = 5 \<or> digit_val a = 7 \<or> digit_val a = 9) \<and> (digit_val b = 2 \<or> digit_val b = 6))" for a b
    unfolding two_digit_defs lang_Alt by (simp add: char_digit del: lang.simps(3,4)) blast
qed (drule lt10, drule lt10, elim disjE; simp)


lemma two_lit:
  assumes "x < 10" "y < 10"
  shows "s = [digit_char x, digit_char y] \<longleftrightarrow> digits_n 2 s \<and> dval s = 10 * x + y"
proof
  assume "digits_n 2 s \<and> dval s = 10 * x + y"
  then obtain a b where s: "s = [a, b]" "is_digit a" "is_digit b" "10 * digit_val a + digit_val b = 10 * x + y"
    by (auto simp: digits_n2 dval_Cons)
  have "(10 * digit_val a + digit_val b) mod 10 = (10 * x + y) mod 10" using s(4) by simp
  then have "digit_val b = y" using digit_val_less [OF s(3)] assms(2) by simp
  moreover from this have "digit_val a = x" using s(4) by simp
  ultimately show "s = [digit_char x, digit_char y]" using s by auto
qed (use assms in \<open>simp add: digits_n2 dval_Cons\<close>)

lemma lit02: "s = ''02'' \<longleftrightarrow> digits_n 2 s \<and> dval s = 2"
  unfolding digit_lits by (subst two_lit) (simp_all add: numeral_2_eq_2)

lemma lit29: "s = ''29'' \<longleftrightarrow> digits_n 2 s \<and> dval s = 29"
  using two_lit [of 2 9 s] by (simp flip: digit_lits)

lemma lit00: "s = ''00'' \<longleftrightarrow> digits_n 2 s \<and> dval s = 0"
  using two_lit [of 0 0 s] by (simp flip: digit_lits)

lemma digits_rep: "lang (Rep n n (Cls (digit_range 0 9))) = {s. digits_n n s}"
  unfolding lang_Rep_Cls digits_09 by (auto simp: digits_n_def)

lemma digits_n4: "digits_n 4 y \<longleftrightarrow> (\<exists>p q. y = p @ q \<and> digits_n 2 p \<and> digits_n 2 q)"
proof
  assume "digits_n 4 y"
  then have "y = take 2 y @ drop 2 y" "digits_n 2 (take 2 y)" "digits_n 2 (drop 2 y)"
    by (auto simp: digits_n_def list_all_iff dest: in_set_takeD in_set_dropD)
  then show "\<exists>p q. y = p @ q \<and> digits_n 2 p \<and> digits_n 2 q" by blast
qed (auto simp: digits_n_def)

lemma leap_century:
  assumes "b < 100"
  shows "isLeapYear (100 * a + b) \<longleftrightarrow> (b mod 4 = 0 \<and> b \<noteq> 0) \<or> (b = 0 \<and> a mod 4 = 0)"
proof -
  have "(100 * a + b) mod 4 = b mod 4" by presburger
  moreover have "(100 * a + b) mod 100 = b" using assms by simp
  moreover have "(100 * a) mod 400 = 0 \<longleftrightarrow> a mod 4 = 0"
    using mult_mod_right [of 100 a 4] by auto
  ultimately show ?thesis by (cases "b = 0") (simp_all add: isLeapYear_def)
qed

lemma leap_parts:
  "lang leapYear = {p @ q | p q. digits_n 2 p \<and> q \<in> lang yy4} \<union> {p @ q | p q. p \<in> lang cc4 \<and> q = ''00''}"
  unfolding leapYear_def yy4_def [symmetric] cc4_def [symmetric] lang.simps(2,5,6) lang_Cat2 digits_rep
  by (simp only: mem_Collect_eq singleton_iff Un_empty_right)

lemma leap_digits:
  assumes "digits_n 2 p" "digits_n 2 q"
  shows "isLeapYear (dval (p @ q)) \<longleftrightarrow> (dval q mod 4 = 0 \<and> dval q \<noteq> 0) \<or> (dval q = 0 \<and> dval p mod 4 = 0)"
proof -
  have "dval q < 100" "dval (p @ q) = 100 * dval p + dval q"
    using assms dval_less [of q] by (simp_all add: digits_n_def dval_append)
  then show ?thesis using leap_century by metis
qed

lemma leap_lang: "y \<in> lang leapYear \<longleftrightarrow> digits_n 4 y \<and> isLeapYear (dval y)"
proof
  assume "y \<in> lang leapYear"
  then obtain p q where "y = p @ q" "digits_n 2 p" "digits_n 2 q"
    "(dval q mod 4 = 0 \<and> dval q \<noteq> 0) \<or> (dval q = 0 \<and> dval p mod 4 = 0)"
    unfolding leap_parts Un_iff mem_Collect_eq yy4_lang lit00 cc4_lang by (elim disjE exE conjE) simp_all
  then show "digits_n 4 y \<and> isLeapYear (dval y)" using leap_digits digits_n4 by metis
next
  assume "digits_n 4 y \<and> isLeapYear (dval y)"
  then obtain p q where y: "y = p @ q" "digits_n 2 p" "digits_n 2 q"
    "(dval q mod 4 = 0 \<and> dval q \<noteq> 0) \<or> (dval q = 0 \<and> dval p mod 4 = 0)"
    using leap_digits digits_n4 by metis
  then show "y \<in> lang leapYear"
    unfolding leap_parts Un_iff mem_Collect_eq yy4_lang lit00 cc4_lang by metis
qed

definition date_ok :: "string \<Rightarrow> string \<Rightarrow> string \<Rightarrow> bool" where
  "date_ok y mo d \<longleftrightarrow> digits_n 4 y \<and> digits_n 2 mo \<and> digits_n 2 d \<and>
     1 \<le> dval mo \<and> dval mo \<le> 12 \<and> 1 \<le> dval d \<and> dval d \<le> daysInMonth (dval y) (dval mo)"

lemma date_ok_cases:
  "date_ok y mo d \<longleftrightarrow> digits_n 4 y \<and>
     (mo \<in> lang mm31 \<and> d \<in> lang dd31 \<or> mo \<in> lang mm30 \<and> d \<in> lang dd30 \<or> mo = ''02'' \<and> d \<in> lang dd28 \<or>
      y \<in> lang leapYear \<and> mo = ''02'' \<and> d = ''29'')"
proof -
  have twelve: "1 \<le> m \<and> m \<le> 12 \<longleftrightarrow> m \<in> {1, 3, 5, 7, 8, 10, 12} \<or> m \<in> {4, 6, 9, 11} \<or> m = 2" for m :: nat by (simp, presburger)
  show ?thesis unfolding date_ok_def mm31_lang mm30_lang dd31_lang dd30_lang dd28_lang lit02 lit29 leap_lang
    using twelve [of "dval mo"] by (auto simp: daysInMonth_def)
qed

lemma ordinary_parts:
  "lang ordinaryDate = {y @ x @ r |y x r. digits_n 4 y \<and> x = ''-'' \<and>
     ((\<exists>mo z d. r = mo @ z @ d \<and> mo \<in> lang mm31 \<and> z = ''-'' \<and> d \<in> lang dd31) \<or>
      (\<exists>mo z d. r = mo @ z @ d \<and> mo \<in> lang mm30 \<and> z = ''-'' \<and> d \<in> lang dd30) \<or>
      (\<exists>mo d. r = mo @ d \<and> mo = ''02-'' \<and> d \<in> lang dd28))}"
  unfolding ordinaryDate_def mm31_def [symmetric] mm30_def [symmetric] dd31_def [symmetric] dd30_def [symmetric] dd28_def [symmetric]
    lang_Cat3 lang_Cat2 lang.simps(2,5,6) digits_rep
  by (simp only: mem_Collect_eq singleton_iff Un_iff empty_iff simp_thms)

lemma date_lang:
  "s \<in> lang (Alt [ordinaryDate, Cat [leapYear, Lit ''-02-29'']]) \<longleftrightarrow>
     (\<exists>y mo d. s = y @ ''-'' @ mo @ ''-'' @ d \<and> date_ok y mo d)"
proof
  assume "s \<in> lang (Alt [ordinaryDate, Cat [leapYear, Lit ''-02-29'']])"
  then consider "s \<in> lang ordinaryDate" | y where "s = y @ ''-02-29''" "y \<in> lang leapYear"
    by (auto simp: lang_Cat2 simp del: lang.simps(3,4))
  then show "\<exists>y mo d. s = y @ ''-'' @ mo @ ''-'' @ d \<and> date_ok y mo d"
  proof cases
    case 1
    then obtain y x r where s: "s = y @ x @ r" "digits_n 4 y" "x = ''-''"
      "(\<exists>mo z d. r = mo @ z @ d \<and> mo \<in> lang mm31 \<and> z = ''-'' \<and> d \<in> lang dd31) \<or>
       (\<exists>mo z d. r = mo @ z @ d \<and> mo \<in> lang mm30 \<and> z = ''-'' \<and> d \<in> lang dd30) \<or>
       (\<exists>mo d. r = mo @ d \<and> mo = ''02-'' \<and> d \<in> lang dd28)"
      unfolding ordinary_parts mem_Collect_eq by (elim exE conjE) (rule that)
    from s(4) obtain mo d where "r = mo @ ''-'' @ d"
      "mo \<in> lang mm31 \<and> d \<in> lang dd31 \<or> mo \<in> lang mm30 \<and> d \<in> lang dd30 \<or> mo = ''02'' \<and> d \<in> lang dd28"
    proof (elim disjE exE conjE)
      fix mo z d
      assume "r = mo @ z @ d" "mo \<in> lang mm31" "z = ''-''" "d \<in> lang dd31"
      then show thesis by (intro that [of mo d]) simp_all
    next
      fix mo z d
      assume "r = mo @ z @ d" "mo \<in> lang mm30" "z = ''-''" "d \<in> lang dd30"
      then show thesis by (intro that [of mo d]) simp_all
    next
      fix mo d
      assume "r = mo @ d" "mo = ''02-''" "d \<in> lang dd28"
      then show thesis by (intro that [of "''02''" d]) simp_all
    qed
    then have "s = y @ ''-'' @ mo @ ''-'' @ d" "date_ok y mo d" using s(1-3) unfolding date_ok_cases by (simp, blast)
    then show ?thesis by metis
  next
    case 2
    then have "date_ok y ''02'' ''29''" unfolding date_ok_cases using leap_lang by blast
    moreover have "s = y @ ''-'' @ ''02'' @ ''-'' @ ''29''" using 2(1) by simp
    ultimately show ?thesis by metis
  qed
next
  assume "\<exists>y mo d. s = y @ ''-'' @ mo @ ''-'' @ d \<and> date_ok y mo d"
  then obtain y mo d where s: "s = y @ ''-'' @ mo @ ''-'' @ d" "digits_n 4 y"
    "mo \<in> lang mm31 \<and> d \<in> lang dd31 \<or> mo \<in> lang mm30 \<and> d \<in> lang dd30 \<or> mo = ''02'' \<and> d \<in> lang dd28 \<or>
      y \<in> lang leapYear \<and> mo = ''02'' \<and> d = ''29''" unfolding date_ok_cases by (elim exE conjE) (rule that)
  have "s \<in> lang ordinaryDate \<or> s \<in> lang (Cat [leapYear, Lit ''-02-29''])"
    using s(3)
  proof (elim disjE conjE)
    assume "y \<in> lang leapYear" "mo = ''02''" "d = ''29''"
    then have "s = y @ ''-02-29''" using s(1) by simp
    then show ?thesis using \<open>y \<in> lang leapYear\<close> unfolding lang_Cat2 lang.simps(2) by blast
  next
    assume d: "mo = ''02''" "d \<in> lang dd28"
    show ?thesis unfolding ordinary_parts mem_Collect_eq
      by (rule disjI1, rule exI [of _ y], rule exI [of _ "''-''"], rule exI [of _ "mo @ ''-'' @ d"]) (use s(1,2) d in simp)
  next
    assume d: "mo \<in> lang mm31" "d \<in> lang dd31"
    show ?thesis unfolding ordinary_parts mem_Collect_eq
      by (rule disjI1, rule exI [of _ y], rule exI [of _ "''-''"], rule exI [of _ "mo @ ''-'' @ d"]) (use s(1,2) d in auto)
  next
    assume d: "mo \<in> lang mm30" "d \<in> lang dd30"
    show ?thesis unfolding ordinary_parts mem_Collect_eq
      by (rule disjI1, rule exI [of _ y], rule exI [of _ "''-''"], rule exI [of _ "mo @ ''-'' @ d"]) (use s(1,2) d in auto)
  qed
  then show "s \<in> lang (Alt [ordinaryDate, Cat [leapYear, Lit ''-02-29'']])" by simp
qed

lemma CatI: "u \<in> lang r \<Longrightarrow> v \<in> lang (Cat rs) \<Longrightarrow> u @ v \<in> lang (Cat (r # rs))"
  by auto

lemma CatE: "s \<in> lang (Cat (r # rs)) \<Longrightarrow> (\<And>u v. s = u @ v \<Longrightarrow> u \<in> lang r \<Longrightarrow> v \<in> lang (Cat rs) \<Longrightarrow> thesis) \<Longrightarrow> thesis"
  by auto

lemma Cat1: "lang (Cat [r]) = lang r"
  by simp

lemma LitI: "w \<in> lang (Lit w)"
  by simp

lemma LitD: "s \<in> lang (Lit w) \<Longrightarrow> s = w"
  by simp

fun zone_ok :: "ts_zone \<Rightarrow> bool" where
  "zone_ok Zulu = True"
| "zone_ok (Offset sg hh mm) = (dval hh \<le> 23 \<and> dval mm \<le> 59)"

definition zone_rx :: "char rx" where
  "zone_rx = Alt [Lit ''Z'', Cat [Cls ''+-'', hour_rx, Lit '':'', minuteOrSecond]]"

lemma zone_form:
  "(\<exists>z'. zone_exec z = Some z' \<and> zone_ok z') \<longleftrightarrow>
     z = ''Z'' \<or> (\<exists>c h m. z = c # h @ '':'' @ m \<and> (c = CHR ''+'' \<or> c = CHR ''-'') \<and> h \<in> lang hour_rx \<and> m \<in> lang minuteOrSecond)"
  (is "?l \<longleftrightarrow> ?r")
proof
  assume ?l
  show ?r
  proof (cases "z = ''Z''")
    case False
    with \<open>?l\<close> have z: "length z = 6" "z ! 0 \<in> set ''+-''" "digits_n 2 (take 2 (drop 1 z))" "z ! 3 = CHR '':''" "digits_n 2 (drop 4 z)"
      "dval (take 2 (drop 1 z)) \<le> 23" "dval (drop 4 z) \<le> 59" by (auto simp: zone_exec_def split: if_splits)
    from z(1) obtain a b c d e f where zz: "z = [a, b, c, d, e, f]" by (auto simp: eval_nat_numeral length_Suc_conv)
    have "z = a # [b, c] @ '':'' @ [e, f]" using z(4) zz by simp
    moreover have "[b, c] \<in> lang hour_rx" "[e, f] \<in> lang minuteOrSecond" unfolding hour_lang minute_lang using z zz by simp_all
    moreover have "a = CHR ''+'' \<or> a = CHR ''-''" using z(2) zz by simp
    ultimately show ?thesis by blast
  qed simp
next
  assume r: ?r
  show ?l
  proof (cases "z = ''Z''")
    case True
    then show ?thesis by (simp add: zone_exec_def)
  next
    case False
    then obtain c h m where z: "z = c # h @ '':'' @ m" "h \<in> lang hour_rx" "m \<in> lang minuteOrSecond" "c = CHR ''+'' \<or> c = CHR ''-''"
      using r by blast
    moreover from this obtain h1 h2 m1 m2 where "h = [h1, h2]" "m = [m1, m2]" by (auto simp: hour_lang minute_lang digits_n2)
    ultimately show ?thesis by (auto simp: zone_exec_def hour_lang minute_lang)
  qed
qed

lemma zone_lang: "z \<in> lang zone_rx \<longleftrightarrow> (\<exists>z'. zone_exec z = Some z' \<and> zone_ok z')"
proof -
  have "z \<in> lang zone_rx \<longleftrightarrow> z = ''Z'' \<or>
      (\<exists>c h m. z = c # h @ '':'' @ m \<and> (c = CHR ''+'' \<or> c = CHR ''-'') \<and> h \<in> lang hour_rx \<and> m \<in> lang minuteOrSecond)"
  proof -
    have "z \<in> lang zone_rx \<longleftrightarrow> z = ''Z'' \<or> z \<in> lang (Cat [Cls ''+-'', hour_rx, Lit '':'', minuteOrSecond])"
      by (simp add: zone_rx_def del: lang.simps(3,4))
    also have "z \<in> lang (Cat [Cls ''+-'', hour_rx, Lit '':'', minuteOrSecond]) \<longleftrightarrow>
        (\<exists>c h x m. z = [c] @ h @ x @ m \<and> (c = CHR ''+'' \<or> c = CHR ''-'') \<and> h \<in> lang hour_rx \<and> x = '':'' \<and> m \<in> lang minuteOrSecond)"
    proof
      assume "z \<in> lang (Cat [Cls ''+-'', hour_rx, Lit '':'', minuteOrSecond])"
      then obtain c v1 where v1: "z = c @ v1" "c \<in> lang (Cls ''+-'')" "v1 \<in> lang (Cat [hour_rx, Lit '':'', minuteOrSecond])" by (rule CatE)
      from v1(3) obtain h v2 where v2: "v1 = h @ v2" "h \<in> lang hour_rx" "v2 \<in> lang (Cat [Lit '':'', minuteOrSecond])" by (rule CatE)
      from v2(3) obtain x m where m: "v2 = x @ m" "x \<in> lang (Lit '':'')" "m \<in> lang (Cat [minuteOrSecond])" by (rule CatE)
      obtain c' where c: "c = [c']" "c' = CHR ''+'' \<or> c' = CHR ''-''" using v1(2) by auto
      moreover have "z = [c'] @ h @ x @ m" using v1(1) v2(1) m(1) c(1) by simp
      ultimately show "\<exists>c h x m. z = [c] @ h @ x @ m \<and> (c = CHR ''+'' \<or> c = CHR ''-'') \<and> h \<in> lang hour_rx \<and> x = '':'' \<and> m \<in> lang minuteOrSecond"
        using v2(2) LitD [OF m(2)] m(3) [unfolded Cat1] by blast
    next
      assume "\<exists>c h x m. z = [c] @ h @ x @ m \<and> (c = CHR ''+'' \<or> c = CHR ''-'') \<and> h \<in> lang hour_rx \<and> x = '':'' \<and> m \<in> lang minuteOrSecond"
      then obtain c h x m where z: "z = [c] @ h @ x @ m" "c = CHR ''+'' \<or> c = CHR ''-''" "h \<in> lang hour_rx" "x = '':''" "m \<in> lang minuteOrSecond" by blast
      have "[c] \<in> lang (Cls ''+-'')" "x \<in> lang (Lit '':'')" using z by auto
      then show "z \<in> lang (Cat [Cls ''+-'', hour_rx, Lit '':'', minuteOrSecond])"
        unfolding z(1) using z(3,5) by (intro CatI) (simp_all only: Cat1)
    qed
    finally show ?thesis by simp
  qed
  then show ?thesis unfolding zone_form .
qed

lemma zone_head: "zone_exec z = Some z' \<Longrightarrow> z \<noteq> [] \<and> \<not> is_digit (hd z) \<and> hd z \<noteq> CHR ''.''"
proof (cases z)
  case (Cons c t)
  assume "zone_exec z = Some z'"
  then have "c = CHR ''Z'' \<or> c = CHR ''+'' \<or> c = CHR ''-''" using Cons by (auto simp: zone_exec_def split: if_splits)
  then show ?thesis using Cons by (auto simp: is_digit_def)
qed (simp add: zone_exec_def)

lemma takeWhile_run: "list_all P f \<Longrightarrow> z = [] \<or> \<not> P (hd z) \<Longrightarrow> takeWhile P (f @ z) = f"
proof (induction f)
  case Nil
  then show ?case by (cases z) auto
qed auto

lemma fraction_form:
  "fraction_exec t = Some (f, z) \<longleftrightarrow>
     (f = [] \<and> zone_exec t = Some z) \<or>
     (\<exists>r. t = CHR ''.'' # f @ r \<and> 1 \<le> length f \<and> length f \<le> 9 \<and> list_all is_digit f \<and> zone_exec r = Some z)" (is "?l \<longleftrightarrow> ?r")
proof
  assume l: ?l
  then obtain c t' where t: "t = c # t'" by (cases t) (auto simp: fraction_exec_def)
  show ?r
  proof (cases "c = CHR ''.''")
    case True
    let ?f = "takeWhile is_digit t'"
    have "1 \<le> length ?f" "length ?f \<le> 9" "f = ?f" "zone_exec (drop (length ?f) t') = Some z"
      using l t True by (auto simp: fraction_exec_def Let_def split: if_splits)
    moreover have "?f @ drop (length ?f) t' = t'" by (metis dropWhile_eq_drop takeWhile_dropWhile_id)
    moreover have "list_all is_digit ?f" by (auto simp: list_all_iff dest: set_takeWhileD)
    ultimately have "t = CHR ''.'' # f @ drop (length f) t'" "1 \<le> length f" "length f \<le> 9" "list_all is_digit f"
      "zone_exec (drop (length f) t') = Some z" using t True by simp_all
    then show ?thesis by blast
  next
    case False
    then show ?thesis using l t by (auto simp: fraction_exec_def)
  qed
next
  assume ?r
  then show ?l
  proof (elim disjE exE conjE)
    assume "f = []" "zone_exec t = Some z"
    then show ?thesis using zone_head [of t z] by (cases t) (auto simp: fraction_exec_def)
  next
    fix r
    assume "t = CHR ''.'' # f @ r" "1 \<le> length f" "length f \<le> 9" "list_all is_digit f" "zone_exec r = Some z"
    then show ?thesis using takeWhile_run [of is_digit f r] zone_head [of r z] by (simp add: fraction_exec_def Let_def)
  qed
qed

definition tail_rx :: "char rx" where
  "tail_rx = Cat [Rep 0 1 (Cat [Lit ''.'', Rep 1 9 (Cls (digit_range 0 9))]), zone_rx]"

lemma lang_optional: "lang (Rep 0 1 R) = {[]} \<union> lang R"
proof -
  have "{0..1} = {0, 1 :: nat}" by auto
  then show ?thesis by simp
qed

lemma fraction_lang:
  "lang (Cat [Lit ''.'', Rep 1 9 (Cls (digit_range 0 9))]) = {CHR ''.'' # f | f. 1 \<le> length f \<and> length f \<le> 9 \<and> list_all is_digit f}"
  unfolding lang_Cat2 lang_Rep_Cls digits_09 lang.simps(2) by simp

lemma fraction_zone:
  "(\<exists>f z. fraction_exec t = Some (f, z) \<and> zone_ok z) \<longleftrightarrow> t \<in> lang zone_rx \<or>
      (\<exists>f r. t = CHR ''.'' # f @ r \<and> 1 \<le> length f \<and> length f \<le> 9 \<and> list_all is_digit f \<and> r \<in> lang zone_rx)"
proof
  assume "\<exists>f z. fraction_exec t = Some (f, z) \<and> zone_ok z"
  then obtain f z where "fraction_exec t = Some (f, z)" "zone_ok z" by blast
  then show "t \<in> lang zone_rx \<or>
      (\<exists>f r. t = CHR ''.'' # f @ r \<and> 1 \<le> length f \<and> length f \<le> 9 \<and> list_all is_digit f \<and> r \<in> lang zone_rx)"
    unfolding zone_lang fraction_form by blast
next
  assume "t \<in> lang zone_rx \<or>
      (\<exists>f r. t = CHR ''.'' # f @ r \<and> 1 \<le> length f \<and> length f \<le> 9 \<and> list_all is_digit f \<and> r \<in> lang zone_rx)"
  then show "\<exists>f z. fraction_exec t = Some (f, z) \<and> zone_ok z"
    unfolding zone_lang fraction_form by (elim disjE exE conjE) blast+
qed

lemma tail_lang: "t \<in> lang tail_rx \<longleftrightarrow> (\<exists>f z. fraction_exec t = Some (f, z) \<and> zone_ok z)"
proof -
  note F = fraction_lang and R = lang_optional
  have "t \<in> lang tail_rx \<longleftrightarrow> t \<in> lang zone_rx \<or>
      (\<exists>f r. t = CHR ''.'' # f @ r \<and> 1 \<le> length f \<and> length f \<le> 9 \<and> list_all is_digit f \<and> r \<in> lang zone_rx)"
  proof
    assume "t \<in> lang tail_rx"
    then obtain u r where u: "t = u @ r" "r \<in> lang zone_rx" "u = [] \<or> u \<in> {CHR ''.'' # f | f. 1 \<le> length f \<and> length f \<le> 9 \<and> list_all is_digit f}"
      unfolding tail_rx_def lang_Cat2 unfolding R F by blast
    from u(3) show "t \<in> lang zone_rx \<or>
      (\<exists>f r. t = CHR ''.'' # f @ r \<and> 1 \<le> length f \<and> length f \<le> 9 \<and> list_all is_digit f \<and> r \<in> lang zone_rx)"
    proof
      assume "u = []"
      then show ?thesis using u by simp
    next
      assume "u \<in> {CHR ''.'' # f | f. 1 \<le> length f \<and> length f \<le> 9 \<and> list_all is_digit f}"
      then obtain f where "u = CHR ''.'' # f" "1 \<le> length f" "length f \<le> 9" "list_all is_digit f" by blast
      then show ?thesis using u by (intro disjI2 exI [of _ f] exI [of _ r]) simp
    qed
  next
    assume "t \<in> lang zone_rx \<or>
      (\<exists>f r. t = CHR ''.'' # f @ r \<and> 1 \<le> length f \<and> length f \<le> 9 \<and> list_all is_digit f \<and> r \<in> lang zone_rx)"
    then show "t \<in> lang tail_rx"
    proof (elim disjE exE conjE)
      assume "t \<in> lang zone_rx"
      then show ?thesis unfolding tail_rx_def lang_Cat2 unfolding R F by (intro CollectI exI [of _ "[]"] exI [of _ t]) simp
    next
      fix f r
      assume "t = CHR ''.'' # f @ r" "1 \<le> length f" "length f \<le> 9" "list_all is_digit f" "r \<in> lang zone_rx"
      then have "t = (CHR ''.'' # f) @ r" "CHR ''.'' # f \<in> {[]} \<union> {CHR ''.'' # f | f. 1 \<le> length f \<and> length f \<le> 9 \<and> list_all is_digit f}"
        "r \<in> lang zone_rx" by auto
      then show ?thesis unfolding tail_rx_def lang_Cat2 unfolding R F by blast
    qed
  qed
  then show ?thesis unfolding fraction_zone .
qed

definition ts_ok :: "ts_match \<Rightarrow> bool" where
  "ts_ok m \<longleftrightarrow> date_ok (m_year m) (m_month m) (m_day m) \<and> m_hour m \<in> lang hour_rx \<and>
     m_minute m \<in> lang minuteOrSecond \<and> m_second m \<in> lang minuteOrSecond \<and> zone_ok (m_zone m)"

definition ts_digits :: "ts_match \<Rightarrow> bool" where
  "ts_digits m \<longleftrightarrow> digits_n 4 (m_year m) \<and> digits_n 2 (m_month m) \<and> digits_n 2 (m_day m) \<and> digits_n 2 (m_hour m) \<and>
     digits_n 2 (m_minute m) \<and> digits_n 2 (m_second m)"

definition ts_text :: "ts_match \<Rightarrow> string \<Rightarrow> string" where
  "ts_text m t = m_year m @ ''-'' @ m_month m @ ''-'' @ m_day m @ ''T'' @ m_hour m @ '':'' @ m_minute m @ '':'' @ m_second m @ t"

lemma TIMESTAMP_form:
  "TIMESTAMP_exec s = Some m \<longleftrightarrow>
     ts_digits m \<and> (\<exists>t. s = ts_text m t \<and> fraction_exec t = Some (m_fraction m, m_zone m))" (is "?l \<longleftrightarrow> ?r")
proof
  assume l: ?l
  then have len: "19 \<le> length s" by (auto simp: TIMESTAMP_exec_def split: if_splits)
  have "length (take 19 s) = 19" using len by simp
  then obtain a b c d e f g h i j k l' m' n p q u v w where t: "take 19 s = [a,b,c,d,e,f,g,h,i,j,k,l',m',n,p,q,u,v,w]"
    by (auto simp: eval_nat_numeral length_Suc_conv simp del: length_take)
  have s: "s = [a,b,c,d,e,f,g,h,i,j,k,l',m',n,p,q,u,v,w] @ drop 19 s" using t by (metis append_take_drop_id)
  define r where "r = drop 19 s"
  have "s = a#b#c#d#e#f#g#h#i#j#k#l'#m'#n#p#q#u#v#w#r" using s r_def by simp
  then show ?r using l
    by (auto simp: TIMESTAMP_exec_def ts_digits_def ts_text_def eval_nat_numeral split: if_splits)
next
  assume r: ?r
  then obtain t where t: "s = ts_text m t" "fraction_exec t = Some (m_fraction m, m_zone m)" "ts_digits m" by blast
  obtain y1 y2 y3 y4 where y: "m_year m = [y1, y2, y3, y4]"
    using t(3) by (auto simp: ts_digits_def digits_n_def eval_nat_numeral length_Suc_conv)
  obtain a b c d e f g h i j where f: "m_month m = [a, b]" "m_day m = [c, d]" "m_hour m = [e, f]" "m_minute m = [g, h]" "m_second m = [i, j]"
    using t(3) unfolding ts_digits_def digits_n2 by blast
  show ?l using t f y by (simp add: TIMESTAMP_exec_def ts_digits_def ts_text_def)
qed

lemma nanos_defined: "timestampToEpochNanos s \<noteq> None \<longleftrightarrow> (\<exists>m. TIMESTAMP_exec s = Some m \<and> ts_ok m)"
proof (cases "TIMESTAMP_exec s")
  case None
  then show ?thesis by (simp add: timestampToEpochNanos_def)
next
  case (Some m)
  then have "ts_digits m" unfolding TIMESTAMP_form by blast
  then show ?thesis using Some
    by (cases "m_zone m") (auto simp: timestampToEpochNanos_def ts_ok_def ts_digits_def date_ok_def hour_lang minute_lang Let_def)
qed

lemma rfc3339_text:
  "s \<in> lang RFC3339_TIMESTAMP_PATTERN \<longleftrightarrow>
     (\<exists>y mo d h mi se t. s = y @ ''-'' @ mo @ ''-'' @ d @ ''T'' @ h @ '':'' @ mi @ '':'' @ se @ t \<and> date_ok y mo d \<and>
        h \<in> lang hour_rx \<and> mi \<in> lang minuteOrSecond \<and> se \<in> lang minuteOrSecond \<and> t \<in> lang tail_rx)"
proof -
  let ?dt = "Alt [ordinaryDate, Cat [leapYear, Lit ''-02-29'']]"
  have "s \<in> lang RFC3339_TIMESTAMP_PATTERN \<longleftrightarrow>
      (\<exists>dt h mi se t. s = dt @ ''T'' @ h @ '':'' @ mi @ '':'' @ se @ t \<and> dt \<in> lang ?dt \<and> h \<in> lang hour_rx \<and>
        mi \<in> lang minuteOrSecond \<and> se \<in> lang minuteOrSecond \<and> t \<in> lang tail_rx)"
  proof
    assume "s \<in> lang RFC3339_TIMESTAMP_PATTERN"
    then obtain dt v1 where v1: "s = dt @ v1" "dt \<in> lang ?dt" "v1 \<in> lang (Cat [Lit ''T'', hour_rx, Lit '':'', minuteOrSecond, Lit '':'',
        minuteOrSecond, Rep 0 1 (Cat [Lit ''.'', Rep 1 9 (Cls (digit_range 0 9))]), zone_rx])"
      unfolding RFC3339_TIMESTAMP_PATTERN_def zone_rx_def [symmetric] by (rule CatE)
    from v1(3) obtain v2 where v2: "v1 = ''T'' @ v2" "v2 \<in> lang (Cat [hour_rx, Lit '':'', minuteOrSecond, Lit '':'',
        minuteOrSecond, Rep 0 1 (Cat [Lit ''.'', Rep 1 9 (Cls (digit_range 0 9))]), zone_rx])"
      by (rule CatE) (drule LitD, use that in simp)
    from v2(2) obtain h v3 where v3: "v2 = h @ v3" "h \<in> lang hour_rx" "v3 \<in> lang (Cat [Lit '':'', minuteOrSecond, Lit '':'',
        minuteOrSecond, Rep 0 1 (Cat [Lit ''.'', Rep 1 9 (Cls (digit_range 0 9))]), zone_rx])" by (rule CatE)
    from v3(3) obtain v4 where v4: "v3 = '':'' @ v4" "v4 \<in> lang (Cat [minuteOrSecond, Lit '':'',
        minuteOrSecond, Rep 0 1 (Cat [Lit ''.'', Rep 1 9 (Cls (digit_range 0 9))]), zone_rx])"
      by (rule CatE) (drule LitD, use that in simp)
    from v4(2) obtain mi v5 where v5: "v4 = mi @ v5" "mi \<in> lang minuteOrSecond" "v5 \<in> lang (Cat [Lit '':'',
        minuteOrSecond, Rep 0 1 (Cat [Lit ''.'', Rep 1 9 (Cls (digit_range 0 9))]), zone_rx])" by (rule CatE)
    from v5(3) obtain v6 where v6: "v5 = '':'' @ v6" "v6 \<in> lang (Cat [minuteOrSecond,
        Rep 0 1 (Cat [Lit ''.'', Rep 1 9 (Cls (digit_range 0 9))]), zone_rx])"
      by (rule CatE) (drule LitD, use that in simp)
    from v6(2) obtain se t where t: "v6 = se @ t" "se \<in> lang minuteOrSecond" "t \<in> lang tail_rx"
      unfolding tail_rx_def by (rule CatE)
    show "\<exists>dt h mi se t. s = dt @ ''T'' @ h @ '':'' @ mi @ '':'' @ se @ t \<and> dt \<in> lang ?dt \<and> h \<in> lang hour_rx \<and>
        mi \<in> lang minuteOrSecond \<and> se \<in> lang minuteOrSecond \<and> t \<in> lang tail_rx"
      unfolding v1(1) v2(1) v3(1) v4(1) v5(1) v6(1) t(1) using v1(2) v3(2) v5(2) t(2,3) by blast
  next
    assume "\<exists>dt h mi se t. s = dt @ ''T'' @ h @ '':'' @ mi @ '':'' @ se @ t \<and> dt \<in> lang ?dt \<and> h \<in> lang hour_rx \<and>
        mi \<in> lang minuteOrSecond \<and> se \<in> lang minuteOrSecond \<and> t \<in> lang tail_rx"
    then obtain dt h mi se t where s: "s = dt @ ''T'' @ h @ '':'' @ mi @ '':'' @ se @ t" "dt \<in> lang ?dt" "h \<in> lang hour_rx"
        "mi \<in> lang minuteOrSecond" "se \<in> lang minuteOrSecond" "t \<in> lang tail_rx" by blast
    show "s \<in> lang RFC3339_TIMESTAMP_PATTERN"
      unfolding RFC3339_TIMESTAMP_PATTERN_def zone_rx_def [symmetric] s(1)
      by (rule CatI [OF s(2)], rule CatI [OF LitI], rule CatI [OF s(3)], rule CatI [OF LitI], rule CatI [OF s(4)],
          rule CatI [OF LitI], rule CatI [OF s(5)], rule s(6) [unfolded tail_rx_def])
  qed
  also have "\<dots> \<longleftrightarrow> (\<exists>y mo d h mi se t. s = y @ ''-'' @ mo @ ''-'' @ d @ ''T'' @ h @ '':'' @ mi @ '':'' @ se @ t \<and> date_ok y mo d \<and>
        h \<in> lang hour_rx \<and> mi \<in> lang minuteOrSecond \<and> se \<in> lang minuteOrSecond \<and> t \<in> lang tail_rx)" (is "?l \<longleftrightarrow> ?r")
  proof
    assume ?l
    then obtain y mo d h mi se t where s: "s = (y @ ''-'' @ mo @ ''-'' @ d) @ ''T'' @ h @ '':'' @ mi @ '':'' @ se @ t" "date_ok y mo d"
      "h \<in> lang hour_rx" "mi \<in> lang minuteOrSecond" "se \<in> lang minuteOrSecond" "t \<in> lang tail_rx" unfolding date_lang by blast
    then show ?r unfolding append_assoc by blast
  next
    assume ?r
    then obtain y mo d h mi se t where s: "s = (y @ ''-'' @ mo @ ''-'' @ d) @ ''T'' @ h @ '':'' @ mi @ '':'' @ se @ t" "date_ok y mo d"
      "h \<in> lang hour_rx" "mi \<in> lang minuteOrSecond" "se \<in> lang minuteOrSecond" "t \<in> lang tail_rx" unfolding append_assoc by blast
    then show ?l unfolding date_lang by blast
  qed
  finally show ?thesis .
qed

lemma rfc3339_pattern: "rx_test RFC3339_TIMESTAMP_PATTERN s \<longleftrightarrow> timestampToEpochNanos s \<noteq> None"
proof -
  have "timestampToEpochNanos s \<noteq> None \<longleftrightarrow> (\<exists>m t. s = ts_text m t \<and> fraction_exec t = Some (m_fraction m, m_zone m) \<and> ts_ok m)"
    unfolding nanos_defined TIMESTAMP_form ts_ok_def ts_digits_def date_ok_def hour_lang minute_lang by blast
  also have "\<dots> \<longleftrightarrow> (\<exists>y mo d h mi se t. s = y @ ''-'' @ mo @ ''-'' @ d @ ''T'' @ h @ '':'' @ mi @ '':'' @ se @ t \<and> date_ok y mo d \<and>
        h \<in> lang hour_rx \<and> mi \<in> lang minuteOrSecond \<and> se \<in> lang minuteOrSecond \<and> t \<in> lang tail_rx)" (is "?l \<longleftrightarrow> ?r")
  proof
    assume ?l
    then show ?r unfolding ts_text_def ts_ok_def tail_lang by blast
  next
    assume ?r
    then obtain y mo d h mi se t f z where a: "s = y @ ''-'' @ mo @ ''-'' @ d @ ''T'' @ h @ '':'' @ mi @ '':'' @ se @ t"
      "date_ok y mo d" "h \<in> lang hour_rx" "mi \<in> lang minuteOrSecond" "se \<in> lang minuteOrSecond"
      "fraction_exec t = Some (f, z)" "zone_ok z" unfolding tail_lang by blast
    show ?l
      by (rule exI [of _ "\<lparr>m_year = y, m_month = mo, m_day = d, m_hour = h, m_minute = mi, m_second = se, m_fraction = f, m_zone = z\<rparr>"],
          rule exI [of _ t]) (use a in \<open>simp add: ts_text_def ts_ok_def\<close>)
  qed
  finally show ?thesis unfolding rx_test_lang rfc3339_text by simp
qed

section \<open>Properties\<close>

text \<open>
  C15. The generated pattern for 64-bit decimals accepts exactly the canonical decimal texts of the signed
  64-bit integers, and \<open>-0\<close>.
\<close>

theorem DECIMAL_INT64_PATTERN_exact:
  "rx_test DECIMAL_INT64_PATTERN s \<longleftrightarrow>
     (\<exists>v. INT64_MIN \<le> v \<and> v \<le> INT64_MAX \<and> (s = js_String_int v \<or> v = 0 \<and> s = ''-0''))"
  by (rule decimal_int64)

text \<open>
  C16. The schema pattern for timestamps and the timestamp parser accept the same strings, so that a value
  that passed the schema always has an instant, and leap days, month lengths and offsets agree.
\<close>

theorem RFC3339_TIMESTAMP_PATTERN_parses:
  "rx_test RFC3339_TIMESTAMP_PATTERN s \<longleftrightarrow> timestampToEpochNanos s \<noteq> None"
  by (rule rfc3339_pattern)

end
