(* ===== verification/Event_Predicate.thy ===== *)
theory Event_Predicate
  imports Event_Scalars
begin

text \<open>
  Signal predicates, after \<^verbatim>\<open>packages/eventing-core/src/model.ts\<close>, \<^verbatim>\<open>input-budget.ts\<close> and
  \<^verbatim>\<open>predicate.ts\<close>: the budget check that guards the recursive decoder, validation, and compilation to an
  evaluator.

  The budget check runs on an arbitrary value, which may share subterms or be cyclic. Such a value is a
  reference into a heap, a function from references to their contents; \<open>None\<close> is \<open>undefined\<close>.
\<close>

section \<open>Predicates\<close>

datatype FieldNamespace = ns_signal | ns_resource | ns_scope | ns_attribute | ns_body

fun namespace_name :: "FieldNamespace \<Rightarrow> string" where
  "namespace_name ns_signal = ''signal''"
| "namespace_name ns_resource = ''resource''"
| "namespace_name ns_scope = ''scope''"
| "namespace_name ns_attribute = ''attribute''"
| "namespace_name ns_body = ''body''"

record FieldRef =
  field_namespace :: FieldNamespace
  field_name :: string
  field_type :: SignalScalarType

definition fieldKey :: "FieldRef \<Rightarrow> string" where
  "fieldKey field = namespace_name (field_namespace field) @ '':'' @ field_name field"

datatype comparison = op_eq | op_neq | op_gt | op_gte | op_lt | op_lte | op_contains

fun comparison_name :: "comparison \<Rightarrow> string" where
  "comparison_name op_eq = ''eq''"
| "comparison_name op_neq = ''neq''"
| "comparison_name op_gt = ''gt''"
| "comparison_name op_gte = ''gte''"
| "comparison_name op_lt = ''lt''"
| "comparison_name op_lte = ''lte''"
| "comparison_name op_contains = ''contains''"

datatype SignalPredicate =
    AllPredicate "SignalPredicate list"
  | AnyPredicate "SignalPredicate list"
  | NotPredicate SignalPredicate
  | ExistsPredicate FieldRef
  | ComparisonPredicate comparison FieldRef SignalScalar
  | InPredicate FieldRef "SignalScalar list"

datatype IdentityQuality = iq_source | iq_derived | iq_none

record NormalizedSignal =
  sig_sourceKind :: string
  sig_source :: string
  sig_tenantId :: string
  sig_occurrenceId :: "string option"
  sig_identityQuality :: IdentityQuality
  sig_occurredAt :: string
  sig_observedAt :: string
  sig_subject :: "string option"
  sig_fields :: "(string, SignalScalar) jsmap"
  sig_data :: json

definition defineSignalFields :: "(FieldRef \<times> SignalScalar) list \<Rightarrow> (string, SignalScalar) jsmap" where
  "defineSignalFields entries = foldl (\<lambda>m (f, v). jsmap_set (fieldKey f) v m) [] entries"

section \<open>The input budget\<close>

datatype 'r unknown =
    U_string string
  | U_primitive
  | U_array "'r list"
  | U_record "(string \<times> 'r) list"

type_synonym 'r heap = "'r \<Rightarrow> 'r unknown"

text \<open>\<open>record(value)\<close>: the fields of an object that is not an array.\<close>

definition record_fields :: "'r heap \<Rightarrow> 'r option \<Rightarrow> (string \<times> 'r) list option" where
  "record_fields h v = (case v of None \<Rightarrow> None | Some r \<Rightarrow> (case h r of U_record fs \<Rightarrow> Some fs | _ \<Rightarrow> None))"

definition string_field :: "'r heap \<Rightarrow> (string \<times> 'r) list \<Rightarrow> string \<Rightarrow> string option" where
  "string_field h fs k =
     (case map_of fs k of None \<Rightarrow> None | Some r \<Rightarrow> (case h r of U_string s \<Rightarrow> Some s | _ \<Rightarrow> None))"

definition array_field :: "'r heap \<Rightarrow> (string \<times> 'r) list \<Rightarrow> string \<Rightarrow> 'r list option" where
  "array_field h fs k =
     (case map_of fs k of None \<Rightarrow> None | Some r \<Rightarrow> (case h r of U_array rs \<Rightarrow> Some rs | _ \<Rightarrow> None))"

definition literalIssue :: "'r heap \<Rightarrow> 'r option \<Rightarrow> string option" where
  "literalIssue h v =
     (case record_fields h v of
        None \<Rightarrow> None
      | Some fs \<Rightarrow>
          (case string_field h fs ''value'' of
             None \<Rightarrow> None
           | Some s \<Rightarrow>
               if string_field h fs ''type'' = Some ''string'' \<and> length s > MAX_STRING_LITERAL_CHARACTERS
               then Some ''selector string exceeds 1024 Unicode code points''
               else if string_field h fs ''type'' = Some ''int64'' \<and> length s > MAX_DECIMAL_INT64_LENGTH
               then Some ''int64 literal exceeds 20 characters''
               else if string_field h fs ''type'' = Some ''duration'' \<and> length s > MAX_DECIMAL_INT64_LENGTH
               then Some ''duration literal exceeds 20 characters''
               else None))"

fun first_issue :: "('a \<Rightarrow> string option) \<Rightarrow> 'a list \<Rightarrow> string option" where
  "first_issue f [] = None"
| "first_issue f (x # xs) = (case f x of Some i \<Rightarrow> Some i | None \<Rightarrow> first_issue f xs)"

text \<open>What one popped value does: report an issue, or push values.\<close>

definition budget_visit :: "'r heap \<Rightarrow> 'r option \<Rightarrow> string + 'r option list" where
  "budget_visit h v =
     (case record_fields h v of
        None \<Rightarrow> Inr []
      | Some node \<Rightarrow>
          (let opr = string_field h node ''op''
           in if opr = Some ''all'' \<or> opr = Some ''any'' then
                (case array_field h node ''clauses'' of
                   None \<Rightarrow> Inr []
                 | Some cs \<Rightarrow>
                     if length cs > MAX_PREDICATE_NODES then Inl ''predicate clause list exceeds 64 entries''
                     else Inr (map Some cs))
              else if opr = Some ''not'' then Inr [map_of node ''clause'']
              else if opr = Some ''in'' then
                (case array_field h node ''values'' of
                   None \<Rightarrow> Inr []
                 | Some vs \<Rightarrow>
                     if length vs > MAX_IN_VALUES then Inl ''in exceeds 100 values''
                     else (case first_issue (\<lambda>r. literalIssue h (Some r)) vs of Some i \<Rightarrow> Inl i | None \<Rightarrow> Inr []))
              else (case literalIssue h (map_of node ''value'') of Some i \<Rightarrow> Inl i | None \<Rightarrow> Inr [])))"

text \<open>
  The loop. The stack has its top first, so pushing in order puts the last value on top. Every round
  counts one node and stops beyond the limit, which is why the loop ends on any heap.
\<close>

function budget_loop :: "'r heap \<Rightarrow> ('r option \<times> nat) list \<Rightarrow> nat \<Rightarrow> string option" where
  "budget_loop h stack nodes =
     (case stack of
        [] \<Rightarrow> None
      | (v, depth) # stack' \<Rightarrow>
          if depth > MAX_PREDICATE_DEPTH then Some ''predicate depth exceeds 8''
          else if Suc nodes > MAX_PREDICATE_NODES then Some ''predicate exceeds 64 nodes''
          else
            (case budget_visit h v of
               Inl i \<Rightarrow> Some i
             | Inr vs \<Rightarrow> budget_loop h (rev (map (\<lambda>v. (v, Suc depth)) vs) @ stack') (Suc nodes)))"
  by pat_completeness auto
termination
  by (relation "measure (\<lambda>(h, stack, nodes). Suc MAX_PREDICATE_NODES - nodes)") auto

declare budget_loop.simps [simp del]

definition predicateInputBudgetIssue :: "'r heap \<Rightarrow> 'r option \<Rightarrow> string option" where
  "predicateInputBudgetIssue h candidate = budget_loop h [(candidate, 1)] 0"

text \<open>The value a typed predicate is.\<close>

datatype pred_ref =
    R_pred SignalPredicate
  | R_preds "SignalPredicate list"
  | R_field FieldRef
  | R_literal SignalScalar
  | R_literals "SignalScalar list"
  | R_string string
  | R_other

fun literal_value :: "SignalScalar \<Rightarrow> pred_ref" where
  "literal_value (StringScalar s) = R_string s"
| "literal_value (BooleanScalar _) = R_other"
| "literal_value (Int64Scalar s) = R_string s"
| "literal_value (Float64Scalar _) = R_other"
| "literal_value (TimestampScalar s) = R_string s"
| "literal_value (DurationScalar s) = R_string s"

fun pred_heap :: "pred_ref heap" where
  "pred_heap (R_pred (AllPredicate cs)) = U_record [(''op'', R_string ''all''), (''clauses'', R_preds cs)]"
| "pred_heap (R_pred (AnyPredicate cs)) = U_record [(''op'', R_string ''any''), (''clauses'', R_preds cs)]"
| "pred_heap (R_pred (NotPredicate c)) = U_record [(''op'', R_string ''not''), (''clause'', R_pred c)]"
| "pred_heap (R_pred (ExistsPredicate f)) = U_record [(''op'', R_string ''exists''), (''field'', R_field f)]"
| "pred_heap (R_pred (ComparisonPredicate c f v)) =
     U_record [(''op'', R_string (comparison_name c)), (''field'', R_field f), (''value'', R_literal v)]"
| "pred_heap (R_pred (InPredicate f vs)) =
     U_record [(''op'', R_string ''in''), (''field'', R_field f), (''values'', R_literals vs)]"
| "pred_heap (R_preds cs) = U_array (map R_pred cs)"
| "pred_heap (R_field f) =
     U_record [(''namespace'', R_string (namespace_name (field_namespace f))), (''key'', R_string (field_name f)),
               (''type'', R_string (type_name (field_type f)))]"
| "pred_heap (R_literal v) = U_record [(''type'', R_string (type_name (scalar_type v))), (''value'', literal_value v)]"
| "pred_heap (R_literals vs) = U_array (map R_literal vs)"
| "pred_heap (R_string s) = U_string s"
| "pred_heap R_other = U_primitive"

definition checkSignalProjectionInputBudget :: "SignalPredicate \<Rightarrow> ValidationIssue list + unit" where
  "checkSignalProjectionInputBudget selector =
     (case predicateInputBudgetIssue pred_heap (Some (R_pred selector)) of
        None \<Rightarrow> Inr ()
      | Some issue \<Rightarrow> Inl [\<lparr>issue_path = ''selector'', issue_message = issue\<rparr>])"

section \<open>Validation\<close>

definition ORDERED_TYPES :: "SignalScalarType list" where
  "ORDERED_TYPES = [ty_int64, ty_float64, ty_timestamp, ty_duration]"

definition comparison_issues :: "bigint_decoder \<Rightarrow> comparison \<Rightarrow> FieldRef \<Rightarrow> SignalScalar \<Rightarrow> string \<Rightarrow> ValidationIssue list" where
  "comparison_issues bi c field v path =
     (case c of
        op_contains \<Rightarrow>
          (if field_type field \<noteq> ty_string \<or> scalar_type v \<noteq> ty_string
           then [\<lparr>issue_path = path, issue_message = ''contains requires a string field and string literal''\<rparr>] else [])
      | _ \<Rightarrow>
          (if c \<in> {op_gt, op_gte, op_lt, op_lte} \<and> field_type field \<notin> set ORDERED_TYPES
           then [\<lparr>issue_path = path,
                  issue_message = comparison_name c @ '' is not supported for '' @ type_name (field_type field)\<rparr>] else []) @
          (if field_type field \<noteq> scalar_type v
           then [\<lparr>issue_path = path, issue_message = ''field and literal types must match''\<rparr>] else []))
     @ validateSignalLiteral bi v (path @ ''.value'')"

definition in_issues :: "bigint_decoder \<Rightarrow> FieldRef \<Rightarrow> SignalScalar list \<Rightarrow> string \<Rightarrow> ValidationIssue list" where
  "in_issues bi field vs path =
     (if vs = [] then [\<lparr>issue_path = path @ ''.values'', issue_message = ''in requires at least one value''\<rparr>] else []) @
     (if length vs > MAX_IN_VALUES then [\<lparr>issue_path = path @ ''.values'', issue_message = ''in exceeds 100 values''\<rparr>] else []) @
     concat (map (\<lambda>(i, v).
       (if scalar_type v \<noteq> field_type field
        then [\<lparr>issue_path = path @ ''.values['' @ js_String_nat i @ '']'', issue_message = ''field and literal types must match''\<rparr>] else []) @
       validateSignalLiteral bi v (path @ ''.values['' @ js_String_nat i @ '']'')) (enumerate 0 vs))"

text \<open>\<open>visit\<close> carries the issues so far and the node count.\<close>

fun visit :: "bigint_decoder \<Rightarrow> SignalPredicate \<Rightarrow> string \<Rightarrow> nat \<Rightarrow> ValidationIssue list \<times> nat \<Rightarrow> ValidationIssue list \<times> nat"
  and visit_clauses :: "bigint_decoder \<Rightarrow> SignalPredicate list \<Rightarrow> nat \<Rightarrow> string \<Rightarrow> nat \<Rightarrow> ValidationIssue list \<times> nat \<Rightarrow>
    ValidationIssue list \<times> nat" where
  "visit bi node path depth (issues, nodes) =
     (if Suc nodes > MAX_PREDICATE_NODES then (issues, Suc nodes)
      else if depth > MAX_PREDICATE_DEPTH
      then (issues @ [\<lparr>issue_path = path, issue_message = ''predicate depth exceeds 8''\<rparr>], Suc nodes)
      else
        (case node of
           AllPredicate cs \<Rightarrow>
             visit_clauses bi cs 0 path (Suc depth)
               (issues @ (if cs = [] then [\<lparr>issue_path = path @ ''.clauses'', issue_message = ''all requires at least one clause''\<rparr>] else []),
                Suc nodes)
         | AnyPredicate cs \<Rightarrow>
             visit_clauses bi cs 0 path (Suc depth)
               (issues @ (if cs = [] then [\<lparr>issue_path = path @ ''.clauses'', issue_message = ''any requires at least one clause''\<rparr>] else []),
                Suc nodes)
         | NotPredicate c \<Rightarrow> visit bi c (path @ ''.clause'') (Suc depth) (issues, Suc nodes)
         | ExistsPredicate _ \<Rightarrow> (issues, Suc nodes)
         | ComparisonPredicate c field v \<Rightarrow> (issues @ comparison_issues bi c field v path, Suc nodes)
         | InPredicate field vs \<Rightarrow> (issues @ in_issues bi field vs path, Suc nodes)))"
| "visit_clauses bi [] i path depth st = st"
| "visit_clauses bi (c # cs) i path depth st =
     visit_clauses bi cs (Suc i) path depth (visit bi c (path @ ''.clauses['' @ js_String_nat i @ '']'') depth st)"

definition validateSignalPredicate :: "bigint_decoder \<Rightarrow> SignalPredicate \<Rightarrow> ValidationIssue list" where
  "validateSignalPredicate bi predicate =
     (let (issues, nodes) = visit bi predicate ''selector'' 1 ([], 0)
      in issues @ (if nodes > MAX_PREDICATE_NODES
                   then [\<lparr>issue_path = ''selector'', issue_message = ''predicate exceeds 64 nodes''\<rparr>] else []))"

section \<open>Evaluation\<close>

record PredicateEvaluation =
  matches :: bool
  typeMismatches :: "FieldRef list"

text \<open>\<open>readField\<close>, with the mismatches so far.\<close>

definition readField :: "bigint_decoder \<Rightarrow> NormalizedSignal \<Rightarrow> FieldRef \<Rightarrow> FieldRef list \<Rightarrow> SignalScalar option \<times> FieldRef list" where
  "readField bi signal field mm =
     (case jsmap_get (sig_fields signal) (fieldKey field) of
        None \<Rightarrow> (None, mm)
      | Some value \<Rightarrow>
          if scalar_type value \<noteq> field_type field \<or> validateSignalScalar bi value ''value'' \<noteq> []
          then (None, mm @ [field]) else (Some value, mm))"

definition js_includes :: "string \<Rightarrow> string \<Rightarrow> bool" where
  "js_includes hay needle \<longleftrightarrow> list_ex (\<lambda>i. take (length needle) (drop i hay) = needle) [0..<Suc (length hay)]"

text \<open>The outer \<open>None\<close> is an exception.\<close>

definition compare_scalar :: "comparison \<Rightarrow> SignalScalar \<Rightarrow> SignalScalar \<Rightarrow> bool option" where
  "compare_scalar c value lit =
     (case c of
        op_eq \<Rightarrow> scalarEquals value lit
      | op_neq \<Rightarrow> map_option Not (scalarEquals value lit)
      | op_contains \<Rightarrow>
          Some (case (value, lit) of (StringScalar a, StringScalar b) \<Rightarrow> js_includes a b | _ \<Rightarrow> False)
      | _ \<Rightarrow>
          map_option (\<lambda>order. case order of
              None \<Rightarrow> False
            | Some k \<Rightarrow> (case c of op_gt \<Rightarrow> k > 0 | op_gte \<Rightarrow> k \<ge> 0 | op_lt \<Rightarrow> k < 0 | _ \<Rightarrow> k \<le> 0)) (scalarOrder value lit))"

fun some_equal :: "SignalScalar \<Rightarrow> SignalScalar list \<Rightarrow> bool option" where
  "some_equal value [] = Some False"
| "some_equal value (c # cs) =
     (case scalarEquals value c of None \<Rightarrow> None | Some b \<Rightarrow> if b then Some True else some_equal value cs)"

fun evaluate_node :: "bigint_decoder \<Rightarrow> NormalizedSignal \<Rightarrow> SignalPredicate \<Rightarrow> FieldRef list \<Rightarrow> (bool \<times> FieldRef list) option"
  and every_node :: "bigint_decoder \<Rightarrow> NormalizedSignal \<Rightarrow> SignalPredicate list \<Rightarrow> FieldRef list \<Rightarrow> (bool \<times> FieldRef list) option"
  and some_node :: "bigint_decoder \<Rightarrow> NormalizedSignal \<Rightarrow> SignalPredicate list \<Rightarrow> FieldRef list \<Rightarrow> (bool \<times> FieldRef list) option" where
  "evaluate_node bi signal (AllPredicate cs) mm = every_node bi signal cs mm"
| "evaluate_node bi signal (AnyPredicate cs) mm = some_node bi signal cs mm"
| "evaluate_node bi signal (NotPredicate c) mm = map_option (\<lambda>(b, mm). (\<not> b, mm)) (evaluate_node bi signal c mm)"
| "evaluate_node bi signal (ExistsPredicate field) mm =
     (case readField bi signal field mm of (value, mm) \<Rightarrow> Some (value \<noteq> None, mm))"
| "evaluate_node bi signal (ComparisonPredicate c field lit) mm =
     (case readField bi signal field mm of
        (None, mm) \<Rightarrow> Some (False, mm)
      | (Some value, mm) \<Rightarrow> map_option (\<lambda>b. (b, mm)) (compare_scalar c value lit))"
| "evaluate_node bi signal (InPredicate field vs) mm =
     (case readField bi signal field mm of
        (None, mm) \<Rightarrow> Some (False, mm)
      | (Some value, mm) \<Rightarrow> map_option (\<lambda>b. (b, mm)) (some_equal value vs))"
| "every_node bi signal [] mm = Some (True, mm)"
| "every_node bi signal (c # cs) mm =
     (case evaluate_node bi signal c mm of
        None \<Rightarrow> None
      | Some (b, mm) \<Rightarrow> if b then every_node bi signal cs mm else Some (False, mm))"
| "some_node bi signal [] mm = Some (False, mm)"
| "some_node bi signal (c # cs) mm =
     (case evaluate_node bi signal c mm of
        None \<Rightarrow> None
      | Some (b, mm) \<Rightarrow> if b then Some (True, mm) else some_node bi signal cs mm)"

type_synonym CompiledSignalPredicate = "NormalizedSignal \<Rightarrow> PredicateEvaluation option"

definition compileSignalPredicate :: "bigint_decoder \<Rightarrow> SignalPredicate \<Rightarrow> ValidationIssue list + CompiledSignalPredicate" where
  "compileSignalPredicate bi predicate =
     (case checkSignalProjectionInputBudget predicate of
        Inl err \<Rightarrow> Inl err
      | Inr _ \<Rightarrow>
          (let issues = validateSignalPredicate bi predicate
           in if issues \<noteq> [] then Inl issues
              else Inr (\<lambda>signal. map_option (\<lambda>(b, mm). \<lparr>matches = b, typeMismatches = mm\<rparr>)
                                   (evaluate_node bi signal predicate []))))"

section \<open>What the budget check accepts\<close>

text \<open>The value graph the check walks: one value leads to the values that it pushes.\<close>

definition leads_to :: "'r heap \<Rightarrow> ('r option \<times> 'r option) set" where
  "leads_to h = {(v, w). \<exists>vs. budget_visit h v = Inr vs \<and> w \<in> set vs}"

lemma budget_loop_paths:
  assumes "budget_loop h stack nodes = None" "(v, d) \<in> set stack" "(v, w) \<in> leads_to h ^^ k"
  shows "d + k \<le> MAX_PREDICATE_DEPTH"
  using assms
proof (induction h stack nodes arbitrary: v d k rule: budget_loop.induct)
  case (1 h stack nodes)
  from 1(3) obtain u e rest where st: "stack = (u, e) # rest" by (cases stack) auto
  obtain vs where vs: "\<not> e > MAX_PREDICATE_DEPTH" "\<not> Suc nodes > MAX_PREDICATE_NODES" "budget_visit h u = Inr vs"
    "budget_loop h (rev (map (\<lambda>v. (v, Suc e)) vs) @ rest) (Suc nodes) = None"
    using 1(2) st by (subst (asm) budget_loop.simps) (auto split: if_splits sum.splits)
  note IH = 1(1) [OF st refl vs(1,2,3) vs(4)]
  show ?case
  proof (cases "(v, d) \<in> set rest")
    case True
    then show ?thesis using IH [of v d k] 1(4) by simp
  next
    case False
    then have vd: "v = u" "d = e" using 1(3) st by auto
    show ?thesis
    proof (cases k)
      case 0
      then show ?thesis using vs(1) vd by simp
    next
      case (Suc j)
      then obtain x where x: "(v, x) \<in> leads_to h" "(x, w) \<in> leads_to h ^^ j" using 1(4) by (meson relpow_Suc_D2)
      then have "x \<in> set vs" using vs(3) vd(1) by (auto simp: leads_to_def)
      then have "Suc e + j \<le> MAX_PREDICATE_DEPTH" using IH [of x "Suc e" j] x(2) by simp
      then show ?thesis using Suc vd by simp
    qed
  qed
qed

lemma budget_paths:
  assumes "predicateInputBudgetIssue h c = None" "(c, w) \<in> leads_to h ^^ k"
  shows "k < MAX_PREDICATE_DEPTH"
  using budget_loop_paths [of h "[(c, 1)]" 0 c 1 w k] assms by (simp add: predicateInputBudgetIssue_def)

text \<open>On a typed predicate: its depth, its nodes by occurrence, and its literals.\<close>

fun pdepth :: "SignalPredicate \<Rightarrow> nat" where
  "pdepth (AllPredicate cs) = Suc (foldr max (map pdepth cs) 0)"
| "pdepth (AnyPredicate cs) = Suc (foldr max (map pdepth cs) 0)"
| "pdepth (NotPredicate c) = Suc (pdepth c)"
| "pdepth _ = 1"

fun pnodes :: "SignalPredicate \<Rightarrow> nat" where
  "pnodes (AllPredicate cs) = Suc (sum_list (map pnodes cs))"
| "pnodes (AnyPredicate cs) = Suc (sum_list (map pnodes cs))"
| "pnodes (NotPredicate c) = Suc (pnodes c)"
| "pnodes _ = 1"

fun short_literal :: "SignalScalar \<Rightarrow> bool" where
  "short_literal (StringScalar s) = (length s \<le> MAX_STRING_LITERAL_CHARACTERS)"
| "short_literal (Int64Scalar s) = (length s \<le> MAX_DECIMAL_INT64_LENGTH)"
| "short_literal (DurationScalar s) = (length s \<le> MAX_DECIMAL_INT64_LENGTH)"
| "short_literal _ = True"

fun short_pred :: "SignalPredicate \<Rightarrow> bool" where
  "short_pred (AllPredicate cs) = list_all short_pred cs"
| "short_pred (AnyPredicate cs) = list_all short_pred cs"
| "short_pred (NotPredicate c) = short_pred c"
| "short_pred (ExistsPredicate f) = True"
| "short_pred (ComparisonPredicate c f v) = short_literal v"
| "short_pred (InPredicate f vs) = (length vs \<le> MAX_IN_VALUES \<and> list_all short_literal vs)"

lemma pdepth_pos: "0 < pdepth p"
  by (cases p) auto

lemma pnodes_pos: "0 < pnodes p"
  by (cases p) auto

lemma foldr_max_le: "foldr max xs 0 \<le> (n :: nat) \<longleftrightarrow> (\<forall>x\<in>set xs. x \<le> n)"
  by (induction xs) auto

lemma sum_pnodes: "length cs \<le> sum_list (map pnodes cs)"
proof (induction cs)
  case (Cons c cs)
  then show ?case using pnodes_pos [of c] by simp
qed simp

lemma literalIssue_typed: "literalIssue pred_heap (Some (R_literal v)) = None \<longleftrightarrow> short_literal v"
  by (cases v) (auto simp: literalIssue_def record_fields_def string_field_def)

lemma first_issue_None: "first_issue f xs = None \<longleftrightarrow> list_all (\<lambda>x. f x = None) xs"
  by (induction xs) (auto split: option.splits)

definition pushes :: "SignalPredicate \<Rightarrow> SignalPredicate list option" where
  "pushes p =
     (case p of
        AllPredicate cs \<Rightarrow> if length cs > MAX_PREDICATE_NODES then None else Some cs
      | AnyPredicate cs \<Rightarrow> if length cs > MAX_PREDICATE_NODES then None else Some cs
      | NotPredicate c \<Rightarrow> Some [c]
      | _ \<Rightarrow> if short_pred p then Some [] else None)"

lemma budget_visit_typed:
  "case pushes p of
     None \<Rightarrow> \<exists>i. budget_visit pred_heap (Some (R_pred p)) = Inl i
   | Some cs \<Rightarrow> budget_visit pred_heap (Some (R_pred p)) = Inr (map (\<lambda>c. Some (R_pred c)) cs)"
proof (cases p)
  case (ComparisonPredicate c f v)
  have "comparison_name c \<notin> {''all'', ''any'', ''not'', ''in''}" by (cases c) auto
  then show ?thesis using ComparisonPredicate literalIssue_typed [of v]
    by (auto simp: pushes_def budget_visit_def record_fields_def string_field_def Let_def split: option.splits)
next
  case (InPredicate f vs)
  have "first_issue (\<lambda>r. literalIssue pred_heap (Some r)) (map R_literal vs) = None \<longleftrightarrow> list_all short_literal vs"
    unfolding first_issue_None by (simp add: literalIssue_typed list.pred_map comp_def)
  then show ?thesis using InPredicate
    by (auto simp: pushes_def budget_visit_def record_fields_def string_field_def array_field_def Let_def split: option.splits)
qed (auto simp: pushes_def budget_visit_def record_fields_def string_field_def array_field_def literalIssue_def Let_def)

lemma pushes_None: "pushes p = None \<Longrightarrow> \<not> (short_pred p \<and> pnodes p \<le> MAX_PREDICATE_NODES)"
  using sum_pnodes by (auto simp: pushes_def split: SignalPredicate.splits if_splits) (metis Suc_leD leD le_trans)+

lemma pushes_Some:
  assumes "pushes p = Some cs" "d \<le> MAX_PREDICATE_DEPTH"
  shows "pnodes p = Suc (sum_list (map pnodes cs)) \<and>
    (d + pdepth p \<le> Suc MAX_PREDICATE_DEPTH \<and> short_pred p \<longleftrightarrow>
       (\<forall>c\<in>set cs. Suc d + pdepth c \<le> Suc MAX_PREDICATE_DEPTH \<and> short_pred c))"
proof -
  have "d + foldr max (map pdepth cs) 0 \<le> MAX_PREDICATE_DEPTH \<longleftrightarrow> (\<forall>c\<in>set cs. d + pdepth c \<le> MAX_PREDICATE_DEPTH)" for cs
  proof -
    have "d + foldr max (map pdepth cs) 0 \<le> MAX_PREDICATE_DEPTH \<longleftrightarrow> foldr max (map pdepth cs) 0 \<le> MAX_PREDICATE_DEPTH - d"
      using assms(2) by linarith
    then show ?thesis unfolding foldr_max_le by (simp add: le_diff_conv2 [OF assms(2)] add.commute)
  qed
  then show ?thesis using assms by (cases p) (auto simp: pushes_def list_all_iff split: if_splits)
qed

lemma budget_loop_typed:
  assumes "nodes \<le> MAX_PREDICATE_NODES"
  shows "budget_loop pred_heap (map (\<lambda>(p, d). (Some (R_pred p), d)) st) nodes = None \<longleftrightarrow>
    (\<forall>(p, d)\<in>set st. d + pdepth p \<le> Suc MAX_PREDICATE_DEPTH \<and> short_pred p) \<and>
    nodes + sum_list (map (pnodes \<circ> fst) st) \<le> MAX_PREDICATE_NODES"
  using assms
proof (induction "MAX_PREDICATE_NODES - nodes" arbitrary: nodes st rule: less_induct)
  case less
  show ?case
  proof (cases st)
    case Nil
    then show ?thesis using less.prems by (simp add: budget_loop.simps)
  next
    case (Cons pd rest)
    obtain p d where pd: "pd = (p, d)" by (cases pd)
    show ?thesis
    proof (cases "d > MAX_PREDICATE_DEPTH \<or> Suc nodes > MAX_PREDICATE_NODES")
      case True
      then show ?thesis using pdepth_pos [of p] pnodes_pos [of p] unfolding Cons pd
        by (subst budget_loop.simps) auto
    next
      case False
      show ?thesis
      proof (cases "pushes p")
        case None
        then show ?thesis using budget_visit_typed [of p] pushes_None [of p] False unfolding Cons pd
          by (subst budget_loop.simps) auto
      next
        case (Some cs)
        let ?st = "rev (map (\<lambda>c. (c, Suc d)) cs) @ rest"
        have v: "budget_visit pred_heap (Some (R_pred p)) = Inr (map (\<lambda>c. Some (R_pred c)) cs)"
          using budget_visit_typed [of p] Some by simp
        have "budget_loop pred_heap (map (\<lambda>(p, d). (Some (R_pred p), d)) st) nodes =
            budget_loop pred_heap (map (\<lambda>(p, d). (Some (R_pred p), d)) ?st) (Suc nodes)"
          unfolding Cons pd using False v by (subst budget_loop.simps) (simp add: rev_map comp_def)
        also have "\<dots> = None \<longleftrightarrow> (\<forall>(p, d)\<in>set ?st. d + pdepth p \<le> Suc MAX_PREDICATE_DEPTH \<and> short_pred p) \<and>
            Suc nodes + sum_list (map (pnodes \<circ> fst) ?st) \<le> MAX_PREDICATE_NODES"
          using False less.prems by (intro less.hyps) auto
        also have "\<dots> \<longleftrightarrow> (\<forall>c\<in>set cs. Suc d + pdepth c \<le> Suc MAX_PREDICATE_DEPTH \<and> short_pred c) \<and>
            (\<forall>(p, d)\<in>set rest. d + pdepth p \<le> Suc MAX_PREDICATE_DEPTH \<and> short_pred p) \<and>
            nodes + Suc (sum_list (map pnodes cs)) + sum_list (map (pnodes \<circ> fst) rest) \<le> MAX_PREDICATE_NODES"
        proof -
          have "sum_list (map (pnodes \<circ> fst) ?st) = sum_list (map pnodes cs) + sum_list (map (pnodes \<circ> fst) rest)"
            by (simp add: comp_def sum_list_rev flip: rev_map)
          moreover have "(\<forall>(p, d)\<in>set ?st. d + pdepth p \<le> Suc MAX_PREDICATE_DEPTH \<and> short_pred p) \<longleftrightarrow>
              (\<forall>c\<in>set cs. Suc d + pdepth c \<le> Suc MAX_PREDICATE_DEPTH \<and> short_pred c) \<and>
              (\<forall>(p, d)\<in>set rest. d + pdepth p \<le> Suc MAX_PREDICATE_DEPTH \<and> short_pred p)" by (simp add: ball_Un)
          ultimately show ?thesis by (simp add: add.assoc)
        qed
        finally show ?thesis using pushes_Some [OF Some, of d] False unfolding Cons pd by (auto simp: add.assoc)
      qed
    qed
  qed
qed

lemma budget_typed:
  "predicateInputBudgetIssue pred_heap (Some (R_pred p)) = None \<longleftrightarrow>
     pdepth p \<le> MAX_PREDICATE_DEPTH \<and> pnodes p \<le> MAX_PREDICATE_NODES \<and> short_pred p"
  using budget_loop_typed [of 0 "[(p, 1)]"] by (auto simp: predicateInputBudgetIssue_def)

section \<open>What validation accepts\<close>

datatype denotation = D_string string | D_boolean bool | D_int64 int | D_float64 rat | D_timestamp int | D_duration int

fun denote :: "bigint_decoder \<Rightarrow> SignalScalar \<Rightarrow> denotation option" where
  "denote bi (StringScalar s) = Some (D_string s)"
| "denote bi (BooleanScalar b) = Some (D_boolean b)"
| "denote bi (Int64Scalar s) = map_option D_int64 (parseInt64 bi s)"
| "denote bi (Float64Scalar n) = (case n of Fin r \<Rightarrow> Some (D_float64 r) | _ \<Rightarrow> None)"
| "denote bi (TimestampScalar s) = map_option D_timestamp (timestampToEpochNanos s)"
| "denote bi (DurationScalar s) = map_option D_duration (parseInt64 bi s)"

lemma validate_scalar: "validateSignalScalar bi v path = [] \<longleftrightarrow> denote bi v \<noteq> None"
  by (cases v) (auto split: jsnum.splits)

definition literal_ok :: "bigint_decoder \<Rightarrow> SignalScalar \<Rightarrow> bool" where
  "literal_ok bi v \<longleftrightarrow> denote bi v \<noteq> None \<and> (\<forall>s. v = StringScalar s \<longrightarrow> length s \<le> MAX_STRING_LITERAL_CHARACTERS)"

lemma validate_literal: "validateSignalLiteral bi v path = [] \<longleftrightarrow> literal_ok bi v"
  by (cases v) (auto simp: validateSignalLiteral_def literal_ok_def validate_scalar split: jsnum.splits)

fun typed_pred :: "bigint_decoder \<Rightarrow> SignalPredicate \<Rightarrow> bool" where
  "typed_pred bi (AllPredicate cs) = (cs \<noteq> [] \<and> list_all (typed_pred bi) cs)"
| "typed_pred bi (AnyPredicate cs) = (cs \<noteq> [] \<and> list_all (typed_pred bi) cs)"
| "typed_pred bi (NotPredicate c) = typed_pred bi c"
| "typed_pred bi (ExistsPredicate f) = True"
| "typed_pred bi (ComparisonPredicate c f v) =
     (scalar_type v = field_type f \<and> literal_ok bi v \<and>
      (c \<in> {op_gt, op_gte, op_lt, op_lte} \<longrightarrow> field_type f \<in> {ty_int64, ty_float64, ty_timestamp, ty_duration}) \<and>
      (c = op_contains \<longrightarrow> field_type f = ty_string))"
| "typed_pred bi (InPredicate f vs) =
     (vs \<noteq> [] \<and> length vs \<le> MAX_IN_VALUES \<and> list_all (\<lambda>v. scalar_type v = field_type f \<and> literal_ok bi v) vs)"

lemma comparison_issues_Nil: "comparison_issues bi c f v path = [] \<longleftrightarrow> typed_pred bi (ComparisonPredicate c f v)"
  by (cases c) (auto simp: comparison_issues_def ORDERED_TYPES_def validate_literal)

lemma enumerate_all: "(\<forall>(i, v)\<in>set (enumerate n vs). P v) \<longleftrightarrow> list_all P vs"
  by (induction vs arbitrary: n) auto

lemma in_issues_Nil: "in_issues bi f vs path = [] \<longleftrightarrow> typed_pred bi (InPredicate f vs)"
proof -
  have "in_issues bi f vs path = [] \<longleftrightarrow> vs \<noteq> [] \<and> length vs \<le> MAX_IN_VALUES \<and>
      (\<forall>(i, v)\<in>set (enumerate 0 vs). scalar_type v = field_type f \<and> literal_ok bi v)"
    by (auto simp: in_issues_def validate_literal split: if_splits)
  then show ?thesis unfolding enumerate_all by simp
qed

declare visit.simps [simp del]

text \<open>
  What a visit adds: issues and nodes. It adds no issue and stays within the node budget exactly for a
  typed predicate within the budgets, and then it counts every node.
\<close>

definition added :: "bool \<Rightarrow> nat \<Rightarrow> nat \<Rightarrow> ValidationIssue list \<Rightarrow> nat \<Rightarrow> bool" where
  "added good k n new m \<longleftrightarrow>
     (new = [] \<and> n + m \<le> MAX_PREDICATE_NODES \<longleftrightarrow> good \<and> n + k \<le> MAX_PREDICATE_NODES) \<and>
     (new = [] \<and> n + m \<le> MAX_PREDICATE_NODES \<longrightarrow> m = k)"

definition visit_ok :: "bigint_decoder \<Rightarrow> SignalPredicate \<Rightarrow> bool" where
  "visit_ok bi p \<longleftrightarrow> (\<forall>path d iss n. \<exists>new m. visit bi p path d (iss, n) = (iss @ new, n + m) \<and>
     added (typed_pred bi p \<and> d + pdepth p \<le> Suc MAX_PREDICATE_DEPTH) (pnodes p) n new m)"

lemma visit_clauses_ok:
  assumes "\<forall>c\<in>set cs. visit_ok bi c"
  shows "\<exists>new m. visit_clauses bi cs i path d (iss, n) = (iss @ new, n + m) \<and>
    added (\<forall>c\<in>set cs. typed_pred bi c \<and> d + pdepth c \<le> Suc MAX_PREDICATE_DEPTH) (sum_list (map pnodes cs)) n new m"
  using assms
proof (induction cs arbitrary: i iss n)
  case Nil
  then show ?case by (intro exI [of _ "[]"] exI [of _ 0]) (simp add: added_def)
next
  case (Cons c cs)
  let ?path = "path @ ''.clauses['' @ js_String_nat i @ '']''"
  obtain new m where v: "visit bi c ?path d (iss, n) = (iss @ new, n + m)"
    "added (typed_pred bi c \<and> d + pdepth c \<le> Suc MAX_PREDICATE_DEPTH) (pnodes c) n new m"
    using Cons.prems unfolding visit_ok_def by (meson list.set_intros(1))
  obtain new' m' where w: "visit_clauses bi cs (Suc i) path d (iss @ new, n + m) = ((iss @ new) @ new', (n + m) + m')"
    "added (\<forall>c\<in>set cs. typed_pred bi c \<and> d + pdepth c \<le> Suc MAX_PREDICATE_DEPTH) (sum_list (map pnodes cs)) (n + m) new' m'"
    using Cons by (meson list.set_intros(2))
  have "added (\<forall>c\<in>set (c # cs). typed_pred bi c \<and> d + pdepth c \<le> Suc MAX_PREDICATE_DEPTH)
      (sum_list (map pnodes (c # cs))) n (new @ new') (m + m')"
    using v(2) w(2) unfolding added_def by auto
  then show ?case using v(1) w(1) by (intro exI [of _ "new @ new'"] exI [of _ "m + m'"]) (simp add: add.assoc)
qed

lemma visit_leaf:
  assumes leaf: "\<And>path d iss n. Suc n \<le> MAX_PREDICATE_NODES \<Longrightarrow> d \<le> MAX_PREDICATE_DEPTH \<Longrightarrow>
      \<exists>new m. visit bi p path d (iss, n) = (iss @ new, n + m) \<and>
        added (typed_pred bi p \<and> d + pdepth p \<le> Suc MAX_PREDICATE_DEPTH) (pnodes p) n new m"
  shows "visit_ok bi p"
  unfolding visit_ok_def
proof (intro allI)
  fix path d iss n
  show "\<exists>new m. visit bi p path d (iss, n) = (iss @ new, n + m) \<and>
      added (typed_pred bi p \<and> d + pdepth p \<le> Suc MAX_PREDICATE_DEPTH) (pnodes p) n new m"
  proof (cases "Suc n \<le> MAX_PREDICATE_NODES \<and> d \<le> MAX_PREDICATE_DEPTH")
    case True
    then show ?thesis using leaf by blast
  next
    case False
    then show ?thesis using pdepth_pos [of p] pnodes_pos [of p]
      by (auto simp: visit.simps added_def intro!: exI [of _ "Suc 0"])
  qed
qed

lemma group_added:
  assumes "added (\<forall>c\<in>set cs. typed_pred bi c \<and> Suc d + pdepth c \<le> Suc MAX_PREDICATE_DEPTH) (sum_list (map pnodes cs)) (Suc n) new m"
    "d \<le> MAX_PREDICATE_DEPTH" "pre = [] \<longleftrightarrow> cs \<noteq> []" "typed_pred bi p \<longleftrightarrow> cs \<noteq> [] \<and> list_all (typed_pred bi) cs"
    "pdepth p = Suc (foldr max (map pdepth cs) 0)" "pnodes p = Suc (sum_list (map pnodes cs))"
  shows "added (typed_pred bi p \<and> d + pdepth p \<le> Suc MAX_PREDICATE_DEPTH) (pnodes p) n (pre @ new) (Suc m)"
proof -
  have "d + foldr max (map pdepth cs) 0 \<le> MAX_PREDICATE_DEPTH \<longleftrightarrow> (\<forall>c\<in>set cs. d + pdepth c \<le> MAX_PREDICATE_DEPTH)"
  proof -
    have "d + foldr max (map pdepth cs) 0 \<le> MAX_PREDICATE_DEPTH \<longleftrightarrow> foldr max (map pdepth cs) 0 \<le> MAX_PREDICATE_DEPTH - d"
      using assms(2) by linarith
    then show ?thesis unfolding foldr_max_le by (simp add: le_diff_conv2 [OF assms(2)] add.commute)
  qed
  then show ?thesis using assms unfolding added_def by (auto simp: list_all_iff)
qed

lemma visit_all_ok: "visit_ok bi p"
proof (induction p)
  case (AllPredicate cs)
  show ?case
  proof (rule visit_leaf)
    fix path d iss n
    assume b: "Suc n \<le> MAX_PREDICATE_NODES" "d \<le> MAX_PREDICATE_DEPTH"
    let ?pre = "if cs = [] then [\<lparr>issue_path = path @ ''.clauses'', issue_message = ''all requires at least one clause''\<rparr>] else []"
    obtain new m where v: "visit_clauses bi cs 0 path (Suc d) (iss @ ?pre, Suc n) = ((iss @ ?pre) @ new, Suc n + m)"
      "added (\<forall>c\<in>set cs. typed_pred bi c \<and> Suc d + pdepth c \<le> Suc MAX_PREDICATE_DEPTH) (sum_list (map pnodes cs)) (Suc n) new m"
      using visit_clauses_ok [of cs bi] AllPredicate by blast
    have "visit bi (AllPredicate cs) path d (iss, n) = (iss @ (?pre @ new), n + Suc m)" using b v(1) by (subst visit.simps) simp
    then show "\<exists>new m. visit bi (AllPredicate cs) path d (iss, n) = (iss @ new, n + m) \<and>
        added (typed_pred bi (AllPredicate cs) \<and> d + pdepth (AllPredicate cs) \<le> Suc MAX_PREDICATE_DEPTH) (pnodes (AllPredicate cs)) n new m"
      using group_added [OF v(2) b(2), of ?pre "AllPredicate cs"] by auto
  qed
next
  case (AnyPredicate cs)
  show ?case
  proof (rule visit_leaf)
    fix path d iss n
    assume b: "Suc n \<le> MAX_PREDICATE_NODES" "d \<le> MAX_PREDICATE_DEPTH"
    let ?pre = "if cs = [] then [\<lparr>issue_path = path @ ''.clauses'', issue_message = ''any requires at least one clause''\<rparr>] else []"
    obtain new m where v: "visit_clauses bi cs 0 path (Suc d) (iss @ ?pre, Suc n) = ((iss @ ?pre) @ new, Suc n + m)"
      "added (\<forall>c\<in>set cs. typed_pred bi c \<and> Suc d + pdepth c \<le> Suc MAX_PREDICATE_DEPTH) (sum_list (map pnodes cs)) (Suc n) new m"
      using visit_clauses_ok [of cs bi] AnyPredicate by blast
    have "visit bi (AnyPredicate cs) path d (iss, n) = (iss @ (?pre @ new), n + Suc m)" using b v(1) by (subst visit.simps) simp
    then show "\<exists>new m. visit bi (AnyPredicate cs) path d (iss, n) = (iss @ new, n + m) \<and>
        added (typed_pred bi (AnyPredicate cs) \<and> d + pdepth (AnyPredicate cs) \<le> Suc MAX_PREDICATE_DEPTH) (pnodes (AnyPredicate cs)) n new m"
      using group_added [OF v(2) b(2), of ?pre "AnyPredicate cs"] by auto
  qed
next
  case (NotPredicate c)
  show ?case
  proof (rule visit_leaf)
    fix path d iss n
    assume b: "Suc n \<le> MAX_PREDICATE_NODES" "d \<le> MAX_PREDICATE_DEPTH"
    obtain new m where v: "visit bi c (path @ ''.clause'') (Suc d) (iss, Suc n) = (iss @ new, Suc n + m)"
      "added (typed_pred bi c \<and> Suc d + pdepth c \<le> Suc MAX_PREDICATE_DEPTH) (pnodes c) (Suc n) new m"
      using NotPredicate unfolding visit_ok_def by blast
    have "visit bi (NotPredicate c) path d (iss, n) = (iss @ new, n + Suc m)" using b v(1) by (subst visit.simps) simp
    moreover have "added (typed_pred bi (NotPredicate c) \<and> d + pdepth (NotPredicate c) \<le> Suc MAX_PREDICATE_DEPTH) (pnodes (NotPredicate c)) n new (Suc m)"
      using v(2) by (auto simp: added_def)
    ultimately show "\<exists>new m. visit bi (NotPredicate c) path d (iss, n) = (iss @ new, n + m) \<and>
        added (typed_pred bi (NotPredicate c) \<and> d + pdepth (NotPredicate c) \<le> Suc MAX_PREDICATE_DEPTH) (pnodes (NotPredicate c)) n new m" by blast
  qed
next
  case (ExistsPredicate f)
  show ?case by (rule visit_leaf) (auto simp: visit.simps added_def intro!: exI [of _ "Suc 0"])
next
  case (ComparisonPredicate c f v)
  show ?case
    by (rule visit_leaf)
      (auto simp: visit.simps added_def comparison_issues_Nil simp del: typed_pred.simps intro!: exI [of _ "Suc 0"])
next
  case (InPredicate f vs)
  show ?case
    by (rule visit_leaf)
      (auto simp: visit.simps added_def in_issues_Nil simp del: typed_pred.simps intro!: exI [of _ "Suc 0"])
qed

lemma validate_iff:
  "validateSignalPredicate bi p = [] \<longleftrightarrow>
     typed_pred bi p \<and> pdepth p \<le> MAX_PREDICATE_DEPTH \<and> pnodes p \<le> MAX_PREDICATE_NODES"
proof -
  obtain new m where v: "visit bi p ''selector'' 1 ([], 0) = ([] @ new, 0 + m)"
    "added (typed_pred bi p \<and> 1 + pdepth p \<le> Suc MAX_PREDICATE_DEPTH) (pnodes p) 0 new m"
    using visit_all_ok [of bi p] unfolding visit_ok_def by blast
  then show ?thesis by (auto simp: validateSignalPredicate_def added_def)
qed

section \<open>What a compiled predicate computes\<close>

text \<open>\<open>BigIntFromString\<close> returns the integer that \<open>BigInt\<close> reads.\<close>

definition decoder_agrees :: "bigint_decoder \<Rightarrow> bool" where
  "decoder_agrees bi \<longleftrightarrow> (\<forall>s v. bi s = Some v \<longrightarrow> js_BigInt s = Some v)"

definition field_value :: "bigint_decoder \<Rightarrow> NormalizedSignal \<Rightarrow> FieldRef \<Rightarrow> denotation option" where
  "field_value bi signal field =
     (case jsmap_get (sig_fields signal) (fieldKey field) of
        Some v \<Rightarrow> if scalar_type v = field_type field then denote bi v else None
      | None \<Rightarrow> None)"

fun denotation_less :: "denotation \<Rightarrow> denotation \<Rightarrow> bool" where
  "denotation_less (D_int64 a) (D_int64 b) = (a < b)"
| "denotation_less (D_float64 a) (D_float64 b) = (a < b)"
| "denotation_less (D_timestamp a) (D_timestamp b) = (a < b)"
| "denotation_less (D_duration a) (D_duration b) = (a < b)"
| "denotation_less _ _ = False"

fun compares :: "comparison \<Rightarrow> denotation \<Rightarrow> denotation \<Rightarrow> bool" where
  "compares op_eq a b = (a = b)"
| "compares op_neq a b = (a \<noteq> b)"
| "compares op_gt a b = denotation_less b a"
| "compares op_gte a b = (denotation_less b a \<or> a = b)"
| "compares op_lt a b = denotation_less a b"
| "compares op_lte a b = (denotation_less a b \<or> a = b)"
| "compares op_contains a b = (\<exists>hay needle x y. a = D_string hay \<and> b = D_string needle \<and> hay = x @ needle @ y)"

text \<open>The meaning of a predicate: a field that is absent, has another type or does not validate has no value.\<close>

fun holds :: "bigint_decoder \<Rightarrow> NormalizedSignal \<Rightarrow> SignalPredicate \<Rightarrow> bool" where
  "holds bi signal (AllPredicate cs) = list_all (holds bi signal) cs"
| "holds bi signal (AnyPredicate cs) = list_ex (holds bi signal) cs"
| "holds bi signal (NotPredicate c) = (\<not> holds bi signal c)"
| "holds bi signal (ExistsPredicate f) = (field_value bi signal f \<noteq> None)"
| "holds bi signal (ComparisonPredicate c f lit) =
     (\<exists>a b. field_value bi signal f = Some a \<and> denote bi lit = Some b \<and> compares c a b)"
| "holds bi signal (InPredicate f lits) = (\<exists>a. field_value bi signal f = Some a \<and> Some a \<in> denote bi ` set lits)"

fun pred_fields :: "SignalPredicate \<Rightarrow> FieldRef list" where
  "pred_fields (AllPredicate cs) = concat (map pred_fields cs)"
| "pred_fields (AnyPredicate cs) = concat (map pred_fields cs)"
| "pred_fields (NotPredicate c) = pred_fields c"
| "pred_fields (ExistsPredicate f) = [f]"
| "pred_fields (ComparisonPredicate c f lit) = [f]"
| "pred_fields (InPredicate f lits) = [f]"

definition mismatched :: "bigint_decoder \<Rightarrow> NormalizedSignal \<Rightarrow> FieldRef \<Rightarrow> bool" where
  "mismatched bi signal f \<longleftrightarrow> jsmap_has (sig_fields signal) (fieldKey f) \<and> field_value bi signal f = None"

lemma readField_spec:
  "\<exists>mm'. readField bi signal f mm = (if field_value bi signal f = None then None else jsmap_get (sig_fields signal) (fieldKey f), mm') \<and>
     (mm' = mm \<and> \<not> mismatched bi signal f \<or> mm' = mm @ [f] \<and> mismatched bi signal f)"
  by (auto simp: readField_def field_value_def mismatched_def validate_scalar split: option.splits)

lemma field_value_scalar:
  assumes "field_value bi signal f = Some a"
  obtains v where "jsmap_get (sig_fields signal) (fieldKey f) = Some v" "scalar_type v = field_type f" "denote bi v = Some a"
  using assms by (auto simp: field_value_def split: option.splits if_splits)

lemma parseInt64_BigInt: "decoder_agrees bi \<Longrightarrow> parseInt64 bi s = Some v \<Longrightarrow> js_BigInt s = Some v"
  by (auto simp: decoder_agrees_def parseInt64_def split: option.splits if_splits)

lemma scalarEquals_denote:
  assumes "decoder_agrees bi" "denote bi v = Some a" "denote bi w = Some b"
  shows "scalarEquals v w = Some (a = b)"
  using assms parseInt64_BigInt [OF assms(1)]
  by (cases v; cases w) (auto simp: bigint_cmp_def split: jsnum.splits)

lemma scalarOrder_denote:
  assumes "decoder_agrees bi" "denote bi v = Some a" "denote bi w = Some b" "scalar_type v = scalar_type w"
    "scalar_type v \<in> {ty_int64, ty_float64, ty_timestamp, ty_duration}"
  shows "\<exists>k. scalarOrder v w = Some (Some k) \<and> (k < 0 \<longleftrightarrow> denotation_less a b) \<and> (0 < k \<longleftrightarrow> denotation_less b a) \<and>
    (k = 0 \<longleftrightarrow> a = b)"
  using assms parseInt64_BigInt [OF assms(1)]
  by (cases v; cases w) (auto simp: bigint_cmp_def three_way_def split: jsnum.splits)

lemma js_includes_iff: "js_includes hay needle \<longleftrightarrow> (\<exists>x y. hay = x @ needle @ y)"
proof
  assume "js_includes hay needle"
  then obtain i where i: "take (length needle) (drop i hay) = needle" by (auto simp: js_includes_def list_ex_iff)
  have "hay = take i hay @ needle @ drop (length needle) (drop i hay)"
    using append_take_drop_id [of "length needle" "drop i hay"] i by (metis append_take_drop_id)
  then show "\<exists>x y. hay = x @ needle @ y" by blast
next
  assume "\<exists>x y. hay = x @ needle @ y"
  then obtain x y where "hay = x @ needle @ y" by blast
  then show "js_includes hay needle" unfolding js_includes_def list_ex_iff by (intro bexI [of _ "length x"]) auto
qed

lemma compare_scalar_denote:
  assumes "decoder_agrees bi" "denote bi v = Some a" "denote bi w = Some b" "scalar_type v = scalar_type w"
    "c \<in> {op_gt, op_gte, op_lt, op_lte} \<longrightarrow> scalar_type v \<in> {ty_int64, ty_float64, ty_timestamp, ty_duration}"
    "c = op_contains \<longrightarrow> scalar_type v = ty_string"
  shows "compare_scalar c v w = Some (compares c a b)"
proof (cases "c \<in> {op_gt, op_gte, op_lt, op_lte}")
  case True
  with scalarOrder_denote [OF assms(1-4)] assms(5) obtain k where k: "scalarOrder v w = Some (Some k)"
    "k < 0 \<longleftrightarrow> denotation_less a b" "0 < k \<longleftrightarrow> denotation_less b a" "k = 0 \<longleftrightarrow> a = b" by blast
  from True consider "c = op_gt" | "c = op_gte" | "c = op_lt" | "c = op_lte" by blast
  then show ?thesis
  proof cases
    case 1
    then show ?thesis using k(1,3) by (simp add: compare_scalar_def)
  next
    case 2
    have "0 \<le> k \<longleftrightarrow> denotation_less b a \<or> a = b" using k(3,4) by linarith
    then show ?thesis using 2 k(1) by (simp add: compare_scalar_def)
  next
    case 3
    then show ?thesis using k(1,2) by (simp add: compare_scalar_def)
  next
    case 4
    have "k \<le> 0 \<longleftrightarrow> denotation_less a b \<or> a = b" using k(2,4) by linarith
    then show ?thesis using 4 k(1) by (simp add: compare_scalar_def)
  qed
next
  case False
  then consider "c = op_eq" | "c = op_neq" | "c = op_contains" by (cases c) auto
  then show ?thesis
  proof cases
    case 3
    then obtain s t where "v = StringScalar s" "w = StringScalar t" using assms(4,6) by (cases v; cases w) auto
    then show ?thesis using 3 assms(2,3) js_includes_iff [of s t] by (auto simp: compare_scalar_def)
  qed (use scalarEquals_denote [OF assms(1-3)] in \<open>simp_all add: compare_scalar_def\<close>)
qed

lemma some_equal_denote:
  assumes "decoder_agrees bi" "denote bi v = Some a" "\<forall>w\<in>set ws. denote bi w \<noteq> None"
  shows "some_equal v ws = Some (Some a \<in> denote bi ` set ws)"
  using assms(3)
proof (induction ws)
  case (Cons w ws)
  then obtain b where b: "denote bi w = Some b" by auto
  show ?case using scalarEquals_denote [OF assms(1,2) b] Cons b by auto
qed simp

text \<open>
  Evaluation returns the meaning of the predicate, throws nothing, and the mismatches it adds are fields
  of the predicate that the signal has with another type or an invalid value.
\<close>

definition evaluates :: "bigint_decoder \<Rightarrow> NormalizedSignal \<Rightarrow> FieldRef list \<Rightarrow> bool \<Rightarrow> FieldRef list \<Rightarrow> (bool \<times> FieldRef list) option \<Rightarrow> bool" where
  "evaluates bi signal fs b mm res \<longleftrightarrow>
     (\<exists>new. res = Some (b, mm @ new) \<and> (\<forall>f\<in>set new. f \<in> set fs \<and> mismatched bi signal f))"

lemma every_node_ok:
  assumes "\<forall>c\<in>set cs. \<forall>mm. evaluates bi signal (pred_fields c) (holds bi signal c) mm (evaluate_node bi signal c mm)"
  shows "evaluates bi signal (concat (map pred_fields cs)) (list_all (holds bi signal) cs) mm (every_node bi signal cs mm)"
  using assms
proof (induction cs arbitrary: mm)
  case (Cons c cs)
  obtain new where n: "evaluate_node bi signal c mm = Some (holds bi signal c, mm @ new)"
    "\<forall>f\<in>set new. f \<in> set (pred_fields c) \<and> mismatched bi signal f"
    using Cons.prems unfolding evaluates_def by (meson list.set_intros(1))
  show ?case
  proof (cases "holds bi signal c")
    case True
    have "evaluates bi signal (concat (map pred_fields cs)) (list_all (holds bi signal) cs) (mm @ new) (every_node bi signal cs (mm @ new))"
      using Cons by auto
    then obtain new' where "every_node bi signal cs (mm @ new) = Some (list_all (holds bi signal) cs, (mm @ new) @ new')"
      "\<forall>f\<in>set new'. f \<in> set (concat (map pred_fields cs)) \<and> mismatched bi signal f" unfolding evaluates_def by blast
    then show ?thesis using n True unfolding evaluates_def by (intro exI [of _ "new @ new'"]) auto
  next
    case False
    then show ?thesis using n unfolding evaluates_def by (intro exI [of _ new]) auto
  qed
qed (simp add: evaluates_def)

lemma some_node_ok:
  assumes "\<forall>c\<in>set cs. \<forall>mm. evaluates bi signal (pred_fields c) (holds bi signal c) mm (evaluate_node bi signal c mm)"
  shows "evaluates bi signal (concat (map pred_fields cs)) (list_ex (holds bi signal) cs) mm (some_node bi signal cs mm)"
  using assms
proof (induction cs arbitrary: mm)
  case (Cons c cs)
  obtain new where n: "evaluate_node bi signal c mm = Some (holds bi signal c, mm @ new)"
    "\<forall>f\<in>set new. f \<in> set (pred_fields c) \<and> mismatched bi signal f"
    using Cons.prems unfolding evaluates_def by (meson list.set_intros(1))
  show ?case
  proof (cases "holds bi signal c")
    case False
    have "evaluates bi signal (concat (map pred_fields cs)) (list_ex (holds bi signal) cs) (mm @ new) (some_node bi signal cs (mm @ new))"
      using Cons by auto
    then obtain new' where "some_node bi signal cs (mm @ new) = Some (list_ex (holds bi signal) cs, (mm @ new) @ new')"
      "\<forall>f\<in>set new'. f \<in> set (concat (map pred_fields cs)) \<and> mismatched bi signal f" unfolding evaluates_def by blast
    then show ?thesis using n False unfolding evaluates_def by (intro exI [of _ "new @ new'"]) auto
  next
    case True
    then show ?thesis using n unfolding evaluates_def by (intro exI [of _ new]) auto
  qed
qed (simp add: evaluates_def)

lemma evaluate_leaf:
  assumes "\<And>mm mm'. readField bi signal f mm = (None, mm') \<Longrightarrow> res mm = Some (False, mm')"
    "\<And>v a mm mm'. readField bi signal f mm = (Some v, mm') \<Longrightarrow> denote bi v = Some a \<Longrightarrow> scalar_type v = field_type f \<Longrightarrow>
       field_value bi signal f = Some a \<Longrightarrow> res mm = Some (b, mm')"
    "field_value bi signal f = None \<Longrightarrow> \<not> b"
  shows "evaluates bi signal [f] b mm (res mm)"
proof -
  obtain mm' where r: "readField bi signal f mm =
      (if field_value bi signal f = None then None else jsmap_get (sig_fields signal) (fieldKey f), mm')"
    "mm' = mm \<and> \<not> mismatched bi signal f \<or> mm' = mm @ [f] \<and> mismatched bi signal f" using readField_spec by blast
  have "res mm = Some (b, mm')"
  proof (cases "field_value bi signal f")
    case None
    then show ?thesis using r(1) assms(1,3) by simp
  next
    case (Some a)
    from field_value_scalar [OF this] obtain v where "jsmap_get (sig_fields signal) (fieldKey f) = Some v"
      "scalar_type v = field_type f" "denote bi v = Some a" .
    then show ?thesis using Some r(1) assms(2) by simp
  qed
  then show ?thesis using r(2) unfolding evaluates_def by auto
qed

lemma evaluate_correct:
  assumes "decoder_agrees bi" "typed_pred bi p"
  shows "evaluates bi signal (pred_fields p) (holds bi signal p) mm (evaluate_node bi signal p mm)"
  using assms(2)
proof (induction p arbitrary: mm)
  case (AllPredicate cs)
  then have "\<forall>c\<in>set cs. \<forall>mm. evaluates bi signal (pred_fields c) (holds bi signal c) mm (evaluate_node bi signal c mm)"
    by (simp add: list_all_iff)
  then show ?case using every_node_ok by (simp only: pred_fields.simps holds.simps evaluate_node.simps)
next
  case (AnyPredicate cs)
  then have "\<forall>c\<in>set cs. \<forall>mm. evaluates bi signal (pred_fields c) (holds bi signal c) mm (evaluate_node bi signal c mm)"
    by (simp add: list_all_iff)
  then show ?case using some_node_ok by (simp only: pred_fields.simps holds.simps evaluate_node.simps)
next
  case (NotPredicate c)
  then obtain new where "evaluate_node bi signal c mm = Some (holds bi signal c, mm @ new)"
    "\<forall>f\<in>set new. f \<in> set (pred_fields c) \<and> mismatched bi signal f" unfolding evaluates_def typed_pred.simps by blast
  then show ?case unfolding evaluates_def by (intro exI [of _ new]) simp
next
  case (ExistsPredicate f)
  show ?case unfolding pred_fields.simps holds.simps
    by (rule evaluate_leaf [where res = "\<lambda>mm. evaluate_node bi signal (ExistsPredicate f) mm"]) auto
next
  case (ComparisonPredicate c f lit)
  then have "denote bi lit \<noteq> None" by (simp add: literal_ok_def)
  then obtain b where b: "denote bi lit = Some b" by blast
  show ?case unfolding pred_fields.simps
  proof (rule evaluate_leaf [where res = "\<lambda>mm. evaluate_node bi signal (ComparisonPredicate c f lit) mm"])
    fix v a mm mm'
    assume v: "readField bi signal f mm = (Some v, mm')" "denote bi v = Some a" "scalar_type v = field_type f"
      "field_value bi signal f = Some a"
    have "compare_scalar c v lit = Some (compares c a b)"
      using ComparisonPredicate v(3) by (intro compare_scalar_denote [OF assms(1) v(2) b]) (simp_all add: v(3))
    then show "evaluate_node bi signal (ComparisonPredicate c f lit) mm = Some (holds bi signal (ComparisonPredicate c f lit), mm')"
      using v b by simp
  qed auto
next
  case (InPredicate f lits)
  show ?case unfolding pred_fields.simps
  proof (rule evaluate_leaf [where res = "\<lambda>mm. evaluate_node bi signal (InPredicate f lits) mm"])
    fix v a mm mm'
    assume v: "readField bi signal f mm = (Some v, mm')" "denote bi v = Some a" "field_value bi signal f = Some a"
    have "\<forall>w\<in>set lits. denote bi w \<noteq> None" using InPredicate by (auto simp: list_all_iff literal_ok_def)
    then show "evaluate_node bi signal (InPredicate f lits) mm = Some (holds bi signal (InPredicate f lits), mm')"
      using v some_equal_denote [OF assms(1) v(2)] by simp
  qed auto
qed

lemma compile_iff:
  "(\<exists>ev. compileSignalPredicate bi p = Inr ev) \<longleftrightarrow>
     typed_pred bi p \<and> pdepth p \<le> MAX_PREDICATE_DEPTH \<and> pnodes p \<le> MAX_PREDICATE_NODES \<and> short_pred p"
proof -
  have "(\<exists>ev. compileSignalPredicate bi p = Inr ev) \<longleftrightarrow>
      predicateInputBudgetIssue pred_heap (Some (R_pred p)) = None \<and> validateSignalPredicate bi p = []"
    by (auto simp: compileSignalPredicate_def checkSignalProjectionInputBudget_def Let_def split: option.splits)
  then show ?thesis unfolding budget_typed validate_iff by blast
qed

lemma compile_evaluates:
  assumes "decoder_agrees bi" "compileSignalPredicate bi p = Inr ev"
  shows "\<exists>mm. ev signal = Some \<lparr>matches = holds bi signal p, typeMismatches = mm\<rparr> \<and>
    (\<forall>f\<in>set mm. f \<in> set (pred_fields p) \<and> mismatched bi signal f)"
proof -
  have "typed_pred bi p" using compile_iff [of bi p] assms(2) by blast
  from evaluate_correct [OF assms(1) this, of signal "[]"] obtain new where
    "evaluate_node bi signal p [] = Some (holds bi signal p, new)" "\<forall>f\<in>set new. f \<in> set (pred_fields p) \<and> mismatched bi signal f"
    unfolding evaluates_def by auto
  then show ?thesis using assms(2)
    by (auto simp: compileSignalPredicate_def Let_def split: sum.splits if_splits)
qed

section \<open>Properties\<close>

text \<open>
  C6. A compiled predicate never throws, on any signal: it returns the meaning of the predicate, and the type
  mismatches it reports are fields of the predicate that the signal has with another type or with a
  value that does not validate.
\<close>

theorem compileSignalPredicate_correct:
  assumes "decoder_agrees bi" "compileSignalPredicate bi p = Inr ev"
  shows "\<exists>mm. ev signal = Some \<lparr>matches = holds bi signal p, typeMismatches = mm\<rparr> \<and>
    (\<forall>f\<in>set mm. f \<in> set (pred_fields p) \<and> mismatched bi signal f)"
  by (rule compile_evaluates [OF assms])

definition sample_field :: FieldRef where
  "sample_field = \<lparr>field_namespace = ns_signal, field_name = ''n'', field_type = ty_int64\<rparr>"

definition sample_predicate :: SignalPredicate where
  "sample_predicate = AllPredicate [ComparisonPredicate op_gt sample_field (Int64Scalar ''9''), NotPredicate (InPredicate sample_field [Int64Scalar ''12''])]"

definition sample_signal :: NormalizedSignal where
  "sample_signal = \<lparr>sig_sourceKind = ''k'', sig_source = ''src'', sig_tenantId = ''t'', sig_occurrenceId = Some ''o1'',
     sig_identityQuality = iq_source, sig_occurredAt = ''2024-02-29T00:00:00Z'', sig_observedAt = ''2024-02-29T00:00:00Z'',
     sig_subject = None, sig_fields = defineSignalFields [(sample_field, Int64Scalar ''10'')], sig_data = JNull\<rparr>"

theorem compileSignalPredicate_correct_witness:
  "\<exists>ev mm. compileSignalPredicate js_BigInt sample_predicate = Inr ev \<and>
     ev sample_signal = Some \<lparr>matches = holds js_BigInt sample_signal sample_predicate, typeMismatches = mm\<rparr>"
proof -
  have "\<not> isl (compileSignalPredicate js_BigInt sample_predicate)" by code_simp
  then obtain ev where ev: "compileSignalPredicate js_BigInt sample_predicate = Inr ev"
    by (cases "compileSignalPredicate js_BigInt sample_predicate") auto
  have "decoder_agrees js_BigInt" by (simp add: decoder_agrees_def)
  from compileSignalPredicate_correct [OF this ev] ev show ?thesis by blast
qed

text \<open>
  C30. A predicate compiles exactly when it is well typed (every literal validates and has the type of its
  field, ordered operators are on ordered types, \<open>contains\<close> is on strings, no empty clause or value list)
  and within the budgets for depth, nodes, values and literal lengths.
\<close>

theorem compileSignalPredicate_accepts:
  "(\<exists>ev. compileSignalPredicate bi p = Inr ev) \<longleftrightarrow>
     typed_pred bi p \<and> pdepth p \<le> MAX_PREDICATE_DEPTH \<and> pnodes p \<le> MAX_PREDICATE_NODES \<and> short_pred p"
  by (rule compile_iff)

text \<open>
  The budget check ends on every value, cyclic ones included, and a value that passes it has no path of
  nested clauses of length eight or more: shared and cyclic inputs cannot make the recursive decoder run away.
\<close>

theorem predicateInputBudgetIssue_bounds:
  assumes "predicateInputBudgetIssue h c = None" "(c, w) \<in> leads_to h ^^ k"
  shows "k < MAX_PREDICATE_DEPTH"
  by (rule budget_paths [OF assms])

theorem predicateInputBudgetIssue_bounds_witness:
  "predicateInputBudgetIssue pred_heap (Some (R_pred sample_predicate)) = None \<and> 1 < MAX_PREDICATE_DEPTH \<and>
   predicateInputBudgetIssue (\<lambda>b. if b then U_string ''not'' else U_record [(''op'', True), (''clause'', False)]) (Some False) =
     Some ''predicate depth exceeds 8''"
proof (intro conjI)
  show n: "predicateInputBudgetIssue pred_heap (Some (R_pred sample_predicate)) = None" by code_simp
  have "budget_visit pred_heap (Some (R_pred sample_predicate)) =
      Inr [Some (R_pred (ComparisonPredicate op_gt sample_field (Int64Scalar ''9''))), Some (R_pred (NotPredicate (InPredicate sample_field [Int64Scalar ''12''])))]"
    by code_simp
  then have "(Some (R_pred sample_predicate), Some (R_pred (ComparisonPredicate op_gt sample_field (Int64Scalar ''9'')))) \<in> leads_to pred_heap ^^ 1"
    by (simp add: leads_to_def)
  from predicateInputBudgetIssue_bounds [OF n this] show "1 < MAX_PREDICATE_DEPTH" .
  show "predicateInputBudgetIssue (\<lambda>b. if b then U_string ''not'' else U_record [(''op'', True), (''clause'', False)]) (Some False) =
     Some ''predicate depth exceeds 8''" by code_simp
qed

end
