(* ===== verification/Event_Envelope.thy ===== *)
theory Event_Envelope
  imports Event_Predicate "HOL-Library.Char_ord" "HOL-Library.List_Lexorder" "HOL-Library.Multiset"
begin

text \<open>
  Event envelopes, after \<^verbatim>\<open>packages/eventing-core/src/event.ts\<close>: the identity of an event, the canonical
  form of its data, and the envelope with its validation.

  The hash function and \<open>Number.prototype.toString\<close> on fractions are arguments (\<open>sha256\<close>, \<open>number_text\<close>).
  Errors carry a constructor for each way to fail; the texts that the library \<open>effect\<close> composes for a
  value that does not fit a schema are not modelled.
\<close>

section \<open>Identity\<close>

record EventIdentityInput =
  id_tenantId :: string
  id_sourceKind :: string
  id_source :: string
  id_occurrenceId :: string
  id_projectionId :: string
  id_projectionRevision :: int

text \<open>\<open>Buffer.from(value, "utf8")\<close> on code points below 256: one byte or two.\<close>

definition utf8_char :: "char \<Rightarrow> string" where
  "utf8_char c =
     (let n = (of_char c :: nat) in if n < 128 then [c] else [char_of (192 + n div 64), char_of (128 + n mod 64)])"

definition utf8 :: "string \<Rightarrow> string" where
  "utf8 s = concat (map utf8_char s)"

text \<open>\<open>writeUInt32BE\<close>\<close>

definition uint32_be :: "nat \<Rightarrow> string" where
  "uint32_be n = [char_of (n div 16777216), char_of (n div 65536 mod 256), char_of (n div 256 mod 256), char_of (n mod 256)]"

definition lengthDelimited :: "string \<Rightarrow> string" where
  "lengthDelimited value = (let encoded = utf8 value in uint32_be (length encoded) @ encoded)"

definition identity_bytes :: "EventIdentityInput \<Rightarrow> string" where
  "identity_bytes input =
     concat (map lengthDelimited
       [''maple-event-v1'', id_tenantId input, id_sourceKind input, id_source input, id_occurrenceId input,
        id_projectionId input, js_String_int (id_projectionRevision input)])"

definition makeEventId :: "(string \<Rightarrow> string) \<Rightarrow> EventIdentityInput \<Rightarrow> string" where
  "makeEventId sha256 input = ''sha256:'' @ sha256 (identity_bytes input)"

section \<open>Canonical JSON\<close>

fun isJsonValue :: "json \<Rightarrow> bool" where
  "isJsonValue (JNum n) = js_isFinite n"
| "isJsonValue (JArray vs) = list_all isJsonValue vs"
| "isJsonValue (JObject fs) = list_all (\<lambda>(k, v). isJsonValue v) fs"
| "isJsonValue _ = True"

text \<open>
  The order in which an object lists its own keys: keys that are array indices first, by value, then the
  others as they were added. \<open>Object.fromEntries\<close> builds an object, so its result has that order.
\<close>

definition array_index :: "string \<Rightarrow> nat option" where
  "array_index k =
     (if k \<noteq> [] \<and> list_all is_digit k \<and> js_String_nat (dval k) = k \<and> dval k < 4294967295 then Some (dval k) else None)"

definition own_order :: "(string \<times> 'a) list \<Rightarrow> (string \<times> 'a) list" where
  "own_order fs =
     sort_key (\<lambda>(k, _). the (array_index k)) (filter (\<lambda>(k, _). array_index k \<noteq> None) fs)
     @ filter (\<lambda>(k, _). array_index k = None) fs"

fun canonicalizeJson :: "json \<Rightarrow> json" where
  "canonicalizeJson (JArray vs) = JArray (map canonicalizeJson vs)"
| "canonicalizeJson (JObject fs) = JObject (own_order (sort_key fst (map (\<lambda>(k, v). (k, canonicalizeJson v)) fs)))"
| "canonicalizeJson v = v"

text \<open>\<open>JSON.stringify\<close>\<close>

definition hex_digit :: "nat \<Rightarrow> char" where
  "hex_digit n = (if n < 10 then char_of (48 + n) else char_of (87 + n))"

definition json_char :: "char \<Rightarrow> string" where
  "json_char c =
     (let n = (of_char c :: nat) in
      if n = 34 then [char_of (92 :: nat), c]
      else if n = 92 then [c, c]
      else if n = 8 then [char_of (92 :: nat), CHR ''b'']
      else if n = 9 then [char_of (92 :: nat), CHR ''t'']
      else if n = 10 then [char_of (92 :: nat), CHR ''n'']
      else if n = 12 then [char_of (92 :: nat), CHR ''f'']
      else if n = 13 then [char_of (92 :: nat), CHR ''r'']
      else if n < 32 then [char_of (92 :: nat)] @ ''u00'' @ [hex_digit (n div 16), hex_digit (n mod 16)]
      else [c])"

definition json_string :: "string \<Rightarrow> string" where
  "json_string s = [char_of (34 :: nat)] @ concat (map json_char s) @ [char_of (34 :: nat)]"

fun js_join :: "string \<Rightarrow> string list \<Rightarrow> string" where
  "js_join sep [] = []"
| "js_join sep [x] = x"
| "js_join sep (x # y # zs) = x @ sep @ js_join sep (y # zs)"

fun stringify :: "(rat \<Rightarrow> string) \<Rightarrow> json \<Rightarrow> string" where
  "stringify number_text JNull = ''null''"
| "stringify number_text (JBool b) = (if b then ''true'' else ''false'')"
| "stringify number_text (JNum n) = (case n of Fin r \<Rightarrow> number_text r | _ \<Rightarrow> ''null'')"
| "stringify number_text (JString s) = json_string s"
| "stringify number_text (JArray vs) = ''['' @ js_join '','' (map (stringify number_text) vs) @ '']''"
| "stringify number_text (JObject fs) =
     CHR ''{'' # js_join '','' (map (\<lambda>(k, v). json_string k @ '':'' @ stringify number_text v) fs) @ ''}''"

definition canonicalJson :: "(rat \<Rightarrow> string) \<Rightarrow> json \<Rightarrow> string option" where
  "canonicalJson number_text value =
     (if isJsonValue value then Some (stringify number_text (canonicalizeJson value)) else None)"

section \<open>Envelopes\<close>

record ProjectorRef =
  ref_id :: string
  ref_version :: int
  ref_config :: json

record SignalProjectionSpec =
  spec_id :: string
  revision :: int
  enabled :: bool
  spec_tenantId :: string
  spec_sourceKind :: string
  selector :: SignalPredicate
  projector :: ProjectorRef
  activeFrom :: string

record MapleCloudEvent =
  ev_specversion :: string
  ev_id :: string
  ev_source :: string
  ev_type :: string
  ev_subject :: "string option"
  ev_time :: string
  ev_datacontenttype :: string
  ev_dataschema :: string
  ev_tenantid :: string
  ev_projectionid :: string
  ev_projectionrevision :: int
  ev_projectorid :: string
  ev_projectorversion :: int
  ev_sourceoccurrenceid :: "string option"
  ev_identityquality :: "IdentityQuality option"
  ev_data :: json

definition is_trimmed :: "string \<Rightarrow> bool" where
  "is_trimmed s \<longleftrightarrow> js_trim s = s"

definition NonEmptyIdentifier :: "string \<Rightarrow> bool" where
  "NonEmptyIdentifier s \<longleftrightarrow> 1 \<le> length s \<and> length s \<le> 256 \<and> is_trimmed s"

definition Rfc3339Timestamp :: "string \<Rightarrow> bool" where
  "Rfc3339Timestamp s \<longleftrightarrow> rx_test RFC3339_TIMESTAMP_PATTERN s"

definition MapleCloudEventSchema :: "MapleCloudEvent \<Rightarrow> bool" where
  "MapleCloudEventSchema e \<longleftrightarrow>
     ev_specversion e = ''1.0'' \<and> NonEmptyIdentifier (ev_id e) \<and> NonEmptyIdentifier (ev_source e) \<and>
     NonEmptyIdentifier (ev_type e) \<and> Rfc3339Timestamp (ev_time e) \<and> ev_datacontenttype e = ''application/json'' \<and>
     NonEmptyIdentifier (ev_dataschema e) \<and> NonEmptyIdentifier (ev_tenantid e) \<and> NonEmptyIdentifier (ev_projectionid e) \<and>
     ev_projectionrevision e > 0 \<and> NonEmptyIdentifier (ev_projectorid e) \<and> ev_projectorversion e > 0 \<and>
     (case ev_sourceoccurrenceid e of None \<Rightarrow> True | Some s \<Rightarrow> NonEmptyIdentifier s) \<and> isJsonValue (ev_data e)"

fun quality_name :: "IdentityQuality \<Rightarrow> string" where
  "quality_name iq_source = ''source''"
| "quality_name iq_derived = ''derived''"
| "quality_name iq_none = ''none''"

definition optional_field :: "string \<Rightarrow> json option \<Rightarrow> (string \<times> json) list" where
  "optional_field k v = (case v of None \<Rightarrow> [] | Some j \<Rightarrow> [(k, j)])"

definition event_json :: "MapleCloudEvent \<Rightarrow> json" where
  "event_json e =
     JObject
       ([(''specversion'', JString (ev_specversion e)), (''id'', JString (ev_id e)), (''source'', JString (ev_source e)),
         (''type'', JString (ev_type e)), (''time'', JString (ev_time e)),
         (''datacontenttype'', JString (ev_datacontenttype e)), (''dataschema'', JString (ev_dataschema e)),
         (''tenantid'', JString (ev_tenantid e)), (''projectionid'', JString (ev_projectionid e)),
         (''projectionrevision'', JNum (Fin (of_int (ev_projectionrevision e)))), (''projectorid'', JString (ev_projectorid e)),
         (''projectorversion'', JNum (Fin (of_int (ev_projectorversion e))))]
        @ optional_field ''sourceoccurrenceid'' (map_option JString (ev_sourceoccurrenceid e))
        @ optional_field ''identityquality'' (map_option (\<lambda>q. JString (quality_name q)) (ev_identityquality e))
        @ [(''data'', ev_data e)]
        @ optional_field ''subject'' (map_option JString (ev_subject e)))"

definition MAX_CLOUD_EVENT_BYTES :: nat where
  "MAX_CLOUD_EVENT_BYTES = 256 * 1024"

datatype CloudEventInvalid = EnvelopeInvalid | EnvelopeTooLarge | IdentityMissing | EventTimeInvalid

record ValidatedMapleCloudEvent =
  v_event :: MapleCloudEvent
  v_canonicalJson :: string
  v_byteLength :: nat

definition validateMapleCloudEvent :: "(rat \<Rightarrow> string) \<Rightarrow> MapleCloudEvent \<Rightarrow> CloudEventInvalid + ValidatedMapleCloudEvent" where
  "validateMapleCloudEvent number_text candidate =
     (if \<not> MapleCloudEventSchema candidate then Inl EnvelopeInvalid
      else
        let eventJson = stringify number_text (canonicalizeJson (event_json candidate));
            byteLength = length (utf8 eventJson)
        in if byteLength > MAX_CLOUD_EVENT_BYTES then Inl EnvelopeTooLarge
           else Inr \<lparr>v_event = candidate, v_canonicalJson = eventJson, v_byteLength = byteLength\<rparr>)"

text \<open>The part of the input that the projector provides. A subject is absent, null or a string.\<close>

record CloudEventInput =
  in_signal :: NormalizedSignal
  in_projection :: SignalProjectionSpec
  in_projectorId :: string
  in_projectorVersion :: int
  in_outputType :: string
  in_dataSchema :: string
  in_subject :: "string option option"
  in_time :: "string option"
  in_data :: json

definition makeCloudEvent :: "(string \<Rightarrow> string) \<Rightarrow> (rat \<Rightarrow> string) \<Rightarrow> CloudEventInput \<Rightarrow> CloudEventInvalid + MapleCloudEvent" where
  "makeCloudEvent sha256 number_text input =
     (let signal = in_signal input; spec = in_projection input
      in case sig_occurrenceId signal of
           None \<Rightarrow> Inl IdentityMissing
         | Some occurrenceId \<Rightarrow>
             if occurrenceId = [] \<or> \<not> is_trimmed occurrenceId \<or> sig_identityQuality signal = iq_none then Inl IdentityMissing
             else
               let subject = (case in_subject input of None \<Rightarrow> sig_subject signal | Some s \<Rightarrow> s);
                   time = (case in_time input of None \<Rightarrow> sig_occurredAt signal | Some t \<Rightarrow> t)
               in if timestampToEpochNanos time = None then Inl EventTimeInvalid
                  else
                    map_sum id v_event (validateMapleCloudEvent number_text
                      \<lparr>ev_specversion = ''1.0'',
                       ev_id = makeEventId sha256
                         \<lparr>id_tenantId = sig_tenantId signal, id_sourceKind = sig_sourceKind signal, id_source = sig_source signal,
                          id_occurrenceId = occurrenceId, id_projectionId = spec_id spec, id_projectionRevision = revision spec\<rparr>,
                       ev_source = sig_source signal, ev_type = in_outputType input, ev_subject = subject, ev_time = time,
                       ev_datacontenttype = ''application/json'', ev_dataschema = in_dataSchema input,
                       ev_tenantid = sig_tenantId signal, ev_projectionid = spec_id spec, ev_projectionrevision = revision spec,
                       ev_projectorid = in_projectorId input, ev_projectorversion = in_projectorVersion input,
                       ev_sourceoccurrenceid = Some occurrenceId, ev_identityquality = Some (sig_identityQuality signal),
                       ev_data = in_data input\<rparr>))"

section \<open>Identity is collision free up to the hash\<close>

lemma byte_char: "n < 256 \<Longrightarrow> (of_char (char_of n :: char) :: nat) = n"
  by (simp add: take_bit_eq_mod)

lemma char_less: "(of_char (c :: char) :: nat) < 256"
  by (metis of_char_mod_256 mod_less_divisor zero_less_numeral)

lemma utf8_char_prefix:
  assumes "utf8_char c @ x = utf8_char d @ y"
  shows "c = d \<and> x = y"
proof -
  let ?c = "of_char c :: nat" and ?d = "of_char d :: nat"
  have b: "?c < 256" "?d < 256" by (rule char_less)+
  have lead: "(of_char (hd (utf8_char e)) :: nat) = (if of_char e < (128 :: nat) then of_char e else 192 + of_char e div 64)" for e
  proof -
    have "(of_char e :: nat) div 64 < 4" using char_less [of e] by (simp add: div_less_iff_less_mult)
    then have "192 + (of_char e :: nat) div 64 < 256" by linarith
    then show ?thesis by (simp add: utf8_char_def Let_def byte_char del: of_char_of)
  qed
  have ne: "utf8_char e \<noteq> []" for e by (simp add: utf8_char_def Let_def)
  have "hd (utf8_char c) = hd (utf8_char d)" using assms ne by (metis hd_append2)
  then have h: "(if ?c < 128 then ?c else 192 + ?c div 64) = (if ?d < 128 then ?d else 192 + ?d div 64)"
    using lead [of c] lead [of d] by simp
  show ?thesis
  proof (cases "?c < 128")
    case True
    then have "?d < 128" using h by (simp split: if_splits)
    then show ?thesis using True assms by (simp add: utf8_char_def Let_def)
  next
    case False
    then have d: "\<not> ?d < 128" using h by (simp split: if_splits)
    have "char_of (128 + ?c mod 64) = (char_of (128 + ?d mod 64) :: char)" "x = y"
      using False d assms by (simp_all add: utf8_char_def Let_def)
    then have "(of_char (char_of (128 + ?c mod 64) :: char) :: nat) = of_char (char_of (128 + ?d mod 64) :: char)" by simp
    moreover have "128 + ?c mod 64 < 256" "128 + ?d mod 64 < 256" using mod_less_divisor [of 64 ?c] mod_less_divisor [of 64 ?d] by linarith+
    ultimately have "?c mod 64 = ?d mod 64" using byte_char by (metis add_left_cancel)
    moreover have "?c div 64 = ?d div 64" using h False d by simp
    ultimately have "?c = ?d" by (metis div_mult_mod_eq)
    then show ?thesis using \<open>x = y\<close> by (simp add: of_char_eq_iff)
  qed
qed

lemma utf8_inj: "utf8 s = utf8 t \<Longrightarrow> s = t"
proof (induction s arbitrary: t)
  case Nil
  then show ?case by (cases t) (auto simp: utf8_def utf8_char_def Let_def split: if_splits)
next
  case (Cons c s)
  show ?case
  proof (cases t)
    case Nil
    then show ?thesis using Cons.prems by (auto simp: utf8_def utf8_char_def Let_def split: if_splits)
  next
    case (Cons d t')
    then have "c = d \<and> utf8 s = utf8 t'" using Cons.prems by (intro utf8_char_prefix) (simp add: utf8_def)
    then show ?thesis using Cons.IH Cons by simp
  qed
qed

lemma uint32_value:
  assumes "n < 4294967296"
  shows "n = of_char (uint32_be n ! 0) * 16777216 + of_char (uint32_be n ! 1) * 65536 + of_char (uint32_be n ! 2) * 256 + of_char (uint32_be n ! 3)"
proof -
  have "n div 16777216 < 256" using assms by (simp add: div_less_iff_less_mult)
  then have "(of_char (uint32_be n ! 0) :: nat) = n div 16777216" "(of_char (uint32_be n ! 1) :: nat) = n div 65536 mod 256"
    "(of_char (uint32_be n ! 2) :: nat) = n div 256 mod 256" "(of_char (uint32_be n ! 3) :: nat) = n mod 256"
    by (simp_all add: uint32_be_def take_bit_eq_mod)
  moreover have "n div 16777216 = n div 65536 div 256" "n div 65536 = n div 256 div 256" by (simp_all add: div_mult2_eq [symmetric])
  ultimately show ?thesis using div_mult_mod_eq [of n 256] div_mult_mod_eq [of "n div 256" 256] div_mult_mod_eq [of "n div 65536" 256] by linarith
qed

lemma uint32_inj: "m < 4294967296 \<Longrightarrow> n < 4294967296 \<Longrightarrow> uint32_be m = uint32_be n \<Longrightarrow> m = n"
  using uint32_value [of m] uint32_value [of n] by simp

definition field_fits :: "string \<Rightarrow> bool" where
  "field_fits s \<longleftrightarrow> length (utf8 s) < 4294967296"

lemma lengthDelimited_prefix:
  assumes "field_fits a" "field_fits b" "lengthDelimited a @ x = lengthDelimited b @ y"
  shows "a = b \<and> x = y"
proof -
  have len4: "length (uint32_be n) = 4" for n by (simp add: uint32_be_def)
  have e: "uint32_be (length (utf8 a)) @ utf8 a @ x = uint32_be (length (utf8 b)) @ utf8 b @ y"
    using assms(3) by (simp add: lengthDelimited_def Let_def)
  then have "uint32_be (length (utf8 a)) = uint32_be (length (utf8 b))" "utf8 a @ x = utf8 b @ y"
    using append_eq_append_conv len4 by metis+
  moreover from this have "length (utf8 a) = length (utf8 b)" using uint32_inj assms(1,2) by (simp add: field_fits_def)
  ultimately have "utf8 a = utf8 b" "x = y" by simp_all
  then show ?thesis using utf8_inj by blast
qed

lemma delimited_inj:
  assumes "list_all field_fits xs" "list_all field_fits ys" "length xs = length ys"
    "concat (map lengthDelimited xs) = concat (map lengthDelimited ys)"
  shows "xs = ys"
  using assms(3,1,2,4)
proof (induction xs ys rule: list_induct2)
  case (Cons x xs y ys)
  then have "lengthDelimited x @ concat (map lengthDelimited xs) = lengthDelimited y @ concat (map lengthDelimited ys)" by simp
  then have "x = y \<and> concat (map lengthDelimited xs) = concat (map lengthDelimited ys)"
    using Cons.prems by (intro lengthDelimited_prefix) simp_all
  then show ?case using Cons by simp
qed simp

lemma js_String_int_inj: "js_String_int a = js_String_int b \<Longrightarrow> a = b"
proof -
  assume eq: "js_String_int a = js_String_int b"
  have dig: "hd (js_String_nat n) \<noteq> CHR ''-''" for n
  proof -
    have "is_digit (hd (js_String_nat n))" using String_nat_digits [of n] by (cases "js_String_nat n") auto
    then show ?thesis by (auto simp: is_digit_def)
  qed
  show ?thesis
  proof (cases "a < 0")
    case True
    show ?thesis
    proof (cases "b < 0")
      case True
      then show ?thesis using \<open>a < 0\<close> eq js_String_nat_inj by (simp add: js_String_int_def)
    next
      case False
      then show ?thesis using \<open>a < 0\<close> eq dig [of "nat b"] by (auto simp: js_String_int_def dest: arg_cong [where f = hd])
    qed
  next
    case False
    show ?thesis
    proof (cases "b < 0")
      case True
      then show ?thesis using \<open>\<not> a < 0\<close> eq dig [of "nat a"] by (auto simp: js_String_int_def dest: arg_cong [where f = hd])
    next
      case False
      then show ?thesis using \<open>\<not> a < 0\<close> eq js_String_nat_inj by (simp add: js_String_int_def)
    qed
  qed
qed

definition identity_fits :: "EventIdentityInput \<Rightarrow> bool" where
  "identity_fits i \<longleftrightarrow> list_all field_fits [id_tenantId i, id_sourceKind i, id_source i, id_occurrenceId i, id_projectionId i,
     js_String_int (id_projectionRevision i)]"

lemma identity_bytes_inj:
  assumes "identity_fits a" "identity_fits b" "identity_bytes a = identity_bytes b"
  shows "a = b"
proof -
  have "field_fits ''maple-event-v1''" by (simp add: field_fits_def utf8_def utf8_char_def Let_def)
  then have "[''maple-event-v1'', id_tenantId a, id_sourceKind a, id_source a, id_occurrenceId a, id_projectionId a, js_String_int (id_projectionRevision a)] =
      [''maple-event-v1'', id_tenantId b, id_sourceKind b, id_source b, id_occurrenceId b, id_projectionId b, js_String_int (id_projectionRevision b)]"
    using assms unfolding identity_bytes_def by (intro delimited_inj) (simp_all add: identity_fits_def)
  then show ?thesis using js_String_int_inj by simp
qed

lemma event_id_collision:
  assumes "identity_fits a" "identity_fits b" "makeEventId sha256 a = makeEventId sha256 b"
  shows "a = b \<or> (identity_bytes a \<noteq> identity_bytes b \<and> sha256 (identity_bytes a) = sha256 (identity_bytes b))"
  using assms identity_bytes_inj by (auto simp: makeEventId_def)

section \<open>Canonical JSON does not depend on the order of keys\<close>

inductive same_json :: "json \<Rightarrow> json \<Rightarrow> bool" where
  same_refl: "same_json v v"
| same_array: "list_all2 same_json vs ws \<Longrightarrow> same_json (JArray vs) (JArray ws)"
| same_object: "list_all2 (\<lambda>x y. fst x = fst y \<and> same_json (snd x) (snd y)) fs gs \<Longrightarrow> mset gs = mset hs \<Longrightarrow> distinct (map fst fs) \<Longrightarrow>
    same_json (JObject fs) (JObject hs)"

lemma sort_key_perm:
  fixes f :: "'a \<Rightarrow> 'b :: linorder"
  assumes "mset xs = mset ys" "distinct (map f xs)"
  shows "sort_key f xs = sort_key f ys"
  using assms by (intro sort_key_inj_key_eq) (auto simp: distinct_map)

lemma canonical_same: "same_json a b \<Longrightarrow> canonicalizeJson a = canonicalizeJson b"
proof (induction rule: same_json.induct)
  case (same_array vs ws)
  then have "list_all2 (\<lambda>v w. canonicalizeJson v = canonicalizeJson w) vs ws" by (auto elim: list_all2_mono)
  then have "map canonicalizeJson vs = map canonicalizeJson ws" by (auto simp: list_all2_conv_all_nth list_eq_iff_nth_eq)
  then show ?case by simp
next
  case (same_object fs gs hs)
  let ?c = "\<lambda>(k, v). (k, canonicalizeJson v)"
  from same_object(1) have "list_all2 (\<lambda>x y. ?c x = ?c y) fs gs"
    by (rule list_all2_mono) (simp add: case_prod_beta)
  then have eq: "map ?c fs = map ?c gs" by (auto simp: list_all2_conv_all_nth list_eq_iff_nth_eq)
  have "mset (map ?c gs) = mset (map ?c hs)" using same_object by simp
  moreover have "distinct (map fst (map ?c fs))" using same_object by (simp add: comp_def case_prod_beta)
  ultimately have "sort_key fst (map ?c gs) = sort_key fst (map ?c hs)" using eq by (intro sort_key_perm) simp_all
  then show ?case using eq by simp
qed simp

section \<open>The size of an event\<close>

lemma join_size: "length (js_join sep xs) \<le> (\<Sum>x\<leftarrow>xs. length x + length sep)"
  by (induction sep xs rule: js_join.induct) auto

lemma json_string_size: "length (json_string s) \<le> 6 * length s + 2"
proof -
  have "length (json_char c) \<le> 6" for c by (simp add: json_char_def Let_def)
  then have "length (concat (map json_char s)) \<le> 6 * length s" by (induction s) (auto intro: add_mono)
  then show ?thesis by (simp add: json_string_def)
qed

lemma mset_own_order: "mset (own_order fs) = mset fs"
proof -
  have "mset (filter (\<lambda>(k, _). array_index k \<noteq> None) fs) + mset (filter (\<lambda>(k, _). array_index k = None) fs) = mset fs"
    by (induction fs) auto
  then show ?thesis by (simp only: own_order_def mset_append mset_sort)
qed

lemma object_size:
  "length (stringify nt (canonicalizeJson (JObject fs))) \<le>
     2 + (\<Sum>(k, v)\<leftarrow>fs. 6 * length k + 4 + length (stringify nt (canonicalizeJson v)))"
proof -
  let ?g = "\<lambda>(k, v). json_string k @ '':'' @ stringify nt v" and ?c = "\<lambda>(k, v). (k, canonicalizeJson v)"
  let ?l = "\<lambda>x. length (?g x) + 1"
  have "length (js_join '','' (map ?g (own_order (sort_key fst (map ?c fs))))) \<le> sum_list (map ?l (own_order (sort_key fst (map ?c fs))))"
    using join_size [of "'',''" "map ?g (own_order (sort_key fst (map ?c fs)))"] by (simp add: comp_def)
  also have "\<dots> = sum_list (map ?l (map ?c fs))"
    by (simp only: sum_mset_sum_list [symmetric] mset_map mset_own_order mset_sort)
  also have "\<dots> \<le> (\<Sum>(k, v)\<leftarrow>fs. 6 * length k + 4 + length (stringify nt (canonicalizeJson v)))"
    unfolding map_map by (rule sum_list_mono) (use json_string_size in \<open>auto simp: algebra_simps\<close>)
  finally show ?thesis by simp
qed

lemma utf8_size: "length (utf8 s) \<le> 2 * length s"
  by (induction s) (auto simp: utf8_def utf8_char_def Let_def)

section \<open>What an event takes from its input\<close>

lemma makeCloudEvent_fields:
  assumes "makeCloudEvent sha256 number_text input = Inr e"
  shows "MapleCloudEventSchema e \<and> ev_tenantid e = sig_tenantId (in_signal input) \<and> ev_source e = sig_source (in_signal input) \<and>
    ev_projectionid e = spec_id (in_projection input) \<and> ev_projectionrevision e = revision (in_projection input) \<and>
    ev_sourceoccurrenceid e = sig_occurrenceId (in_signal input) \<and> timestampToEpochNanos (ev_time e) \<noteq> None \<and>
    (\<exists>occ. sig_occurrenceId (in_signal input) = Some occ \<and>
       ev_id e = makeEventId sha256 \<lparr>id_tenantId = sig_tenantId (in_signal input), id_sourceKind = sig_sourceKind (in_signal input),
         id_source = sig_source (in_signal input), id_occurrenceId = occ, id_projectionId = spec_id (in_projection input),
         id_projectionRevision = revision (in_projection input)\<rparr>)"
  using assms
  by (auto simp: makeCloudEvent_def validateMapleCloudEvent_def Let_def split: option.splits if_splits)

lemma makeCloudEvent_payload:
  assumes "makeCloudEvent sha256 number_text input = Inr e"
  shows "ev_type e = in_outputType input \<and> ev_data e = in_data input \<and> (in_time input = None \<longrightarrow> ev_time e = sig_occurredAt (in_signal input)) \<and>
    (in_subject input = None \<longrightarrow> ev_subject e = sig_subject (in_signal input))"
  using assms by (auto simp: makeCloudEvent_def validateMapleCloudEvent_def Let_def split: option.splits if_splits)

section \<open>Properties\<close>

text \<open>
  Two identities get the same event id only if they agree in every field, or if the hash function collides
  on two different byte strings: the length-delimited encoding itself never confuses two identities.
\<close>

theorem makeEventId_collision:
  assumes "identity_fits a" "identity_fits b" "makeEventId sha256 a = makeEventId sha256 b"
  shows "a = b \<or> (identity_bytes a \<noteq> identity_bytes b \<and> sha256 (identity_bytes a) = sha256 (identity_bytes b))"
  by (rule event_id_collision [OF assms])

definition sample_identity :: "string \<Rightarrow> string \<Rightarrow> EventIdentityInput" where
  "sample_identity k s = \<lparr>id_tenantId = ''t'', id_sourceKind = k, id_source = s, id_occurrenceId = ''o'', id_projectionId = ''p'',
     id_projectionRevision = 1\<rparr>"

text \<open>With a constant function for the hash, two identities whose fields concatenate alike collide only in the hash.\<close>

theorem makeEventId_collision_witness:
  "identity_bytes (sample_identity ''ab'' ''c'') \<noteq> identity_bytes (sample_identity ''a'' ''bc'')"
proof -
  have one: "js_String_int 1 = ''1''" by code_simp
  have fits: "identity_fits (sample_identity ''ab'' ''c'')" "identity_fits (sample_identity ''a'' ''bc'')"
    by (simp_all add: identity_fits_def sample_identity_def one field_fits_def utf8_def utf8_char_def Let_def)
  have ne: "sample_identity ''ab'' ''c'' \<noteq> sample_identity ''a'' ''bc''" by (simp add: sample_identity_def)
  have eq: "makeEventId (\<lambda>_. ''00'') (sample_identity ''ab'' ''c'') = makeEventId (\<lambda>_. ''00'') (sample_identity ''a'' ''bc'')"
    unfolding makeEventId_def ..
  show ?thesis using makeEventId_collision [OF fits eq] ne by blast
qed

text \<open>
  The canonical form of a JSON value does not depend on the order of the keys of any object in it.
\<close>

theorem canonicalizeJson_key_order:
  assumes "same_json a b"
  shows "canonicalizeJson a = canonicalizeJson b"
  by (rule canonical_same [OF assms])

theorem canonicalizeJson_key_order_witness:
  "canonicalizeJson (JObject [(''b'', JNull), (''a'', JBool True)]) = canonicalizeJson (JObject [(''a'', JBool True), (''b'', JNull)])"
proof (rule canonicalizeJson_key_order)
  show "same_json (JObject [(''b'', JNull), (''a'', JBool True)]) (JObject [(''a'', JBool True), (''b'', JNull)])"
    by (rule same_object [where gs = "[(''b'', JNull), (''a'', JBool True)]"]) (auto intro: same_refl)
qed

end
