(* ===== verification/Alert_Events.thy ===== *)
theory Alert_Events
  imports Alert_Lifecycle Event_Envelope
begin

text \<open>
  What the alerting core hands to the outside, after \<^verbatim>\<open>packages/alerting-core/src/index.ts\<close>:
  \<open>projectAlertLifecycleEvent\<close>, which wraps one lifecycle event in an envelope of the eventing core, and
  \<open>makeAlertDeliveryKey\<close>, the idempotency key of a delivery. The alerting and the eventing core meet here:
  the time of the envelope is written by \<open>Date.prototype.toISOString\<close> and read by the timestamp parser of the
  eventing core, and the identity of the envelope is what a host uses to recognise a tick it has seen.

  As in the eventing core, \<open>sha256\<close> and \<open>number_text\<close> are arguments.
\<close>

section \<open>Writing an instant\<close>

text \<open>
  \<open>toISOString\<close> for instants from the epoch on, in milliseconds. The year is the last one that has begun, the month the
  last one of the year that has begun. A year after 9999 is written with a sign and six digits.
\<close>

function year_down :: "int \<Rightarrow> int \<Rightarrow> int" where
  "year_down d y = (if y \<le> 1970 \<or> day_from_year y \<le> d then y else year_down d (y - 1))"
  by pat_completeness auto
termination by (relation "measure (\<lambda>(d, y). nat (y - 1970))") auto

declare year_down.simps [simp del]

definition year_of_day :: "int \<Rightarrow> int" where
  "year_of_day d = year_down d (1970 + d div 365)"

definition month_of_day :: "nat \<Rightarrow> int \<Rightarrow> nat" where
  "month_of_day year doy = last (filter (\<lambda>m. month_offset year m \<le> doy) [1..<13])"

definition padStart0 :: "nat \<Rightarrow> nat \<Rightarrow> string" where
  "padStart0 n k = (let s = js_String_nat k in replicate (n - length s) (CHR ''0'') @ s)"

definition toISOString :: "int \<Rightarrow> string" where
  "toISOString ms =
     (let day = ms div 86400000; t = nat (ms mod 86400000);
          year = nat (year_of_day day); doy = day - day_from_year (int year);
          month = month_of_day year doy; dom = nat (doy - month_offset year month) + 1
      in (if year \<le> 9999 then padStart0 4 year else ''+'' @ padStart0 6 year) @ ''-'' @ padStart0 2 month @ ''-'' @
         padStart0 2 dom @ ''T'' @ padStart0 2 (t div 3600000) @ '':'' @ padStart0 2 (t div 60000 mod 60) @ '':'' @
         padStart0 2 (t div 1000 mod 60) @ ''.'' @ padStart0 3 (t mod 1000) @ ''Z'')"

section \<open>Events\<close>

fun event_type_name :: "AlertEventType \<Rightarrow> string" where
  "event_type_name ev_trigger = ''trigger''"
| "event_type_name ev_resolve = ''resolve''"
| "event_type_name ev_renotify = ''renotify''"
| "event_type_name ev_test = ''test''"

fun comparator_text :: "AlertComparator \<Rightarrow> string" where
  "comparator_text gt = ''gt''"
| "comparator_text gte = ''gte''"
| "comparator_text lt = ''lt''"
| "comparator_text lte = ''lte''"
| "comparator_text eq = ''eq''"
| "comparator_text neq = ''neq''"
| "comparator_text between = ''between''"
| "comparator_text not_between = ''not_between''"

record AlertLifecycleEventInput =
  lev_tenantId :: string
  lev_ruleId :: string
  lev_ruleName :: string
  lev_incidentId :: "string option"
  lev_eventType :: AlertEventType
  lev_incidentStatus :: string
  lev_groupKey :: "string option"
  lev_signalType :: string
  lev_severity :: string
  lev_comparator :: AlertComparator
  lev_threshold :: jsnum
  lev_thresholdUpper :: "jsnum option"
  lev_windowMinutes :: jsnum
  lev_value :: "jsnum option"
  lev_sampleCount :: "jsnum option"
  lev_occurredAtMs :: jsnum

datatype AlertEventInvalid = EventTimeOutOfRange | EnvelopeRefused CloudEventInvalid

text \<open>The schema of the event time: an integer between 0 and the last instant of \<open>Date\<close>.\<close>

definition event_time :: "jsnum \<Rightarrow> int option" where
  "event_time n =
     (case n of
        Fin r \<Rightarrow> if r = of_int \<lfloor>r\<rfloor> \<and> 0 \<le> \<lfloor>r\<rfloor> \<and> \<lfloor>r\<rfloor> \<le> 8640000000000000 then Some \<lfloor>r\<rfloor> else None
      | _ \<Rightarrow> None)"

definition nullable :: "('a \<Rightarrow> json) \<Rightarrow> 'a option \<Rightarrow> json" where
  "nullable f v = (case v of None \<Rightarrow> JNull | Some x \<Rightarrow> f x)"

definition lifecycle_data :: "AlertLifecycleEventInput \<Rightarrow> json" where
  "lifecycle_data input =
     JObject
       [(''eventType'', JString (event_type_name (lev_eventType input))),
        (''incidentId'', nullable JString (lev_incidentId input)),
        (''incidentStatus'', JString (lev_incidentStatus input)),
        (''rule'', JObject
           [(''id'', JString (lev_ruleId input)), (''name'', JString (lev_ruleName input)),
            (''signalType'', JString (lev_signalType input)), (''severity'', JString (lev_severity input)),
            (''groupKey'', nullable JString (lev_groupKey input)),
            (''comparator'', JString (comparator_text (lev_comparator input))),
            (''threshold'', JNum (lev_threshold input)), (''thresholdUpper'', nullable JNum (lev_thresholdUpper input)),
            (''windowMinutes'', JNum (lev_windowMinutes input))]),
        (''observed'', JObject
           [(''value'', nullable JNum (lev_value input)), (''sampleCount'', nullable JNum (lev_sampleCount input))])]"

definition occurrence_owner :: "AlertLifecycleEventInput \<Rightarrow> string" where
  "occurrence_owner input = (case lev_incidentId input of None \<Rightarrow> lev_ruleId input | Some i \<Rightarrow> i)"

definition lifecycle_occurrence :: "AlertLifecycleEventInput \<Rightarrow> int \<Rightarrow> string" where
  "lifecycle_occurrence input occurredAtMs =
     occurrence_owner input @ '':'' @ event_type_name (lev_eventType input) @ '':'' @ js_String_int occurredAtMs"

definition lifecycle_cloud_event :: "AlertLifecycleEventInput \<Rightarrow> int \<Rightarrow> CloudEventInput" where
  "lifecycle_cloud_event input occurredAtMs =
     (let occurredAt = toISOString occurredAtMs
      in \<lparr>in_signal =
            \<lparr>sig_sourceKind = ''alert.lifecycle'', sig_source = ''urn:maple:alert-rule:'' @ lev_ruleId input,
             sig_tenantId = lev_tenantId input, sig_occurrenceId = Some (lifecycle_occurrence input occurredAtMs),
             sig_identityQuality = iq_source, sig_occurredAt = occurredAt, sig_observedAt = occurredAt,
             sig_subject = Some (case lev_incidentId input of None \<Rightarrow> ''alert-rules/'' @ lev_ruleId input
                                 | Some i \<Rightarrow> ''alert-incidents/'' @ i),
             sig_fields = [], sig_data = JObject []\<rparr>,
          in_projection =
            \<lparr>spec_id = ''alert-lifecycle'', revision = 1, enabled = True, spec_tenantId = lev_tenantId input,
             spec_sourceKind = ''alert.lifecycle'',
             selector = ExistsPredicate \<lparr>field_namespace = ns_signal, field_name = ''event_type'', field_type = ty_string\<rparr>,
             projector = \<lparr>ref_id = ''alert.lifecycle'', ref_version = 1, ref_config = JObject []\<rparr>, activeFrom = occurredAt\<rparr>,
          in_projectorId = ''alert.lifecycle'', in_projectorVersion = 1,
          in_outputType = ''dev.maple.alert.lifecycle.'' @ event_type_name (lev_eventType input) @ ''.v1'',
          in_dataSchema = ''urn:maple:event-schema:alert-lifecycle:v1'', in_subject = None, in_time = None,
          in_data = lifecycle_data input\<rparr>)"

definition projectAlertLifecycleEvent ::
    "(string \<Rightarrow> string) \<Rightarrow> (rat \<Rightarrow> string) \<Rightarrow> AlertLifecycleEventInput \<Rightarrow> AlertEventInvalid + MapleCloudEvent" where
  "projectAlertLifecycleEvent sha256 number_text input =
     (case event_time (lev_occurredAtMs input) of
        None \<Rightarrow> Inl EventTimeOutOfRange
      | Some occurredAtMs \<Rightarrow>
          map_sum EnvelopeRefused id (makeCloudEvent sha256 number_text (lifecycle_cloud_event input occurredAtMs)))"

definition makeAlertDeliveryKey :: "string \<Rightarrow> string \<Rightarrow> AlertEventType \<Rightarrow> int \<Rightarrow> string" where
  "makeAlertDeliveryKey incidentId destinationId eventType scheduledAtMs =
     js_join '':'' [incidentId, destinationId, event_type_name eventType, js_String_int scheduledAtMs]"

section \<open>An instant is read back\<close>

lemma dval_zeros: "dval (replicate j (CHR ''0'')) = 0"
  by (induction j) (simp_all add: dval_Cons digit_val_def)

lemma padStart0_digits:
  assumes "k < 10 ^ n" "0 < n"
  shows "digits_n n (padStart0 n k) \<and> dval (padStart0 n k) = k"
proof -
  let ?s = "js_String_nat k"
  have s: "list_all is_digit ?s" "dval ?s = k" using String_nat_digits [of k] by simp_all
  have len: "length ?s \<le> n"
  proof (rule ccontr)
    assume "\<not> length ?s \<le> n"
    then have "10 ^ (length ?s - 1) \<le> k" using canonical_pos [OF canonical_String, of k] s(2) assms(2) by simp
    moreover have "(10 :: nat) ^ n \<le> 10 ^ (length ?s - 1)" using \<open>\<not> length ?s \<le> n\<close> by (intro power_increasing) simp_all
    ultimately show False using assms(1) by (meson le_trans not_le)
  qed
  have "dval (padStart0 n k) = k" using s(2) by (simp add: padStart0_def Let_def dval_append dval_zeros)
  moreover have "is_digit (CHR ''0'')" by (simp add: is_digit_def)
  ultimately show ?thesis using s(1) len by (auto simp: padStart0_def Let_def digits_n_def list_all_iff)
qed

lemma div_step: "((a :: int) + 1) div k = a div k + (if (a + 1) mod k = 0 then 1 else 0)" if "k > 0"
proof -
  have a: "a = k * (a div k) + a mod k" "0 \<le> a mod k" "a mod k < k" using that by simp_all
  show ?thesis
  proof (cases "a mod k = k - 1")
    case True
    have "k * (a div k + 1) = k * (a div k) + k" by (simp add: distrib_left)
    then have e: "a + 1 = k * (a div k + 1)" using a(1) True by linarith
    then have "(a + 1) div k = a div k + 1" using that by (metis nonzero_mult_div_cancel_left less_irrefl)
    moreover have "(a + 1) mod k = 0" by (subst e) simp
    ultimately show ?thesis by simp
  next
    case False
    then have "0 \<le> a mod k + 1" "a mod k + 1 < k" using a by linarith+
    moreover have "a + 1 = k * (a div k) + (a mod k + 1)" using a(1) by linarith
    ultimately have "(a + 1) div k = a div k" "(a + 1) mod k = a mod k + 1"
      by (metis int_div_pos_eq, metis int_mod_pos_eq)
    then show ?thesis using a(2) by simp
  qed
qed

lemma year_div:
  assumes "k > 0"
  shows "(int y + 1 - (k * c + 1)) div k = (int y - (k * c + 1)) div k + (if y mod nat k = 0 then 1 else 0)"
proof -
  have "(int y - (k * c + 1) + 1) mod k = (int y + k * (- c)) mod k" by (simp add: algebra_simps)
  also have "\<dots> = int y mod k" by (rule mod_mult_self2)
  also have "\<dots> = int (y mod nat k)" using assms by (simp add: zmod_int)
  finally have "(int y - (k * c + 1) + 1) mod k = 0 \<longleftrightarrow> y mod nat k = 0" by simp
  moreover have "int y + 1 - (k * c + 1) = int y - (k * c + 1) + 1" by simp
  ultimately show ?thesis using div_step [OF assms, of "int y - (k * c + 1)"] by presburger
qed

lemma year_length: "day_from_year (int y + 1) = day_from_year (int y) + (if isLeapYear y then 366 else 365)"
proof -
  have "4 * 492 + 1 = (1969 :: int)" "100 * 19 + 1 = (1901 :: int)" "400 * 4 + 1 = (1601 :: int)"
    "nat 4 = 4" "nat 100 = 100" "nat 400 = 400" by simp_all
  note d = year_div [of 4 y 492, unfolded this] year_div [of 100 y 19, unfolded this] year_div [of 400 y 4, unfolded this]
  have sums: "365 * (Y + 1 - 1970) + (A + p) - (B + q) + (C + r) = 365 * (Y - 1970) + A - B + C + 365 + p - q + r"
    for Y A B C p q r :: int by simp
  have "day_from_year (int y + 1) = day_from_year (int y) + 365 + (if y mod 4 = 0 then 1 else 0) -
      (if y mod 100 = 0 then 1 else 0) + (if y mod 400 = 0 then 1 else 0)"
    unfolding day_from_year_def d [OF zero_less_numeral] by (rule sums)
  moreover have "y mod 400 = 0 \<Longrightarrow> y mod 100 = 0" "y mod 100 = 0 \<Longrightarrow> y mod 4 = 0"
    using mod_mod_cancel [of 100 400 y] mod_mod_cancel [of 4 100 y] by simp_all
  ultimately show ?thesis unfolding isLeapYear_def by (cases "y mod 4 = 0"; cases "y mod 100 = 0"; cases "y mod 400 = 0") presburger+
qed

lemma year_grows: "0 \<le> y \<Longrightarrow> day_from_year y + 365 \<le> day_from_year (y + 1)"
  using year_length [of "nat y"] by (simp split: if_splits)

lemma year_lower: "day_from_year 1970 = 0" "365 * int n \<le> day_from_year (1970 + int n)"
proof -
  show "day_from_year 1970 = 0" by (simp add: day_from_year_def)
  then show "365 * int n \<le> day_from_year (1970 + int n)"
  proof (induction n)
    case (Suc n)
    then show ?case using year_grows [of "1970 + int n"] by (simp add: algebra_simps)
  qed simp
qed

lemma year_down_spec:
  assumes "0 \<le> d" "1970 \<le> y" "d < day_from_year (y + 1)"
  shows "1970 \<le> year_down d y \<and> day_from_year (year_down d y) \<le> d \<and> d < day_from_year (year_down d y + 1)"
  using assms
proof (induction d y rule: year_down.induct)
  case (1 d y)
  then show ?case
    by (cases "y \<le> 1970 \<or> day_from_year y \<le> d") (auto simp: year_down.simps [of d y] year_lower(1))
qed

lemma year_of_day_spec:
  assumes "0 \<le> d"
  shows "1970 \<le> year_of_day d \<and> day_from_year (year_of_day d) \<le> d \<and> d < day_from_year (year_of_day d + 1)"
proof -
  have "d < 365 * (d div 365) + 365" by presburger
  then have "d < day_from_year (1970 + d div 365 + 1)"
    using year_lower(2) [of "nat (d div 365 + 1)"] assms by (simp add: algebra_simps)
  then show ?thesis unfolding year_of_day_def using assms by (intro year_down_spec) simp_all
qed

lemma month_length:
  assumes "1 \<le> m" "m \<le> 12"
  shows "month_offset y m + int (daysInMonth y m) = (if m = 12 then if isLeapYear y then 366 else 365 else month_offset y (m + 1))"
proof -
  have "m \<in> {1, 2, 3, 4, 5, 6, 7, 8, 9, 10, 11, 12}" using assms by simp presburger
  then show ?thesis by (elim insertE) (simp_all add: month_offset_def daysInMonth_def)
qed

lemma last_filter_upt:
  assumes "P 1"
  defines "m \<equiv> last (filter P [1..<13])"
  shows "1 \<le> m \<and> m \<le> 12 \<and> P m \<and> (m < 12 \<longrightarrow> \<not> P (m + 1))"
proof -
  let ?f = "filter P [1..<13]"
  have ne: "?f \<noteq> []" using assms(1) by (auto simp: filter_empty_conv)
  have mem: "m \<in> set ?f" unfolding m_def using ne by (rule last_in_set)
  have "sorted ?f" by (rule sorted_wrt_filter) simp
  then have "x \<le> m" if "x \<in> set ?f" for x
    using that ne unfolding m_def by (metis append_butlast_last_id in_set_conv_decomp last_ConsL last_in_set order_refl sorted_append set_append Un_iff set_ConsD empty_iff list.set(1))
  then have "\<not> P (m + 1)" if "m < 12" using that by (fastforce)
  then show ?thesis using mem by auto
qed

lemma month_of_day_spec:
  assumes "0 \<le> doy" "doy < (if isLeapYear y then 366 else 365)"
  defines "m \<equiv> month_of_day y doy"
  shows "1 \<le> m \<and> m \<le> 12 \<and> month_offset y m \<le> doy \<and> doy < month_offset y m + int (daysInMonth y m)"
proof -
  have "1 \<le> m \<and> m \<le> 12 \<and> month_offset y m \<le> doy \<and> (m < 12 \<longrightarrow> \<not> month_offset y (m + 1) \<le> doy)"
    unfolding m_def month_of_day_def by (rule last_filter_upt) (simp add: month_offset_def assms(1))
  then show ?thesis using month_length [of m y] assms(2) by (auto split: if_splits)
qed

lemma fraction_Zulu: "digits_n 3 f \<Longrightarrow> fraction_exec (CHR ''.'' # f @ ''Z'') = Some (f, Zulu)"
proof -
  assume f: "digits_n 3 f"
  have "takeWhile is_digit (f @ ''Z'') = f" using f by (simp add: digits_n_def takeWhile_append2 list_all_iff is_digit_def)
  then show ?thesis using f by (simp add: fraction_exec_def digits_n_def zone_exec_def)
qed

text \<open>What the fields of an instant denote, with the parser's own day count.\<close>

lemma timestamp_fields:
  assumes "y < 10000" "1 \<le> mo" "mo \<le> 12" "1 \<le> d" "d \<le> daysInMonth y mo" "h < 24" "mi < 60" "se < 60" "f < 1000"
  shows "timestampToEpochNanos
      (padStart0 4 y @ ''-'' @ padStart0 2 mo @ ''-'' @ padStart0 2 d @ ''T'' @ padStart0 2 h @ '':'' @ padStart0 2 mi @ '':'' @
       padStart0 2 se @ ''.'' @ padStart0 3 f @ ''Z'') =
    Some ((utc_day y mo d * 86400000 + int (h * 3600000 + mi * 60000 + se * 1000 + f)) * 1000000)" (is "timestampToEpochNanos ?s = _")
proof -
  define m where "m = \<lparr>m_year = padStart0 4 y, m_month = padStart0 2 mo, m_day = padStart0 2 d, m_hour = padStart0 2 h,
    m_minute = padStart0 2 mi, m_second = padStart0 2 se, m_fraction = padStart0 3 f, m_zone = Zulu\<rparr>"
  have "daysInMonth y mo \<le> 31" by (simp add: daysInMonth_def)
  then have b: "d < 100" using assms by simp
  note two = padStart0_digits [of _ 2, simplified]
  have dig: "digits_n 4 (padStart0 4 y)" "dval (padStart0 4 y) = y" "digits_n 3 (padStart0 3 f)" "dval (padStart0 3 f) = f"
    using padStart0_digits [of y 4] padStart0_digits [of f 3] assms by simp_all
  have dig2: "digits_n 2 (padStart0 2 k)" "dval (padStart0 2 k) = k" if "k < 100" for k using two [OF that] by simp_all
  have "ts_digits m" unfolding ts_digits_def m_def using assms b dig(1) dig2(1) by simp
  moreover have "?s = ts_text m (CHR ''.'' # padStart0 3 f @ ''Z'')" by (simp add: ts_text_def m_def)
  moreover have "fraction_exec (CHR ''.'' # padStart0 3 f @ ''Z'') = Some (m_fraction m, m_zone m)"
    using fraction_Zulu [OF dig(3)] by (simp add: m_def)
  ultimately have form: "TIMESTAMP_exec ?s = Some m" unfolding TIMESTAMP_form by blast
  have frac: "dval (padEnd9 (padStart0 3 f)) = f * 1000000"
  proof -
    have "length (padStart0 3 f) = 3" using dig(3) by (simp add: digits_n_def)
    then show ?thesis using dig(4) dval_zeros [of 6] by (simp add: padEnd9_def dval_append)
  qed
  have vals: "dval (m_year m) = y" "dval (m_month m) = mo" "dval (m_day m) = d" "dval (m_hour m) = h" "dval (m_minute m) = mi"
    "dval (m_second m) = se" "m_zone m = Zulu" "dval (padEnd9 (m_fraction m)) = f * 1000000"
    using assms b dig dig2 frac by (simp_all add: m_def)
  have guard: "\<not> (mo < 1 \<or> 12 < mo \<or> d < 1 \<or> daysInMonth y mo < d \<or> 23 < h \<or> 59 < mi \<or> 59 < se)" using assms by simp
  show ?thesis unfolding timestampToEpochNanos_def form option.case Let_def vals ts_zone.case if_not_P [OF guard]
    by (simp add: algebra_simps)
qed

lemma year_9999:
  assumes "0 \<le> d"
  shows "year_of_day d \<le> 9999 \<longleftrightarrow> d < 2932897"
proof -
  note s = year_of_day_spec [OF assms]
  have mono: "day_from_year a \<le> day_from_year b" if "1970 \<le> a" "a \<le> b" for a b
    using that(2) that(1)
  proof (induction b rule: int_ge_induct)
    case (step i)
    then show ?case using year_grows [of i] by simp
  qed simp
  have last: "day_from_year 10000 = 2932897" by (simp add: day_from_year_def)
  show ?thesis
  proof
    assume "year_of_day d \<le> 9999"
    then have "day_from_year (year_of_day d + 1) \<le> day_from_year 10000" using s by (intro mono) simp_all
    then show "d < 2932897" using s last by simp
  next
    assume "d < 2932897"
    then show "year_of_day d \<le> 9999" using s last mono [of 10000 "year_of_day d"] by (cases "year_of_day d \<le> 9999") simp_all
  qed
qed

lemma toISOString_reads_back:
  assumes "0 \<le> ms" "ms < 253402300800000"
  shows "timestampToEpochNanos (toISOString ms) = Some (ms * 1000000)"
proof -
  define day t where "day = ms div 86400000" and "t = nat (ms mod 86400000)"
  define y where "y = nat (year_of_day day)"
  define doy where "doy = day - day_from_year (int y)"
  define m where "m = month_of_day y doy"
  define d where "d = nat (doy - month_offset y m) + 1"
  have ms: "ms = day * 86400000 + int t" and t: "t < 86400000" using assms by (simp_all add: day_def t_def)
  have day: "0 \<le> day" "day < 2932897" using ms t assms by linarith+
  then have year: "1970 \<le> year_of_day day" "year_of_day day \<le> 9999" using year_of_day_spec year_9999 by blast+
  then have y: "int y = year_of_day day" "y < 10000" by (simp_all add: y_def)
  then have "0 \<le> doy" "doy < (if isLeapYear y then 366 else 365)"
    using year_of_day_spec [OF day(1)] year_length [of y] by (simp_all add: doy_def)
  then have month: "1 \<le> m" "m \<le> 12" "month_offset y m \<le> doy" "doy < month_offset y m + int (daysInMonth y m)"
    using month_of_day_spec unfolding m_def by blast+
  then have d: "1 \<le> d" "d \<le> daysInMonth y m" "int d = doy - month_offset y m + 1" by (simp_all add: d_def)
  have "t = t div 3600000 * 3600000 + t div 60000 mod 60 * 60000 + t div 1000 mod 60 * 1000 + t mod 1000"
  proof -
    have "t div 60000 = t div 1000 div 60" "t div 3600000 = t div 60000 div 60" by (simp_all add: div_mult2_eq [symmetric])
    then show ?thesis using div_mult_mod_eq [of t 1000] div_mult_mod_eq [of "t div 1000" 60] div_mult_mod_eq [of "t div 60000" 60] by linarith
  qed
  moreover have "t div 3600000 < 24" using t by (simp add: div_less_iff_less_mult)
  moreover have "utc_day y m d = day" using d(3) by (simp add: utc_day_def doy_def)
  moreover have "toISOString ms = padStart0 4 y @ ''-'' @ padStart0 2 m @ ''-'' @ padStart0 2 d @ ''T'' @ padStart0 2 (t div 3600000) @ '':'' @
      padStart0 2 (t div 60000 mod 60) @ '':'' @ padStart0 2 (t div 1000 mod 60) @ ''.'' @ padStart0 3 (t mod 1000) @ ''Z''"
    using y(2) unfolding toISOString_def Let_def day_def [symmetric] t_def [symmetric] y_def [symmetric] doy_def [symmetric] m_def [symmetric]
      d_def [symmetric] by simp
  ultimately show ?thesis
    using timestamp_fields [OF y(2) month(1,2) d(1,2), of "t div 3600000" "t div 60000 mod 60" "t div 1000 mod 60" "t mod 1000"] ms by simp
qed

lemma toISOString_late:
  assumes "253402300800000 \<le> ms"
  shows "timestampToEpochNanos (toISOString ms) = None"
proof -
  have "2932897 \<le> ms div 86400000" using zdiv_mono1 [OF assms, of 86400000] by simp
  then have "\<not> nat (year_of_day (ms div 86400000)) \<le> 9999" using year_9999 [of "ms div 86400000"] by simp
  then obtain r where "toISOString ms = CHR ''+'' # r" by (simp add: toISOString_def Let_def)
  moreover have "\<not> is_digit (CHR ''+'')" by (simp add: is_digit_def)
  ultimately have "TIMESTAMP_exec (toISOString ms) = None" by (simp add: TIMESTAMP_exec_def digits_n_def take_Cons')
  then show ?thesis by (simp add: timestampToEpochNanos_def)
qed

section \<open>Identities\<close>

lemma last_separator:
  assumes "a @ x # b = c @ x # d" "x \<notin> set b" "x \<notin> set d"
  shows "a = c \<and> b = d"
  using assms by (auto simp: append_eq_append_conv2 append_eq_Cons_conv Cons_eq_append_conv)

lemma type_name_inj: "event_type_name s = event_type_name t \<longleftrightarrow> s = t"
  by (cases s; cases t) simp_all

lemma no_colon: "CHR '':'' \<notin> set (event_type_name t)" "CHR '':'' \<notin> set (js_String_int n)"
proof -
  show "CHR '':'' \<notin> set (event_type_name t)" by (cases t) simp_all
  have "list_all is_digit (js_String_nat k)" for k using String_nat_digits by blast
  moreover have "\<not> is_digit (CHR '':'')" by (simp add: is_digit_def)
  ultimately have "CHR '':'' \<notin> set (js_String_nat k)" for k by (auto simp: list_all_iff)
  then show "CHR '':'' \<notin> set (js_String_int n)" by (simp add: js_String_int_def)
qed

text \<open>What follows the owner in a key: the type of the event and the instant.\<close>

lemma tick_key:
  assumes "a @ '':'' @ event_type_name s @ '':'' @ js_String_int m = b @ '':'' @ event_type_name t @ '':'' @ js_String_int n"
  shows "a = b \<and> s = t \<and> m = n"
proof -
  have "(a @ '':'' @ event_type_name s) @ CHR '':'' # js_String_int m = (b @ '':'' @ event_type_name t) @ CHR '':'' # js_String_int n"
    using assms by simp
  from last_separator [OF this no_colon(2) no_colon(2)]
  have e: "a @ CHR '':'' # event_type_name s = b @ CHR '':'' # event_type_name t" "js_String_int m = js_String_int n" by simp_all
  then have "a = b" "event_type_name s = event_type_name t" using last_separator [OF e(1) no_colon(1) no_colon(1)] by simp_all
  then show ?thesis using e(2) js_String_int_inj type_name_inj by blast
qed

definition lifecycle_identity :: "AlertLifecycleEventInput \<Rightarrow> int \<Rightarrow> EventIdentityInput" where
  "lifecycle_identity input ms =
     \<lparr>id_tenantId = lev_tenantId input, id_sourceKind = ''alert.lifecycle'', id_source = ''urn:maple:alert-rule:'' @ lev_ruleId input,
      id_occurrenceId = lifecycle_occurrence input ms, id_projectionId = ''alert-lifecycle'', id_projectionRevision = 1\<rparr>"

lemma event_time_Some: "event_time n = Some ms \<longleftrightarrow> n = Fin (of_int ms) \<and> 0 \<le> ms \<and> ms \<le> 8640000000000000"
  by (auto simp: event_time_def split: jsnum.splits)

lemma lifecycle_event:
  assumes "projectAlertLifecycleEvent sha256 number_text input = Inr e"
  obtains ms where "lev_occurredAtMs input = Fin (of_int ms)" "0 \<le> ms" "ms < 253402300800000"
    "timestampToEpochNanos (ev_time e) = Some (ms * 1000000)" "ev_id e = makeEventId sha256 (lifecycle_identity input ms)"
    "MapleCloudEventSchema e" "ev_tenantid e = lev_tenantId input" "ev_source e = ''urn:maple:alert-rule:'' @ lev_ruleId input"
    "ev_sourceoccurrenceid e = Some (lifecycle_occurrence input ms)"
    "ev_type e = ''dev.maple.alert.lifecycle.'' @ event_type_name (lev_eventType input) @ ''.v1''" "ev_data e = lifecycle_data input"
proof -
  obtain ms where ms: "event_time (lev_occurredAtMs input) = Some ms"
    and mk: "makeCloudEvent sha256 number_text (lifecycle_cloud_event input ms) = Inr e"
  proof -
    from assms obtain ms where "event_time (lev_occurredAtMs input) = Some ms"
      by (auto simp: projectAlertLifecycleEvent_def split: option.splits)
    moreover from this assms have "makeCloudEvent sha256 number_text (lifecycle_cloud_event input ms) = Inr e"
      by (cases "makeCloudEvent sha256 number_text (lifecycle_cloud_event input ms)") (auto simp: projectAlertLifecycleEvent_def)
    ultimately show ?thesis using that by blast
  qed
  note f = makeCloudEvent_fields [OF mk, unfolded lifecycle_cloud_event_def Let_def]
    and g = makeCloudEvent_payload [OF mk, unfolded lifecycle_cloud_event_def Let_def]
  have t: "ev_time e = toISOString ms" using g by simp
  then have "timestampToEpochNanos (toISOString ms) \<noteq> None" using f by simp
  then have late: "ms < 253402300800000" using toISOString_late by (meson not_le)
  show ?thesis
    by (rule that [of ms]) (use ms late t f g toISOString_reads_back [of ms] in \<open>simp_all add: event_time_Some lifecycle_identity_def\<close>)
qed

lemma identifier_fits: "NonEmptyIdentifier s \<Longrightarrow> field_fits s"
  using utf8_size [of s] by (simp add: NonEmptyIdentifier_def field_fits_def)

lemma lifecycle_identity_fits:
  assumes "MapleCloudEventSchema e" "ev_tenantid e = lev_tenantId input" "ev_source e = ''urn:maple:alert-rule:'' @ lev_ruleId input"
    "ev_sourceoccurrenceid e = Some (lifecycle_occurrence input ms)"
  shows "identity_fits (lifecycle_identity input ms)"
proof -
  have "NonEmptyIdentifier (lev_tenantId input)" "NonEmptyIdentifier (''urn:maple:alert-rule:'' @ lev_ruleId input)"
    "NonEmptyIdentifier (lifecycle_occurrence input ms)"
    using assms by (simp_all add: MapleCloudEventSchema_def)
  moreover have "field_fits ''alert.lifecycle''" "field_fits ''alert-lifecycle''" "field_fits ''1''"
    by (simp_all add: field_fits_def utf8_def utf8_char_def)
  moreover have "js_String_int 1 = ''1''" by code_simp
  ultimately show ?thesis by (simp add: identity_fits_def lifecycle_identity_def identifier_fits)
qed

definition same_tick :: "AlertLifecycleEventInput \<Rightarrow> AlertLifecycleEventInput \<Rightarrow> bool" where
  "same_tick a b \<longleftrightarrow> lev_tenantId a = lev_tenantId b \<and> lev_ruleId a = lev_ruleId b \<and> occurrence_owner a = occurrence_owner b \<and>
     lev_eventType a = lev_eventType b \<and> lev_occurredAtMs a = lev_occurredAtMs b"

text \<open>A sample event\<close>

definition sample_alert :: "AlertEventType \<Rightarrow> AlertLifecycleEventInput" where
  "sample_alert t = \<lparr>lev_tenantId = ''t'', lev_ruleId = ''r'', lev_ruleName = ''n'', lev_incidentId = Some ''i'', lev_eventType = t,
     lev_incidentStatus = ''open'', lev_groupKey = None, lev_signalType = ''error_rate'', lev_severity = ''critical'', lev_comparator = gt,
     lev_threshold = Fin 5, lev_thresholdUpper = None, lev_windowMinutes = Fin 5, lev_value = Some (Fin 7), lev_sampleCount = Some (Fin 9),
     lev_occurredAtMs = Fin (of_int 1709164800123)\<rparr>"

lemma sample_iso: "toISOString 1709164800123 = ''2024-02-29T00:00:00.123Z''"
proof -
  have "year_of_day 19782 = 2024" by (simp add: year_of_day_def year_down.simps day_from_year_def)
  moreover have "[1..<13] = [1, 2, 3, 4, 5, 6, 7, 8, 9, 10, 11, 12 :: nat]" by (simp add: upt_rec)
  then have "month_of_day 2024 59 = 2" unfolding month_of_day_def by (simp only:) (simp add: month_offset_def isLeapYear_def)
  ultimately have "toISOString 1709164800123 = padStart0 4 2024 @ ''-'' @ padStart0 2 2 @ ''-'' @ padStart0 2 29 @ ''T'' @ padStart0 2 0 @ '':'' @
      padStart0 2 0 @ '':'' @ padStart0 2 0 @ ''.'' @ padStart0 3 123 @ ''Z''"
    unfolding toISOString_def Let_def by (simp add: day_from_year_def month_offset_def)
  moreover have "padStart0 4 2024 = ''2024''" "padStart0 2 2 = ''02''" "padStart0 2 29 = ''29''" "padStart0 2 0 = ''00''" "padStart0 3 123 = ''123''"
    unfolding padStart0_def Let_def by (simp_all add: js_String_nat.simps char_of_def bit_0)
  ultimately show ?thesis by simp
qed

lemma sample_alert_projects:
  "\<exists>e. projectAlertLifecycleEvent (\<lambda>_. ''00'') (\<lambda>_. ''0'') (sample_alert t) = Inr e"
proof -
  let ?nt = "\<lambda>_ :: rat. ''0''"
  have num: "js_String_int 1709164800123 = ''1709164800123''" by (simp add: js_String_int_def js_String_nat.simps char_of_def bit_0)
  have time: "event_time (Fin (of_int 1709164800123)) = Some 1709164800123" by (simp only: event_time_Some) simp
  define event where "event = \<lparr>ev_specversion = ''1.0'', ev_id = ''sha256:00'', ev_source = ''urn:maple:alert-rule:r'',
    ev_type = ''dev.maple.alert.lifecycle.'' @ event_type_name t @ ''.v1'', ev_subject = Some ''alert-incidents/i'',
    ev_time = ''2024-02-29T00:00:00.123Z'', ev_datacontenttype = ''application/json'',
    ev_dataschema = ''urn:maple:event-schema:alert-lifecycle:v1'', ev_tenantid = ''t'', ev_projectionid = ''alert-lifecycle'',
    ev_projectionrevision = 1, ev_projectorid = ''alert.lifecycle'', ev_projectorversion = 1,
    ev_sourceoccurrenceid = Some (''i:'' @ event_type_name t @ '':1709164800123''), ev_identityquality = Some iq_source,
    ev_data = lifecycle_data (sample_alert t)\<rparr>"
  have nanos: "timestampToEpochNanos ''2024-02-29T00:00:00.123Z'' = Some 1709164800123000000"
    using toISOString_reads_back [of 1709164800123] sample_iso by simp
  then have "rx_test RFC3339_TIMESTAMP_PATTERN ''2024-02-29T00:00:00.123Z''" by (simp only: rfc3339_pattern) simp
  then have "MapleCloudEventSchema event"
    by (cases t) (simp_all add: MapleCloudEventSchema_def event_def NonEmptyIdentifier_def is_trimmed_def js_trim_def js_space_def
      Rfc3339Timestamp_def lifecycle_data_def sample_alert_def nullable_def)
  moreover have "length (stringify ?nt (canonicalizeJson (event_json event))) \<le> 8000"
  proof -
    have "length (stringify ?nt (canonicalizeJson (lifecycle_data (sample_alert t)))) \<le> 2000"
      unfolding lifecycle_data_def
      by (rule order_trans [OF object_size], cases t)
        (simp_all add: sample_alert_def nullable_def json_string_def json_char_def own_order_def array_index_def is_digit_def js_String_int_def)
    then show ?thesis unfolding event_json_def
      by (intro order_trans [OF object_size], cases t) (simp_all add: event_def optional_field_def json_string_def json_char_def)
  qed
  then have "length (utf8 (stringify ?nt (canonicalizeJson (event_json event)))) \<le> MAX_CLOUD_EVENT_BYTES"
    using utf8_size [of "stringify ?nt (canonicalizeJson (event_json event))"] by (simp add: MAX_CLOUD_EVENT_BYTES_def)
  ultimately have "map_sum id v_event (validateMapleCloudEvent ?nt event) = Inr event"
    by (simp add: validateMapleCloudEvent_def Let_def)
  moreover have "makeCloudEvent (\<lambda>_. ''00'') ?nt (lifecycle_cloud_event (sample_alert t) 1709164800123) =
      map_sum id v_event (validateMapleCloudEvent ?nt event)"
    by (cases t) (simp_all add: nanos makeCloudEvent_def lifecycle_cloud_event_def Let_def sample_iso event_def lifecycle_occurrence_def
      occurrence_owner_def num is_trimmed_def js_trim_def js_space_def makeEventId_def sample_alert_def)
  ultimately show ?thesis using time by (simp add: projectAlertLifecycleEvent_def sample_alert_def)
qed

section \<open>Properties\<close>

text \<open>
  C27. A projected lifecycle event says what happened: it belongs to the tenant and rule of the input, its type names the
  event, its time parses to the very instant of the tick, its data are the input's, and it fits the event schema. The
  instant is a whole number of milliseconds before the year 10000.
\<close>

theorem projectAlertLifecycleEvent_faithful:
  assumes "projectAlertLifecycleEvent sha256 number_text input = Inr e"
  shows "\<exists>ms. lev_occurredAtMs input = Fin (of_int ms) \<and> 0 \<le> ms \<and> ms < 253402300800000 \<and>
    timestampToEpochNanos (ev_time e) = Some (ms * 1000000) \<and> ev_tenantid e = lev_tenantId input \<and>
    ev_source e = ''urn:maple:alert-rule:'' @ lev_ruleId input \<and>
    ev_type e = ''dev.maple.alert.lifecycle.'' @ event_type_name (lev_eventType input) @ ''.v1'' \<and>
    ev_data e = lifecycle_data input \<and> MapleCloudEventSchema e"
  by (rule lifecycle_event [OF assms]) blast

theorem projectAlertLifecycleEvent_faithful_witness:
  "\<exists>e. projectAlertLifecycleEvent (\<lambda>_. ''00'') (\<lambda>_. ''0'') (sample_alert ev_trigger) = Inr e \<and>
     timestampToEpochNanos (ev_time e) = Some 1709164800123000000 \<and> ev_tenantid e = ''t''"
proof -
  obtain e where e: "projectAlertLifecycleEvent (\<lambda>_. ''00'') (\<lambda>_. ''0'') (sample_alert ev_trigger) = Inr e"
    using sample_alert_projects by blast
  from projectAlertLifecycleEvent_faithful [OF e] show ?thesis
    using e by (intro exI [of _ e]) (auto simp: sample_alert_def)
qed

text \<open>
  C28. An event id is stable per tick and separates ticks: two projected events of the same tenant, rule, incident,
  event type and instant have the same id, and events that differ in any of these have different ids unless the digest
  collides on their identities.
\<close>

theorem projectAlertLifecycleEvent_identity:
  assumes "projectAlertLifecycleEvent sha256 number_text a = Inr e" "projectAlertLifecycleEvent sha256 number_text b = Inr f"
  shows "(same_tick a b \<longrightarrow> ev_id e = ev_id f) \<and>
    (ev_id e = ev_id f \<longrightarrow> same_tick a b \<or>
      (\<exists>m n. lev_occurredAtMs a = Fin (of_int m) \<and> lev_occurredAtMs b = Fin (of_int n) \<and>
        identity_bytes (lifecycle_identity a m) \<noteq> identity_bytes (lifecycle_identity b n) \<and>
        sha256 (identity_bytes (lifecycle_identity a m)) = sha256 (identity_bytes (lifecycle_identity b n))))"
proof -
  obtain m where m: "lev_occurredAtMs a = Fin (of_int m)" "ev_id e = makeEventId sha256 (lifecycle_identity a m)"
    "identity_fits (lifecycle_identity a m)" by (rule lifecycle_event [OF assms(1)]) (use lifecycle_identity_fits in blast)
  obtain n where n: "lev_occurredAtMs b = Fin (of_int n)" "ev_id f = makeEventId sha256 (lifecycle_identity b n)"
    "identity_fits (lifecycle_identity b n)" by (rule lifecycle_event [OF assms(2)]) (use lifecycle_identity_fits in blast)
  have same: "lifecycle_identity a m = lifecycle_identity b n \<longleftrightarrow> same_tick a b"
    using m(1) n(1) tick_key [of "occurrence_owner a" "lev_eventType a" m "occurrence_owner b" "lev_eventType b" n]
    by (auto simp: lifecycle_identity_def same_tick_def lifecycle_occurrence_def)
  then show ?thesis using event_id_collision [OF m(3) n(3), of sha256] m n by auto
qed

theorem projectAlertLifecycleEvent_identity_witness:
  "identity_bytes (lifecycle_identity (sample_alert ev_trigger) 1709164800123) \<noteq>
   identity_bytes (lifecycle_identity (sample_alert ev_resolve) 1709164800123)"
proof -
  obtain e f where e: "projectAlertLifecycleEvent (\<lambda>_. ''00'') (\<lambda>_. ''0'') (sample_alert ev_trigger) = Inr e"
    and f: "projectAlertLifecycleEvent (\<lambda>_. ''00'') (\<lambda>_. ''0'') (sample_alert ev_resolve) = Inr f"
    using sample_alert_projects by meson
  have "ev_id e = ''sha256:00''" "ev_id f = ''sha256:00''"
    by (rule lifecycle_event [OF e], simp add: makeEventId_def) (rule lifecycle_event [OF f], simp add: makeEventId_def)
  moreover have "\<not> same_tick (sample_alert ev_trigger) (sample_alert ev_resolve)" by (simp add: same_tick_def sample_alert_def)
  ultimately obtain m n where "lev_occurredAtMs (sample_alert ev_trigger) = Fin (of_int m)" "lev_occurredAtMs (sample_alert ev_resolve) = Fin (of_int n)"
    "identity_bytes (lifecycle_identity (sample_alert ev_trigger) m) \<noteq> identity_bytes (lifecycle_identity (sample_alert ev_resolve) n)"
    using projectAlertLifecycleEvent_identity [OF e f] by auto
  moreover from this(1,2) have "of_int m = (of_int 1709164800123 :: rat)" "of_int n = (of_int 1709164800123 :: rat)"
    by (simp_all add: sample_alert_def)
  then have "m = 1709164800123" "n = 1709164800123" by (simp_all only: of_int_eq_iff)
  ultimately show ?thesis by simp
qed

text \<open>The error for an instant outside the range of dates, and the refusal of instants that need a year of more than four digits.\<close>

theorem projectAlertLifecycleEvent_errors:
  "(projectAlertLifecycleEvent sha256 number_text input = Inl EventTimeOutOfRange \<longleftrightarrow> event_time (lev_occurredAtMs input) = None) \<and>
   (event_time (lev_occurredAtMs input) = Some ms \<and> 253402300800000 \<le> ms \<longrightarrow> isl (projectAlertLifecycleEvent sha256 number_text input))"
proof (intro conjI impI)
  show "projectAlertLifecycleEvent sha256 number_text input = Inl EventTimeOutOfRange \<longleftrightarrow> event_time (lev_occurredAtMs input) = None"
  proof (cases "event_time (lev_occurredAtMs input)")
    case (Some n)
    then show ?thesis by (cases "makeCloudEvent sha256 number_text (lifecycle_cloud_event input n)") (simp_all add: projectAlertLifecycleEvent_def)
  qed (simp add: projectAlertLifecycleEvent_def)
next
  assume t: "event_time (lev_occurredAtMs input) = Some ms \<and> 253402300800000 \<le> ms"
  show "isl (projectAlertLifecycleEvent sha256 number_text input)"
  proof (rule ccontr)
    assume "\<not> isl (projectAlertLifecycleEvent sha256 number_text input)"
    then obtain e where "projectAlertLifecycleEvent sha256 number_text input = Inr e"
      by (cases "projectAlertLifecycleEvent sha256 number_text input") simp_all
    then show False by (rule lifecycle_event) (use t in \<open>simp add: event_time_Some\<close>)
  qed
qed

text \<open>
  The delivery key separates deliveries when the destination's id has no colon, as the ids of the platform have none: two
  deliveries share a key exactly when they agree in incident, destination, event type and schedule.
\<close>

theorem makeAlertDeliveryKey_inj:
  assumes "CHR '':'' \<notin> set destinationId" "CHR '':'' \<notin> set destinationId'"
  shows "makeAlertDeliveryKey incidentId destinationId eventType ms = makeAlertDeliveryKey incidentId' destinationId' eventType' ms' \<longleftrightarrow>
    incidentId = incidentId' \<and> destinationId = destinationId' \<and> eventType = eventType' \<and> ms = ms'" (is "?l \<longleftrightarrow> ?r")
proof
  assume ?l
  then have "(incidentId @ CHR '':'' # destinationId) @ '':'' @ event_type_name eventType @ '':'' @ js_String_int ms =
      (incidentId' @ CHR '':'' # destinationId') @ '':'' @ event_type_name eventType' @ '':'' @ js_String_int ms'"
    by (simp add: makeAlertDeliveryKey_def)
  then have "incidentId @ CHR '':'' # destinationId = incidentId' @ CHR '':'' # destinationId'" "eventType = eventType'" "ms = ms'"
    using tick_key by blast+
  then show ?r using last_separator assms by metis
qed simp

end
