(* ===== verification/Grid_Layout.thy ===== *)
theory Grid_Layout
  imports Maple_Prelude "HOL-Library.Product_Lexorder"
begin

text \<open>
  The dashboard grid, after \<^verbatim>\<open>lib/grid-engine/src/layout.ts\<close>: boxes in grid units,
  vertical compaction, clamping into the columns, and the layout operations built on them.

  The algorithms of the source mutate working items in place and reach the same item through
  several arrays. The model keeps one list of working items as the store and refers to an item by
  its position in it, so that an in-place move is a list update and every array of items is a list of
  positions. A copy the code makes (\<^verbatim>\<open>{ ...original }\<close>) is a value outside the store.
  \<open>JavaScript\<close> numbers used as rows, columns and sizes are integers.
\<close>

section \<open>Items\<close>

record GridItem =
  gi :: string
  gx :: int
  gy :: int
  gw :: int
  gh :: int
  minW :: "int option"
  maxW :: "int option"
  minH :: "int option"
  maxH :: "int option"

type_synonym Layout = "GridItem list"

datatype Compaction = vertical | no_compaction

text \<open>A working item is a grid item with a flag; the record extension keeps the other fields.\<close>

record WorkItem = GridItem +
  moved :: bool

definition toWork :: "GridItem \<Rightarrow> WorkItem" where
  "toWork item = GridItem.extend item \<lparr>moved = False\<rparr>"

definition same_box :: "('a GridItem_scheme) \<Rightarrow> ('b GridItem_scheme) \<Rightarrow> bool" where
  "same_box a b \<longleftrightarrow> gx a = gx b \<and> gy a = gy b \<and> gw a = gw b \<and> gh a = gh b"

definition fromWork :: "WorkItem \<Rightarrow> GridItem option \<Rightarrow> GridItem" where
  "fromWork work original =
     (case original of
        Some o' \<Rightarrow> if same_box o' work then o' else GridItem.truncate work
      | None \<Rightarrow> GridItem.truncate work)"

text \<open>
  \<open>new Map(input.map(item => [item.i, item]))\<close>: the last item with an id wins. \<open>finish\<close> returns the
  input array itself when every output item is the input's; the two have the same value.
\<close>

definition byId :: "('a GridItem_scheme) list \<Rightarrow> (string, 'a GridItem_scheme) jsmap" where
  "byId items = foldl (\<lambda>m item. jsmap_set (gi item) item m) [] items"

definition finish :: "WorkItem list \<Rightarrow> Layout \<Rightarrow> Layout" where
  "finish work input = map (\<lambda>item. fromWork item (jsmap_get (byId input) (gi item))) work"

section \<open>Geometry of boxes\<close>

definition collides :: "('a GridItem_scheme) \<Rightarrow> ('b GridItem_scheme) \<Rightarrow> bool" where
  "collides a b =
     (if gi a = gi b then False
      else if gx a + gw a \<le> gx b then False
      else if gx a \<ge> gx b + gw b then False
      else if gy a + gh a \<le> gy b then False
      else if gy a \<ge> gy b + gh b then False
      else True)"

definition firstCollision :: "('a GridItem_scheme) list \<Rightarrow> ('b GridItem_scheme) \<Rightarrow> ('a GridItem_scheme) option" where
  "firstCollision layout item = find (\<lambda>other. collides other item) layout"

definition bottom :: "('a GridItem_scheme) list \<Rightarrow> int" where
  "bottom layout = foldl (\<lambda>m item. max m (gy item + gh item)) 0 layout"

text \<open>The positions of the items in row order, then column order; the sort is stable.\<close>

definition sortByRowCol :: "('a GridItem_scheme) list \<Rightarrow> nat list" where
  "sortByRowCol layout = sort_key (\<lambda>k. (gy (layout ! k), gx (layout ! k))) [0..<length layout]"

definition correctBounds_item :: "int \<Rightarrow> WorkItem \<Rightarrow> WorkItem" where
  "correctBounds_item cols item =
     (let item = (if gx item + gw item > cols then item\<lparr>gx := cols - gw item\<rparr> else item)
      in if gx item < 0 then item\<lparr>gx := 0, gw := cols\<rparr> else item)"

definition correctBounds :: "WorkItem list \<Rightarrow> int \<Rightarrow> WorkItem list" where
  "correctBounds layout cols = map (correctBounds_item cols) layout"

section \<open>Resolving a collision during compaction\<close>

text \<open>
  The item being compacted is a copy; the items pushed in front of it are entries of the sorted
  array. A reference is one or the other, and the state is the pair of the copy and the array.
\<close>

datatype item_ref = Copy | Slot nat

type_synonym compaction_state = "WorkItem \<times> WorkItem list"

fun deref :: "compaction_state \<Rightarrow> item_ref \<Rightarrow> WorkItem" where
  "deref (c, entries) Copy = c"
| "deref (c, entries) (Slot j) = entries ! j"

fun set_y :: "item_ref \<Rightarrow> int \<Rightarrow> compaction_state \<Rightarrow> compaction_state" where
  "set_y Copy y (c, entries) = (c\<lparr>gy := y\<rparr>, entries)"
| "set_y (Slot j) y (c, entries) = (c, entries[j := (entries ! j)\<lparr>gy := y\<rparr>])"

definition findIndex_id :: "string \<Rightarrow> WorkItem list \<Rightarrow> int" where
  "findIndex_id i entries =
     (case find (\<lambda>k. gi (entries ! k) = i) [0..<length entries] of Some k \<Rightarrow> int k | None \<Rightarrow> -1)"

text \<open>
  \<open>resolveCompactionCollision\<close> recurses into the entries after the item. The first argument bounds
  the depth of the recursion and running out of it is \<open>None\<close>; with distinct ids the position grows
  with every call, so a depth of one more than the number of entries is always enough.
\<close>

function (sequential) resolveCompactionCollision ::
    "nat \<Rightarrow> compaction_state \<Rightarrow> item_ref \<Rightarrow> int \<Rightarrow> compaction_state option"
  and resolve_each :: "nat \<Rightarrow> compaction_state \<Rightarrow> item_ref \<Rightarrow> int \<Rightarrow> nat list \<Rightarrow> compaction_state option" where
  "resolveCompactionCollision 0 st r moveTo = None"
| "resolveCompactionCollision (Suc depth) st r moveTo =
     (let st = set_y r (gy (deref st r) + 1) st;
          index = findIndex_id (gi (deref st r)) (snd st)
      in case resolve_each depth st r moveTo [nat (index + 1)..<length (snd st)] of
           None \<Rightarrow> None
         | Some st \<Rightarrow> Some (set_y r moveTo st))"
| "resolve_each depth st r moveTo [] = Some st"
| "resolve_each depth st r moveTo (j # js) =
     (let item = deref st r; other = snd st ! j
      in if gy other > gy item + gh item then Some st
         else if collides item other
         then (case resolveCompactionCollision depth st (Slot j) (moveTo + gh item) of
                 None \<Rightarrow> None
               | Some st \<Rightarrow> resolve_each depth st r moveTo js)
         else resolve_each depth st r moveTo js)"
  by pat_completeness auto
termination
  by (relation "measures [\<lambda>a. case a of Inl (d, _) \<Rightarrow> 2 * d | Inr (d, _) \<Rightarrow> 2 * d + 1,
                          \<lambda>a. case a of Inl _ \<Rightarrow> 0 | Inr (_, _, _, _, js) \<Rightarrow> length js]") auto

section \<open>Vertical compaction\<close>

text \<open>The first loop: up until row 0 or a collision.\<close>

function float_up :: "WorkItem list \<Rightarrow> WorkItem \<Rightarrow> WorkItem" where
  "float_up placed item =
     (if gy item > 0 \<and> firstCollision placed item = None
      then float_up placed (item\<lparr>gy := gy item - 1\<rparr>)
      else item)"
  by pat_completeness auto
termination
  by (relation "measure (\<lambda>(placed, item). nat (gy item))") auto

declare float_up.simps [simp del]

text \<open>The second loop: below whatever it still collides with, as long as it collides.\<close>

partial_function (option) push_down :: "WorkItem list \<Rightarrow> compaction_state \<Rightarrow> compaction_state option" where
  "push_down placed st =
     (case firstCollision placed (fst st) of
        None \<Rightarrow> Some st
      | Some collision \<Rightarrow>
          (case resolveCompactionCollision (Suc (length (snd st))) st Copy (gy collision + gh collision) of
             None \<Rightarrow> None
           | Some st \<Rightarrow> push_down placed st))"

declare push_down.simps [code]

text \<open>
  The body of the loop places a copy of the sorted entry at position \<open>p\<close>. The loop: \<open>ks\<close> are the
  layout positions still to be placed and \<open>p\<close> counts the entries done so far. \<open>out\<close> starts as the
  layout and every position is written once.
\<close>

definition place_entry ::
  "WorkItem list \<Rightarrow> int \<Rightarrow> WorkItem list \<Rightarrow> nat \<Rightarrow> (WorkItem \<times> WorkItem list) option" where
  "place_entry placed maxY entries p =
     (let original = entries ! p;
          item = original\<lparr>gx := max (gx original) 0, gy := min maxY (max (gy original) 0)\<rparr>;
          item = float_up placed item
      in case push_down placed (item, entries) of
           None \<Rightarrow> None
         | Some (item, entries) \<Rightarrow> Some (item\<lparr>gy := max (gy item) 0, moved := False\<rparr>, entries))"

fun compact_loop ::
  "nat list \<Rightarrow> nat \<Rightarrow> WorkItem list \<Rightarrow> WorkItem list \<Rightarrow> int \<Rightarrow> WorkItem list \<Rightarrow> WorkItem list option" where
  "compact_loop [] p entries placed maxY out = Some out"
| "compact_loop (k # ks) p entries placed maxY out =
     (case place_entry placed maxY entries p of
        None \<Rightarrow> None
      | Some (item, entries) \<Rightarrow>
          compact_loop ks (Suc p) entries (placed @ [item]) (max maxY (gy item + gh item)) (out[k := item]))"

definition compactVerticalWork :: "WorkItem list \<Rightarrow> WorkItem list option" where
  "compactVerticalWork layout =
     compact_loop (sortByRowCol layout) 0 (map (\<lambda>k. layout ! k) (sortByRowCol layout)) [] 0 layout"

definition compactWork :: "WorkItem list \<Rightarrow> Compaction \<Rightarrow> WorkItem list option" where
  "compactWork layout compaction =
     (if compaction = vertical then compactVerticalWork layout else Some layout)"

definition compact_layout :: "Layout \<Rightarrow> Compaction \<Rightarrow> Layout option" where
  "compact_layout layout compaction =
     map_option (\<lambda>work. finish work layout) (compactWork (map toWork layout) compaction)"

definition normalizeLayout :: "Layout \<Rightarrow> int \<Rightarrow> Compaction \<Rightarrow> Layout option" where
  "normalizeLayout layout cols compaction =
     map_option (\<lambda>work. finish work layout)
       (compactWork (correctBounds (map toWork layout) cols) compaction)"

section \<open>Boxes\<close>

lemma collides_iff:
  "collides a b \<longleftrightarrow> gi a \<noteq> gi b \<and> gx b < gx a + gw a \<and> gx a < gx b + gw b \<and>
     gy b < gy a + gh a \<and> gy a < gy b + gh b"
  by (auto simp: collides_def)

lemma collides_sym: "collides a b \<longleftrightarrow> collides b a"
  by (auto simp: collides_iff)

lemma firstCollision_None: "firstCollision layout item = None \<longleftrightarrow> (\<forall>other\<in>set layout. \<not> collides other item)"
  by (auto simp: firstCollision_def find_None_iff)

lemma firstCollision_Some:
  "firstCollision layout item = Some c \<Longrightarrow> c \<in> set layout \<and> collides c item"
  by (auto simp: firstCollision_def find_Some_iff)

lemma bottom_ge: "item \<in> set layout \<Longrightarrow> gy item + gh item \<le> bottom layout" "0 \<le> bottom layout"
  unfolding bottom_def by (auto intro: foldl_max_init foldl_max_elem)

lemma bottom_snoc: "bottom (layout @ [item]) = max (bottom layout) (gy item + gh item)"
  by (simp add: bottom_def)

text \<open>An item without its row: what resolving a collision never changes.\<close>

definition shape :: "WorkItem \<Rightarrow> WorkItem" where
  "shape item = item\<lparr>gy := 0\<rparr>"

lemma shape_eqD:
  assumes "shape a = shape b"
  shows "gi a = gi b \<and> gx a = gx b \<and> gw a = gw b \<and> gh a = gh b"
  using assms by (cases a; cases b) (simp add: shape_def)

lemma shape_gy [simp]: "shape (a\<lparr>gy := y\<rparr>) = shape a"
  by (simp add: shape_def)

lemma gi_shape: "gi (shape a) = gi a"
  by (simp add: shape_def)

lemma map_shape_gi: "map shape xs = map shape ys \<Longrightarrow> map gi xs = map gi ys"
  by (metis (no_types, lifting) gi_shape list.map_comp map_eq_conv comp_apply)

section \<open>Resolving collisions\<close>

lemma shape_update:
  "map shape (xs[j := (xs ! j)\<lparr>gy := y\<rparr>]) = map shape xs"
proof (cases "j < length xs")
  case True
  then have "shape ((xs ! j)\<lparr>gy := y\<rparr>) = map shape xs ! j" by simp
  then show ?thesis by (simp add: map_update)
qed (simp add: list_update_beyond)

lemma set_y_frame:
  "map shape (snd (set_y r y st)) = map shape (snd st)"
  "length (snd (set_y r y st)) = length (snd st)"
  by (cases st; cases r; simp add: shape_update)+

lemma set_y_fst:
  "fst (set_y Copy y st) = (fst st)\<lparr>gy := y\<rparr>"
  "fst (set_y (Slot j) y st) = fst st"
  by (cases st; simp)+

lemma resolve_frame:
  "resolveCompactionCollision depth st r moveTo = Some st' \<Longrightarrow>
     map shape (snd st') = map shape (snd st) \<and>
     fst st' = (if r = Copy then (fst st)\<lparr>gy := moveTo\<rparr> else fst st)"
  "resolve_each depth st r moveTo js = Some st' \<Longrightarrow>
     map shape (snd st') = map shape (snd st) \<and> fst st' = fst st"
proof (induction depth st r moveTo and depth st r moveTo js arbitrary: st' and st'
    rule: resolveCompactionCollision_resolve_each.induct)
  case (2 depth st r moveTo)
  define st1 where "st1 = set_y r (gy (deref st r) + 1) st"
  from 2(2) obtain st2 where st2: "st' = set_y r moveTo st2"
    and each: "resolve_each depth st1 r moveTo
      [nat (findIndex_id (gi (deref st1 r)) (snd st1) + 1)..<length (snd st1)] = Some st2"
    by (auto simp add: Let_def st1_def split: option.splits simp del: split_paired_Ex split_paired_All)
  from 2(1) [of st1, OF st1_def refl each] show ?case
    by (cases r) (simp_all add: st2 st1_def set_y_frame set_y_fst)
next
  case (4 depth st r moveTo j js)
  then show ?case
    by (auto simp: Let_def split: option.splits if_splits)
qed auto

lemma findIndex_id_nth:
  assumes "distinct (map gi entries)" "j < length entries"
  shows "findIndex_id (gi (entries ! j)) entries = int j"
proof -
  have "find (\<lambda>k. gi (entries ! k) = gi (entries ! j)) [0..<length entries] = Some j"
    unfolding find_Some_iff using assms
    by (intro exI [of _ j]) (auto simp: distinct_conv_nth)
  then show ?thesis by (simp add: findIndex_id_def)
qed

lemma deref_set_y_gi:
  "(\<And>j. r = Slot j \<Longrightarrow> j < length (snd st)) \<Longrightarrow> gi (deref (set_y r y st) r) = gi (deref st r)"
  by (cases st; cases r) auto

lemma resolve_total:
  "distinct (map gi (snd st)) \<Longrightarrow>
     (case r of Copy \<Rightarrow> length (snd st) < depth | Slot j \<Rightarrow> j < length (snd st) \<and> length (snd st) - j \<le> depth) \<Longrightarrow>
     resolveCompactionCollision depth st r moveTo \<noteq> None"
  "distinct (map gi (snd st)) \<Longrightarrow> (\<And>j. r = Slot j \<Longrightarrow> j < length (snd st)) \<Longrightarrow>
     (\<forall>j\<in>set js. j < length (snd st) \<and> length (snd st) - j \<le> depth) \<Longrightarrow>
     resolve_each depth st r moveTo js \<noteq> None"
proof (induction depth st r moveTo and depth st r moveTo js rule: resolveCompactionCollision_resolve_each.induct)
  case (2 depth st r moveTo)
  define st1 where "st1 = set_y r (gy (deref st r) + 1) st"
  have same: "map shape (snd st1) = map shape (snd st)" "length (snd st1) = length (snd st)"
    by (simp_all add: st1_def set_y_frame)
  have d: "distinct (map gi (snd st1))"
    using map_shape_gi [OF same(1)] 2(2) by simp
  have slot: "\<And>j. r = Slot j \<Longrightarrow> j < length (snd st1)" using 2(3) same by auto
  have js: "\<forall>k\<in>set [nat (findIndex_id (gi (deref st1 r)) (snd st1) + 1)..<length (snd st1)].
      k < length (snd st1) \<and> length (snd st1) - k \<le> depth"
  proof (cases r)
    case Copy
    then show ?thesis using 2(3) same by auto
  next
    case (Slot j)
    have "findIndex_id (gi (deref st1 r)) (snd st1) = int j"
      using findIndex_id_nth [OF d slot] Slot by (cases st1) simp
    then show ?thesis using 2(3) Slot same by (auto simp: nat_add_distrib)
  qed
  from 2(1) [of st1, OF st1_def refl d slot js] show ?case
    by (simp add: Let_def st1_def split: option.splits)
next
  case (4 depth st r moveTo j js)
  show ?case
  proof (cases "resolveCompactionCollision depth st (Slot j) (moveTo + gh (deref st r))")
    case None
    with 4 show ?thesis by (auto simp: Let_def)
  next
    case (Some st1)
    from resolve_frame(1) [OF Some] have same: "map shape (snd st1) = map shape (snd st)" by simp
    have "length (snd st1) = length (snd st)" using same by (metis length_map)
    with Some 4 map_shape_gi [OF same] show ?thesis by (auto simp: Let_def)
  qed
next
  case (1 st r moveTo)
  then show ?case by (auto split: item_ref.splits)
qed auto


section \<open>The two loops that place an item\<close>

definition rests_on :: "('a GridItem_scheme) \<Rightarrow> ('b GridItem_scheme) \<Rightarrow> bool" where
  "rests_on item below \<longleftrightarrow> gi item \<noteq> gi below \<and> gx below < gx item + gw item \<and>
     gx item < gx below + gw below \<and> gy item = gy below + gh below"

lemma push_down_correct:
  assumes "distinct (map gi (snd st))"
  shows "\<exists>st'. push_down placed st = Some st' \<and> map shape (snd st') = map shape (snd st) \<and>
    fst st' = (fst st)\<lparr>gy := gy (fst st')\<rparr> \<and> firstCollision placed (fst st') = None \<and>
    gy (fst st) \<le> gy (fst st') \<and>
    (st' = st \<or> (\<exists>below\<in>set placed. rests_on (fst st') below))"
  using assms
proof (induction "nat (bottom placed - gy (fst st))" arbitrary: st rule: less_induct)
  case less
  show ?case
  proof (cases "firstCollision placed (fst st)")
    case None
    then show ?thesis by (auto simp: push_down.simps [of placed st] intro!: exI [of _ "fst st"] exI [of _ "snd st"])
  next
    case (Some c)
    have c: "c \<in> set placed" "collides c (fst st)" using firstCollision_Some [OF Some] by auto
    obtain st1 where st1:
      "resolveCompactionCollision (Suc (length (snd st))) st Copy (gy c + gh c) = Some st1"
      using resolve_total(1) [where st = st and r = Copy and depth = "Suc (length (snd st))" and moveTo = "gy c + gh c"] less.prems by auto
    have frame: "map shape (snd st1) = map shape (snd st)" "fst st1 = (fst st)\<lparr>gy := gy c + gh c\<rparr>"
      using resolve_frame(1) [OF st1] by auto
    have dec: "nat (bottom placed - gy (fst st1)) < nat (bottom placed - gy (fst st))"
      using c bottom_ge(1) [OF c(1)] by (auto simp: frame collides_iff)
    have d: "distinct (map gi (snd st1))"
      using map_shape_gi [OF frame(1)] less.prems by simp
    obtain st' where st': "push_down placed st1 = Some st'" "map shape (snd st') = map shape (snd st1)"
      "fst st' = (fst st1)\<lparr>gy := gy (fst st')\<rparr>" "firstCollision placed (fst st') = None"
      "gy (fst st1) \<le> gy (fst st')" "st' = st1 \<or> (\<exists>below\<in>set placed. rests_on (fst st') below)"
      using less.hyps [OF dec d] by blast
    have "push_down placed st = Some st'"
      using st'(1) by (simp add: push_down.simps [of placed st] Some st1 del: resolveCompactionCollision.simps)
    moreover have "rests_on (fst st1) c"
      using c by (auto simp: rests_on_def frame collides_iff)
    moreover have "fst st' = (fst st)\<lparr>gy := gy (fst st')\<rparr>"
      using st'(3) by (simp add: frame)
    moreover have "gy (fst st) \<le> gy (fst st')"
      using st'(5) c by (simp add: frame collides_iff)
    ultimately show ?thesis using st' c frame by auto
  qed
qed

lemma float_up_frame: "\<exists>y \<le> gy item. float_up placed item = item\<lparr>gy := y\<rparr>"
proof (induction placed item rule: float_up.induct)
  case (1 placed item)
  show ?case
  proof (cases "gy item > 0 \<and> firstCollision placed item = None")
    case True
    with 1 obtain y where "y \<le> gy item - 1" "float_up placed (item\<lparr>gy := gy item - 1\<rparr>) = item\<lparr>gy := y\<rparr>"
      by auto
    with True show ?thesis by (intro exI [of _ y]) (simp add: float_up.simps [of placed item])
  next
    case False
    then have "float_up placed item = item\<lparr>gy := gy item\<rparr>"
      by (subst float_up.simps) (simp only: if_False GridItem.surjective, simp)
    then show ?thesis by blast
  qed
qed

lemma float_up_stop:
  "0 \<le> gy item \<Longrightarrow> 0 \<le> gy (float_up placed item) \<and>
     (gy (float_up placed item) = 0 \<or> firstCollision placed (float_up placed item) \<noteq> None)"
proof (induction placed item rule: float_up.induct)
  case (1 placed item)
  show ?case
  proof (cases "gy item > 0 \<and> firstCollision placed item = None")
    case True
    with 1 show ?thesis by (auto simp: float_up.simps [of placed item])
  next
    case False
    with 1 show ?thesis by (auto simp: float_up.simps [of placed item])
  qed
qed


section \<open>What compaction achieves\<close>

text \<open>
  A settled arrangement has no two colliding boxes, lies in the non-negative quadrant, and every box
  is on row 0 or rests exactly on another.
\<close>

definition settled :: "('a GridItem_scheme) set \<Rightarrow> bool" where
  "settled S \<longleftrightarrow> (\<forall>a\<in>S. \<forall>b\<in>S. \<not> collides a b) \<and>
     (\<forall>a\<in>S. 0 \<le> gx a \<and> 0 \<le> gy a \<and> (gy a = 0 \<or> (\<exists>below\<in>S. rests_on a below)))"

definition rowless :: "WorkItem \<Rightarrow> WorkItem" where
  "rowless item = item\<lparr>gx := max (gx item) 0, gy := 0, moved := False\<rparr>"

lemma rowless_shape: "shape a = shape b \<Longrightarrow> rowless a = rowless b"
  by (cases a; cases b) (simp add: shape_def rowless_def)

lemma settled_insert:
  assumes "settled S" "\<forall>b\<in>S. \<not> collides b a" "0 \<le> gx a" "0 \<le> gy a" "gy a = 0 \<or> (\<exists>below\<in>S. rests_on a below)"
  shows "settled (insert a S)"
proof -
  have "\<not> collides a a" by (simp add: collides_def)
  moreover have "\<forall>b\<in>S. \<not> collides a b" using assms(2) by (simp add: collides_sym [of a])
  ultimately show ?thesis using assms unfolding settled_def by auto
qed

lemma place_entry_correct:
  assumes d: "distinct (map gi entries)" and S: "settled (set placed)" and m: "0 \<le> maxY"
  shows "\<exists>item entries'. place_entry placed maxY entries p = Some (item, entries') \<and>
    map shape entries' = map shape entries \<and> rowless item = rowless (entries ! p) \<and>
    \<not> moved item \<and> settled (insert item (set placed))"
proof -
  define start where "start = (entries ! p)\<lparr>gx := max (gx (entries ! p)) 0, gy := min maxY (max (gy (entries ! p)) 0)\<rparr>"
  define up where "up = float_up placed start"
  obtain y where y: "up = start\<lparr>gy := y\<rparr>"
    using float_up_frame [of start placed] by (auto simp: up_def)
  have up: "0 \<le> gy up" "gy up = 0 \<or> firstCollision placed up \<noteq> None"
    using float_up_stop [of start placed] m by (auto simp: up_def start_def)
  have ids: "distinct (map gi (snd (up, entries)))" using d by simp
  obtain st' where st': "push_down placed (up, entries) = Some st'" "map shape (snd st') = map shape entries"
    "fst st' = up\<lparr>gy := gy (fst st')\<rparr>" "firstCollision placed (fst st') = None" "gy up \<le> gy (fst st')"
    "st' = (up, entries) \<or> (\<exists>below\<in>set placed. rests_on (fst st') below)"
    using push_down_correct [OF ids, of placed] unfolding fst_conv snd_conv by (elim exE conjE) blast
  define item where "item = (fst st')\<lparr>gy := max (gy (fst st')) 0, moved := False\<rparr>"
  have box: "gi item = gi (fst st')" "gx item = gx (fst st')" "gw item = gw (fst st')" "gh item = gh (fst st')"
    "gy item = gy (fst st')" "\<not> moved item" using up(1) st'(5) by (simp_all add: item_def)
  have eq: "fst st' = start\<lparr>gy := gy (fst st')\<rparr>" using st'(3) by (simp add: y)
  have x: "0 \<le> gx item" by (subst box(2), subst eq) (simp add: start_def)
  have free: "\<forall>b\<in>set placed. \<not> collides b item"
    using st'(4) by (simp add: firstCollision_None collides_iff box)
  have grav: "gy item = 0 \<or> (\<exists>below\<in>set placed. rests_on item below)"
    using st'(6)
  proof
    assume "st' = (up, entries)"
    then show ?thesis using up(2) st'(4) box(5) by simp
  qed (auto simp: rests_on_def box)
  have y: "0 \<le> gy item" using up(1) st'(5) box by simp
  have "rowless item = rowless (entries ! p)"
    unfolding item_def by (subst eq) (simp add: rowless_def start_def)
  moreover have "place_entry placed maxY entries p = Some (item, snd st')"
    using st'(1) by (simp add: place_entry_def Let_def up_def start_def item_def split: prod.splits)
  ultimately show ?thesis using settled_insert [OF S free x y grav] st'(2) box(6) by blast
qed


lemma compact_loop_correct:
  assumes "distinct (map gi entries)" "settled (set placed)" "0 \<le> maxY" "distinct ks"
    "\<forall>k\<in>set ks. k < length out" "length entries = p + length ks"
    "map shape (drop p entries) = map (\<lambda>k. shape (out ! k)) ks"
  shows "\<exists>out'. compact_loop ks p entries placed maxY out = Some out' \<and> length out' = length out \<and>
    (\<forall>k. k \<notin> set ks \<longrightarrow> out' ! k = out ! k) \<and>
    (\<forall>k\<in>set ks. rowless (out' ! k) = rowless (out ! k) \<and> \<not> moved (out' ! k)) \<and>
    settled (set placed \<union> (\<lambda>k. out' ! k) ` set ks)"
  using assms
proof (induction ks arbitrary: p entries placed maxY out)
  case (Cons k ks)
  obtain item entries' where pe: "place_entry placed maxY entries p = Some (item, entries')"
    "map shape entries' = map shape entries" "rowless item = rowless (entries ! p)"
    "\<not> moved item" "settled (set (placed @ [item]))"
    using place_entry_correct [OF Cons.prems(1-3), of p] by auto
  have len: "length entries' = length entries" using pe(2) by (metis length_map)
  have p: "p < length entries" using Cons.prems(6) by simp
  have hd: "shape (entries ! p) = shape (out ! k)" and
    tl: "map shape (drop (Suc p) entries) = map (\<lambda>k. shape (out ! k)) ks"
    using Cons.prems(7) p by (simp_all add: Cons_nth_drop_Suc [symmetric])
  have k: "k \<notin> set ks" "k < length out" using Cons.prems(4,5) by auto
  have "map shape (drop (Suc p) entries') = map (\<lambda>k'. shape (out[k := item] ! k')) ks"
    using tl k pe(2) by (auto simp: drop_map [symmetric] nth_update_if)
  then obtain out' where out': "compact_loop ks (Suc p) entries' (placed @ [item])
      (max maxY (gy item + gh item)) (out[k := item]) = Some out'" "length out' = length out"
    "\<forall>k'. k' \<notin> set ks \<longrightarrow> out' ! k' = out[k := item] ! k'"
    "\<forall>k'\<in>set ks. rowless (out' ! k') = rowless (out[k := item] ! k') \<and> \<not> moved (out' ! k')"
    "settled (set (placed @ [item]) \<union> (\<lambda>k. out' ! k) ` set ks)"
    using Cons.IH [of entries' "placed @ [item]" "max maxY (gy item + gh item)" "out[k := item]" "Suc p"]
      Cons.prems pe map_shape_gi [OF pe(2)] len by (auto simp: le_max_iff_disj)
  have at: "out' ! k = item" using out'(3) k by simp
  have "rowless (out' ! k) = rowless (out ! k)" using at pe(3) rowless_shape [OF hd] by simp
  then have "\<forall>k'\<in>set (k # ks). rowless (out' ! k') = rowless (out ! k') \<and> \<not> moved (out' ! k')"
    using out'(4) at pe(4) k by (auto simp: nth_update_if)
  moreover have "set placed \<union> (\<lambda>k. out' ! k) ` set (k # ks) = set (placed @ [item]) \<union> (\<lambda>k. out' ! k) ` set ks"
    using at by auto
  moreover have "\<forall>k'. k' \<notin> set (k # ks) \<longrightarrow> out' ! k' = out ! k'" using out'(3) by auto
  ultimately show ?case using out'(1,2,5) pe(1) by auto
qed simp

lemma mset_sortByRowCol: "distinct (sortByRowCol layout)" "set (sortByRowCol layout) = {0..<length layout}"
  "length (sortByRowCol layout) = length layout"
  by (simp_all add: sortByRowCol_def)

lemma compactVerticalWork_correct:
  assumes "distinct (map gi layout)"
  shows "\<exists>out. compactVerticalWork layout = Some out \<and> map rowless out = map rowless layout \<and>
    (\<forall>item\<in>set out. \<not> moved item) \<and> settled (set out)"
proof -
  let ?ks = "sortByRowCol layout"
  let ?entries = "map (\<lambda>k. layout ! k) ?ks"
  have "inj_on (\<lambda>k. gi (layout ! k)) {0..<length layout}"
    unfolding inj_on_def by (metis assms atLeastLessThan_iff length_map nth_eq_iff_index_eq nth_map)
  then have "distinct (map gi ?entries)"
    by (simp add: distinct_map mset_sortByRowCol comp_def inj_on_def)
  then obtain out where out: "compact_loop ?ks 0 ?entries [] 0 layout = Some out" "length out = length layout"
    "\<forall>k\<in>set ?ks. rowless (out ! k) = rowless (layout ! k) \<and> \<not> moved (out ! k)"
    "settled ((\<lambda>k. out ! k) ` set ?ks)"
    using compact_loop_correct [of ?entries "[]" 0 ?ks layout 0]
    by (auto simp: mset_sortByRowCol settled_def)
  have "(\<lambda>k. out ! k) ` set ?ks = set out" using out(2) by (auto simp: mset_sortByRowCol in_set_conv_nth)
  moreover have "map rowless out = map rowless layout"
    using out(2,3) by (intro nth_equalityI) (auto simp: mset_sortByRowCol)
  moreover have "\<forall>item\<in>set out. \<not> moved item"
    using out(2,3) by (auto simp: mset_sortByRowCol in_set_conv_nth)
  ultimately show ?thesis using out by (auto simp: compactVerticalWork_def)
qed

section \<open>Settled arrangements are fixed points\<close>

lemma resolve_each_free:
  "\<forall>j\<in>set js. \<not> collides (deref st r) (snd st ! j) \<Longrightarrow> resolve_each depth st r moveTo js = Some st"
  by (induction js) (simp_all add: Let_def)

lemma gy_upd_id [simp]: "(item :: WorkItem)\<lparr>gy := gy item\<rparr> = item"
  by simp

lemma settledD:
  assumes "settled S" "a \<in> S"
  shows "0 \<le> gx a" "0 \<le> gy a" "gy a = 0 \<or> (\<exists>below\<in>S. rests_on a below)" "b \<in> S \<Longrightarrow> \<not> collides a b"
  using assms by (auto simp: settled_def)

lemma push_down_settled:
  assumes free: "\<forall>j < length entries. \<not> collides item (entries ! j)"
    and placed: "\<forall>q\<in>set placed. \<not> collides q item \<and> gy q \<le> gy item" and h: "0 < gh item"
  shows "push_down placed (item\<lparr>gy := gy item - 1\<rparr>, entries) =
    (if firstCollision placed (item\<lparr>gy := gy item - 1\<rparr>) = None
     then Some (item\<lparr>gy := gy item - 1\<rparr>, entries) else Some (item, entries))"
proof (cases "firstCollision placed (item\<lparr>gy := gy item - 1\<rparr>)")
  case None
  then show ?thesis by (simp add: push_down.simps)
next
  case (Some q)
  from firstCollision_Some [OF Some] have q: "q \<in> set placed" "collides q (item\<lparr>gy := gy item - 1\<rparr>)" by auto
  have at: "gy q + gh q = gy item"
    using q placed [THEN bspec, OF q(1)] h by (auto simp: collides_iff)
  have "resolveCompactionCollision (Suc (length entries)) (item\<lparr>gy := gy item - 1\<rparr>, entries) Copy (gy item)
    = Some (item, entries)"
    using free by (simp add: Let_def resolve_each_free)
  moreover have "firstCollision placed item = None"
    using placed by (simp add: firstCollision_None)
  ultimately show ?thesis
    using Some by (simp add: push_down.simps at del: resolveCompactionCollision.simps)
qed

lemma float_up_rests:
  assumes "b \<in> set placed" "rests_on item b" "0 < gh b" "0 < gh item" "0 \<le> gy b"
    "firstCollision placed item = None"
  shows "float_up placed item = item\<lparr>gy := gy item - 1\<rparr>"
    "firstCollision placed (item\<lparr>gy := gy item - 1\<rparr>) \<noteq> None"
proof -
  have "collides b (item\<lparr>gy := gy item - 1\<rparr>)" "0 < gy item"
    using assms by (auto simp: rests_on_def collides_iff)
  then show hit: "firstCollision placed (item\<lparr>gy := gy item - 1\<rparr>) \<noteq> None"
    using assms(1) firstCollision_None by blast
  then have "float_up placed (item\<lparr>gy := gy item - 1\<rparr>) = item\<lparr>gy := gy item - 1\<rparr>"
    by (auto simp: float_up.simps [of placed "item\<lparr>gy := gy item - 1\<rparr>"])
  then show "float_up placed item = item\<lparr>gy := gy item - 1\<rparr>"
    using \<open>0 < gy item\<close> assms(6) by (simp add: float_up.simps [of placed item])
qed

lemma place_entry_settled:
  assumes S: "settled (set entries)" and h: "\<forall>a\<in>set entries. 0 < gh a \<and> \<not> moved a"
    and rows: "sorted (map gy entries)" and p: "p < length entries"
  shows "place_entry (take p entries) (bottom (take p entries)) entries p = Some (entries ! p, entries)"
proof -
  let ?item = "entries ! p" and ?placed = "take p entries"
  have item: "?item \<in> set entries" using p by simp
  note sd = settledD [OF S item]
  have above: "\<forall>q\<in>set ?placed. \<not> collides q ?item \<and> gy q \<le> gy ?item"
  proof
    fix q assume q: "q \<in> set ?placed"
    then have "q \<in> set entries" by (rule in_set_takeD)
    moreover obtain i where "i < p" "q = entries ! i" using q p by (auto simp: in_set_conv_nth)
    moreover have "gy (entries ! i) \<le> gy (entries ! p)"
      using sorted_nth_mono [OF rows, of i p] p \<open>i < p\<close> by simp
    ultimately show "\<not> collides q ?item \<and> gy q \<le> gy ?item"
      using sd(4) collides_sym by blast
  qed
  have none: "firstCollision ?placed ?item = None" using above by (simp add: firstCollision_None)
  have free: "\<forall>j < length entries. \<not> collides ?item (entries ! j)" using sd(4) by auto
  have fin: "?item\<lparr>gy := max (gy ?item) 0, moved := False\<rparr> = ?item"
    using sd(2) h item by (cases ?item) auto
  show ?thesis
  proof (cases "gy ?item = 0")
    case True
    have start: "?item\<lparr>gx := max (gx ?item) 0, gy := min (bottom ?placed) (max (gy ?item) 0)\<rparr> = ?item"
      using True sd(1) bottom_ge(2) [of ?placed] by (cases ?item) (simp add: min_def)
    show ?thesis unfolding place_entry_def Let_def start
      using True none fin by (simp add: float_up.simps push_down.simps)
  next
    case False
    then obtain b where b: "b \<in> set entries" "rests_on ?item b" using sd(3) by auto
    have hb: "0 < gh b" "0 \<le> gy b" using h b(1) settledD(2) [OF S b(1)] by auto
    have "b \<in> set ?placed"
    proof -
      obtain i where i: "i < length entries" "b = entries ! i" using b(1) by (auto simp: in_set_conv_nth)
      have "gy b < gy ?item" using b(2) hb by (simp add: rests_on_def)
      then have "i < p" using sorted_nth_mono [OF rows, of p i] i p by (cases "p \<le> i") simp_all
      then show ?thesis using i by (auto simp: in_set_conv_nth)
    qed
    note b' = this b(2) hb
    have "gy ?item \<le> bottom ?placed" using bottom_ge(1) [OF b'(1)] b(2) by (simp add: rests_on_def)
    then have start: "?item\<lparr>gx := max (gx ?item) 0, gy := min (bottom ?placed) (max (gy ?item) 0)\<rparr> = ?item"
      using sd(1,2) by (cases ?item) (simp add: max_def min_def)
    have hi: "0 < gh ?item" using h item by simp
    note up = float_up_rests [OF b'(1,2,3) hi b'(4) none]
    show ?thesis unfolding place_entry_def Let_def start up(1)
      using push_down_settled [OF free above hi] up(2) fin by simp
  qed
qed

lemma compact_loop_settled:
  assumes "settled (set entries)" "\<forall>a\<in>set entries. 0 < gh a \<and> \<not> moved a" "sorted (map gy entries)"
    "drop p entries = map (\<lambda>k. out ! k) ks" "p + length ks = length entries"
  shows "compact_loop ks p entries (take p entries) (bottom (take p entries)) out = Some out"
  using assms(4,5)
proof (induction ks arbitrary: p)
  case (Cons k ks)
  have p: "p < length entries" using Cons.prems by simp
  then have k: "entries ! p = out ! k" "drop (Suc p) entries = map (\<lambda>k. out ! k) ks"
    using Cons.prems by (simp_all add: Cons_nth_drop_Suc [symmetric])
  have "bottom (take (Suc p) entries) = max (bottom (take p entries)) (gy (entries ! p) + gh (entries ! p))"
    using p by (simp add: take_Suc_conv_app_nth bottom_snoc)
  then show ?case
    using Cons.IH [of "Suc p"] Cons.prems place_entry_settled [OF assms(1-3) p] k p
    by (simp add: take_Suc_conv_app_nth list_update_id)
qed simp

lemma sortByRowCol_rows: "sorted (map gy (map (\<lambda>k. layout ! k) (sortByRowCol layout)))"
proof -
  have s: "sorted (map (\<lambda>k. (gy (layout ! k), gx (layout ! k))) (sortByRowCol layout))"
    by (simp add: sortByRowCol_def)
  show ?thesis unfolding sorted_iff_nth_mono
  proof (intro allI impI)
    fix i j assume ij: "i \<le> j" "j < length (map gy (map (\<lambda>k. layout ! k) (sortByRowCol layout)))"
    show "map gy (map (\<lambda>k. layout ! k) (sortByRowCol layout)) ! i \<le>
      map gy (map (\<lambda>k. layout ! k) (sortByRowCol layout)) ! j"
      using sorted_nth_mono [OF s ij(1)] ij by (auto simp: less_eq_prod_def)
  qed
qed

theorem compactVerticalWork_settled:
  assumes "settled (set layout)" "\<forall>a\<in>set layout. 0 < gh a \<and> \<not> moved a"
  shows "compactVerticalWork layout = Some layout"
proof -
  have "set (map (\<lambda>k. layout ! k) (sortByRowCol layout)) = set layout"
    by (auto simp: mset_sortByRowCol in_set_conv_nth)
  then show ?thesis
    using compact_loop_settled [of "map (\<lambda>k. layout ! k) (sortByRowCol layout)" 0 layout "sortByRowCol layout"]
      assms sortByRowCol_rows [of layout]
    by (simp add: compactVerticalWork_def bottom_def del: map_map)
qed

section \<open>From working items back to the layout\<close>

lemma truncate_fields [simp]:
  "gi (GridItem.truncate a) = gi a" "gx (GridItem.truncate a) = gx a" "gy (GridItem.truncate a) = gy a"
  "gw (GridItem.truncate a) = gw a" "gh (GridItem.truncate a) = gh a"
  "minW (GridItem.truncate a) = minW a" "maxW (GridItem.truncate a) = maxW a"
  "minH (GridItem.truncate a) = minH a" "maxH (GridItem.truncate a) = maxH a"
  by (cases a; simp add: GridItem.defs)+

lemma toWork_fields [simp]:
  "gi (toWork a) = gi a" "gx (toWork a) = gx a" "gy (toWork a) = gy a" "gw (toWork a) = gw a" "gh (toWork a) = gh a"
  "minW (toWork a) = minW a" "maxW (toWork a) = maxW a" "minH (toWork a) = minH a" "maxH (toWork a) = maxH a"
  "moved (toWork a) = False" "GridItem.truncate (toWork a) = a"
  by (cases a; simp add: toWork_def GridItem.defs)+

lemma map_of_byId_aux:
  "map_of (foldl (\<lambda>m item. jsmap_set (gi item) item m) m items) =
     (\<lambda>i. case find (\<lambda>a. gi a = i) (rev items) of Some a \<Rightarrow> Some a | None \<Rightarrow> map_of m i)"
proof (induction items arbitrary: m rule: rev_induct)
  case (snoc a items)
  then show ?case by (auto simp: update_conv' fun_eq_iff)
qed auto

lemma jsmap_get_byId:
  assumes "distinct (map gi items)" "a \<in> set items"
  shows "jsmap_get (byId items) (gi a) = Some a"
  using find_unique [of gi "rev items" a] assms by (simp add: byId_def map_of_byId_aux rev_map [symmetric])

lemma jsmap_get_byId_None: "i \<notin> gi ` set items \<Longrightarrow> jsmap_get (byId items) i = None"
  by (auto simp: byId_def map_of_byId_aux find_None_iff split: option.splits dest!: find_Some_iff [THEN iffD1])

definition limits :: "('a GridItem_scheme) \<Rightarrow> string \<times> int option \<times> int option \<times> int option \<times> int option" where
  "limits a = (gi a, minW a, maxW a, minH a, maxH a)"

lemma fromWork_value:
  "limits work = limits original \<Longrightarrow> fromWork work (Some original) = GridItem.truncate work"
  by (cases original; cases work) (auto simp: fromWork_def same_box_def limits_def GridItem.defs)

text \<open>
  \<open>finish\<close> returns the working boxes: reusing the caller's objects never shows in the values as long
  as the ids are distinct and the items correspond by position.
\<close>

lemma finish_truncate:
  assumes "distinct (map gi input)" "map limits work = map limits input"
  shows "finish work input = map GridItem.truncate work"
proof -
  have len: "length work = length input" using assms(2) by (metis length_map)
  have "fromWork (work ! k) (jsmap_get (byId input) (gi (work ! k))) = GridItem.truncate (work ! k)"
    if k: "k < length work" for k
  proof -
    have lim: "limits (work ! k) = limits (input ! k)" using assms(2) k len by (metis nth_map)
    then have "gi (work ! k) = gi (input ! k)" by (simp add: limits_def)
    then show ?thesis using jsmap_get_byId [OF assms(1), of "input ! k"] k len fromWork_value [OF lim] by simp
  qed
  then show ?thesis unfolding finish_def by (intro nth_equalityI) auto
qed

lemma settled_truncate: "settled (GridItem.truncate ` S) \<longleftrightarrow> settled S"
  by (simp add: settled_def rests_on_def collides_iff)

lemma rowless_fields:
  assumes "rowless a = rowless b"
  shows "limits a = limits b" "gw a = gw b" "gh a = gh b" "max (gx a) 0 = max (gx b) 0"
  using assms by (cases a; cases b; simp add: rowless_def limits_def)+

text \<open>What compaction keeps of a tile: everything but its row, with a negative column raised to 0.\<close>

definition same_tile :: "('a GridItem_scheme) \<Rightarrow> ('b GridItem_scheme) \<Rightarrow> bool" where
  "same_tile a b \<longleftrightarrow> limits b = limits a \<and> gx b = max (gx a) 0 \<and> gw b = gw a \<and> gh b = gh a"

lemma same_tile_toWork [simp]: "same_tile (toWork a) b = same_tile a b"
  by (simp add: same_tile_def limits_def)

lemma limits_gi: "map limits xs = map limits ys \<Longrightarrow> map gi xs = map gi ys"
proof -
  assume "map limits xs = map limits ys"
  then have "map fst (map limits xs) = map fst (map limits ys)" by simp
  then show ?thesis by (simp add: limits_def comp_def)
qed

section \<open>What a packing routine promises\<close>

text \<open>
  Every layout operation clones the layout into working items, changes them and packs the result. They
  rely on the contract below, which \<open>compactVerticalWork\<close> meets.
\<close>

locale packing =
  fixes pack :: "WorkItem list \<Rightarrow> WorkItem list option"
  assumes pack_correct: "distinct (map gi layout) \<Longrightarrow>
    \<exists>out. pack layout = Some out \<and> map rowless out = map rowless layout \<and>
      (\<forall>item\<in>set out. \<not> moved item) \<and> settled (set out)"
begin

lemma finish_pack:
  assumes d: "distinct (map gi layout)" and lim: "map limits work = map limits layout"
  shows "\<exists>out. pack work = Some out \<and> list_all2 same_tile work (finish out layout) \<and>
    settled (set (finish out layout)) \<and> (\<forall>a\<in>set out. \<not> moved a) \<and> finish out layout = map GridItem.truncate out"
proof -
  have "distinct (map gi work)" using d limits_gi [OF lim] by simp
  then obtain out where out: "pack work = Some out" "map rowless out = map rowless work"
    "\<forall>a\<in>set out. \<not> moved a" "settled (set out)"
    using pack_correct by blast
  have len: "length out = length work" using out(2) by (metis length_map)
  have row: "rowless (out ! k) = rowless (work ! k)" if "k < length work" for k
    using out(2) that len by (metis nth_map)
  have "map limits out = map limits work"
    using len rowless_fields(1) [OF row] by (intro nth_equalityI) simp_all
  then have fin: "finish out layout = map GridItem.truncate out"
    using finish_truncate [OF d] lim by simp
  have "same_tile (work ! k) (GridItem.truncate (out ! k))" if k: "k < length work" for k
  proof -
    have "gx (out ! k) = max (gx (work ! k)) 0"
      using rowless_fields(4) [OF row [OF k]] settledD(1) [OF out(4), of "out ! k"] k len by simp
    then show ?thesis
      using rowless_fields(1-3) [OF row [OF k]] unfolding same_tile_def limits_def by simp
  qed
  then have "list_all2 same_tile work (map GridItem.truncate out)"
    using len by (simp add: list_all2_conv_all_nth)
  with out fin show ?thesis by (simp add: settled_truncate)
qed

end

interpretation vertical_packing: packing compactVerticalWork
  by unfold_locales (rule compactVerticalWork_correct)

lemmas compact_finish = vertical_packing.finish_pack

lemma map_limits_toWork: "map limits (map toWork layout) = map limits layout"
  by (simp add: limits_def)

lemma compact_layout_result:
  assumes "distinct (map gi layout)"
  shows "\<exists>result. compact_layout layout vertical = Some result \<and> list_all2 same_tile layout result \<and>
    settled (set result)"
  using compact_finish [OF assms map_limits_toWork]
  by (auto simp: compact_layout_def compactWork_def list_all2_map1)

lemma list_all2_same_tile_gi: "list_all2 same_tile xs ys \<Longrightarrow> map gi ys = map gi xs"
  by (induction rule: list_all2_induct) (auto simp: same_tile_def limits_def)

section \<open>Correctness of compaction\<close>

definition sample_board :: Layout where
  "sample_board =
     [\<lparr>gi = ''a'', gx = 0, gy = 5, gw = 2, gh = 2, minW = Some 1, maxW = None, minH = None, maxH = Some 6\<rparr>,
      \<lparr>gi = ''b'', gx = 1, gy = 6, gw = 2, gh = 3, minW = None, maxW = None, minH = None, maxH = None\<rparr>,
      \<lparr>gi = ''c'', gx = 11, gy = 1, gw = 3, gh = 1, minW = None, maxW = Some 4, minH = None, maxH = None\<rparr>]"

text \<open>
  C4. Packing a layout with distinct ids always finishes, returns the tiles in the order of the
  input with their ids, limits and sizes (a negative column becomes 0), and leaves a settled board: no
  two tiles overlap, and each tile is on row 0 or stands exactly on top of a tile it shares a column with.
\<close>

theorem compact_correct:
  assumes "distinct (map gi layout)"
  shows "\<exists>result. compact_layout layout vertical = Some result \<and> list_all2 same_tile layout result \<and>
    settled (set result)"
  using assms by (rule compact_layout_result)

theorem compact_correct_witness:
  "\<exists>result. compact_layout sample_board vertical = Some result \<and> list_all2 same_tile sample_board result \<and>
    settled (set result)"
  by (rule compact_correct) (simp add: sample_board_def)

text \<open>
  Packing is idempotent: with distinct ids and positive heights, packing a packed layout
  changes nothing.
\<close>

theorem compact_idempotent:
  assumes "distinct (map gi layout)" "\<forall>item\<in>set layout. 0 < gh item" "compact_layout layout vertical = Some result"
  shows "compact_layout result vertical = Some result"
proof -
  have r: "list_all2 same_tile layout result" "settled (set result)"
    using compact_layout_result [OF assms(1)] assms(3) by auto
  have d: "distinct (map gi result)" using assms(1) list_all2_same_tile_gi [OF r(1)] by simp
  have "0 < gh item" if "item \<in> set result" for item
    using r(1) assms(2) that by (metis in_set_conv_nth list_all2_conv_all_nth same_tile_def)
  moreover have "settled (set (map toWork result))"
    using r(2) settled_truncate [of "set (map toWork result)"] by (simp add: image_image)
  ultimately have "compactVerticalWork (map toWork result) = Some (map toWork result)"
    by (intro compactVerticalWork_settled) auto
  then show ?thesis
    using finish_truncate [OF d map_limits_toWork]
    by (simp add: compact_layout_def compactWork_def comp_def)
qed

theorem compact_idempotent_witness:
  "\<exists>result. compact_layout sample_board vertical = Some result \<and> compact_layout result vertical = Some result"
proof -
  have d: "distinct (map gi sample_board)" and h: "\<forall>item\<in>set sample_board. 0 < gh item"
    by (simp_all add: sample_board_def)
  have "compact_layout sample_board vertical \<noteq> None" by code_simp
  then obtain result where "compact_layout sample_board vertical = Some result" by blast
  with compact_idempotent [OF d h this] show ?thesis by blast
qed

text \<open>
  Whatever was stored, the normalised layout is drawable: it is settled, every tile lies within
  the columns, ids and limits are kept in place, and a tile that already fitted keeps its column and size.
\<close>

theorem normalizeLayout_in_columns:
  assumes "distinct (map gi layout)"
  shows "\<exists>result. normalizeLayout layout cols vertical = Some result \<and> settled (set result) \<and>
    map limits result = map limits layout \<and> (\<forall>item\<in>set result. 0 \<le> gx item \<and> gx item + gw item \<le> cols) \<and>
    (\<forall>k < length layout. 0 \<le> gx (layout ! k) \<and> gx (layout ! k) + gw (layout ! k) \<le> cols \<longrightarrow>
        same_tile (layout ! k) (result ! k))"
proof -
  let ?work = "correctBounds (map toWork layout) cols"
  have lim: "map limits ?work = map limits layout"
    by (simp add: correctBounds_def correctBounds_item_def limits_def Let_def)
  obtain out where out: "compactVerticalWork ?work = Some out" "list_all2 same_tile ?work (finish out layout)"
    "settled (set (finish out layout))"
    using compact_finish [OF assms lim] by blast
  have "0 \<le> gx item \<and> gx item + gw item \<le> cols" if "item \<in> set ?work" for item
    using that by (auto simp: correctBounds_def correctBounds_item_def Let_def)
  then have cols: "\<forall>item\<in>set (finish out layout). 0 \<le> gx item \<and> gx item + gw item \<le> cols"
    using list_all2_set2_ex [OF out(2)] by (metis max.absorb1 same_tile_def)
  have lims: "map limits (finish out layout) = map limits layout"
    using out(2) lim by (auto simp: list_all2_conv_all_nth list_eq_iff_nth_eq same_tile_def)
  have "same_tile (layout ! k) (finish out layout ! k)"
    if "k < length layout" "0 \<le> gx (layout ! k)" "gx (layout ! k) + gw (layout ! k) \<le> cols" for k
    using out(2) that
    by (auto simp: list_all2_conv_all_nth same_tile_def correctBounds_def correctBounds_item_def limits_def)
  then show ?thesis using out(1,3) cols lims by (auto simp: normalizeLayout_def compactWork_def)
qed

theorem normalizeLayout_in_columns_witness:
  "\<exists>result. normalizeLayout sample_board 12 vertical = Some result \<and> settled (set result) \<and>
    map limits result = map limits sample_board \<and> (\<forall>item\<in>set result. 0 \<le> gx item \<and> gx item + gw item \<le> 12) \<and>
    (\<forall>k < length sample_board. 0 \<le> gx (sample_board ! k) \<and> gx (sample_board ! k) + gw (sample_board ! k) \<le> 12 \<longrightarrow>
        same_tile (sample_board ! k) (result ! k))"
  by (rule normalizeLayout_in_columns) (simp add: sample_board_def)

end
