(* ===== verification/Grid_Moves.thy ===== *)
theory Grid_Moves
  imports Grid_Layout
begin

text \<open>
  The operations on a packed board, after \<^verbatim>\<open>lib/grid-engine/src/layout.ts\<close>: a drag with its
  chain of pushes, resizing, clamping, keyboard moves and the comparison of layouts. The lemmas show
  that each of them terminates on distinct ids, keeps ids, limits and sizes, and ends in a settled
  board.
\<close>

section \<open>Moving an item\<close>

text \<open>
  \<open>moveElement\<close> writes the item in place and pushes every unmoved item it collides with, each of which
  pushes further. The filter over the sorted array is evaluated once, before the first push; the
  \<open>moved\<close> flag is read when the loop reaches the item. Every array the code passes on is a copy of
  the same array of items, so the store is the array. Positions name the items: \<open>idx\<close> is the item
  moved, and \<open>None\<close> in \<open>x\<close> or \<open>y\<close> is \<open>undefined\<close>. Each nested call marks one more item as moved; the
  first argument bounds their number.
\<close>

definition moved_to :: "int option \<Rightarrow> int option \<Rightarrow> WorkItem \<Rightarrow> WorkItem" where
  "moved_to x y item =
     item\<lparr>gx := (case x of Some v \<Rightarrow> v | None \<Rightarrow> gx item),
          gy := (case y of Some v \<Rightarrow> v | None \<Rightarrow> gy item), moved := True\<rparr>"

definition fake_box :: "WorkItem \<Rightarrow> WorkItem \<Rightarrow> WorkItem" where
  "fake_box collidesWith itemToMove = itemToMove\<lparr>gi := ''-1'', gy := max (gy collidesWith - gh itemToMove) 0\<rparr>"

function (sequential) moveElement ::
    "nat \<Rightarrow> WorkItem list \<Rightarrow> nat \<Rightarrow> int option \<Rightarrow> int option \<Rightarrow> bool \<Rightarrow> WorkItem list option"
  and push_each :: "nat \<Rightarrow> WorkItem list \<Rightarrow> nat \<Rightarrow> nat list \<Rightarrow> bool \<Rightarrow> WorkItem list option"
  and moveAwayFromCollision :: "nat \<Rightarrow> WorkItem list \<Rightarrow> nat \<Rightarrow> nat \<Rightarrow> bool \<Rightarrow> WorkItem list option" where
  "moveElement 0 layout idx x y isUserAction = None"
| "moveElement (Suc fuel) layout idx x y isUserAction =
     (let item = layout ! idx
      in if Some (gy item) = y \<and> Some (gx item) = x then Some layout
         else
           let oldY = gy item;
               item = moved_to x y item;
               layout = layout[idx := item];
               order = sortByRowCol layout;
               order = (case y of Some v \<Rightarrow> if oldY \<ge> v then rev order else order | None \<Rightarrow> order)
           in push_each fuel layout idx (filter (\<lambda>k. collides (layout ! k) item) order) isUserAction)"
| "push_each fuel layout idx [] isUserAction = Some layout"
| "push_each fuel layout idx (k # ks) isUserAction =
     (if moved (layout ! k) then push_each fuel layout idx ks isUserAction
      else case moveAwayFromCollision fuel layout idx k isUserAction of
             None \<Rightarrow> None
           | Some layout \<Rightarrow> push_each fuel layout idx ks isUserAction)"
| "moveAwayFromCollision fuel layout idx k isUserAction =
     (let collidesWith = layout ! idx; itemToMove = layout ! k; fake = fake_box collidesWith itemToMove
      in if isUserAction
         then (case firstCollision layout fake of
                 None \<Rightarrow> moveElement fuel layout k None (Some (gy fake)) False
               | Some first \<Rightarrow>
                   if gy first + gh first > gy collidesWith
                   then moveElement fuel layout k None (Some (gy itemToMove + 1)) False
                   else moveElement fuel layout k None (Some (gy itemToMove + 1)) False)
         else moveElement fuel layout k None (Some (gy itemToMove + 1)) False)"
  by pat_completeness auto
termination
  by (relation "measures
       [\<lambda>a. case a of Inl (f, _) \<Rightarrow> 3 * f | Inr (Inl (f, _)) \<Rightarrow> 3 * f + 2 | Inr (Inr (f, _)) \<Rightarrow> 3 * f + 1,
        \<lambda>a. case a of Inr (Inl (_, _, _, ks, _)) \<Rightarrow> length ks | _ \<Rightarrow> 0]") auto

section \<open>Clamping\<close>

text \<open>\<open>None\<close> as the upper bound is \<open>Infinity\<close>.\<close>

definition clamp :: "int \<Rightarrow> int \<Rightarrow> int option \<Rightarrow> int" where
  "clamp v lo hi = max lo (case hi of Some h \<Rightarrow> min h v | None \<Rightarrow> v)"

definition clampPosition :: "GridItem \<Rightarrow> int \<Rightarrow> int \<Rightarrow> int \<Rightarrow> int \<times> int" where
  "clampPosition item x y cols = (clamp x 0 (Some (max 0 (cols - gw item))), max 0 y)"

definition clampSize :: "GridItem \<Rightarrow> int \<Rightarrow> int \<Rightarrow> int \<Rightarrow> int \<times> int" where
  "clampSize item w h cols =
     (let inGridW = clamp w 1 (Some (max 1 (cols - gx item))); inGridH = max 1 h
      in (clamp inGridW (case minW item of Some m \<Rightarrow> m | None \<Rightarrow> 1) (maxW item),
          clamp inGridH (case minH item of Some m \<Rightarrow> m | None \<Rightarrow> 1) (maxH item)))"

section \<open>Layout operations\<close>

text \<open>
  \<open>a === b\<close> on layouts is equality of values here. The two differ only on layouts that repeat an id,
  where the lookup by id may miss an item that is equal to itself.
\<close>

definition sameLayout :: "Layout \<Rightarrow> Layout \<Rightarrow> bool" where
  "sameLayout a b =
     (if a = b then True
      else if length a \<noteq> length b then False
      else list_all (\<lambda>item. case jsmap_get (byId b) (gi item) of
                              None \<Rightarrow> False
                            | Some other \<Rightarrow> same_box other item) a)"

definition changedItems :: "Layout \<Rightarrow> Layout \<Rightarrow> Layout" where
  "changedItems previous next =
     filter (\<lambda>item. case jsmap_get (byId previous) (gi item) of
                      None \<Rightarrow> True
                    | Some before \<Rightarrow> gx before \<noteq> gx item \<or> gy before \<noteq> gy item \<or>
                                      gw before \<noteq> gw item \<or> gh before \<noteq> gh item) next"

definition find_id :: "string \<Rightarrow> ('a GridItem_scheme) list \<Rightarrow> nat option" where
  "find_id i items = find (\<lambda>k. gi (items ! k) = i) [0..<length items]"

definition moveStep :: "Layout \<Rightarrow> string \<Rightarrow> int \<Rightarrow> int \<Rightarrow> Layout option" where
  "moveStep layout i x y =
     (let work = map toWork layout
      in case find_id i work of
           None \<Rightarrow> Some layout
         | Some idx \<Rightarrow>
             (case moveElement (Suc (length work)) work idx (Some x) (Some y) True of
                None \<Rightarrow> None
              | Some moved' \<Rightarrow> map_option (\<lambda>out. finish out layout) (compactVerticalWork moved')))"

fun moveItem_loop :: "nat \<Rightarrow> Layout \<Rightarrow> string \<Rightarrow> int \<Rightarrow> int \<Rightarrow> Layout option" where
  "moveItem_loop 0 current i x y = Some current"
| "moveItem_loop (Suc steps) current i x y =
     (case moveStep current i x y of
        None \<Rightarrow> None
      | Some next \<Rightarrow> if sameLayout next current then Some current else moveItem_loop steps next i x y)"

definition moveItem :: "Layout \<Rightarrow> string \<Rightarrow> int \<Rightarrow> int \<Rightarrow> Layout option" where
  "moveItem layout i x y = moveItem_loop (length layout + 1) layout i x y"

definition resizeItem :: "Layout \<Rightarrow> string \<Rightarrow> int \<Rightarrow> int \<Rightarrow> Layout option" where
  "resizeItem layout i w h =
     (let work = map toWork layout
      in case find_id i work of
           None \<Rightarrow> Some layout
         | Some idx \<Rightarrow>
             map_option (\<lambda>out. finish out layout)
               (compactVerticalWork (work[idx := (work ! idx)\<lparr>gw := w, gh := h\<rparr>])))"

fun nudge_loop :: "nat \<Rightarrow> int \<Rightarrow> Layout \<Rightarrow> GridItem \<Rightarrow> int \<Rightarrow> int \<Rightarrow> int \<Rightarrow> Layout option" where
  "nudge_loop 0 step layout item dx dy cols = Some layout"
| "nudge_loop (Suc n) step layout item dx dy cols =
     (let (tx, ty) = clampPosition item (gx item + dx * step) (gy item + dy * step) cols
      in if tx = gx item \<and> ty = gy item then Some layout
         else case moveItem layout (gi item) tx ty of
                None \<Rightarrow> None
              | Some next \<Rightarrow> if \<not> sameLayout next layout then Some next
                              else nudge_loop n (step + 1) layout item dx dy cols)"

definition nudgeItem :: "Layout \<Rightarrow> string \<Rightarrow> int \<Rightarrow> int \<Rightarrow> int \<Rightarrow> Layout option" where
  "nudgeItem layout i dx dy cols =
     (case find (\<lambda>candidate. gi candidate = i) layout of
        None \<Rightarrow> Some layout
      | Some item \<Rightarrow>
          (let limit = (if dy = 0 then cols else bottom layout + 1)
           in nudge_loop (nat limit) 1 layout item dx dy cols))"

section \<open>Moves\<close>

definition columnar :: "WorkItem \<Rightarrow> WorkItem" where
  "columnar item = item\<lparr>gy := 0, moved := False\<rparr>"

definition unmoved :: "WorkItem list \<Rightarrow> nat set" where
  "unmoved store = {k. k < length store \<and> \<not> moved (store ! k)}"

lemma finite_unmoved [simp]: "finite (unmoved store)"
  by (simp add: unmoved_def)

lemma set_order: "set (case y of Some v \<Rightarrow> if P v then rev (sortByRowCol s) else sortByRowCol s | None \<Rightarrow> sortByRowCol s) = {0..<length s}"
  by (simp add: mset_sortByRowCol split: option.splits)

lemma columnar_moved_to: "columnar (moved_to None y item) = columnar item"
  by (simp add: columnar_def moved_to_def)

lemma unmoved_moved_to:
  assumes "k \<in> unmoved store"
  shows "unmoved (store[k := moved_to x y (store ! k)]) = unmoved store - {k}"
  using assms by (auto simp: unmoved_def nth_update_if moved_to_def)

lemma moves_correct:
  "idx \<in> unmoved store \<Longrightarrow> card (unmoved store) \<le> fuel \<Longrightarrow>
     \<exists>store'. moveElement fuel store idx x y u = Some store' \<and> unmoved store' \<subseteq> unmoved store \<and>
       map columnar store' = map columnar (store[idx := moved_to x y (store ! idx)])"
  "\<forall>k\<in>set ks. k < length store \<Longrightarrow> card (unmoved store) \<le> fuel \<Longrightarrow>
     \<exists>store'. push_each fuel store idx ks u = Some store' \<and> unmoved store' \<subseteq> unmoved store \<and>
       map columnar store' = map columnar store"
  "k \<in> unmoved store \<Longrightarrow> card (unmoved store) \<le> fuel \<Longrightarrow>
     \<exists>store'. moveAwayFromCollision fuel store idx k u = Some store' \<and> unmoved store' \<subseteq> unmoved store \<and>
       map columnar store' = map columnar store"
proof (induction fuel store idx x y u and fuel store idx ks u and fuel store idx k u
    rule: moveElement_push_each_moveAwayFromCollision.induct)
  case (1 layout idx x y u)
  then have "unmoved layout = {}" by simp
  with 1 show ?case by simp
next
  case (2 fuel layout idx x y u)
  let ?item = "layout ! idx"
  let ?store = "layout[idx := moved_to x y ?item]"
  show ?case
  proof (cases "Some (gy ?item) = y \<and> Some (gx ?item) = x")
    case True
    have "columnar (moved_to x y ?item) = columnar ?item"
      using True by (auto simp: columnar_def moved_to_def)
    then show ?thesis using True by (auto simp: map_update_same)
  next
    case False
    let ?ks = "filter (\<lambda>k. collides (?store ! k) (moved_to x y ?item))
      (case y of Some v \<Rightarrow> if gy ?item \<ge> v then rev (sortByRowCol ?store) else sortByRowCol ?store
       | None \<Rightarrow> sortByRowCol ?store)"
    have idx: "idx \<in> unmoved layout" by (fact 2)
    note sub = unmoved_moved_to [OF idx, of x y]
    have c: "card (unmoved ?store) \<le> fuel"
      using 2(3) idx by (simp add: sub card_Diff_singleton)
    have ks: "\<forall>k\<in>set ?ks. k < length ?store"
      by (simp only: set_filter set_order) simp
    obtain s where "push_each fuel ?store idx ?ks u = Some s" "unmoved s \<subseteq> unmoved ?store"
      "map columnar s = map columnar ?store"
      using 2(1) [OF refl False refl refl refl refl refl ks c] by (elim exE conjE)
    then show ?thesis using sub False by (simp only: moveElement.simps Let_def if_False) blast
  qed
next
  case (3 fuel layout idx u)
  then show ?case by simp
next
  case (4 fuel layout idx k ks u)
  show ?case
  proof (cases "moved (layout ! k)")
    case True
    with 4 show ?thesis by simp
  next
    case False
    then have "k \<in> unmoved layout" using 4 by (simp add: unmoved_def)
    then obtain s1 where s1: "moveAwayFromCollision fuel layout idx k u = Some s1"
      "unmoved s1 \<subseteq> unmoved layout" "map columnar s1 = map columnar layout"
      using 4(2) [OF False _ 4(5)] by blast
    have len: "length s1 = length layout" using s1(3) by (metis length_map)
    have c: "card (unmoved s1) \<le> fuel" using card_mono [OF finite_unmoved s1(2)] 4(5) by simp
    obtain s2 where "push_each fuel s1 idx ks u = Some s2" "unmoved s2 \<subseteq> unmoved s1"
      "map columnar s2 = map columnar s1"
      using 4(3) [OF False s1(1) _ c] 4(4) len by auto
    then show ?thesis using s1 False by (auto simp del: moveAwayFromCollision.simps)
  qed
next
  case (5 fuel layout idx k u)
  have IH: "\<exists>s'. moveElement fuel layout k None (Some y) False = Some s' \<and> unmoved s' \<subseteq> unmoved layout \<and>
      map columnar s' = map columnar layout"
    if "\<exists>s'. moveElement fuel layout k None (Some y) False = Some s' \<and> unmoved s' \<subseteq> unmoved layout \<and>
      map columnar s' = map columnar (layout[k := moved_to None (Some y) (layout ! k)])" for y
    using that by (simp add: map_update_same columnar_moved_to)
  show ?case
    using IH [OF 5(1) [OF refl refl refl _ _ 5(5,6)]] IH [OF 5(2) [OF refl refl refl _ _ _ 5(5,6)]]
      IH [OF 5(3) [OF refl refl refl _ _ _ 5(5,6)]] IH [OF 5(4) [OF refl refl refl _ 5(5,6)]]
    by (cases u; cases "firstCollision layout (fake_box (layout ! idx) (layout ! k))") (auto simp: Let_def)
qed

section \<open>Finding items\<close>

lemma find_id_Some:
  "find_id i items = Some k \<Longrightarrow> k < length items \<and> gi (items ! k) = i"
  by (auto simp: find_id_def find_Some_iff)

lemma find_id_None: "find_id i items = None \<longleftrightarrow> i \<notin> gi ` set items"
  by (auto simp: find_id_def find_None_iff set_conv_nth)

lemma find_id_toWork [simp]: "find_id i (map toWork layout) = find_id i layout"
  unfolding find_id_def by (intro find_cong) auto

lemma columnar_fields:
  assumes "columnar a = columnar b"
  shows "limits a = limits b" "gx a = gx b" "gw a = gw b" "gh a = gh b"
  using assms by (cases a; cases b; simp add: columnar_def limits_def)+

lemma same_tile_cong:
  "limits a = limits b \<Longrightarrow> gx a = gx b \<Longrightarrow> gw a = gw b \<Longrightarrow> gh a = gh b \<Longrightarrow> same_tile a c \<longleftrightarrow> same_tile b c"
  by (simp add: same_tile_def)

section \<open>One drag step\<close>

lemma card_unmoved: "card (unmoved store) \<le> length store"
proof -
  have "unmoved store \<subseteq> {0..<length store}" by (auto simp: unmoved_def)
  from card_mono [OF _ this] show ?thesis by simp
qed


lemma moveStep_correct:
  assumes d: "distinct (map gi layout)" and i: "find_id i layout = Some idx"
  shows "\<exists>result. moveStep layout i x y = Some result \<and> settled (set result) \<and>
    list_all2 same_tile (layout[idx := (layout ! idx)\<lparr>gx := x\<rparr>]) result"
proof -
  let ?work = "map toWork layout"
  note k = find_id_Some [OF i]
  have "idx \<in> unmoved ?work" using k by (simp add: unmoved_def)
  moreover have "card (unmoved ?work) \<le> length ?work"
    by (rule card_unmoved)
  ultimately obtain s where s: "moveElement (Suc (length ?work)) ?work idx (Some x) (Some y) True = Some s"
    "map columnar s = map columnar (?work[idx := moved_to (Some x) (Some y) (?work ! idx)])"
    using moves_correct(1) [of idx ?work "Suc (length ?work)" "Some x" "Some y" True] le_SucI by blast
  have len: "length s = length layout" using arg_cong [OF s(2), of length] by simp
  have at: "columnar (s ! j) = columnar (?work[idx := moved_to (Some x) (Some y) (?work ! idx)] ! j)"
    if "j < length layout" for j
    using arg_cong [OF s(2), of "\<lambda>l. l ! j"] that len by simp
  have box: "limits (s ! j) = limits (layout ! j) \<and> gx (s ! j) = (if j = idx then x else gx (layout ! j)) \<and>
      gw (s ! j) = gw (layout ! j) \<and> gh (s ! j) = gh (layout ! j)" if j: "j < length layout" for j
    using columnar_fields [OF at [OF j]] j k by (simp add: nth_update_if moved_to_def limits_def)
  have "map limits s = map limits layout" using box len by (intro nth_equalityI) simp_all
  then obtain out where out: "compactVerticalWork s = Some out" "list_all2 same_tile s (finish out layout)"
    "settled (set (finish out layout))"
    using compact_finish [OF d] by blast
  have "same_tile (layout[idx := (layout ! idx)\<lparr>gx := x\<rparr>] ! j) (finish out layout ! j)" if j: "j < length layout" for j
  proof -
    have "same_tile (s ! j) (finish out layout ! j)" using out(2) j len by (simp add: list_all2_conv_all_nth)
    then show ?thesis using box [OF j] k by (simp add: same_tile_def nth_update_if limits_def)
  qed
  then have "list_all2 same_tile (layout[idx := (layout ! idx)\<lparr>gx := x\<rparr>]) (finish out layout)"
    using list_all2_lengthD [OF out(2)] len by (simp add: list_all2_conv_all_nth)
  then show ?thesis using i s(1) out by (auto simp: moveStep_def Let_def simp del: moveElement.simps)
qed

text \<open>What a move keeps: ids, limits and sizes everywhere, and the columns of the other tiles.\<close>

definition moved_tile :: "string \<Rightarrow> int \<Rightarrow> GridItem \<Rightarrow> GridItem \<Rightarrow> bool" where
  "moved_tile i x a b \<longleftrightarrow> limits b = limits a \<and> gw b = gw a \<and> gh b = gh a \<and>
     gx b = max (if gi a = i then x else gx a) 0"

lemma moveStep_moved_tile:
  assumes d: "distinct (map gi layout)" and i: "i \<in> gi ` set layout"
  shows "\<exists>result. moveStep layout i x y = Some result \<and> settled (set result) \<and>
    list_all2 (moved_tile i x) layout result"
proof -
  obtain idx where idx: "find_id i layout = Some idx" using i find_id_None by (cases "find_id i layout") blast+
  note k = find_id_Some [OF idx]
  obtain result where r: "moveStep layout i x y = Some result" "settled (set result)"
    "list_all2 same_tile (layout[idx := (layout ! idx)\<lparr>gx := x\<rparr>]) result"
    using moveStep_correct [OF d idx] by blast
  have "gi (layout ! j) = i \<longleftrightarrow> j = idx" if "j < length layout" for j
    using d k that by (metis length_map nth_eq_iff_index_eq nth_map)
  then have "list_all2 (moved_tile i x) layout result"
    using r(3) k by (simp add: list_all2_conv_all_nth same_tile_def moved_tile_def nth_update_if limits_def)
  then show ?thesis using r by blast
qed

lemma moved_tile_gi: "list_all2 (moved_tile i x) xs ys \<Longrightarrow> map gi ys = map gi xs"
  by (induction rule: list_all2_induct) (auto simp: moved_tile_def limits_def)

lemma moved_tile_trans: "moved_tile i x a b \<Longrightarrow> moved_tile i x b c \<Longrightarrow> moved_tile i x a c"
  by (auto simp: moved_tile_def limits_def)

lemma moveItem_loop_correct:
  assumes "distinct (map gi current)" "i \<in> gi ` set current"
  shows "\<exists>result. moveItem_loop steps current i x y = Some result \<and>
    (result = current \<or> settled (set result) \<and> list_all2 (moved_tile i x) current result)"
  using assms
proof (induction steps arbitrary: current)
  case (Suc steps)
  obtain nxt where n: "moveStep current i x y = Some nxt" "settled (set nxt)" "list_all2 (moved_tile i x) current nxt"
    using moveStep_moved_tile [OF Suc.prems] by blast
  have g: "map gi nxt = map gi current" by (rule moved_tile_gi [OF n(3)])
  have "distinct (map gi nxt)" using g Suc.prems by simp
  moreover have "i \<in> gi ` set nxt" using arg_cong [OF g, of set] Suc.prems by simp
  ultimately obtain r where r: "moveItem_loop steps nxt i x y = Some r"
    "r = nxt \<or> settled (set r) \<and> list_all2 (moved_tile i x) nxt r"
    using Suc.IH by blast
  have "list_all2 (moved_tile i x) current r" if "list_all2 (moved_tile i x) nxt r"
    by (rule list_all2_trans [OF _ n(3) that]) (rule moved_tile_trans)
  then have "settled (set r) \<and> list_all2 (moved_tile i x) current r" using r(2) n by blast
  then show ?case using n(1) r(1) by simp
qed simp

lemma moveItem_result:
  assumes "distinct (map gi layout)" "settled (set layout)"
  shows "\<exists>result. moveItem layout i x y = Some result \<and> settled (set result) \<and>
    (result = layout \<or> list_all2 (moved_tile i x) layout result)"
proof (cases "i \<in> gi ` set layout")
  case True
  then show ?thesis using moveItem_loop_correct [OF assms(1) True, of "length layout + 1" x y] assms(2)
    unfolding moveItem_def by blast
next
  case False
  then have "find_id i (map toWork layout) = None" by (auto simp: find_id_None)
  then show ?thesis using assms(2) by (simp add: moveItem_def moveStep_def sameLayout_def)
qed

definition packed_board :: Layout where
  "packed_board =
     [\<lparr>gi = ''a'', gx = 0, gy = 0, gw = 2, gh = 2, minW = Some 1, maxW = None, minH = None, maxH = Some 6\<rparr>,
      \<lparr>gi = ''b'', gx = 1, gy = 2, gw = 2, gh = 3, minW = None, maxW = None, minH = None, maxH = None\<rparr>,
      \<lparr>gi = ''c'', gx = 9, gy = 0, gw = 3, gh = 1, minW = None, maxW = Some 4, minH = None, maxH = None\<rparr>]"

lemma packed_board_ok:
  "distinct (map gi packed_board)" "settled (set packed_board)" "find_id ''b'' packed_board = Some 1"
  by (simp_all add: packed_board_def settled_def collides_def rests_on_def find_id_def upt_rec)

text \<open>
  C19. A drag step on a settled board always finishes and leaves a settled board. Either nothing
  changed, or the dragged tile is in the requested column, every other tile keeps its column, and all
  ids, limits and sizes are kept.
\<close>

theorem moveItem_correct:
  assumes "distinct (map gi layout)" "settled (set layout)"
  shows "\<exists>result. moveItem layout i x y = Some result \<and> settled (set result) \<and>
    (result = layout \<or> list_all2 (moved_tile i x) layout result)"
  using assms by (rule moveItem_result)

theorem moveItem_correct_witness:
  "\<exists>result. moveItem packed_board ''a'' 1 3 = Some result \<and> settled (set result) \<and>
    (result = packed_board \<or> list_all2 (moved_tile ''a'' 1) packed_board result)"
  using packed_board_ok(1,2) by (rule moveItem_correct)

text \<open>
  Resizing gives the tile exactly the requested size, keeps every other tile's size and column,
  and pushes away what it now overlaps: the result is settled.
\<close>

theorem resizeItem_correct:
  assumes d: "distinct (map gi layout)" and i: "find_id i layout = Some idx"
  shows "\<exists>result. resizeItem layout i w h = Some result \<and> settled (set result) \<and>
    list_all2 same_tile (layout[idx := (layout ! idx)\<lparr>gw := w, gh := h\<rparr>]) result"
proof -
  let ?work = "map toWork layout"
  let ?s = "?work[idx := (?work ! idx)\<lparr>gw := w, gh := h\<rparr>]"
  note k = find_id_Some [OF i]
  have "map limits ?s = map limits layout"
    by (intro nth_equalityI) (auto simp: nth_update_if limits_def)
  then obtain out where out: "compactVerticalWork ?s = Some out" "list_all2 same_tile ?s (finish out layout)"
    "settled (set (finish out layout))"
    using compact_finish [OF d] by blast
  have "list_all2 same_tile (layout[idx := (layout ! idx)\<lparr>gw := w, gh := h\<rparr>]) (finish out layout)"
    using out(2) k by (auto simp: list_all2_conv_all_nth nth_update_if same_tile_def limits_def split: if_splits)
  then show ?thesis using i out by (auto simp: resizeItem_def Let_def)
qed

theorem resizeItem_correct_witness:
  "\<exists>result. resizeItem packed_board ''b'' 9 4 = Some result \<and> settled (set result) \<and>
    list_all2 same_tile (packed_board[1 := (packed_board ! 1)\<lparr>gw := 9, gh := 4\<rparr>]) result"
  using packed_board_ok(1,3) by (rule resizeItem_correct)

section \<open>Comparing layouts\<close>

definition box_of :: "GridItem \<Rightarrow> string \<times> int \<times> int \<times> int \<times> int" where
  "box_of a = (gi a, gx a, gy a, gw a, gh a)"

lemma byId_box:
  assumes "distinct (map gi items)"
  shows "(case jsmap_get (byId items) (gi a) of None \<Rightarrow> False | Some b \<Rightarrow> same_box b a) \<longleftrightarrow>
    box_of a \<in> box_of ` set items"
proof (cases "gi a \<in> gi ` set items")
  case True
  then obtain b where b: "b \<in> set items" "gi b = gi a" by auto
  have "c = b" if "c \<in> set items" "gi c = gi a" for c
    using assms b that by (simp add: distinct_map inj_on_def)
  then have "box_of a \<in> box_of ` set items \<longleftrightarrow> box_of a = box_of b"
    using b by (metis (no_types, lifting) box_of_def imageE imageI prod.inject)
  then show ?thesis using jsmap_get_byId [OF assms b(1)] b(2) by (auto simp: same_box_def box_of_def)
next
  case False
  then show ?thesis by (auto simp: jsmap_get_byId_None box_of_def image_iff)
qed

text \<open>
  With distinct ids, two layouts are the same exactly when they consist of the same boxes,
  whatever their order.
\<close>

theorem sameLayout_iff:
  assumes "distinct (map gi a)" "distinct (map gi b)"
  shows "sameLayout a b \<longleftrightarrow> box_of ` set a = box_of ` set b"
proof -
  have inj: "distinct (map box_of l)" if "distinct (map gi l)" for l
    using that by (auto simp: distinct_map inj_on_def box_of_def)
  have card: "card (box_of ` set l) = length l" if "distinct (map gi l)" for l
    using distinct_card [OF inj [OF that]] by simp
  have "sameLayout a b \<longleftrightarrow> a = b \<or> length a = length b \<and> box_of ` set a \<subseteq> box_of ` set b"
    by (auto simp: sameLayout_def byId_box [OF assms(2)] list_all_iff)
  also have "\<dots> \<longleftrightarrow> box_of ` set a = box_of ` set b"
    using card [OF assms(1)] card [OF assms(2)] card_subset_eq [of "box_of ` set b" "box_of ` set a"] by auto
  finally show ?thesis .
qed

theorem sameLayout_iff_witness:
  "sameLayout packed_board (rev packed_board) \<longleftrightarrow> box_of ` set packed_board = box_of ` set (rev packed_board)"
  by (rule sameLayout_iff) (simp_all add: packed_board_ok rev_map [symmetric])

lemma changedItems_correct:
  assumes "distinct (map gi previous)"
  shows "changedItems previous next = filter (\<lambda>item. box_of item \<notin> box_of ` set previous) next"
proof -
  have "(case jsmap_get (byId previous) (gi item) of None \<Rightarrow> True
      | Some before \<Rightarrow> gx before \<noteq> gx item \<or> gy before \<noteq> gy item \<or> gw before \<noteq> gw item \<or> gh before \<noteq> gh item)
    \<longleftrightarrow> box_of item \<notin> box_of ` set previous" for item
    using byId_box [OF assms, of item] by (auto simp: same_box_def split: option.splits)
  then show ?thesis by (simp add: changedItems_def)
qed

section \<open>Clamping\<close>

lemma clampPosition_bounds:
  "clampPosition item x y cols = (tx, ty) \<Longrightarrow>
     0 \<le> tx \<and> 0 \<le> ty \<and> (gw item \<le> cols \<longrightarrow> tx + gw item \<le> cols) \<and>
     (0 \<le> x \<and> x + gw item \<le> cols \<longrightarrow> tx = x) \<and> (0 \<le> y \<longrightarrow> ty = y)"
  by (auto simp: clampPosition_def clamp_def)

section \<open>Keyboard moves\<close>

definition in_columns :: "int \<Rightarrow> Layout \<Rightarrow> bool" where
  "in_columns cols layout \<longleftrightarrow> (\<forall>item\<in>set layout. 0 \<le> gx item \<and> gx item + gw item \<le> cols)"

lemma nudge_loop_correct:
  assumes "distinct (map gi layout)" "settled (set layout)" "in_columns cols layout" "item \<in> set layout"
  shows "\<exists>result. nudge_loop n step layout item dx dy cols = Some result \<and> settled (set result) \<and>
    in_columns cols result \<and> (result = layout \<or> \<not> sameLayout result layout)"
proof (induction n arbitrary: step)
  case (Suc n)
  obtain tx ty where t: "clampPosition item (gx item + dx * step) (gy item + dy * step) cols = (tx, ty)"
    by (meson surj_pair)
  have w: "gw item \<le> cols" "0 \<le> gx item" using assms(3,4) by (auto simp: in_columns_def)
  note tb = clampPosition_bounds [OF t]
  obtain nxt where n: "moveItem layout (gi item) tx ty = Some nxt" "settled (set nxt)"
    "nxt = layout \<or> list_all2 (moved_tile (gi item) tx) layout nxt"
    using moveItem_result [OF assms(1,2)] by blast
  have same: "gi a = gi item \<Longrightarrow> a \<in> set layout \<Longrightarrow> a = item" for a
    using assms(1,4) by (simp add: distinct_map inj_on_def)
  have "in_columns cols nxt" using n(3)
  proof
    assume "list_all2 (moved_tile (gi item) tx) layout nxt"
    note ex = list_all2_set2_ex [OF this]
    show ?thesis unfolding in_columns_def
    proof
      fix b assume "b \<in> set nxt"
      then obtain a where a: "a \<in> set layout" "moved_tile (gi item) tx a b" using ex by blast
      then show "0 \<le> gx b \<and> gx b + gw b \<le> cols"
        using assms(3) tb w same [OF _ a(1)] by (cases "gi a = gi item") (auto simp: moved_tile_def in_columns_def)
    qed
  qed (use assms(3) in simp)
  with Suc [of "step + 1"] n assms show ?case by (simp add: t)
qed (use assms in simp)

text \<open>
  A keyboard move on a settled board within the columns finishes with a settled board within the
  columns, and either returns the board unchanged or one that really differs.
\<close>

theorem nudgeItem_correct:
  assumes "distinct (map gi layout)" "settled (set layout)" "in_columns cols layout"
  shows "\<exists>result. nudgeItem layout i dx dy cols = Some result \<and> settled (set result) \<and>
    in_columns cols result \<and> (result = layout \<or> \<not> sameLayout result layout)"
proof (cases "find (\<lambda>candidate. gi candidate = i) layout")
  case (Some item)
  then have "item \<in> set layout" by (auto simp: find_Some_iff)
  then show ?thesis using nudge_loop_correct [OF assms] Some by (simp add: nudgeItem_def Let_def)
qed (use assms in \<open>simp add: nudgeItem_def\<close>)

theorem nudgeItem_correct_witness:
  "\<exists>result. nudgeItem packed_board ''a'' 0 1 12 = Some result \<and> settled (set result) \<and>
    in_columns 12 result \<and> (result = packed_board \<or> \<not> sameLayout result packed_board)"
  by (rule nudgeItem_correct) (simp_all add: packed_board_ok, simp add: packed_board_def in_columns_def)

lemma clamp_bounds:
  "(\<And>m. hi = Some m \<Longrightarrow> lo \<le> m) \<Longrightarrow> lo \<le> clamp v lo hi \<and> (\<forall>m. hi = Some m \<longrightarrow> clamp v lo hi \<le> m) \<and>
     clamp v lo hi \<le> max lo v"
  by (cases hi) (auto simp: clamp_def)

definition lower :: "int option \<Rightarrow> int" where
  "lower m = (case m of Some m \<Rightarrow> m | None \<Rightarrow> 1)"

text \<open>
  A requested size is clamped into the grid and into the tile's own limits, whenever those limits
  are consistent and fit beside the tile's column.
\<close>

theorem clampSize_bounds:
  assumes "gx item < cols" "gx item + lower (minW item) \<le> cols"
    "\<And>m. maxW item = Some m \<Longrightarrow> lower (minW item) \<le> m" "\<And>m. maxH item = Some m \<Longrightarrow> lower (minH item) \<le> m"
    "clampSize item w h cols = (cw, ch)"
  shows "gx item + cw \<le> cols \<and> lower (minW item) \<le> cw \<and> (\<forall>m. maxW item = Some m \<longrightarrow> cw \<le> m) \<and>
    lower (minH item) \<le> ch \<and> (\<forall>m. maxH item = Some m \<longrightarrow> ch \<le> m)"
proof -
  let ?w = "clamp w 1 (Some (max 1 (cols - gx item)))"
  have cs: "cw = clamp ?w (lower (minW item)) (maxW item)" "ch = clamp (max 1 h) (lower (minH item)) (maxH item)"
    using assms(5) by (auto simp: clampSize_def lower_def Let_def)
  note bw = clamp_bounds [where hi = "maxW item" and lo = "lower (minW item)" and v = ?w, OF assms(3)]
  note bh = clamp_bounds [where hi = "maxH item" and lo = "lower (minH item)" and v = "max 1 h", OF assms(4)]
  have "?w \<le> cols - gx item" using assms(1) by (simp add: clamp_def)
  then have "cw \<le> cols - gx item"
    using bw assms(2) unfolding cs by linarith
  then show ?thesis
    using bw bh unfolding cs by simp
qed

theorem clampSize_bounds_witness:
  "gx (packed_board ! 2) + 3 \<le> 12 \<and> lower (minW (packed_board ! 2)) \<le> 3 \<and> 3 \<le> (4 :: int) \<and>
    lower (minH (packed_board ! 2)) \<le> 1"
  using clampSize_bounds [of "packed_board ! 2" 12 7 "-2" 3 1]
  by (simp add: packed_board_def lower_def clampSize_def clamp_def)

end
