(* ===== verification/Lru_Cache.thy ===== *)
theory Lru_Cache
  imports Maple_Prelude
begin

text \<open>
  The LRU cache of the log template miner, after
  \<^verbatim>\<open>packages/query-engine/src/drain/lru-cache.ts\<close>: entries in numbered slots that form a doubly linked
  list from the most to the least recently used, a stack of free slots, and a map from keys to slots.

  The model keeps the slots, links, free list and map of the class. Reading a slot that holds no entry
  is the error value \<open>Inl (LruSlotError slot)\<close>. The lemmas show that the class implements a plain list of
  key/value pairs in order of recency, and that the error is unreachable.
\<close>

section \<open>The class\<close>

datatype lru_error = LruSlotError nat

record 'v LruEntry =
  key :: nat
  entry_value :: 'v
  prev :: "nat option"
  next_slot :: "nat option"

record 'v LruCache =
  capacity :: nat
  slot_map :: "(nat, nat) jsmap"
  entries :: "'v LruEntry option list"
  freeSlots :: "nat list"
  head :: "nat option"
  tail :: "nat option"

definition lru_new :: "nat \<Rightarrow> 'v LruCache" where
  "lru_new cap = \<lparr>capacity = cap, slot_map = [], entries = [], freeSlots = [], head = None, tail = None\<rparr>"

text \<open>\<open>slot_entry\<close> is the plain read \<open>this.entries[slot]\<close>: \<open>None\<close> for \<open>null\<close> and past the end.\<close>

definition slot_entry :: "'v LruCache \<Rightarrow> nat \<Rightarrow> 'v LruEntry option" where
  "slot_entry c slot = (if slot < length (entries c) then entries c ! slot else None)"

definition entryAt :: "'v LruCache \<Rightarrow> nat \<Rightarrow> lru_error + 'v LruEntry" where
  "entryAt c slot = (case slot_entry c slot of None \<Rightarrow> Inl (LruSlotError slot) | Some e \<Rightarrow> Inr e)"

text \<open>A write to a field of the entry at a slot: read it with \<open>entryAt\<close>, then store the changed entry.\<close>

definition put_entry :: "nat \<Rightarrow> 'v LruEntry option \<Rightarrow> 'v LruCache \<Rightarrow> 'v LruCache" where
  "put_entry slot e c = c\<lparr>entries := (entries c)[slot := e]\<rparr>"

definition update_entry :: "nat \<Rightarrow> ('v LruEntry \<Rightarrow> 'v LruEntry) \<Rightarrow> 'v LruCache \<Rightarrow> lru_error + 'v LruCache" where
  "update_entry slot f c =
     (case entryAt c slot of Inl err \<Rightarrow> Inl err | Inr e \<Rightarrow> Inr (put_entry slot (Some (f e)) c))"

definition lru_size :: "'v LruCache \<Rightarrow> nat" where
  "lru_size c = length (slot_map c)"

definition lru_has :: "nat \<Rightarrow> 'v LruCache \<Rightarrow> bool" where
  "lru_has k c = jsmap_has (slot_map c) k"

definition lru_peek :: "nat \<Rightarrow> 'v LruCache \<Rightarrow> 'v option" where
  "lru_peek k c =
     (case jsmap_get (slot_map c) k of
        None \<Rightarrow> None
      | Some slot \<Rightarrow> map_option entry_value (slot_entry c slot))"

text \<open>The two halves of \<open>unlink\<close>: the neighbour's link is written, or the end of the list.\<close>

definition set_next_of :: "nat option \<Rightarrow> nat option \<Rightarrow> 'v LruCache \<Rightarrow> lru_error + 'v LruCache" where
  "set_next_of p n c =
     (case p of Some p \<Rightarrow> update_entry p (\<lambda>e. e\<lparr>next_slot := n\<rparr>) c | None \<Rightarrow> Inr (c\<lparr>head := n\<rparr>))"

definition set_prev_of :: "nat option \<Rightarrow> nat option \<Rightarrow> 'v LruCache \<Rightarrow> lru_error + 'v LruCache" where
  "set_prev_of n p c =
     (case n of Some n \<Rightarrow> update_entry n (\<lambda>e. e\<lparr>prev := p\<rparr>) c | None \<Rightarrow> Inr (c\<lparr>tail := p\<rparr>))"

definition unlink :: "nat \<Rightarrow> 'v LruCache \<Rightarrow> lru_error + 'v LruCache" where
  "unlink slot c =
     (case entryAt c slot of
        Inl err \<Rightarrow> Inl err
      | Inr entry \<Rightarrow>
          (case set_next_of (prev entry) (next_slot entry) c of
             Inl err \<Rightarrow> Inl err
           | Inr c \<Rightarrow> set_prev_of (next_slot entry) (prev entry) c))"

text \<open>The writes that make a slot the head, shared by \<open>put\<close> and \<open>moveToHead\<close>.\<close>

definition link_head :: "nat \<Rightarrow> 'v LruCache \<Rightarrow> lru_error + 'v LruCache" where
  "link_head slot c =
     (case (case head c of
              Some h \<Rightarrow> update_entry h (\<lambda>e. e\<lparr>prev := Some slot\<rparr>) c
            | None \<Rightarrow> Inr c) of
        Inl err \<Rightarrow> Inl err
      | Inr c \<Rightarrow>
          (let c = c\<lparr>head := Some slot\<rparr>
           in Inr (if tail c = None then c\<lparr>tail := Some slot\<rparr> else c)))"

definition moveToHead :: "nat \<Rightarrow> 'v LruCache \<Rightarrow> lru_error + 'v LruCache" where
  "moveToHead slot c =
     (if head c = Some slot then Inr c
      else case unlink slot c of
             Inl err \<Rightarrow> Inl err
           | Inr c \<Rightarrow>
               (case update_entry slot (\<lambda>e. e\<lparr>prev := None, next_slot := head c\<rparr>) c of
                  Inl err \<Rightarrow> Inl err
                | Inr c \<Rightarrow> link_head slot c))"

definition lru_get :: "nat \<Rightarrow> 'v LruCache \<Rightarrow> lru_error + ('v option \<times> 'v LruCache)" where
  "lru_get k c =
     (case jsmap_get (slot_map c) k of
        None \<Rightarrow> Inr (None, c)
      | Some slot \<Rightarrow>
          (case moveToHead slot c of
             Inl err \<Rightarrow> Inl err
           | Inr c \<Rightarrow> Inr (map_option entry_value (slot_entry c slot), c)))"

definition allocSlot :: "'v LruEntry \<Rightarrow> 'v LruCache \<Rightarrow> nat \<times> 'v LruCache" where
  "allocSlot e c =
     (if freeSlots c \<noteq> []
      then let slot = last (freeSlots c)
           in (slot, put_entry slot (Some e) (c\<lparr>freeSlots := butlast (freeSlots c)\<rparr>))
      else (length (entries c), c\<lparr>entries := entries c @ [Some e]\<rparr>))"

definition release :: "nat \<Rightarrow> 'v LruCache \<Rightarrow> 'v LruCache" where
  "release slot c = (put_entry slot None c)\<lparr>freeSlots := freeSlots c @ [slot]\<rparr>"

definition evictTail :: "'v LruCache \<Rightarrow> lru_error + ((nat \<times> 'v) option \<times> 'v LruCache)" where
  "evictTail c =
     (case tail c of
        None \<Rightarrow> Inr (None, c)
      | Some tailSlot \<Rightarrow>
          (case entryAt c tailSlot of
             Inl err \<Rightarrow> Inl err
           | Inr entry \<Rightarrow>
               (case unlink tailSlot (c\<lparr>slot_map := jsmap_delete (key entry) (slot_map c)\<rparr>) of
                  Inl err \<Rightarrow> Inl err
                | Inr c \<Rightarrow> Inr (Some (key entry, entry_value entry), release tailSlot c))))"

definition lru_put :: "nat \<Rightarrow> 'v \<Rightarrow> 'v LruCache \<Rightarrow> lru_error + ((nat \<times> 'v) option \<times> 'v LruCache)" where
  "lru_put k v c =
     (case jsmap_get (slot_map c) k of
        Some existingSlot \<Rightarrow>
          (case update_entry existingSlot (\<lambda>e. e\<lparr>entry_value := v\<rparr>) c of
             Inl err \<Rightarrow> Inl err
           | Inr c \<Rightarrow>
               (case moveToHead existingSlot c of
                  Inl err \<Rightarrow> Inl err
                | Inr c \<Rightarrow> Inr (None, c)))
      | None \<Rightarrow>
          (case (if length (slot_map c) \<ge> capacity c then evictTail c else Inr (None, c)) of
             Inl err \<Rightarrow> Inl err
           | Inr (evicted, c) \<Rightarrow>
               (let (slot, c) = allocSlot \<lparr>key = k, entry_value = v, prev = None, next_slot = head c\<rparr> c
                in case link_head slot c of
                     Inl err \<Rightarrow> Inl err
                   | Inr c \<Rightarrow> Inr (evicted, c\<lparr>slot_map := jsmap_set k slot (slot_map c)\<rparr>))))"

definition lru_remove :: "nat \<Rightarrow> 'v LruCache \<Rightarrow> lru_error + ('v option \<times> 'v LruCache)" where
  "lru_remove k c =
     (case jsmap_get (slot_map c) k of
        None \<Rightarrow> Inr (None, c)
      | Some slot \<Rightarrow>
          (case unlink slot (c\<lparr>slot_map := jsmap_delete k (slot_map c)\<rparr>) of
             Inl err \<Rightarrow> Inl err
           | Inr c \<Rightarrow>
               (case entryAt c slot of
                  Inl err \<Rightarrow> Inl err
                | Inr entry \<Rightarrow> Inr (Some (entry_value entry), release slot c))))"

definition lru_values :: "'v LruCache \<Rightarrow> 'v list" where
  "lru_values c = map entry_value (List.map_filter id (entries c))"

section \<open>Doubly linked segments\<close>

text \<open>
  \<open>segment E p xs q\<close>: the slots \<open>xs\<close> are linked in this order in the slot table \<open>E\<close>, the first one's
  \<open>prev\<close> is \<open>p\<close> and the last one's \<open>next\<close> is \<open>q\<close>.
\<close>

fun hd_or :: "nat option \<Rightarrow> nat list \<Rightarrow> nat option" where
  "hd_or q [] = q"
| "hd_or q (x # xs) = Some x"

definition last_or :: "nat option \<Rightarrow> nat list \<Rightarrow> nat option" where
  "last_or p xs = (if xs = [] then p else Some (last xs))"

fun segment :: "(nat \<Rightarrow> 'v LruEntry option) \<Rightarrow> nat option \<Rightarrow> nat list \<Rightarrow> nat option \<Rightarrow> bool" where
  "segment E p [] q = True"
| "segment E p (s # xs) q =
     (case E s of
        None \<Rightarrow> False
      | Some e \<Rightarrow> prev e = p \<and> next_slot e = hd_or q xs \<and> segment E (Some s) xs q)"

lemma last_or_simps [simp]: "last_or p [] = p" "last_or p (xs @ [x]) = Some x"
  by (simp_all add: last_or_def)

lemma last_or_Cons: "last_or p (x # xs) = last_or (Some x) xs"
  by (simp add: last_or_def)

lemma hd_or_append [simp]: "hd_or q (xs @ ys) = hd_or (hd_or q ys) xs"
  by (cases xs) simp_all

lemma segment_append:
  "segment E p (xs @ ys) q \<longleftrightarrow> segment E p xs (hd_or q ys) \<and> segment E (last_or p xs) ys q"
  by (induction xs arbitrary: p) (auto simp: last_or_Cons split: option.splits)

lemma segment_cong:
  assumes "\<And>s. s \<in> set xs \<Longrightarrow> E s = E' s"
  shows "segment E p xs q = segment E' p xs q"
  using assms by (induction xs arbitrary: p) (auto split: option.splits)

lemma segment_upd_other [simp]: "s \<notin> set xs \<Longrightarrow> segment (E(s := v)) p xs q = segment E p xs q"
  by (rule segment_cong) auto

lemma segment_live: "segment E p xs q \<Longrightarrow> s \<in> set xs \<Longrightarrow> E s \<noteq> None"
  by (induction xs arbitrary: p) (auto split: option.splits)

lemma segment_set_prev:
  assumes "segment E p (s # xs) q" "s \<notin> set xs" "E s = Some e"
  shows "segment (E(s := Some (e\<lparr>prev := p'\<rparr>))) p' (s # xs) q"
  using assms by simp

lemma segment_set_next:
  assumes "segment E p (xs @ [s]) q" "s \<notin> set xs" "E s = Some e"
  shows "segment (E(s := Some (e\<lparr>next_slot := q'\<rparr>))) p (xs @ [s]) q'"
  using assms by (simp add: segment_append)

lemma segment_set_value:
  assumes "segment E p xs q" "E s = Some e"
  shows "segment (E(s := Some (e\<lparr>entry_value := v\<rparr>))) p xs q"
  using assms by (induction xs arbitrary: p) (auto split: option.splits)

section \<open>The writes keep the payload\<close>

definition payload :: "'v LruEntry \<Rightarrow> nat \<times> 'v" where
  "payload e = (key e, entry_value e)"

text \<open>\<open>same_data c c'\<close>: only links, \<open>head\<close> and \<open>tail\<close> may differ.\<close>

definition same_data :: "'v LruCache \<Rightarrow> 'v LruCache \<Rightarrow> bool" where
  "same_data c c' \<longleftrightarrow> (\<forall>s. map_option payload (slot_entry c' s) = map_option payload (slot_entry c s)) \<and>
     slot_map c' = slot_map c \<and> freeSlots c' = freeSlots c \<and> capacity c' = capacity c \<and>
     length (entries c') = length (entries c)"

definition linked :: "'v LruCache \<Rightarrow> nat list \<Rightarrow> bool" where
  "linked c xs \<longleftrightarrow> distinct xs \<and> segment (slot_entry c) None xs None \<and>
     head c = hd_or None xs \<and> tail c = last_or None xs"

lemma same_data_refl [simp]: "same_data c c"
  by (simp add: same_data_def)

lemma same_data_trans: "same_data a b \<Longrightarrow> same_data b c \<Longrightarrow> same_data a c"
  by (simp add: same_data_def)

lemma same_data_ends [simp]:
  "same_data c (c'\<lparr>head := h\<rparr>) = same_data c c'" "same_data c (c'\<lparr>tail := t\<rparr>) = same_data c c'"
  by (simp_all add: same_data_def slot_entry_def)

lemma slot_entry_fields [simp]:
  "slot_entry (c\<lparr>head := h\<rparr>) = slot_entry c" "slot_entry (c\<lparr>tail := t\<rparr>) = slot_entry c"
  "slot_entry (c\<lparr>slot_map := m\<rparr>) = slot_entry c" "slot_entry (c\<lparr>freeSlots := f\<rparr>) = slot_entry c"
  by (simp_all add: slot_entry_def fun_eq_iff)

lemma slot_entry_put_entry:
  "slot < length (entries c) \<Longrightarrow> slot_entry (put_entry slot e c) = (slot_entry c)(slot := e)"
  by (auto simp: slot_entry_def put_entry_def fun_eq_iff)

lemma slot_entry_Some_less: "slot_entry c s = Some e \<Longrightarrow> s < length (entries c)"
  by (simp add: slot_entry_def split: if_splits)

lemma update_entry_ok:
  assumes "slot_entry c s = Some e"
  shows "update_entry s f c = Inr (put_entry s (Some (f e)) c)"
    "slot_entry (put_entry s (Some (f e)) c) = (slot_entry c)(s := Some (f e))"
    "payload (f e) = payload e \<Longrightarrow> same_data c (put_entry s (Some (f e)) c)"
    "head (put_entry s (Some (f e)) c) = head c" "tail (put_entry s (Some (f e)) c) = tail c"
  using assms slot_entry_Some_less [OF assms]
  by (auto simp: update_entry_def entryAt_def slot_entry_put_entry same_data_def)
     (simp_all add: put_entry_def)

lemma set_next_of_ok:
  assumes "segment (slot_entry c) None as q" "distinct as"
  shows "\<exists>c'. set_next_of (last_or None as) n c = Inr c' \<and> segment (slot_entry c') None as n \<and>
    (\<forall>s. s \<notin> set as \<longrightarrow> slot_entry c' s = slot_entry c s) \<and>
    head c' = (if as = [] then n else head c) \<and> tail c' = tail c \<and> same_data c c'"
proof (cases as rule: rev_cases)
  case Nil
  then show ?thesis by (simp add: set_next_of_def)
next
  case (snoc ys p)
  with assms obtain e where e: "slot_entry c p = Some e"
    using segment_live [of "slot_entry c" None as q p] by auto
  note u = update_entry_ok [OF e, of "\<lambda>e. e\<lparr>next_slot := n\<rparr>"]
  have "segment (slot_entry (put_entry p (Some (e\<lparr>next_slot := n\<rparr>)) c)) None as n"
    using segment_set_next [of "slot_entry c" None ys p q e n] assms snoc e by (simp add: u)
  then show ?thesis using snoc by (simp add: set_next_of_def u payload_def)
qed

lemma set_prev_of_ok:
  assumes "segment (slot_entry c) p bs None" "distinct bs"
  shows "\<exists>c'. set_prev_of (hd_or None bs) p' c = Inr c' \<and> segment (slot_entry c') p' bs None \<and>
    (\<forall>s. s \<notin> set bs \<longrightarrow> slot_entry c' s = slot_entry c s) \<and>
    tail c' = (if bs = [] then p' else tail c) \<and> head c' = head c \<and> same_data c c'"
proof (cases bs)
  case Nil
  then show ?thesis by (simp add: set_prev_of_def)
next
  case (Cons n ys)
  with assms obtain e where e: "slot_entry c n = Some e" by (auto split: option.splits)
  note u = update_entry_ok [OF e, of "\<lambda>e. e\<lparr>prev := p'\<rparr>"]
  have "segment (slot_entry (put_entry n (Some (e\<lparr>prev := p'\<rparr>)) c)) p' bs None"
    using segment_set_prev [of "slot_entry c" p n ys None e p'] assms Cons e by (simp add: u)
  then show ?thesis using Cons by (simp add: set_prev_of_def u payload_def)
qed

lemma unlink_ok:
  assumes L: "linked c (as @ s # bs)"
  shows "\<exists>c'. unlink s c = Inr c' \<and> linked c' (as @ bs) \<and> same_data c c'"
proof -
  have d: "distinct (as @ s # bs)" and seg: "segment (slot_entry c) None (as @ s # bs) None"
    using L by (auto simp: linked_def)
  then obtain e where e: "slot_entry c s = Some e" "prev e = last_or None as" "next_slot e = hd_or None bs"
    and sa: "segment (slot_entry c) None as (Some s)" and sb: "segment (slot_entry c) (Some s) bs None"
    by (auto simp: segment_append split: option.splits)
  obtain c1 where c1: "set_next_of (last_or None as) (hd_or None bs) c = Inr c1"
    "segment (slot_entry c1) None as (hd_or None bs)" "\<forall>s. s \<notin> set as \<longrightarrow> slot_entry c1 s = slot_entry c s"
    "head c1 = (if as = [] then hd_or None bs else head c)" "tail c1 = tail c" "same_data c c1"
    using set_next_of_ok [OF sa, of "hd_or None bs"] d by auto
  have "segment (slot_entry c1) (Some s) bs None = segment (slot_entry c) (Some s) bs None"
    using c1(3) d by (intro segment_cong) auto
  with sb have "segment (slot_entry c1) (Some s) bs None" by simp
  then obtain c2 where c2: "set_prev_of (hd_or None bs) (last_or None as) c1 = Inr c2"
    "segment (slot_entry c2) (last_or None as) bs None" "\<forall>s. s \<notin> set bs \<longrightarrow> slot_entry c2 s = slot_entry c1 s"
    "tail c2 = (if bs = [] then last_or None as else tail c1)" "head c2 = head c1" "same_data c1 c2"
    using set_prev_of_ok d by (metis distinct.simps(2) distinct_append)
  have "segment (slot_entry c2) None as (hd_or None bs) = segment (slot_entry c1) None as (hd_or None bs)"
    using c2(3) d by (intro segment_cong) auto
  with c1(2) have "segment (slot_entry c2) None as (hd_or None bs)" by simp
  then have "linked c2 (as @ bs)"
    using L d c1 c2 by (auto simp: linked_def segment_append last_or_def neq_Nil_conv)
  then show ?thesis
    using e c1 c2 same_data_trans [OF c1(6) c2(6)] by (simp add: unlink_def entryAt_def)
qed

lemma link_head_ok:
  assumes L: "linked c xs" and s: "s \<notin> set xs" "slot_entry c s = Some e" "prev e = None" "next_slot e = head c"
  shows "\<exists>c'. link_head s c = Inr c' \<and> linked c' (s # xs) \<and> same_data c c'"
proof (cases xs)
  case Nil
  then show ?thesis using L s by (auto simp: link_head_def linked_def Let_def last_or_def)
next
  case (Cons h ys)
  have h: "head c = Some h" "tail c \<noteq> None" using L Cons by (auto simp: linked_def last_or_def)
  obtain e' where e': "slot_entry c h = Some e'" using L Cons by (auto simp: linked_def split: option.splits)
  note u = update_entry_ok [OF e', of "\<lambda>e. e\<lparr>prev := Some s\<rparr>"]
  have "segment (slot_entry (put_entry h (Some (e'\<lparr>prev := Some s\<rparr>)) c)) (Some s) xs None"
    using segment_set_prev [of "slot_entry c" None h ys None e' "Some s"] L Cons e' by (simp add: u linked_def)
  then show ?thesis
    using L Cons s h by (auto simp: link_head_def linked_def Let_def u payload_def last_or_def)
qed

lemma moveToHead_ok:
  assumes L: "linked c (as @ s # bs)"
  shows "\<exists>c'. moveToHead s c = Inr c' \<and> linked c' (s # as @ bs) \<and> same_data c c'"
proof (cases as)
  case Nil
  then show ?thesis using L by (auto simp: moveToHead_def linked_def)
next
  case (Cons a as')
  have nh: "head c \<noteq> Some s" using L Cons by (auto simp: linked_def)
  obtain c1 where c1: "unlink s c = Inr c1" "linked c1 (as @ bs)" "same_data c c1"
    using unlink_ok [OF L] by blast
  have "slot_entry c s \<noteq> None" using L segment_live [of "slot_entry c" None "as @ s # bs" None s] by (auto simp: linked_def)
  then obtain e where e: "slot_entry c1 s = Some e"
    using c1(3) by (auto simp: same_data_def dest!: spec [of _ s])
  let ?c2 = "put_entry s (Some (e\<lparr>prev := None, next_slot := head c1\<rparr>)) c1"
  note u = update_entry_ok [OF e, of "\<lambda>e. e\<lparr>prev := None, next_slot := head c1\<rparr>"]
  have s: "s \<notin> set (as @ bs)" using L by (auto simp: linked_def)
  then have "linked ?c2 (as @ bs)" using c1(2) unfolding linked_def u by simp
  from link_head_ok [OF this s, of "e\<lparr>prev := None, next_slot := head c1\<rparr>"] obtain c3 where
    c3: "link_head s ?c2 = Inr c3" "linked c3 (s # as @ bs)" "same_data ?c2 c3"
    by (auto simp: u)
  have "same_data c1 ?c2" by (rule u(3)) (simp add: payload_def)
  then have "same_data c c3" using same_data_trans c1(3) c3(3) by blast
  then show ?thesis using nh c1 c3 u(1) by (auto simp: moveToHead_def)
qed


section \<open>Refinement of a recency list\<close>

text \<open>
  \<open>represents c xs\<close>: the live slots are \<open>xs\<close> in order of recency, the map has exactly their keys, and
  every other slot is on the free list. \<open>recency\<close> is what a client can observe: the pairs, most
  recently used first.
\<close>

definition represents :: "'v LruCache \<Rightarrow> nat list \<Rightarrow> bool" where
  "represents c xs \<longleftrightarrow> linked c xs \<and> (\<forall>s. slot_entry c s \<noteq> None \<longleftrightarrow> s \<in> set xs) \<and>
     distinct (map fst (slot_map c)) \<and>
     (\<forall>k s. jsmap_get (slot_map c) k = Some s \<longleftrightarrow> s \<in> set xs \<and> map_option key (slot_entry c s) = Some k) \<and>
     distinct (freeSlots c) \<and> (\<forall>s. s \<in> set (freeSlots c) \<longleftrightarrow> s < length (entries c) \<and> slot_entry c s = None)"

definition recency :: "'v LruCache \<Rightarrow> nat list \<Rightarrow> (nat \<times> 'v) list" where
  "recency c xs = map (\<lambda>s. payload (the (slot_entry c s))) xs"

text \<open>The abstract cache: a list of pairs with distinct keys.\<close>

definition without :: "nat \<Rightarrow> (nat \<times> 'v) list \<Rightarrow> (nat \<times> 'v) list" where
  "without k l = filter (\<lambda>p. fst p \<noteq> k) l"

definition spec_get :: "nat \<Rightarrow> (nat \<times> 'v) list \<Rightarrow> 'v option \<times> (nat \<times> 'v) list" where
  "spec_get k l = (case map_of l k of None \<Rightarrow> (None, l) | Some v \<Rightarrow> (Some v, (k, v) # without k l))"

definition spec_put :: "nat \<Rightarrow> nat \<Rightarrow> 'v \<Rightarrow> (nat \<times> 'v) list \<Rightarrow> (nat \<times> 'v) option \<times> (nat \<times> 'v) list" where
  "spec_put cap k v l =
     (if map_of l k \<noteq> None then (None, (k, v) # without k l)
      else if cap \<le> length l \<and> l \<noteq> [] then (Some (last l), (k, v) # butlast l)
      else (None, (k, v) # l))"

definition spec_remove :: "nat \<Rightarrow> (nat \<times> 'v) list \<Rightarrow> 'v option \<times> (nat \<times> 'v) list" where
  "spec_remove k l = (map_of l k, without k l)"

lemma same_data_key: "same_data c c' \<Longrightarrow> map_option key (slot_entry c' s) = map_option key (slot_entry c s)"
  unfolding same_data_def payload_def
  by (drule conjunct1, drule spec [of _ s]) (cases "slot_entry c s"; cases "slot_entry c' s"; simp)

lemma same_data_None: "same_data c c' \<Longrightarrow> slot_entry c' s = None \<longleftrightarrow> slot_entry c s = None"
  by (metis map_option_is_None same_data_key)

lemma represents_same_data:
  assumes "represents c xs" "same_data c c'" "linked c' ys" "set ys = set xs"
  shows "represents c' ys"
proof -
  have "slot_map c' = slot_map c" "freeSlots c' = freeSlots c" "length (entries c') = length (entries c)"
    using assms(2) by (auto simp: same_data_def)
  then show ?thesis
    using assms(1,3,4) by (simp add: represents_def same_data_key [OF assms(2)] same_data_None [OF assms(2)])
qed

lemma recency_same_data: "same_data c c' \<Longrightarrow> (\<forall>s\<in>set xs. slot_entry c s \<noteq> None) \<Longrightarrow> recency c' xs = recency c xs"
proof -
  assume d: "same_data c c'" and l: "\<forall>s\<in>set xs. slot_entry c s \<noteq> None"
  have "payload (the (slot_entry c' s)) = payload (the (slot_entry c s))" if "s \<in> set xs" for s
    using d l that unfolding same_data_def
    by (metis (no_types, lifting) map_option_eq_Some option.collapse option.sel)
  then show ?thesis by (simp add: recency_def)
qed

lemma represents_live: "represents c xs \<Longrightarrow> \<forall>s\<in>set xs. slot_entry c s \<noteq> None"
  by (auto simp: represents_def)

lemma represents_map:
  assumes "represents c xs"
  shows "jsmap_get (slot_map c) k = Some s \<longleftrightarrow> s \<in> set xs \<and> map_option key (slot_entry c s) = Some k"
  using assms unfolding represents_def by blast

lemma represents_slot_live: "represents c xs \<Longrightarrow> jsmap_get (slot_map c) k = Some s \<Longrightarrow> slot_entry c s \<noteq> None"
  by (auto simp: represents_map)

lemma represents_keys:
  assumes "represents c xs"
  shows "distinct (map fst (recency c xs))"
proof -
  have "inj_on (\<lambda>s. key (the (slot_entry c s))) (set xs)"
  proof (rule inj_onI)
    fix s t assume st: "s \<in> set xs" "t \<in> set xs" "key (the (slot_entry c s)) = key (the (slot_entry c t))"
    then have "map_option key (slot_entry c s) = Some (key (the (slot_entry c t)))"
      "map_option key (slot_entry c t) = Some (key (the (slot_entry c t)))"
      using represents_live [OF assms] by auto
    then have "jsmap_get (slot_map c) (key (the (slot_entry c t))) = Some s"
      "jsmap_get (slot_map c) (key (the (slot_entry c t))) = Some t"
      using assms st unfolding represents_def by blast+
    then show "s = t" by simp
  qed
  moreover have "distinct xs" using assms by (simp add: represents_def linked_def)
  ultimately show ?thesis by (simp add: recency_def payload_def distinct_map comp_def)
qed

lemma map_of_recency:
  assumes R: "represents c xs"
  shows "map_of (recency c xs) k =
    (case jsmap_get (slot_map c) k of None \<Rightarrow> None | Some s \<Rightarrow> map_option entry_value (slot_entry c s))"
proof (cases "jsmap_get (slot_map c) k")
  case None
  have "k \<noteq> key (the (slot_entry c s))" if "s \<in> set xs" for s
  proof
    assume "k = key (the (slot_entry c s))"
    then have "map_option key (slot_entry c s) = Some k" using represents_live [OF R] that by auto
    then have "jsmap_get (slot_map c) k = Some s" using R that unfolding represents_def by blast
    then show False using None by simp
  qed
  then have "map_of (recency c xs) k = None"
    unfolding map_of_eq_None_iff recency_def payload_def by fastforce
  then show ?thesis using None by simp
next
  case (Some s)
  then have s: "s \<in> set xs" "map_option key (slot_entry c s) = Some k" using R unfolding represents_def by blast+
  then obtain e where e: "slot_entry c s = Some e" "key e = k" by auto
  then have "(k, entry_value e) \<in> set (recency c xs)"
    using s by (force simp: recency_def payload_def)
  then show ?thesis using Some e represents_keys [OF R] by (simp add: map_of_is_SomeI)
qed

lemma lru_size_recency:
  assumes R: "represents c xs"
  shows "length (slot_map c) = length (recency c xs)"
proof -
  have "dom (map_of (slot_map c)) = dom (map_of (recency c xs))"
  proof -
    have "jsmap_get (slot_map c) k = None \<longleftrightarrow> map_of (recency c xs) k = None" for k
      using map_of_recency [OF R, of k] represents_slot_live [OF R, of k] by (auto split: option.splits)
    then show ?thesis by (auto simp: dom_def)
  qed
  then have "set (map fst (slot_map c)) = set (map fst (recency c xs))" by (simp add: dom_map_of_conv_image_fst)
  moreover have "distinct (map fst (slot_map c))" using R by (simp add: represents_def)
  ultimately show ?thesis using represents_keys [OF R] by (metis distinct_card length_map)
qed

lemma without_split: "distinct (map fst (l1 @ (k, v) # l2)) \<Longrightarrow> without k (l1 @ (k, v) # l2) = l1 @ l2"
  by (auto simp: without_def filter_id_conv intro!: arg_cong2 [where f = append])


lemma represents_split:
  assumes R: "represents c xs" and k: "jsmap_get (slot_map c) k = Some s"
  obtains as bs e where "xs = as @ s # bs" "slot_entry c s = Some e" "key e = k"
    "linked c (as @ s # bs)"
    "recency c xs = recency c as @ (k, entry_value e) # recency c bs"
    "without k (recency c xs) = recency c as @ recency c bs"
proof -
  have s: "s \<in> set xs" "map_option key (slot_entry c s) = Some k" using R k unfolding represents_def by blast+
  then obtain e where e: "slot_entry c s = Some e" "key e = k" by auto
  obtain as bs where xs: "xs = as @ s # bs" using split_list [OF s(1)] by blast
  have r: "recency c xs = recency c as @ (k, entry_value e) # recency c bs"
    by (simp add: xs recency_def payload_def e)
  have "without k (recency c xs) = recency c as @ recency c bs"
    using represents_keys [OF R] unfolding r by (rule without_split)
  moreover have "linked c (as @ s # bs)" using R xs by (simp add: represents_def)
  ultimately show ?thesis using that xs e r by blast
qed

lemma moveToHead_refines:
  assumes R: "represents c xs" and k: "jsmap_get (slot_map c) k = Some s"
  shows "\<exists>c' ys. moveToHead s c = Inr c' \<and> represents c' ys \<and> same_data c c' \<and>
    recency c' ys = (k, entry_value (the (slot_entry c s))) # without k (recency c xs)"
proof -
  obtain as bs e where x: "xs = as @ s # bs" "slot_entry c s = Some e" "key e = k" "linked c (as @ s # bs)"
    "without k (recency c xs) = recency c as @ recency c bs"
    using represents_split [OF assms] by metis
  obtain c' where c': "moveToHead s c = Inr c'" "linked c' (s # as @ bs)" "same_data c c'"
    using moveToHead_ok [OF x(4)] by blast
  have "represents c' (s # as @ bs)"
    using represents_same_data [OF R c'(3,2)] x(1) by auto
  moreover have "recency c' (s # as @ bs) = recency c (s # as @ bs)"
    using recency_same_data [OF c'(3)] represents_live [OF R] x(1) by auto
  ultimately show ?thesis using c' x by (auto simp: recency_def payload_def)
qed

lemma lru_peek_spec: "represents c xs \<Longrightarrow> lru_peek k c = map_of (recency c xs) k"
  by (simp add: lru_peek_def map_of_recency)

lemma lru_has_spec: "represents c xs \<Longrightarrow> lru_has k c \<longleftrightarrow> map_of (recency c xs) k \<noteq> None"
  using represents_slot_live [of c xs k] by (auto simp: lru_has_def map_of_recency split: option.splits)

lemma lru_get_refines:
  assumes R: "represents c xs"
  shows "\<exists>c' ys. lru_get k c = Inr (fst (spec_get k (recency c xs)), c') \<and> represents c' ys \<and>
    capacity c' = capacity c \<and> recency c' ys = snd (spec_get k (recency c xs))"
proof (cases "jsmap_get (slot_map c) k")
  case None
  then show ?thesis using R map_of_recency [OF R, of k] by (auto simp: lru_get_def spec_get_def)
next
  case (Some s)
  obtain c' ys where c': "moveToHead s c = Inr c'" "represents c' ys" "same_data c c'"
    "recency c' ys = (k, entry_value (the (slot_entry c s))) # without k (recency c xs)"
    using moveToHead_refines [OF R Some] by blast
  obtain e where e: "slot_entry c s = Some e" using represents_split [OF R Some] by metis
  have "map_option entry_value (slot_entry c' s) = Some (entry_value e)"
    using c'(3) e unfolding same_data_def payload_def by (auto dest!: spec [of _ s])
  then show ?thesis using c' e Some map_of_recency [OF R, of k]
    by (auto simp: lru_get_def spec_get_def same_data_def)
qed


lemma linked_cong:
  "slot_entry c' = slot_entry c \<Longrightarrow> head c' = head c \<Longrightarrow> tail c' = tail c \<Longrightarrow> linked c' xs = linked c xs"
  by (simp add: linked_def)

lemma unlink_release:
  assumes R: "represents c xs" and k: "jsmap_get (slot_map c) k = Some s"
  shows "\<exists>c' ys. unlink s (c\<lparr>slot_map := jsmap_delete k (slot_map c)\<rparr>) = Inr c' \<and>
    map_option payload (slot_entry c' s) = Some (k, entry_value (the (slot_entry c s))) \<and>
    represents (release s c') ys \<and> capacity c' = capacity c \<and>
    recency (release s c') ys = without k (recency c xs)"
proof -
  let ?c0 = "c\<lparr>slot_map := jsmap_delete k (slot_map c)\<rparr>"
  obtain as bs e where x: "xs = as @ s # bs" "slot_entry c s = Some e" "key e = k" "linked c (as @ s # bs)"
    "without k (recency c xs) = recency c as @ recency c bs"
    using represents_split [OF assms] by metis
  have "linked ?c0 (as @ s # bs)" using x(4) by (simp add: linked_def)
  then obtain c' where c': "unlink s ?c0 = Inr c'" "linked c' (as @ bs)" "same_data ?c0 c'"
    using unlink_ok by blast
  have data: "map_option payload (slot_entry c' t) = map_option payload (slot_entry c t)" for t
    using c'(3) by (simp add: same_data_def)
  have eqs: "slot_map c' = jsmap_delete k (slot_map c)" "freeSlots c' = freeSlots c" "capacity c' = capacity c"
    "length (entries c') = length (entries c)"
    using c'(3) by (simp_all add: same_data_def)
  have sl: "s < length (entries c')" using slot_entry_Some_less [OF x(2)] eqs by simp
  then have rel: "slot_entry (release s c') = (slot_entry c')(s := None)"
    by (simp add: release_def slot_entry_put_entry)
  have sm: "slot_map (release s c') = jsmap_delete k (slot_map c)"
    by (simp add: release_def put_entry_def eqs)
  have keys: "map_option key (slot_entry c' t) = map_option key (slot_entry c t)" for t
    using data [of t] by (cases "slot_entry c t"; cases "slot_entry c' t"; simp add: payload_def)
  then have none: "slot_entry c' t = None \<longleftrightarrow> slot_entry c t = None" for t by (metis map_option_is_None)
  have d: "s \<notin> set (as @ bs)" using x(4) by (auto simp: linked_def)
  have live: "slot_entry c t \<noteq> None \<longleftrightarrow> t \<in> set xs" for t using R unfolding represents_def by blast
  have free: "t \<in> set (freeSlots c) \<longleftrightarrow> t < length (entries c) \<and> slot_entry c t = None" "distinct (freeSlots c)" for t
    using R unfolding represents_def by blast+
  have "linked (release s c') (as @ bs)"
    using c'(2) d by (simp add: linked_def rel) (simp add: release_def put_entry_def)
  moreover have "slot_entry (release s c') t \<noteq> None \<longleftrightarrow> t \<in> set (as @ bs)" for t
    using live [of t] none [of t] d by (auto simp: rel x(1))
  moreover have "jsmap_get (slot_map (release s c')) k' = Some t \<longleftrightarrow>
      t \<in> set (as @ bs) \<and> map_option key (slot_entry (release s c') t) = Some k'" for k' t
  proof (cases "t = s")
    case True
    then show ?thesis using represents_map [OF R, of k' s] x(2,3) d by (auto simp: sm delete_conv')
  next
    case False
    then have "t \<in> set (as @ bs) \<and> map_option key (slot_entry (release s c') t) = Some k' \<longleftrightarrow>
        jsmap_get (slot_map c) k' = Some t"
      using represents_map [OF R, of k' t] by (simp add: rel keys x(1))
    then show ?thesis using k False by (auto simp: sm delete_conv')
  qed
  moreover have "distinct (map fst (slot_map (release s c')))"
    using R by (simp add: release_def put_entry_def eqs represents_def distinct_delete)
  moreover have "distinct (freeSlots (release s c'))"
    using free x(2) by (simp add: release_def put_entry_def eqs)
  moreover have "t \<in> set (freeSlots (release s c')) \<longleftrightarrow>
      t < length (entries (release s c')) \<and> slot_entry (release s c') t = None" for t
    using free(1) [of t] none [of t] sl unfolding rel by (auto simp: release_def put_entry_def eqs)
  ultimately have "represents (release s c') (as @ bs)" unfolding represents_def by blast
  moreover have "recency (release s c') (as @ bs) = recency c (as @ bs)"
  proof -
    have "payload (the (slot_entry (release s c') t)) = payload (the (slot_entry c t))" if "t \<in> set (as @ bs)" for t
    proof -
      have "slot_entry c t \<noteq> None" "t \<noteq> s" using that live x(1) d by auto
      then show ?thesis using data [of t] by (auto simp: rel)
    qed
    then show ?thesis by (simp add: recency_def)
  qed
  ultimately show ?thesis using c'(1) eqs(3) x data [of s] by (auto simp: recency_def payload_def)
qed


lemma evictTail_refines:
  assumes R: "represents c xs"
  shows "\<exists>c' ys. evictTail c = Inr (if xs = [] then None else Some (last (recency c xs)), c') \<and>
    represents c' ys \<and> capacity c' = capacity c \<and> recency c' ys = butlast (recency c xs)"
proof (cases xs rule: rev_cases)
  case Nil
  then show ?thesis using R by (auto simp: evictTail_def represents_def linked_def recency_def)
next
  case (snoc as s)
  have t: "tail c = Some s" using R snoc by (simp add: represents_def linked_def)
  have "s \<in> set xs" using snoc by simp
  then obtain e where e: "slot_entry c s = Some e" using represents_live [OF R] by blast
  have k: "jsmap_get (slot_map c) (key e) = Some s" using \<open>s \<in> set xs\<close> e by (simp add: represents_map [OF R])
  obtain c' ys where c': "unlink s (c\<lparr>slot_map := jsmap_delete (key e) (slot_map c)\<rparr>) = Inr c'"
    "represents (release s c') ys" "capacity c' = capacity c"
    "recency (release s c') ys = without (key e) (recency c xs)"
    using unlink_release [OF R k] by blast
  have r: "recency c xs = recency c as @ [(key e, entry_value e)]"
    by (simp add: snoc recency_def e payload_def)
  have "without (key e) (recency c xs) = recency c as"
    using represents_keys [OF R] without_split [of "recency c as" "key e" "entry_value e" "[]"] r by simp
  then show ?thesis using t e c' snoc r
    by (auto simp: evictTail_def entryAt_def release_def put_entry_def)
qed

lemma allocSlot_spec:
  assumes R: "represents c xs" and a: "allocSlot e c = (s, c1)"
  shows "s \<notin> set xs" "slot_entry c1 = (slot_entry c)(s := Some e)" "slot_map c1 = slot_map c"
    "head c1 = head c" "tail c1 = tail c" "capacity c1 = capacity c" "distinct (freeSlots c1)"
    "t \<in> set (freeSlots c1) \<longleftrightarrow> t < length (entries c1) \<and> slot_entry c1 t = None"
proof -
  have free: "\<And>t. t \<in> set (freeSlots c) \<longleftrightarrow> t < length (entries c) \<and> slot_entry c t = None" "distinct (freeSlots c)"
    and live: "\<And>t. slot_entry c t \<noteq> None \<longleftrightarrow> t \<in> set xs"
    using R unfolding represents_def by blast+
  have *: "s \<notin> set xs \<and> slot_entry c1 = (slot_entry c)(s := Some e) \<and> slot_map c1 = slot_map c \<and>
    head c1 = head c \<and> tail c1 = tail c \<and> capacity c1 = capacity c \<and> distinct (freeSlots c1) \<and>
    (t \<in> set (freeSlots c1) \<longleftrightarrow> t < length (entries c1) \<and> slot_entry c1 t = None)" for t
  proof (cases "freeSlots c" rule: rev_cases)
    case Nil
    have new: "slot_entry c (length (entries c)) = None" by (simp add: slot_entry_def)
    have "slot_entry c1 = (slot_entry c)(s := Some e)"
      using a Nil by (auto simp: allocSlot_def slot_entry_def nth_append fun_eq_iff)
    then show ?thesis using a Nil new live [of "length (entries c)"] free(1) [of t]
      by (auto simp: allocSlot_def less_Suc_eq)
  next
    case (snoc fs s')
    have s': "s' < length (entries c)" "slot_entry c s' = None" using free(1) [of s'] snoc by auto
    have c1: "s = s'" "c1 = put_entry s' (Some e) (c\<lparr>freeSlots := fs\<rparr>)"
      using a snoc by (auto simp: allocSlot_def Let_def)
    have E: "slot_entry c1 = (slot_entry c)(s := Some e)"
      using s' by (simp add: c1 slot_entry_put_entry)
    have "t \<in> set fs \<longleftrightarrow> t < length (entries c) \<and> ((slot_entry c)(s' := Some e)) t = None"
      using free(1) [of t] free(2) snoc by (auto split: if_splits)
    then have "t \<in> set (freeSlots c1) \<longleftrightarrow> t < length (entries c1) \<and> slot_entry c1 t = None"
      unfolding E by (simp add: c1 put_entry_def)
    then show ?thesis using E s' live [of s'] free(2) snoc by (simp add: c1 put_entry_def)
  qed
  then show "s \<notin> set xs" "slot_entry c1 = (slot_entry c)(s := Some e)" "slot_map c1 = slot_map c"
    "head c1 = head c" "tail c1 = tail c" "capacity c1 = capacity c" "distinct (freeSlots c1)"
    "t \<in> set (freeSlots c1) \<longleftrightarrow> t < length (entries c1) \<and> slot_entry c1 t = None" by blast+
qed

lemma insert_refines:
  assumes R: "represents c xs" and k: "jsmap_get (slot_map c) k = None"
    and a: "allocSlot \<lparr>key = k, entry_value = v, prev = None, next_slot = head c\<rparr> c = (s, c1)"
  shows "\<exists>c2. link_head s c1 = Inr c2 \<and> represents (c2\<lparr>slot_map := jsmap_set k s (slot_map c2)\<rparr>) (s # xs) \<and>
    capacity c2 = capacity c \<and>
    recency (c2\<lparr>slot_map := jsmap_set k s (slot_map c2)\<rparr>) (s # xs) = (k, v) # recency c xs"
proof -
  let ?e = "\<lparr>key = k, entry_value = v, prev = None, next_slot = head c\<rparr>"
  note al = allocSlot_spec [OF R a]
  have L1: "linked c1 xs" using R al(1) by (simp add: represents_def linked_def al(2,4,5))
  obtain c2 where c2: "link_head s c1 = Inr c2" "linked c2 (s # xs)" "same_data c1 c2"
    using link_head_ok [OF L1 al(1), of ?e] al by auto
  let ?c = "c2\<lparr>slot_map := jsmap_set k s (slot_map c2)\<rparr>"
  have eqs: "slot_map c2 = slot_map c" "freeSlots c2 = freeSlots c1" "capacity c2 = capacity c"
    "length (entries c2) = length (entries c1)"
    using c2(3) al by (simp_all add: same_data_def)
  have key': "map_option key (slot_entry c2 t) = map_option key (((slot_entry c)(s := Some ?e)) t)" for t
    using same_data_key [OF c2(3), of t] al(2) by simp
  have none: "slot_entry c2 t = None \<longleftrightarrow> ((slot_entry c)(s := Some ?e)) t = None" for t
    using same_data_None [OF c2(3), of t] al(2) by simp
  have live: "slot_entry c t \<noteq> None \<longleftrightarrow> t \<in> set xs" for t using R unfolding represents_def by blast
  have "linked ?c (s # xs)" using c2(2) by (simp add: linked_def)
  moreover have "slot_entry ?c t \<noteq> None \<longleftrightarrow> t \<in> set (s # xs)" for t
    using live [of t] none [of t] by auto
  moreover have "distinct (map fst (slot_map ?c))"
    using R by (simp add: eqs represents_def distinct_update)
  moreover have "jsmap_get (slot_map ?c) k' = Some t \<longleftrightarrow> t \<in> set (s # xs) \<and> map_option key (slot_entry ?c t) = Some k'" for k' t
    using represents_map [OF R, of k' t] key' [of t] k al(1) by (auto simp: eqs update_conv')
  moreover have "distinct (freeSlots ?c)" using al(7) by (simp add: eqs)
  moreover have "t \<in> set (freeSlots ?c) \<longleftrightarrow> t < length (entries ?c) \<and> slot_entry ?c t = None" for t
    using al(8) [of t] none [of t] by (simp add: eqs al(2))
  ultimately have "represents ?c (s # xs)" unfolding represents_def by blast
  moreover have "recency ?c (s # xs) = recency c1 (s # xs)"
    using recency_same_data [OF c2(3), of "s # xs"] represents_live [OF R] al(2) by (simp add: recency_def)
  moreover have "recency c1 (s # xs) = (k, v) # recency c xs"
    using al(1) by (auto simp: recency_def al(2) payload_def)
  ultimately show ?thesis using c2(1) eqs(3) by auto
qed

lemma set_value_refines:
  assumes R: "represents c xs" and k: "jsmap_get (slot_map c) k = Some s"
  shows "\<exists>c'. update_entry s (\<lambda>e. e\<lparr>entry_value := v\<rparr>) c = Inr c' \<and> represents c' xs \<and>
    slot_map c' = slot_map c \<and> capacity c' = capacity c \<and> map_option entry_value (slot_entry c' s) = Some v \<and>
    recency c' xs = map (\<lambda>p. if fst p = k then (k, v) else p) (recency c xs)"
proof -
  obtain e where e: "slot_entry c s = Some e" "key e = k" using represents_split [OF R k] by metis
  define e' where "e' = e\<lparr>entry_value := v\<rparr>"
  define c' where "c' = put_entry s (Some e') c"
  have upd: "update_entry s (\<lambda>e. e\<lparr>entry_value := v\<rparr>) c = Inr c'"
    and E: "slot_entry c' = (slot_entry c)(s := Some e')" and ends: "head c' = head c" "tail c' = tail c"
    using update_entry_ok [OF e(1), of "\<lambda>e. e\<lparr>entry_value := v\<rparr>"] by (simp_all add: c'_def e'_def)
  have eqs: "slot_map c' = slot_map c" "freeSlots c' = freeSlots c" "capacity c' = capacity c"
    "length (entries c') = length (entries c)" by (simp_all add: c'_def put_entry_def)
  have key': "map_option key (slot_entry c' t) = map_option key (slot_entry c t)" for t
    using e by (simp add: E e'_def)
  have none: "slot_entry c' t = None \<longleftrightarrow> slot_entry c t = None" for t using e by (simp add: E)
  have "segment (slot_entry c') None xs None"
    using segment_set_value [where E = "slot_entry c" and s = s and e = e and p = None and xs = xs and q = None and v = v]
      R e(1) by (simp add: E e'_def represents_def linked_def)
  then have "linked c' xs" using R by (simp add: represents_def linked_def ends)
  then have rep: "represents c' xs"
    using R unfolding represents_def by (simp only: eqs key' none simp_thms)
  have "payload (the (slot_entry c' t)) = (if fst (payload (the (slot_entry c t))) = k then (k, v) else payload (the (slot_entry c t)))"
    if t: "t \<in> set xs" for t
  proof (cases "t = s")
    case True
    then show ?thesis using e by (simp add: E e'_def payload_def)
  next
    case False
    obtain d where d: "slot_entry c t = Some d" using represents_live [OF R] t by blast
    have "key d \<noteq> k"
    proof
      assume "key d = k"
      then have "jsmap_get (slot_map c) k = Some t" using represents_map [OF R, of k t] t d by simp
      then show False using k False by simp
    qed
    then show ?thesis using False d by (simp add: E payload_def)
  qed
  then have "recency c' xs = map (\<lambda>p. if fst p = k then (k, v) else p) (recency c xs)"
    by (simp add: recency_def)
  moreover have "map_option entry_value (slot_entry c' s) = Some v" by (simp add: E e'_def)
  ultimately show ?thesis using rep upd eqs by blast
qed

lemma without_set_value: "without k (map (\<lambda>p. if fst p = k then (k, v) else p) l) = without k l"
  by (induction l) (auto simp: without_def)

lemma lru_put_refines:
  assumes R: "represents c xs"
  shows "\<exists>c' ys. lru_put k v c = Inr (fst (spec_put (capacity c) k v (recency c xs)), c') \<and> represents c' ys \<and>
    capacity c' = capacity c \<and> recency c' ys = snd (spec_put (capacity c) k v (recency c xs))"
proof (cases "jsmap_get (slot_map c) k")
  case (Some s)
  obtain c1 where c1: "update_entry s (\<lambda>e. e\<lparr>entry_value := v\<rparr>) c = Inr c1" "represents c1 xs"
    "slot_map c1 = slot_map c" "capacity c1 = capacity c" "map_option entry_value (slot_entry c1 s) = Some v"
    "recency c1 xs = map (\<lambda>p. if fst p = k then (k, v) else p) (recency c xs)"
    using set_value_refines [OF R Some] by blast
  have k1: "jsmap_get (slot_map c1) k = Some s" using Some c1(3) by simp
  obtain c2 ys where c2: "moveToHead s c1 = Inr c2" "represents c2 ys" "same_data c1 c2"
    "recency c2 ys = (k, entry_value (the (slot_entry c1 s))) # without k (recency c1 xs)"
    using moveToHead_refines [OF c1(2) k1] by blast
  have "map_of (recency c xs) k \<noteq> None"
    using map_of_recency [OF R, of k] represents_slot_live [OF R Some] Some by simp
  then have "spec_put (capacity c) k v (recency c xs) = (None, recency c2 ys)"
    using c2(4) c1(5,6) by (auto simp: spec_put_def without_set_value)
  then show ?thesis using Some c1 c2 by (auto simp: lru_put_def same_data_def)
next
  case None
  have m: "map_of (recency c xs) k = None" using map_of_recency [OF R, of k] None by simp
  define full where "full \<longleftrightarrow> length (slot_map c) \<ge> capacity c"
  have nil: "xs = [] \<longleftrightarrow> recency c xs = []" by (simp add: recency_def)
  obtain ev c1 ys where c1: "(if full then evictTail c else Inr (None, c)) = Inr (ev, c1)" "represents c1 ys"
    "capacity c1 = capacity c"
    "ev = (if full \<and> recency c xs \<noteq> [] then Some (last (recency c xs)) else None)"
    "recency c1 ys = (if full then butlast (recency c xs) else recency c xs)"
  proof (cases full)
    case True
    obtain c' zs where "evictTail c = Inr (if xs = [] then None else Some (last (recency c xs)), c')"
      "represents c' zs" "capacity c' = capacity c" "recency c' zs = butlast (recency c xs)"
      using evictTail_refines [OF R] by blast
    then show ?thesis using that True nil by auto
  next
    case False
    then show ?thesis using that [of None c xs] R by simp
  qed
  have k1: "jsmap_get (slot_map c1) k = None"
  proof (rule ccontr)
    assume "jsmap_get (slot_map c1) k \<noteq> None"
    then have "map_of (recency c1 ys) k \<noteq> None"
      using map_of_recency [OF c1(2), of k] represents_slot_live [OF c1(2), of k] by (auto split: option.splits)
    then have "k \<in> fst ` set (recency c xs)"
      using c1(5) by (auto simp: map_of_eq_None_iff split: if_splits dest: in_set_butlastD)
    then show False using m by (simp add: map_of_eq_None_iff)
  qed
  obtain s c2 where a: "allocSlot \<lparr>key = k, entry_value = v, prev = None, next_slot = head c1\<rparr> c1 = (s, c2)"
    by (meson surj_pair)
  obtain c3 where c3: "link_head s c2 = Inr c3"
    "represents (c3\<lparr>slot_map := jsmap_set k s (slot_map c3)\<rparr>) (s # ys)" "capacity c3 = capacity c1"
    "recency (c3\<lparr>slot_map := jsmap_set k s (slot_map c3)\<rparr>) (s # ys) = (k, v) # recency c1 ys"
    using insert_refines [OF c1(2) k1 a] by blast
  have put: "lru_put k v c = Inr (ev, c3\<lparr>slot_map := jsmap_set k s (slot_map c3)\<rparr>)"
    using None c1(1) a c3(1) by (simp add: lru_put_def full_def)
  have sp: "spec_put (capacity c) k v (recency c xs) = (ev, (k, v) # recency c1 ys)"
    using m c1(4,5) lru_size_recency [OF R] by (auto simp: spec_put_def full_def)
  show ?thesis unfolding put sp using c3 c1(3)
    by (intro exI [of _ "c3\<lparr>slot_map := jsmap_set k s (slot_map c3)\<rparr>"] exI [of _ "s # ys"]) simp
qed

lemma lru_remove_refines:
  assumes R: "represents c xs"
  shows "\<exists>c' ys. lru_remove k c = Inr (fst (spec_remove k (recency c xs)), c') \<and> represents c' ys \<and>
    capacity c' = capacity c \<and> recency c' ys = snd (spec_remove k (recency c xs))"
proof (cases "jsmap_get (slot_map c) k")
  case None
  then have "map_of (recency c xs) k = None" using map_of_recency [OF R, of k] by simp
  moreover from this have "without k (recency c xs) = recency c xs"
    by (auto simp: without_def filter_id_conv map_of_eq_None_iff)
  ultimately show ?thesis using R None by (auto simp: lru_remove_def spec_remove_def)
next
  case (Some s)
  obtain c' ys where c': "unlink s (c\<lparr>slot_map := jsmap_delete k (slot_map c)\<rparr>) = Inr c'"
    "map_option payload (slot_entry c' s) = Some (k, entry_value (the (slot_entry c s)))"
    "represents (release s c') ys" "capacity c' = capacity c" "recency (release s c') ys = without k (recency c xs)"
    using unlink_release [OF R Some] by blast
  obtain e where e: "slot_entry c' s = Some e" "entry_value e = entry_value (the (slot_entry c s))"
    using c'(2) by (auto simp: payload_def)
  have "map_of (recency c xs) k = Some (entry_value e)"
    using map_of_recency [OF R, of k] represents_slot_live [OF R Some] Some e by auto
  then show ?thesis using Some c' e
    by (auto simp: lru_remove_def spec_remove_def entryAt_def release_def put_entry_def)
qed

lemma represents_new: "represents (lru_new cap) []"
  by (simp add: represents_def linked_def lru_new_def slot_entry_def)

section \<open>Histories of calls\<close>

datatype 'v lru_op = Get nat | Peek nat | Has nat | Put nat 'v | Remove nat

datatype 'v lru_out = Value "'v option" | Flag bool | Evicted "(nat \<times> 'v) option"

fun lru_step :: "'v lru_op \<Rightarrow> 'v LruCache \<Rightarrow> lru_error + ('v lru_out \<times> 'v LruCache)" where
  "lru_step (Get k) c = map_sum id (map_prod Value id) (lru_get k c)"
| "lru_step (Peek k) c = Inr (Value (lru_peek k c), c)"
| "lru_step (Has k) c = Inr (Flag (lru_has k c), c)"
| "lru_step (Put k v) c = map_sum id (map_prod Evicted id) (lru_put k v c)"
| "lru_step (Remove k) c = map_sum id (map_prod Value id) (lru_remove k c)"

fun lru_run :: "'v lru_op list \<Rightarrow> 'v LruCache \<Rightarrow> lru_error + ('v lru_out list \<times> 'v LruCache)" where
  "lru_run [] c = Inr ([], c)"
| "lru_run (x # xs) c =
     (case lru_step x c of
        Inl err \<Rightarrow> Inl err
      | Inr (out, c) \<Rightarrow> map_sum id (map_prod (Cons out) id) (lru_run xs c))"

fun spec_step :: "nat \<Rightarrow> 'v lru_op \<Rightarrow> (nat \<times> 'v) list \<Rightarrow> 'v lru_out \<times> (nat \<times> 'v) list" where
  "spec_step cap (Get k) l = map_prod Value id (spec_get k l)"
| "spec_step cap (Peek k) l = (Value (map_of l k), l)"
| "spec_step cap (Has k) l = (Flag (map_of l k \<noteq> None), l)"
| "spec_step cap (Put k v) l = map_prod Evicted id (spec_put cap k v l)"
| "spec_step cap (Remove k) l = map_prod Value id (spec_remove k l)"

fun spec_run :: "nat \<Rightarrow> 'v lru_op list \<Rightarrow> (nat \<times> 'v) list \<Rightarrow> 'v lru_out list \<times> (nat \<times> 'v) list" where
  "spec_run cap [] l = ([], l)"
| "spec_run cap (x # xs) l =
     (let (out, l) = spec_step cap x l; (outs, l) = spec_run cap xs l in (out # outs, l))"

lemma lru_step_refines:
  assumes "represents c xs"
  shows "\<exists>c' ys. lru_step x c = Inr (fst (spec_step (capacity c) x (recency c xs)), c') \<and> represents c' ys \<and>
    capacity c' = capacity c \<and> recency c' ys = snd (spec_step (capacity c) x (recency c xs))"
proof (cases x)
  case (Get k)
  then show ?thesis using lru_get_refines [OF assms, of k] by (auto simp: map_prod_def split: prod.splits)
next
  case (Put k v)
  then show ?thesis using lru_put_refines [OF assms, of k v] by (auto simp: map_prod_def split: prod.splits)
next
  case (Remove k)
  then show ?thesis using lru_remove_refines [OF assms, of k] by (auto simp: map_prod_def split: prod.splits)
qed (use assms in \<open>auto simp: lru_peek_spec lru_has_spec\<close>)

lemma lru_run_refines:
  assumes "represents c xs"
  shows "\<exists>c' ys. lru_run ops c = Inr (fst (spec_run (capacity c) ops (recency c xs)), c') \<and> represents c' ys \<and>
    capacity c' = capacity c \<and> recency c' ys = snd (spec_run (capacity c) ops (recency c xs))"
  using assms
proof (induction ops arbitrary: c xs)
  case (Cons x ops)
  obtain c1 ys where 1: "lru_step x c = Inr (fst (spec_step (capacity c) x (recency c xs)), c1)" "represents c1 ys"
    "capacity c1 = capacity c" "recency c1 ys = snd (spec_step (capacity c) x (recency c xs))"
    using lru_step_refines [OF Cons.prems] by blast
  obtain c2 zs where 2: "lru_run ops c1 = Inr (fst (spec_run (capacity c1) ops (recency c1 ys)), c2)" "represents c2 zs"
    "capacity c2 = capacity c1" "recency c2 zs = snd (spec_run (capacity c1) ops (recency c1 ys))"
    using Cons.IH [OF 1(2)] by blast
  show ?case using 1 2 by (auto simp: Let_def split_beta)
qed auto

lemma spec_step_length: "length l \<le> max 1 cap \<Longrightarrow> length (snd (spec_step cap x l)) \<le> max 1 cap"
proof (cases x)
  case (Put k v)
  assume l: "length l \<le> max 1 cap"
  have "length (without k l) < length l" if "map_of l k = Some v'" for v'
    unfolding without_def using map_of_SomeD [OF that] by (intro length_filter_less [of "(k, v')"]) auto
  then show ?thesis using l Put by (auto simp: spec_put_def)
next
  case (Get k)
  assume l: "length l \<le> max 1 cap"
  have "length (without k l) < length l" if "map_of l k = Some v'" for v'
    unfolding without_def using map_of_SomeD [OF that] by (intro length_filter_less [of "(k, v')"]) auto
  then show ?thesis using l Get by (auto simp: spec_get_def split: option.splits)
next
  case (Remove k)
  assume "length l \<le> max 1 cap"
  then show ?thesis using Remove le_trans [OF length_filter_le] by (auto simp: spec_remove_def without_def)
qed auto

lemma spec_run_length: "length l \<le> max 1 cap \<Longrightarrow> length (snd (spec_run cap ops l)) \<le> max 1 cap"
proof (induction ops arbitrary: l)
  case (Cons x ops)
  show ?case using Cons.IH [OF spec_step_length [OF Cons.prems, of x]] by (simp add: Let_def split_beta)
qed simp

text \<open>
  C3. Every history of calls on a new cache returns exactly what the plain recency list returns, call
  by call, evictions included: the linked slots implement the list, no call ever reads an empty slot
  (\<open>LruSlotError\<close> is unreachable), keys stay distinct, and the size never exceeds the capacity (or 1
  when the capacity is 0, because \<open>put\<close> always inserts).
\<close>

theorem lru_refines_recency:
  "\<exists>c xs. lru_run ops (lru_new cap) = Inr (fst (spec_run cap ops []), c) \<and> represents c xs \<and>
     recency c xs = snd (spec_run cap ops []) \<and> distinct (map fst (recency c xs)) \<and>
     lru_size c = length (recency c xs) \<and> lru_size c \<le> max 1 cap"
proof -
  have e: "capacity (lru_new cap) = cap" "recency (lru_new cap) [] = []" by (simp_all add: lru_new_def recency_def)
  obtain c xs where c: "lru_run ops (lru_new cap) = Inr (fst (spec_run cap ops []), c)" "represents c xs"
    "recency c xs = snd (spec_run cap ops [])"
    using lru_run_refines [OF represents_new [of cap], of ops] unfolding e by blast
  then show ?thesis
    using represents_keys [OF c(2)] lru_size_recency [OF c(2)] spec_run_length [of "[]" cap ops]
    by (auto simp: lru_size_def)
qed

end
