(* ===== verification/Drain.thy ===== *)
theory Drain
  imports Lru_Cache
begin

text \<open>
  The Drain log template miner, after \<^verbatim>\<open>packages/query-engine/src/drain/drain.ts\<close>,
  \<^verbatim>\<open>node.ts\<close> and \<^verbatim>\<open>log-cluster.ts\<close>: log messages are split into tokens and sorted into clusters by a
  prefix tree of bounded depth and fan-out; a cluster's template keeps the tokens its messages share
  and has the wildcard elsewhere.

  The state is the record of the class. The tree is a value: the code's walk that mutates the node it
  reaches is a recursive function that rebuilds the path. A cluster object is shared by the store and
  the caller, so a write to its fields is a write to the store (\<open>cluster_write\<close>). The similarity of two
  token sequences is the exact rational.
\<close>

section \<open>The class\<close>

datatype Node = Node (keyToChildNode: "(string \<times> Node) list") (clusterIds: "nat list")

definition new_Node :: Node where
  "new_Node = Node [] []"

record LogCluster =
  logTemplateTokens :: "string list"
  clusterId :: nat
  cluster_size :: nat

definition new_LogCluster :: "string list \<Rightarrow> nat \<Rightarrow> LogCluster" where
  "new_LogCluster tokens cid = \<lparr>logTemplateTokens = tokens, clusterId = cid, cluster_size = 1\<rparr>"

datatype cluster_store = MapStore "(nat, LogCluster) jsmap" | LruStore "LogCluster LruCache"

datatype drain_error = DrainInvariantError string | SlotError lru_error

record Drain =
  logClusterDepth :: nat
  maxNodeDepth :: nat
  simTh :: rat
  maxChildren :: nat
  rootNode :: Node
  extraDelimiters :: "string list"
  maxClusters :: "nat option"
  paramStr :: string
  parametrizeNumericTokens :: bool
  store :: cluster_store
  clustersCounter :: nat

definition new_Drain ::
  "nat \<Rightarrow> rat \<Rightarrow> nat \<Rightarrow> nat option \<Rightarrow> string list \<Rightarrow> string \<Rightarrow> bool \<Rightarrow> drain_error + Drain" where
  "new_Drain depth sim children clusterLimit delimiters param numeric =
     (if depth < 3 then Inl (DrainInvariantError ''depth argument must be at least 3'')
      else Inr \<lparr>logClusterDepth = depth, maxNodeDepth = depth - 2, simTh = sim, maxChildren = children, rootNode = new_Node,
                extraDelimiters = delimiters, maxClusters = clusterLimit, paramStr = param,
                parametrizeNumericTokens = numeric,
                store = (case clusterLimit of Some cap \<Rightarrow> LruStore (lru_new cap) | None \<Rightarrow> MapStore []),
                clustersCounter = 0\<rparr>)"

section \<open>The cluster store\<close>




fun clusterPeek :: "nat \<Rightarrow> cluster_store \<Rightarrow> LogCluster option" where
  "clusterPeek cid (MapStore m) = jsmap_get m cid"
| "clusterPeek cid (LruStore c) = lru_peek cid c"

fun clusterGet :: "nat \<Rightarrow> cluster_store \<Rightarrow> drain_error + (LogCluster option \<times> cluster_store)" where
  "clusterGet cid (MapStore m) = Inr (jsmap_get m cid, MapStore m)"
| "clusterGet cid (LruStore c) = map_sum SlotError (map_prod id LruStore) (lru_get cid c)"

fun clusterContains :: "nat \<Rightarrow> cluster_store \<Rightarrow> bool" where
  "clusterContains cid (MapStore m) = jsmap_has m cid"
| "clusterContains cid (LruStore c) = lru_has cid c"

fun clusterInsert :: "nat \<Rightarrow> LogCluster \<Rightarrow> cluster_store \<Rightarrow> drain_error + cluster_store" where
  "clusterInsert cid cluster (MapStore m) = Inr (MapStore (jsmap_set cid cluster m))"
| "clusterInsert cid cluster (LruStore c) = map_sum SlotError (LruStore \<circ> snd) (lru_put cid cluster c)"

text \<open>
  A write to the fields of the cluster object held under an id: the recency order is not touched.
\<close>

fun cluster_write :: "nat \<Rightarrow> LogCluster \<Rightarrow> cluster_store \<Rightarrow> cluster_store" where
  "cluster_write cid cluster (MapStore m) = MapStore (jsmap_set cid cluster m)"
| "cluster_write cid cluster (LruStore c) =
     LruStore (case jsmap_get (slot_map c) cid of
       None \<Rightarrow> c
     | Some slot \<Rightarrow>
         (case update_entry slot (\<lambda>e. e\<lparr>entry_value := cluster\<rparr>) c of Inl _ \<Rightarrow> c | Inr c' \<Rightarrow> c'))"

section \<open>Tokens and similarity\<close>

definition hasNumbers :: "string \<Rightarrow> bool" where
  "hasNumbers s = list_ex (\<lambda>c. 48 \<le> (of_char c :: nat) \<and> (of_char c :: nat) \<le> 57) s"

definition getContentAsTokens :: "string list \<Rightarrow> string \<Rightarrow> string list" where
  "getContentAsTokens delimiters content =
     (let c = foldl (\<lambda>c delimiter. js_split_join_space delimiter c) (js_trim content) delimiters
      in if c = [] then [] else split_space [] c)"

text \<open>The two counters of the loop: equal tokens, and wildcards of the first sequence.\<close>

fun seq_counts :: "string \<Rightarrow> string list \<Rightarrow> string list \<Rightarrow> nat \<times> nat" where
  "seq_counts param (a # as) (b # bs) =
     (let (simTokens, paramCount) = seq_counts param as bs
      in if a = param then (simTokens, paramCount + 1)
         else if a = b then (simTokens + 1, paramCount)
         else (simTokens, paramCount))"
| "seq_counts param _ _ = (0, 0)"

definition getSeqDistance :: "string \<Rightarrow> string list \<Rightarrow> string list \<Rightarrow> bool \<Rightarrow> drain_error + (rat \<times> nat)" where
  "getSeqDistance param seq1 seq2 includeParams =
     (if length seq1 \<noteq> length seq2 then Inl (DrainInvariantError ''seq1 and seq2 must have equal length'')
      else if seq1 = [] then Inr (1, 0)
      else let (simTokens, paramCount) = seq_counts param seq1 seq2;
               simTokens = (if includeParams then simTokens + paramCount else simTokens)
           in Inr (of_nat simTokens / of_nat (length seq1), paramCount))"

definition createTemplate :: "string \<Rightarrow> string list \<Rightarrow> string list \<Rightarrow> drain_error + string list" where
  "createTemplate param seq1 seq2 =
     (if length seq1 \<noteq> length seq2 then Inl (DrainInvariantError ''seq1 and seq2 must have equal length'')
      else Inr (map2 (\<lambda>t1 t2. if t1 = t2 then t2 else param) seq1 seq2))"

section \<open>Searching\<close>

text \<open>The loop carries the best similarity, its wildcard count and its cluster; all start below any value.\<close>

fun fastMatch_loop ::
  "cluster_store \<Rightarrow> string \<Rightarrow> string list \<Rightarrow> bool \<Rightarrow> nat list \<Rightarrow> rat \<times> int \<times> nat option \<Rightarrow>
     drain_error + (rat \<times> int \<times> nat option)" where
  "fastMatch_loop st param tokens includeParams [] best = Inr best"
| "fastMatch_loop st param tokens includeParams (cid # cids) best =
     (case clusterPeek cid st of
        None \<Rightarrow> fastMatch_loop st param tokens includeParams cids best
      | Some cluster \<Rightarrow>
          (case getSeqDistance param (logTemplateTokens cluster) tokens includeParams of
             Inl err \<Rightarrow> Inl err
           | Inr (curSim, paramCount) \<Rightarrow>
               (let (maxSim, maxParamCount, maxClusterId) = best
                in fastMatch_loop st param tokens includeParams cids
                     (if curSim > maxSim \<or> curSim = maxSim \<and> int paramCount > maxParamCount
                      then (curSim, int paramCount, Some cid) else best))))"

definition fastMatch ::
  "cluster_store \<Rightarrow> string \<Rightarrow> nat list \<Rightarrow> string list \<Rightarrow> rat \<Rightarrow> bool \<Rightarrow> drain_error + nat option" where
  "fastMatch st param cids tokens th includeParams =
     (case fastMatch_loop st param tokens includeParams cids (- 1, - 1, None) of
        Inl err \<Rightarrow> Inl err
      | Inr (maxSim, maxParamCount, maxClusterId) \<Rightarrow> Inr (if maxSim \<ge> th then maxClusterId else None))"

fun tree_walk :: "nat \<Rightarrow> nat \<Rightarrow> string \<Rightarrow> nat \<Rightarrow> Node \<Rightarrow> string list \<Rightarrow> Node option" where
  "tree_walk maxd tokenCount param curNodeDepth curNode [] = Some curNode"
| "tree_walk maxd tokenCount param curNodeDepth curNode (token # tokens) =
     (if curNodeDepth \<ge> maxd then Some curNode
      else if curNodeDepth \<ge> tokenCount then Some curNode
      else case jsmap_get (keyToChildNode curNode) token of
             Some child \<Rightarrow> tree_walk maxd tokenCount param (curNodeDepth + 1) child tokens
           | None \<Rightarrow>
               (case jsmap_get (keyToChildNode curNode) param of
                  Some wildcardChild \<Rightarrow> tree_walk maxd tokenCount param (curNodeDepth + 1) wildcardChild tokens
                | None \<Rightarrow> None))"

definition treeSearch :: "Drain \<Rightarrow> string list \<Rightarrow> rat \<Rightarrow> bool \<Rightarrow> drain_error + nat option" where
  "treeSearch d tokens th includeParams =
     (case jsmap_get (keyToChildNode (rootNode d)) (js_String_nat (length tokens)) of
        None \<Rightarrow> Inr None
      | Some firstNode \<Rightarrow>
          if length tokens = 0
          then Inr (case clusterIds firstNode of [] \<Rightarrow> None | firstId # _ \<Rightarrow> Some firstId)
          else case tree_walk (maxNodeDepth d) (length tokens) (paramStr d) 1 firstNode tokens of
                 None \<Rightarrow> Inr None
               | Some curNode \<Rightarrow>
                   fastMatch (store d) (paramStr d) (clusterIds curNode) tokens th includeParams)"

section \<open>Growing the tree\<close>

text \<open>
  \<open>childAt\<close> creates a missing child; here it is the child to continue with, and the caller writes the
  rebuilt child back under the key, which inserts it when it was missing.
\<close>

definition childAt :: "Node \<Rightarrow> string \<Rightarrow> Node" where
  "childAt node k = (case jsmap_get (keyToChildNode node) k of Some existing \<Rightarrow> existing | None \<Rightarrow> new_Node)"

definition set_child :: "Node \<Rightarrow> string \<Rightarrow> Node \<Rightarrow> Node" where
  "set_child node k child = Node (jsmap_set k child (keyToChildNode node)) (clusterIds node)"

definition branch_key :: "nat \<Rightarrow> string \<Rightarrow> bool \<Rightarrow> Node \<Rightarrow> string \<Rightarrow> string" where
  "branch_key children param numeric curNode token =
     (let fanout = length (keyToChildNode curNode)
      in if jsmap_has (keyToChildNode curNode) token then token
         else if numeric \<and> hasNumbers token then param
         else if jsmap_has (keyToChildNode curNode) param
         then (if fanout < children then token else param)
         else if fanout + 1 < children then token
         else param)"

fun add_tokens ::
  "nat \<Rightarrow> nat \<Rightarrow> string \<Rightarrow> bool \<Rightarrow> cluster_store \<Rightarrow> nat \<Rightarrow> nat \<Rightarrow> nat \<Rightarrow> Node \<Rightarrow> string list \<Rightarrow> Node" where
  "add_tokens maxd children param numeric st cid tokenCount currentDepth curNode [] = curNode"
| "add_tokens maxd children param numeric st cid tokenCount currentDepth curNode (token # tokens) =
     (if currentDepth \<ge> maxd \<or> currentDepth \<ge> tokenCount
      then Node (keyToChildNode curNode) (filter (\<lambda>c. clusterContains c st) (clusterIds curNode) @ [cid])
      else let k = branch_key children param numeric curNode token
           in set_child curNode k
                (add_tokens maxd children param numeric st cid tokenCount (currentDepth + 1) (childAt curNode k) tokens))"

definition addSeqToPrefixTree :: "Drain \<Rightarrow> nat \<Rightarrow> string list \<Rightarrow> Drain" where
  "addSeqToPrefixTree d cid templateTokens =
     (let k = js_String_nat (length templateTokens);
          node = childAt (rootNode d) k;
          node = (if length templateTokens = 0 then Node (keyToChildNode node) [cid]
                  else add_tokens (maxNodeDepth d) (maxChildren d) (paramStr d) (parametrizeNumericTokens d)
                         (store d) cid (length templateTokens) 1 node templateTokens)
      in d\<lparr>rootNode := set_child (rootNode d) k node\<rparr>)"

section \<open>Adding a message\<close>

datatype update_type = cluster_created | cluster_template_changed | no_change

definition addLogMessage :: "Drain \<Rightarrow> string \<Rightarrow> drain_error + (LogCluster \<times> update_type \<times> Drain)" where
  "addLogMessage d content =
     (let contentTokens = getContentAsTokens (extraDelimiters d) content
      in case treeSearch d contentTokens (simTh d) False of
           Inl err \<Rightarrow> Inl err
         | Inr matchClusterId \<Rightarrow>
             (case (case matchClusterId of None \<Rightarrow> None | Some cid \<Rightarrow> clusterPeek cid (store d)) of
                None \<Rightarrow>
                  (let cid = clustersCounter d + 1; cluster = new_LogCluster contentTokens cid
                   in case clusterInsert cid cluster (store d) of
                        Inl err \<Rightarrow> Inl err
                      | Inr st \<Rightarrow>
                          Inr (cluster, cluster_created,
                               addSeqToPrefixTree (d\<lparr>clustersCounter := cid, store := st\<rparr>) cid contentTokens))
              | Some existingCluster \<Rightarrow>
                  (case createTemplate (paramStr d) contentTokens (logTemplateTokens existingCluster) of
                     Inl err \<Rightarrow> Inl err
                   | Inr newTemplateTokens \<Rightarrow>
                       (let updateType = (if newTemplateTokens = logTemplateTokens existingCluster
                                          then no_change else cluster_template_changed);
                            grown = existingCluster\<lparr>logTemplateTokens := newTemplateTokens,
                                                    cluster_size := cluster_size existingCluster + 1\<rparr>
                        in case clusterGet (clusterId grown) (cluster_write (the matchClusterId) grown (store d)) of
                             Inl err \<Rightarrow> Inl err
                           | Inr (_, st) \<Rightarrow> Inr (grown, updateType, d\<lparr>store := st\<rparr>)))))"

section \<open>Matching without learning\<close>

fun collectRecursive :: "Node \<Rightarrow> nat list" where
  "collectRecursive (Node children ids) = ids @ concat (map (\<lambda>(k, child). collectRecursive child) children)"

definition getClustersIdsForSeqLen :: "Drain \<Rightarrow> nat \<Rightarrow> nat list" where
  "getClustersIdsForSeqLen d seqLen =
     (case jsmap_get (keyToChildNode (rootNode d)) (js_String_nat seqLen) of
        None \<Rightarrow> []
      | Some node \<Rightarrow> collectRecursive node)"

datatype FullSearchStrategy = always | never | fallback

definition fullSearch :: "Drain \<Rightarrow> string list \<Rightarrow> drain_error + LogCluster option" where
  "fullSearch d contentTokens =
     (case fastMatch (store d) (paramStr d) (getClustersIdsForSeqLen d (length contentTokens)) contentTokens 1 True of
        Inl err \<Rightarrow> Inl err
      | Inr None \<Rightarrow> Inr None
      | Inr (Some matchedId) \<Rightarrow> Inr (clusterPeek matchedId (store d)))"

definition match_message :: "Drain \<Rightarrow> string \<Rightarrow> FullSearchStrategy \<Rightarrow> drain_error + LogCluster option" where
  "match_message d content fullSearchStrategy =
     (let contentTokens = getContentAsTokens (extraDelimiters d) content
      in if fullSearchStrategy = always then fullSearch d contentTokens
         else case treeSearch d contentTokens 1 True of
                Inl err \<Rightarrow> Inl err
              | Inr (Some matchId) \<Rightarrow> Inr (clusterPeek matchId (store d))
              | Inr None \<Rightarrow> if fullSearchStrategy = never then Inr None else fullSearch d contentTokens)"

section \<open>What the miner relies on from its store\<close>

text \<open>
  Both stores keep clusters under ids. Reading for recency does not change what is held; a write to a
  held object changes it alone; an insertion may evict others but never changes them.
\<close>

locale keyed_store =
  fixes ok :: "'s \<Rightarrow> bool"
    and peek :: "nat \<Rightarrow> 's \<Rightarrow> 'v option"
    and has :: "nat \<Rightarrow> 's \<Rightarrow> bool"
    and touch :: "nat \<Rightarrow> 's \<Rightarrow> 'e + ('v option \<times> 's)"
    and insert_at :: "nat \<Rightarrow> 'v \<Rightarrow> 's \<Rightarrow> 'e + 's"
    and write_at :: "nat \<Rightarrow> 'v \<Rightarrow> 's \<Rightarrow> 's"
  assumes has_peek: "ok s \<Longrightarrow> has k s \<longleftrightarrow> peek k s \<noteq> None"
    and touch_law: "ok s \<Longrightarrow> \<exists>s'. touch k s = Inr (peek k s, s') \<and> ok s' \<and> (\<forall>j. peek j s' = peek j s)"
    and insert_law: "ok s \<Longrightarrow> \<exists>s'. insert_at k v s = Inr s' \<and> ok s' \<and> peek k s' = Some v \<and>
      (\<forall>j v'. j \<noteq> k \<longrightarrow> peek j s' = Some v' \<longrightarrow> peek j s = Some v')"
    and write_law: "ok s \<Longrightarrow> peek k s \<noteq> None \<Longrightarrow>
      ok (write_at k v s) \<and> (\<forall>j. peek j (write_at k v s) = (if j = k then Some v else peek j s))"
begin

text \<open>Writing a held object and then touching it, as the miner does for every message it absorbs.\<close>

lemma write_touch:
  assumes "ok s" "peek k s \<noteq> None"
  shows "\<exists>s'. touch k (write_at k v s) = Inr (Some v, s') \<and> ok s' \<and>
    (\<forall>j. peek j s' = (if j = k then Some v else peek j s))"
proof -
  have w: "ok (write_at k v s)" "\<forall>j. peek j (write_at k v s) = (if j = k then Some v else peek j s)"
    using write_law [OF assms] by auto
  then show ?thesis using touch_law [OF w(1), of k] by auto
qed

lemma insert_has:
  assumes "ok s" "insert_at k v s = Inr s'"
  shows "has k s'" "j \<noteq> k \<Longrightarrow> has j s' \<Longrightarrow> has j s"
  using insert_law [OF assms(1), of k v] assms has_peek by fastforce+

end

fun store_ok :: "cluster_store \<Rightarrow> bool" where
  "store_ok (MapStore m) = distinct (map fst m)"
| "store_ok (LruStore c) = (\<exists>xs. represents c xs)"

lemma map_of_without: "map_of (without k l) j = (if j = k then None else map_of l j)"
  by (induction l) (auto simp: without_def)

lemma lru_get_peek:
  assumes "represents c xs"
  shows "\<exists>c' ys. lru_get k c = Inr (lru_peek k c, c') \<and> represents c' ys \<and> (\<forall>j. lru_peek j c' = lru_peek j c)"
proof -
  obtain c' ys where c': "lru_get k c = Inr (fst (spec_get k (recency c xs)), c')" "represents c' ys"
    "recency c' ys = snd (spec_get k (recency c xs))"
    using lru_get_refines [OF assms] by blast
  have d: "distinct (map fst (recency c xs))" by (rule represents_keys [OF assms])
  have "map_of (snd (spec_get k (recency c xs))) j = map_of (recency c xs) j" for j
    by (auto simp: spec_get_def map_of_without split: option.splits)
  moreover have "fst (spec_get k (recency c xs)) = map_of (recency c xs) k"
    by (simp add: spec_get_def split: option.splits)
  ultimately show ?thesis using c' by (auto simp: lru_peek_spec [OF assms] lru_peek_spec [OF c'(2)])
qed

lemma lru_put_peek:
  assumes "represents c xs"
  shows "\<exists>ev c' ys. lru_put k v c = Inr (ev, c') \<and> represents c' ys \<and> lru_peek k c' = Some v \<and>
    (\<forall>j v'. j \<noteq> k \<longrightarrow> lru_peek j c' = Some v' \<longrightarrow> lru_peek j c = Some v')"
proof -
  obtain c' ys where c': "lru_put k v c = Inr (fst (spec_put (capacity c) k v (recency c xs)), c')" "represents c' ys"
    "recency c' ys = snd (spec_put (capacity c) k v (recency c xs))"
    using lru_put_refines [OF assms] by blast
  have d: "distinct (map fst (recency c xs))" by (rule represents_keys [OF assms])
  have "map_of (recency c' ys) j = Some v' \<Longrightarrow> map_of (recency c xs) j = Some v'" if "j \<noteq> k" for j v'
    using that map_of_butlast [OF d] unfolding c'(3) by (auto simp: spec_put_def map_of_without split: if_splits)
  moreover have "map_of (recency c' ys) k = Some v" unfolding c'(3) by (simp add: spec_put_def)
  ultimately show ?thesis using c' by (auto simp: lru_peek_spec [OF assms] lru_peek_spec [OF c'(2)])
qed

lemma map_of_set_value:
  "map_of (map (\<lambda>p. if fst p = k then (k, v) else p) l) j =
     (if j = k \<and> map_of l k \<noteq> None then Some v else map_of l j)"
  by (induction l) auto

lemma cluster_write_lru:
  assumes R: "represents c xs" and p: "lru_peek k c \<noteq> None"
  shows "\<exists>c'. cluster_write k v (LruStore c) = LruStore c' \<and> represents c' xs \<and>
    (\<forall>j. lru_peek j c' = (if j = k then Some v else lru_peek j c))"
proof -
  obtain s where s: "jsmap_get (slot_map c) k = Some s" using p by (auto simp: lru_peek_def split: option.splits)
  obtain c' where c': "update_entry s (\<lambda>e. e\<lparr>entry_value := v\<rparr>) c = Inr c'" "represents c' xs"
    "recency c' xs = map (\<lambda>p. if fst p = k then (k, v) else p) (recency c xs)"
    using set_value_refines [OF R s] by blast
  have "lru_peek j c' = (if j = k then Some v else lru_peek j c)" for j
    using map_of_set_value [where l = "recency c xs" and k = k and v = v and j = j] p
    by (simp add: lru_peek_spec [OF R] lru_peek_spec [OF c'(2)] c'(3))
  then show ?thesis using s c' by auto
qed

interpretation cluster_laws: keyed_store store_ok clusterPeek clusterContains clusterGet clusterInsert cluster_write
proof
  fix s k
  show "store_ok s \<Longrightarrow> clusterContains k s \<longleftrightarrow> clusterPeek k s \<noteq> None"
    by (cases s) (auto simp: lru_has_spec lru_peek_spec)
  show "store_ok s \<Longrightarrow> \<exists>s'. clusterGet k s = Inr (clusterPeek k s, s') \<and> store_ok s' \<and>
      (\<forall>j. clusterPeek j s' = clusterPeek j s)"
  proof (cases s)
    case (LruStore c)
    assume "store_ok s"
    then obtain xs where "represents c xs" using LruStore by auto
    from lru_get_peek [OF this, of k] show ?thesis using LruStore by auto
  qed auto
next
  fix s k v
  show "store_ok s \<Longrightarrow> \<exists>s'. clusterInsert k v s = Inr s' \<and> store_ok s' \<and> clusterPeek k s' = Some v \<and>
      (\<forall>j v'. j \<noteq> k \<longrightarrow> clusterPeek j s' = Some v' \<longrightarrow> clusterPeek j s = Some v')"
  proof (cases s)
    case (LruStore c)
    assume "store_ok s"
    then obtain xs where "represents c xs" using LruStore by auto
    from lru_put_peek [OF this, of k v] show ?thesis using LruStore by auto
  qed (auto simp: update_conv' distinct_update)
next
  fix s k v
  assume "store_ok s" "clusterPeek k s \<noteq> None"
  then show "store_ok (cluster_write k v s) \<and>
      (\<forall>j. clusterPeek j (cluster_write k v s) = (if j = k then Some v else clusterPeek j s))"
  proof (cases s)
    case (LruStore c)
    then obtain xs where "represents c xs" using \<open>store_ok s\<close> by auto
    from cluster_write_lru [OF this, of k v] show ?thesis using LruStore \<open>clusterPeek k s \<noteq> None\<close>
      by (auto simp del: cluster_write.simps)
  qed (auto simp: update_conv' distinct_update)
qed


section \<open>The prefix tree\<close>

text \<open>Keys are distinct at every node, and below the root the fan-out is bounded.\<close>

definition fanout_ok :: "nat \<Rightarrow> string \<Rightarrow> Node \<Rightarrow> bool" where
  "fanout_ok children param node \<longleftrightarrow>
     (if jsmap_has (keyToChildNode node) param then length (keyToChildNode node) \<le> max 1 children
      else length (keyToChildNode node) < max 1 children)"

fun tree_ok :: "nat \<Rightarrow> string \<Rightarrow> Node \<Rightarrow> bool" where
  "tree_ok children param (Node ch ids) \<longleftrightarrow>
     distinct (map fst ch) \<and> fanout_ok children param (Node ch ids) \<and>
     list_all (\<lambda>(k, child). tree_ok children param child) ch"

definition tree_ids :: "Node \<Rightarrow> nat set" where
  "tree_ids node = set (collectRecursive node)"

lemma tree_ids_Node:
  "distinct (map fst ch) \<Longrightarrow> tree_ids (Node ch ids) = set ids \<union> {i. \<exists>k child. map_of ch k = Some child \<and> i \<in> tree_ids child}"
  by (auto simp: tree_ids_def map_of_eq_Some_iff)

lemma tree_ids_new [simp]: "tree_ids new_Node = {}"
  by (simp add: tree_ids_def new_Node_def)

lemma tree_ok_new [simp]: "tree_ok children param new_Node"
  by (simp add: new_Node_def fanout_ok_def)

lemma tree_ok_child:
  assumes "tree_ok children param node" "map_of (keyToChildNode node) k = Some child"
  shows "tree_ok children param child"
  using assms by (cases node) (auto simp: list_all_iff dest!: map_of_SomeD)

lemma tree_ok_childAt: "tree_ok children param node \<Longrightarrow> tree_ok children param (childAt node k)"
  by (auto simp: childAt_def tree_ok_child split: option.splits)

lemma tree_ok_distinct: "tree_ok children param node \<Longrightarrow> distinct (map fst (keyToChildNode node))"
  by (cases node) auto

lemma child_ids: "distinct (map fst (keyToChildNode node)) \<Longrightarrow>
    map_of (keyToChildNode node) k = Some child \<Longrightarrow> tree_ids child \<subseteq> tree_ids node"
  by (cases node) (auto simp: tree_ids_Node)

lemma own_ids: "set (clusterIds node) \<subseteq> tree_ids node"
  by (cases node) (auto simp: tree_ids_def)

lemma tree_ids_set_child:
  assumes "distinct (map fst (keyToChildNode node))"
  shows "tree_ids (set_child node k child) = set (clusterIds node) \<union> tree_ids child \<union>
    {i. \<exists>k' c. k' \<noteq> k \<and> map_of (keyToChildNode node) k' = Some c \<and> i \<in> tree_ids c}"
  using assms by (auto simp: set_child_def tree_ids_Node distinct_update update_conv' split: if_splits)

lemma tree_ids_childAt:
  "tree_ids (childAt node k) = {i. \<exists>c. map_of (keyToChildNode node) k = Some c \<and> i \<in> tree_ids c}"
  by (auto simp: childAt_def split: option.splits)

lemma tree_ids_unfold:
  assumes "distinct (map fst (keyToChildNode node))"
  shows "tree_ids node = set (clusterIds node) \<union> {i. \<exists>k' c. map_of (keyToChildNode node) k' = Some c \<and> i \<in> tree_ids c}"
  using tree_ids_Node [OF assms, of "clusterIds node"] unfolding Node.collapse .

lemma tree_ids_split:
  assumes "distinct (map fst (keyToChildNode node))"
  shows "tree_ids node = set (clusterIds node) \<union> tree_ids (childAt node k) \<union>
    {i. \<exists>k' c. k' \<noteq> k \<and> map_of (keyToChildNode node) k' = Some c \<and> i \<in> tree_ids c}"
proof -
  let ?P = "\<lambda>k' c i. map_of (keyToChildNode node) k' = Some c \<and> i \<in> tree_ids c"
  have "{i. \<exists>k' c. ?P k' c i} = {i. \<exists>c. ?P k c i} \<union> {i. \<exists>k' c. k' \<noteq> k \<and> ?P k' c i}"
  proof (intro set_eqI iffI)
    fix i assume "i \<in> {i. \<exists>k' c. ?P k' c i}"
    then obtain k' c where p: "?P k' c i" by (elim CollectE exE)
    show "i \<in> {i. \<exists>c. ?P k c i} \<union> {i. \<exists>k' c. k' \<noteq> k \<and> ?P k' c i}"
    proof (cases "k' = k")
      case True
      with p show ?thesis by (intro UnI1 CollectI exI [of _ c]) simp
    next
      case False
      with p show ?thesis by (intro UnI2 CollectI exI [of _ k'] exI [of _ c]) simp
    qed
  next
    fix i assume "i \<in> {i. \<exists>c. ?P k c i} \<union> {i. \<exists>k' c. k' \<noteq> k \<and> ?P k' c i}"
    then show "i \<in> {i. \<exists>k' c. ?P k' c i}" 
      by (elim UnE CollectE exE conjE) (rule CollectI, rule exI, rule exI, rule conjI, assumption, assumption)+
  qed
  then show ?thesis
    using tree_ids_unfold [OF assms] tree_ids_childAt [of node k] by (simp only: Un_assoc)
qed

lemma fanout_branch:
  assumes "fanout_ok children param node"
  shows "fanout_ok children param (set_child node (branch_key children param numeric node token) child)"
  using assms
  by (auto simp: fanout_ok_def set_child_def branch_key_def Let_def length_update update_conv' less_max_iff_disj split: if_splits)

lemma tree_ok_set_child:
  assumes "tree_ok children param node" "tree_ok children param child"
    "fanout_ok children param (set_child node k child)"
  shows "tree_ok children param (set_child node k child)"
  using assms
  by (cases node) (auto simp: set_child_def distinct_update list_all_iff set_AList_update)

lemma add_tokens_correct:
  assumes "tree_ok children param node" "length tokens + depth = tokenCount + 1" "1 \<le> depth" "depth \<le> tokenCount"
  shows "tree_ok children param (add_tokens maxd children param numeric st cid tokenCount depth node tokens) \<and>
    cid \<in> tree_ids (add_tokens maxd children param numeric st cid tokenCount depth node tokens) \<and>
    tree_ids (add_tokens maxd children param numeric st cid tokenCount depth node tokens) \<subseteq> insert cid (tree_ids node) \<and>
    {i \<in> tree_ids node. clusterContains i st} \<subseteq>
      tree_ids (add_tokens maxd children param numeric st cid tokenCount depth node tokens)"
  using assms
proof (induction tokens arbitrary: depth node)
  case (Cons token tokens)
  have d: "distinct (map fst (keyToChildNode node))" by (rule tree_ok_distinct [OF Cons.prems(1)])
  show ?case
  proof (cases "depth \<ge> maxd \<or> depth \<ge> tokenCount")
    case True
    then show ?thesis using Cons.prems(1) d
      by (cases node) (auto simp: tree_ids_Node fanout_ok_def)
  next
    case False
    define k where "k = branch_key children param numeric node token"
    define sub where "sub = add_tokens maxd children param numeric st cid tokenCount (depth + 1) (childAt node k) tokens"
    have IH: "tree_ok children param sub" "cid \<in> tree_ids sub" "tree_ids sub \<subseteq> insert cid (tree_ids (childAt node k))"
      "{i \<in> tree_ids (childAt node k). clusterContains i st} \<subseteq> tree_ids sub"
      using Cons.IH [OF tree_ok_childAt [OF Cons.prems(1)], of "depth + 1" k] Cons.prems False by (auto simp: sub_def)
    have eq: "add_tokens maxd children param numeric st cid tokenCount depth node (token # tokens) = set_child node k sub"
      using False by (simp add: Let_def k_def sub_def)
    have "fanout_ok children param node" using Cons.prems(1) by (cases node) simp
    then have "tree_ok children param (set_child node k sub)"
      unfolding k_def by (intro tree_ok_set_child fanout_branch) (use Cons.prems(1) IH(1) k_def in auto)
    then show ?thesis unfolding eq tree_ids_set_child [OF d] tree_ids_split [OF d, of k] using IH by blast
  qed
qed simp

section \<open>Templates and similarity\<close>

text \<open>A template covers a token sequence when every position is the wildcard or the same token.\<close>

definition covers :: "string \<Rightarrow> string list \<Rightarrow> string list \<Rightarrow> bool" where
  "covers param = list_all2 (\<lambda>t s. t = param \<or> t = s)"

definition similarity :: "string \<Rightarrow> string list \<Rightarrow> string list \<Rightarrow> bool \<Rightarrow> rat" where
  "similarity param seq1 seq2 includeParams =
     (if seq1 = [] then 1
      else of_nat (fst (seq_counts param seq1 seq2) + (if includeParams then snd (seq_counts param seq1 seq2) else 0)) /
           of_nat (length seq1))"

lemma getSeqDistance_eq:
  assumes "length seq1 = length seq2"
  shows "\<exists>pc. getSeqDistance param seq1 seq2 inc = Inr (similarity param seq1 seq2 inc, pc)"
  using assms by (auto simp: getSeqDistance_def similarity_def split_beta Let_def)

lemma seq_counts_le: "fst (seq_counts param a b) + snd (seq_counts param a b) \<le> length a"
  by (induction param a b rule: seq_counts.induct) (auto simp: split_beta Let_def)

lemma seq_counts_covers:
  "length a = length b \<Longrightarrow> fst (seq_counts param a b) + snd (seq_counts param a b) = length a \<longleftrightarrow> covers param a b"
proof (induction a b rule: list_induct2)
  case (Cons x xs y ys)
  have "fst (seq_counts param xs ys) + snd (seq_counts param xs ys) \<le> length xs" by (rule seq_counts_le)
  then show ?case using Cons by (auto simp: split_beta Let_def covers_def)
qed (simp add: covers_def)

lemma similarity_nonneg: "0 \<le> similarity param a b inc"
  by (simp add: similarity_def)

lemma similarity_full:
  assumes "length a = length b"
  shows "1 \<le> similarity param a b True \<longleftrightarrow> covers param a b"
proof (cases "a = []")
  case True
  then show ?thesis using assms by (simp add: similarity_def covers_def)
next
  case False
  let ?n = "fst (seq_counts param a b) + snd (seq_counts param a b)"
  have pos: "0 < rat_of_nat (length a)" using False by simp
  have "(1 :: rat) \<le> of_nat ?n / of_nat (length a) \<longleftrightarrow> length a \<le> ?n"
    by (simp only: le_divide_eq_1_pos [OF pos] of_nat_le_iff)
  then show ?thesis
    using False seq_counts_covers [OF assms, of param] seq_counts_le [of param a b]
    by (simp only: similarity_def if_False if_True) auto
qed

lemma covers_refl: "covers param a a"
  by (simp add: covers_def list_all2_refl)

lemma createTemplate_correct:
  assumes "length seq1 = length seq2"
  shows "\<exists>t. createTemplate param seq1 seq2 = Inr t \<and> length t = length seq1 \<and> covers param t seq1 \<and>
    (\<forall>tokens. covers param seq2 tokens \<longrightarrow> covers param t tokens)"
  using assms by (auto simp: createTemplate_def covers_def list_all2_conv_all_nth)

section \<open>Fast matching\<close>

definition same_length :: "cluster_store \<Rightarrow> nat list \<Rightarrow> string list \<Rightarrow> bool" where
  "same_length st cids tokens \<longleftrightarrow>
     (\<forall>cid\<in>set cids. \<forall>c. clusterPeek cid st = Some c \<longrightarrow> length (logTemplateTokens c) = length tokens)"

lemma fastMatch_loop_correct:
  assumes "same_length st cids tokens"
  shows "\<exists>best'. fastMatch_loop st param tokens inc cids best = Inr best' \<and> fst best \<le> fst best' \<and>
    (\<forall>cid\<in>set cids. \<forall>c. clusterPeek cid st = Some c \<longrightarrow>
       similarity param (logTemplateTokens c) tokens inc \<le> fst best') \<and>
    (best' = best \<or> (\<exists>cid\<in>set cids. \<exists>c. clusterPeek cid st = Some c \<and> snd (snd best') = Some cid \<and>
       fst best' = similarity param (logTemplateTokens c) tokens inc))"
  using assms
proof (induction cids arbitrary: best)
  case (Cons cid cids)
  have len: "same_length st cids tokens" using Cons.prems by (simp add: same_length_def)
  show ?case
  proof (cases "clusterPeek cid st")
    case None
    obtain b where b: "fastMatch_loop st param tokens inc cids best = Inr b" "fst best \<le> fst b"
      "\<forall>i\<in>set cids. \<forall>c. clusterPeek i st = Some c \<longrightarrow> similarity param (logTemplateTokens c) tokens inc \<le> fst b"
      "b = best \<or> (\<exists>i\<in>set cids. \<exists>c. clusterPeek i st = Some c \<and> snd (snd b) = Some i \<and>
         fst b = similarity param (logTemplateTokens c) tokens inc)"
      using Cons.IH [OF len] by blast
    then show ?thesis using None by auto
  next
    case (Some c)
    let ?s = "similarity param (logTemplateTokens c) tokens inc"
    obtain pc where pc: "getSeqDistance param (logTemplateTokens c) tokens inc = Inr (?s, pc)"
      using getSeqDistance_eq [of "logTemplateTokens c" tokens param inc] Cons.prems Some
      by (auto simp: same_length_def)
    define best1 where "best1 = (if ?s > fst best \<or> ?s = fst best \<and> int pc > fst (snd best)
      then (?s, int pc, Some cid) else best)"
    have ge: "fst best \<le> fst best1" "?s \<le> fst best1" by (auto simp: best1_def)
    have eq: "fastMatch_loop st param tokens inc (cid # cids) best = fastMatch_loop st param tokens inc cids best1"
      by (simp add: Some pc best1_def split_beta Let_def)
    obtain b where b: "fastMatch_loop st param tokens inc cids best1 = Inr b" "fst best1 \<le> fst b"
      "\<forall>i\<in>set cids. \<forall>c. clusterPeek i st = Some c \<longrightarrow> similarity param (logTemplateTokens c) tokens inc \<le> fst b"
      "b = best1 \<or> (\<exists>i\<in>set cids. \<exists>c. clusterPeek i st = Some c \<and> snd (snd b) = Some i \<and>
         fst b = similarity param (logTemplateTokens c) tokens inc)"
      using Cons.IH [OF len] by blast
    have "b = best \<or> (\<exists>i\<in>set (cid # cids). \<exists>c. clusterPeek i st = Some c \<and> snd (snd b) = Some i \<and>
         fst b = similarity param (logTemplateTokens c) tokens inc)"
      using b(4) Some by (auto simp: best1_def)
    moreover have "fst best \<le> fst b" "?s \<le> fst b" using ge b(2) by linarith+
    ultimately show ?thesis unfolding eq using b(1,3) Some by auto
  qed
qed auto

lemma fastMatch_correct:
  assumes "same_length st cids tokens"
  shows "\<exists>r. fastMatch st param cids tokens th inc = Inr r \<and>
    (\<forall>cid. r = Some cid \<longrightarrow> cid \<in> set cids \<and> (\<exists>c. clusterPeek cid st = Some c \<and>
       th \<le> similarity param (logTemplateTokens c) tokens inc)) \<and>
    (r = None \<longrightarrow> (\<forall>cid\<in>set cids. \<forall>c. clusterPeek cid st = Some c \<longrightarrow>
       similarity param (logTemplateTokens c) tokens inc < th))"
proof -
  obtain b where b: "fastMatch_loop st param tokens inc cids (- 1, - 1, None) = Inr b"
    "\<forall>cid\<in>set cids. \<forall>c. clusterPeek cid st = Some c \<longrightarrow> similarity param (logTemplateTokens c) tokens inc \<le> fst b"
    "b = (- 1, - 1, None) \<or> (\<exists>cid\<in>set cids. \<exists>c. clusterPeek cid st = Some c \<and> snd (snd b) = Some cid \<and>
       fst b = similarity param (logTemplateTokens c) tokens inc)"
    using fastMatch_loop_correct [OF assms, where best = "(- 1, - 1, None)"] by blast
  have fm: "fastMatch st param cids tokens th inc = Inr (if fst b \<ge> th then snd (snd b) else None)"
    using b(1) by (simp add: fastMatch_def split_beta)
  show ?thesis using b(3)
  proof
    assume init: "b = (- 1, - 1, None)"
    have False if "cid \<in> set cids" "clusterPeek cid st = Some c" for cid c
    proof -
      have "similarity param (logTemplateTokens c) tokens inc \<le> - 1" using b(2) that init by simp
      then show False using similarity_nonneg [of param "logTemplateTokens c" tokens inc] by linarith
    qed
    then show ?thesis using fm init by auto
  next
    assume "\<exists>cid\<in>set cids. \<exists>c. clusterPeek cid st = Some c \<and> snd (snd b) = Some cid \<and>
       fst b = similarity param (logTemplateTokens c) tokens inc"
    then obtain cid c where w: "cid \<in> set cids" "clusterPeek cid st = Some c" "snd (snd b) = Some cid"
      "fst b = similarity param (logTemplateTokens c) tokens inc" by blast
    show ?thesis
    proof (cases "fst b \<ge> th")
      case True
      then show ?thesis using fm w by auto
    next
      case False
      then have "\<forall>i\<in>set cids. \<forall>c. clusterPeek i st = Some c \<longrightarrow>
          similarity param (logTemplateTokens c) tokens inc < th"
        using b(2) by (meson le_less_trans not_le)
      then show ?thesis using fm False by auto
    qed
  qed
qed

section \<open>The invariant of the miner\<close>

definition count_node_ok :: "Drain \<Rightarrow> nat \<Rightarrow> Node \<Rightarrow> bool" where
  "count_node_ok d n node \<longleftrightarrow> tree_ok (maxChildren d) (paramStr d) node \<and>
     (\<forall>i\<in>tree_ids node. i \<le> clustersCounter d) \<and>
     (\<forall>i\<in>tree_ids node. \<forall>c. clusterPeek i (store d) = Some c \<longrightarrow> length (logTemplateTokens c) = n) \<and>
     (n = 0 \<longrightarrow> keyToChildNode node = [] \<and> length (clusterIds node) \<le> 1)"

definition drain_inv :: "Drain \<Rightarrow> bool" where
  "drain_inv d \<longleftrightarrow> store_ok (store d) \<and>
     (\<forall>cid c. clusterPeek cid (store d) = Some c \<longrightarrow> clusterId c = cid \<and> cid \<le> clustersCounter d \<and>
        cid \<in> tree_ids (childAt (rootNode d) (js_String_nat (length (logTemplateTokens c))))) \<and>
     distinct (map fst (keyToChildNode (rootNode d))) \<and>
     (\<forall>k node. map_of (keyToChildNode (rootNode d)) k = Some node \<longrightarrow>
        (\<exists>n. k = js_String_nat n \<and> count_node_ok d n node))"

lemma count_node_new [simp]: "count_node_ok d n new_Node"
  by (auto simp: count_node_ok_def) (simp add: new_Node_def)+

lemma drain_inv_count_node:
  assumes "drain_inv d"
  shows "count_node_ok d n (childAt (rootNode d) (js_String_nat n))"
proof (cases "map_of (keyToChildNode (rootNode d)) (js_String_nat n)")
  case None
  then show ?thesis by (simp add: childAt_def)
next
  case (Some node)
  then obtain m where "js_String_nat n = js_String_nat m" "count_node_ok d m node"
    using assms unfolding drain_inv_def by blast
  then show ?thesis using Some by (simp add: childAt_def js_String_nat_inj)
qed

lemma tree_walk_ids:
  "tree_ok children param' node \<Longrightarrow> tree_walk maxd n param depth node tokens = Some node' \<Longrightarrow>
     tree_ids node' \<subseteq> tree_ids node"
proof (induction tokens arbitrary: depth node)
  case (Cons token tokens)
  have "tree_ids child \<subseteq> tree_ids node" "tree_ok children param' child"
    if "map_of (keyToChildNode node) k = Some child" for k child
    using that child_ids [OF tree_ok_distinct [OF Cons.prems(1)]] tree_ok_child [OF Cons.prems(1)] by blast+
  then show ?case
    using Cons.prems(2) Cons.IH by (fastforce split: if_splits option.splits)
qed simp

lemma treeSearch_correct:
  assumes I: "drain_inv d"
  shows "\<exists>r. treeSearch d tokens th inc = Inr r \<and>
    (\<forall>cid c. r = Some cid \<longrightarrow> clusterPeek cid (store d) = Some c \<longrightarrow>
       length (logTemplateTokens c) = length tokens \<and>
       (tokens \<noteq> [] \<longrightarrow> th \<le> similarity (paramStr d) (logTemplateTokens c) tokens inc)) \<and>
    (tokens = [] \<longrightarrow> (case r of None \<Rightarrow> True | Some cid \<Rightarrow> clusterPeek cid (store d) = None) \<longrightarrow>
       (\<forall>cid c. clusterPeek cid (store d) = Some c \<longrightarrow> logTemplateTokens c \<noteq> [])) \<and>
    (tokens \<noteq> [] \<longrightarrow> (\<forall>cid. r = Some cid \<longrightarrow> clusterPeek cid (store d) \<noteq> None))"
proof -
  let ?k = "js_String_nat (length tokens)" and ?node = "childAt (rootNode d) (js_String_nat (length tokens))"
  have ok: "count_node_ok d (length tokens) ?node" by (rule drain_inv_count_node [OF I])
  have live: "cid \<in> tree_ids ?node" if "clusterPeek cid (store d) = Some c" "length (logTemplateTokens c) = length tokens" for cid c
    using I that unfolding drain_inv_def by metis
  show ?thesis
  proof (cases "map_of (keyToChildNode (rootNode d)) ?k")
    case None
    then have "?node = new_Node" by (simp add: childAt_def)
    then show ?thesis using None live by (auto simp: treeSearch_def)
  next
    case (Some node)
    then have n: "?node = node" by (simp add: childAt_def)
    show ?thesis
    proof (cases "tokens = []")
      case True
      have ids: "keyToChildNode node = []" "length (clusterIds node) \<le> 1" using ok True n by (auto simp: count_node_ok_def)
      then have ti: "tree_ids node = set (clusterIds node)" by (cases node) (auto simp: tree_ids_def)
      have len: "length (logTemplateTokens c) = 0" if "i \<in> tree_ids node" "clusterPeek i (store d) = Some c" for i c
        using ok that True unfolding n count_node_ok_def by auto
      show ?thesis
      proof (cases "clusterIds node")
        case Nil
        then show ?thesis using True Some live ti n by (auto simp: treeSearch_def)
      next
        case (Cons i js)
        then have "clusterIds node = [i]" using ids by simp
        then show ?thesis using True Some live ti n len [of i] by (auto simp: treeSearch_def)
      qed
    next
      case False
      show ?thesis
      proof (cases "tree_walk (maxNodeDepth d) (length tokens) (paramStr d) 1 node tokens")
        case None
        then show ?thesis using False Some by (simp add: treeSearch_def)
      next
        case (Some node')
        have tok: "tree_ok (maxChildren d) (paramStr d) node" using ok n by (simp add: count_node_ok_def)
        have sub: "set (clusterIds node') \<subseteq> tree_ids node"
          using tree_walk_ids [OF tok Some] own_ids [of node'] by blast
        have len: "same_length (store d) (clusterIds node') tokens"
          using ok sub unfolding n count_node_ok_def same_length_def by blast
        obtain r where r: "fastMatch (store d) (paramStr d) (clusterIds node') tokens th inc = Inr r"
          "\<forall>cid. r = Some cid \<longrightarrow> cid \<in> set (clusterIds node') \<and> (\<exists>c. clusterPeek cid (store d) = Some c \<and>
             th \<le> similarity (paramStr d) (logTemplateTokens c) tokens inc)"
          using fastMatch_correct [OF len, where th = th and inc = inc and param = "paramStr d"] by blast
        then show ?thesis using False Some \<open>map_of _ ?k = Some node\<close> len
          by (auto simp: treeSearch_def same_length_def)
      qed
    qed
  qed
qed

section \<open>Adding a message\<close>

lemma childAt_set_child: "childAt (set_child node k child) k' = (if k' = k then child else childAt node k')"
  by (simp add: childAt_def set_child_def update_conv')

text \<open>The subtree for the length of the message after the new cluster is filed in it.\<close>

definition filed_node :: "Drain \<Rightarrow> nat \<Rightarrow> string list \<Rightarrow> Node" where
  "filed_node d cid tokens = childAt (rootNode (addSeqToPrefixTree d cid tokens)) (js_String_nat (length tokens))"

lemma addSeq_fields:
  "store (addSeqToPrefixTree d cid tokens) = store d" "clustersCounter (addSeqToPrefixTree d cid tokens) = clustersCounter d"
  "maxChildren (addSeqToPrefixTree d cid tokens) = maxChildren d" "paramStr (addSeqToPrefixTree d cid tokens) = paramStr d"
  "simTh (addSeqToPrefixTree d cid tokens) = simTh d" "extraDelimiters (addSeqToPrefixTree d cid tokens) = extraDelimiters d"
  "rootNode (addSeqToPrefixTree d cid tokens) = set_child (rootNode d) (js_String_nat (length tokens)) (filed_node d cid tokens)"
  by (simp_all add: addSeqToPrefixTree_def Let_def filed_node_def childAt_set_child)

lemma filed_node_correct:
  assumes "tree_ok (maxChildren d) (paramStr d) (childAt (rootNode d) (js_String_nat (length tokens)))"
    and "tokens = [] \<Longrightarrow> keyToChildNode (childAt (rootNode d) (js_String_nat (length tokens))) = []"
  shows "tree_ok (maxChildren d) (paramStr d) (filed_node d cid tokens)" "cid \<in> tree_ids (filed_node d cid tokens)"
    "tree_ids (filed_node d cid tokens) \<subseteq> insert cid (tree_ids (childAt (rootNode d) (js_String_nat (length tokens))))"
    "tokens \<noteq> [] \<Longrightarrow> {i \<in> tree_ids (childAt (rootNode d) (js_String_nat (length tokens))). clusterContains i (store d)} \<subseteq> tree_ids (filed_node d cid tokens)"
    "tokens = [] \<Longrightarrow> keyToChildNode (filed_node d cid tokens) = [] \<and> length (clusterIds (filed_node d cid tokens)) \<le> 1"
proof -
  let ?node = "childAt (rootNode d) (js_String_nat (length tokens))"
  have eq: "filed_node d cid tokens =
    (if tokens = [] then Node (keyToChildNode ?node) [cid]
     else add_tokens (maxNodeDepth d) (maxChildren d) (paramStr d) (parametrizeNumericTokens d) (store d) cid
            (length tokens) 1 ?node tokens)"
    by (simp add: filed_node_def addSeqToPrefixTree_def Let_def childAt_set_child)
  have "tree_ok (maxChildren d) (paramStr d) (filed_node d cid tokens) \<and> cid \<in> tree_ids (filed_node d cid tokens) \<and>
    tree_ids (filed_node d cid tokens) \<subseteq> insert cid (tree_ids ?node) \<and>
    (tokens \<noteq> [] \<longrightarrow> {i \<in> tree_ids ?node. clusterContains i (store d)} \<subseteq> tree_ids (filed_node d cid tokens)) \<and>
    (tokens = [] \<longrightarrow> keyToChildNode (filed_node d cid tokens) = [] \<and> length (clusterIds (filed_node d cid tokens)) \<le> 1)"
  proof (cases "tokens = []")
    case True
    have "filed_node d cid tokens = Node [] [cid]" using eq assms(2) [OF True] True by simp
    then show ?thesis using True by (simp add: tree_ids_def fanout_ok_def)
  next
    case False
    have n: "length tokens + 1 = length tokens + 1" "1 \<le> (1 :: nat)" "1 \<le> length tokens" using False by (auto simp: Suc_le_eq)
    show ?thesis using add_tokens_correct [OF assms(1) n, where maxd = "maxNodeDepth d" and
        numeric = "parametrizeNumericTokens d" and st = "store d" and cid = cid] False eq by simp
  qed
  then show "tree_ok (maxChildren d) (paramStr d) (filed_node d cid tokens)" "cid \<in> tree_ids (filed_node d cid tokens)"
    "tree_ids (filed_node d cid tokens) \<subseteq> insert cid (tree_ids ?node)"
    "tokens \<noteq> [] \<Longrightarrow> {i \<in> tree_ids ?node. clusterContains i (store d)} \<subseteq> tree_ids (filed_node d cid tokens)"
    "tokens = [] \<Longrightarrow> keyToChildNode (filed_node d cid tokens) = [] \<and> length (clusterIds (filed_node d cid tokens)) \<le> 1"
    by blast+
qed

lemma create_inv:
  assumes I: "drain_inv d" and st: "clusterInsert (clustersCounter d + 1) (new_LogCluster tokens (clustersCounter d + 1)) (store d) = Inr st"
    and empty: "tokens = [] \<Longrightarrow> \<forall>cid c. clusterPeek cid (store d) = Some c \<longrightarrow> logTemplateTokens c \<noteq> []"
  shows "drain_inv (addSeqToPrefixTree (d\<lparr>clustersCounter := clustersCounter d + 1, store := st\<rparr>) (clustersCounter d + 1) tokens)"
    (is "drain_inv (addSeqToPrefixTree ?d ?cid tokens)")
proof -
  let ?new = "new_LogCluster tokens ?cid" and ?k = "js_String_nat (length tokens)"
  let ?node = "childAt (rootNode d) ?k" and ?node' = "filed_node ?d ?cid tokens"
  have ins: "store_ok st" "clusterPeek ?cid st = Some ?new"
    "\<And>j c. j \<noteq> ?cid \<Longrightarrow> clusterPeek j st = Some c \<Longrightarrow> clusterPeek j (store d) = Some c"
    using cluster_laws.insert_law [of "store d" ?cid ?new] I st by (auto simp: drain_inv_def)
  have cn: "count_node_ok d (length tokens) ?node" by (rule drain_inv_count_node [OF I])
  have f: "tree_ok (maxChildren d) (paramStr d) ?node'" "?cid \<in> tree_ids ?node'"
    "tree_ids ?node' \<subseteq> insert ?cid (tree_ids ?node)"
    "tokens \<noteq> [] \<Longrightarrow> {i \<in> tree_ids ?node. clusterContains i st} \<subseteq> tree_ids ?node'"
    "tokens = [] \<Longrightarrow> keyToChildNode ?node' = [] \<and> length (clusterIds ?node') \<le> 1"
    using filed_node_correct [of ?d tokens ?cid] cn by (auto simp: count_node_ok_def)
  let ?d' = "addSeqToPrefixTree ?d ?cid tokens"
  have d': "store ?d' = st" "clustersCounter ?d' = ?cid" "maxChildren ?d' = maxChildren d" "paramStr ?d' = paramStr d"
    "rootNode ?d' = set_child (rootNode d) ?k ?node'"
    by (simp_all add: addSeq_fields)
  have here: "count_node_ok ?d' (length tokens) ?node'"
  proof -
    have "length (logTemplateTokens c) = length tokens" if i: "i \<in> tree_ids ?node'" "clusterPeek i st = Some c" for i c
    proof (cases "i = ?cid")
      case True
      then show ?thesis using ins(2) i by (auto simp: new_LogCluster_def)
    next
      case False
      then have "i \<in> tree_ids ?node" "clusterPeek i (store d) = Some c" using f(3) i ins(3) by auto
      then show ?thesis using cn unfolding count_node_ok_def by blast
    qed
    moreover have "i \<le> ?cid" if "i \<in> tree_ids ?node'" for i
      using f(3) cn that unfolding count_node_ok_def by fastforce
    ultimately show ?thesis using f(1,5) unfolding count_node_ok_def d' by simp
  qed
  have there: "count_node_ok ?d' n node" if "count_node_ok d n node" for n node
  proof -
    have "i \<le> clustersCounter d" if "i \<in> tree_ids node" for i
      using \<open>count_node_ok d n node\<close> that unfolding count_node_ok_def by blast
    then have "i \<le> ?cid" "clusterPeek i st = Some c \<Longrightarrow> clusterPeek i (store d) = Some c" if "i \<in> tree_ids node" for i c
      using that ins(3) [of i c] by fastforce+
    then show ?thesis using \<open>count_node_ok d n node\<close> unfolding count_node_ok_def d' by blast
  qed
  have nodes: "\<exists>n. k = js_String_nat n \<and> count_node_ok ?d' n node"
    if m: "map_of (keyToChildNode (rootNode ?d')) k = Some node" for k node
  proof (cases "k = ?k")
    case True
    then have "node = ?node'" using m unfolding d'(5) by (simp add: set_child_def update_conv')
    then show ?thesis using here True by blast
  next
    case False
    then have "map_of (keyToChildNode (rootNode d)) k = Some node"
      using m unfolding d'(5) by (simp add: set_child_def update_conv')
    then show ?thesis using I there unfolding drain_inv_def by blast
  qed
  have "clusterId c = j \<and> j \<le> ?cid \<and> j \<in> tree_ids (childAt (rootNode ?d') (js_String_nat (length (logTemplateTokens c))))"
    if p: "clusterPeek j st = Some c" for j c
  proof (cases "j = ?cid")
    case True
    then show ?thesis using p ins(2) f(2) unfolding d'(5) childAt_set_child by (auto simp: new_LogCluster_def)
  next
    case False
    then have old: "clusterPeek j (store d) = Some c" using p ins(3) by blast
    then have o: "clusterId c = j" "j \<le> clustersCounter d"
      "j \<in> tree_ids (childAt (rootNode d) (js_String_nat (length (logTemplateTokens c))))"
      using I unfolding drain_inv_def by blast+
    have "clusterContains j st" using cluster_laws.has_peek [OF ins(1)] p by simp
    then have "j \<in> tree_ids ?node'" if "length (logTemplateTokens c) = length tokens"
      using f(4) o(3) that empty old by (cases "tokens = []") auto
    then show ?thesis using o unfolding d'(5) childAt_set_child by (auto simp: js_String_nat_inj)
  qed
  moreover have "distinct (map fst (keyToChildNode (rootNode ?d')))"
    using I unfolding d'(5) by (simp add: set_child_def distinct_update drain_inv_def)
  ultimately show ?thesis unfolding drain_inv_def d'(1,2) using ins(1) nodes by blast
qed

lemma grow_inv:
  assumes I: "drain_inv d" and p: "clusterPeek cid (store d) = Some old"
    and s: "store_ok st" "\<forall>j. clusterPeek j st = (if j = cid then Some new else clusterPeek j (store d))"
    and new: "clusterId new = cid" "length (logTemplateTokens new) = length (logTemplateTokens old)"
  shows "drain_inv (d\<lparr>store := st\<rparr>)"
proof -
  have "count_node_ok (d\<lparr>store := st\<rparr>) n node" if "count_node_ok d n node" for n node
    using that p s(2) new(2) unfolding count_node_ok_def by (auto split: if_splits)
  then have "\<exists>n. k = js_String_nat n \<and> count_node_ok (d\<lparr>store := st\<rparr>) n node"
    if "map_of (keyToChildNode (rootNode d)) k = Some node" for k node
    using I that unfolding drain_inv_def by blast
  moreover have "clusterId c = j \<and> j \<le> clustersCounter d \<and>
      j \<in> tree_ids (childAt (rootNode d) (js_String_nat (length (logTemplateTokens c))))"
    if "clusterPeek j st = Some c" for j c
  proof (cases "j = cid")
    case True
    then have "c = new" using that s(2) by simp
    then show ?thesis using I p new True unfolding drain_inv_def by metis
  next
    case False
    then show ?thesis using I that s(2) unfolding drain_inv_def by auto
  qed
  ultimately show ?thesis using I s(1) unfolding drain_inv_def by simp
qed


text \<open>Everything of the miner that adding a message never changes.\<close>

definition same_settings :: "Drain \<Rightarrow> Drain \<Rightarrow> bool" where
  "same_settings d d' \<longleftrightarrow> maxNodeDepth d' = maxNodeDepth d \<and> simTh d' = simTh d \<and> maxChildren d' = maxChildren d \<and>
     extraDelimiters d' = extraDelimiters d \<and> paramStr d' = paramStr d \<and>
     parametrizeNumericTokens d' = parametrizeNumericTokens d"

text \<open>
  What the call does with the message: it opens a cluster of its own under a fresh id, or it joins an
  old cluster, whose template is widened just enough to cover it.
\<close>

definition absorbed :: "Drain \<Rightarrow> string list \<Rightarrow> LogCluster \<Rightarrow> update_type \<Rightarrow> Drain \<Rightarrow> bool" where
  "absorbed d tokens cluster u d' \<longleftrightarrow>
     clusterPeek (clusterId cluster) (store d') = Some cluster \<and>
     covers (paramStr d) (logTemplateTokens cluster) tokens \<and>
     (case u of
        cluster_created \<Rightarrow> logTemplateTokens cluster = tokens \<and> cluster_size cluster = 1 \<and>
          clusterId cluster = clustersCounter d + 1 \<and> clusterPeek (clusterId cluster) (store d) = None
      | _ \<Rightarrow> (\<exists>old. clusterPeek (clusterId cluster) (store d) = Some old \<and>
          cluster_size cluster = cluster_size old + 1 \<and>
          (u = no_change \<longleftrightarrow> logTemplateTokens cluster = logTemplateTokens old) \<and>
          (tokens \<noteq> [] \<longrightarrow> simTh d \<le> similarity (paramStr d) (logTemplateTokens old) tokens False) \<and>
          (\<forall>other. covers (paramStr d) (logTemplateTokens old) other \<longrightarrow>
             covers (paramStr d) (logTemplateTokens cluster) other)))"

lemma addSeq_settings: "same_settings d (addSeqToPrefixTree d cid tokens)"
  by (simp add: same_settings_def addSeqToPrefixTree_def Let_def)

lemma fresh_id: "drain_inv d \<Longrightarrow> clusterPeek (clustersCounter d + 1) (store d) = None"
  unfolding drain_inv_def by (metis Suc_eq_plus1 not_less_eq_eq option.exhaust order_refl)

lemma addLogMessage_new:
  assumes I: "drain_inv d" and tokens: "tokens = getContentAsTokens (extraDelimiters d) content"
    and r: "treeSearch d tokens (simTh d) False = Inr r"
    and none: "(case r of None \<Rightarrow> None | Some cid \<Rightarrow> clusterPeek cid (store d)) = None"
    and empty: "tokens = [] \<Longrightarrow> \<forall>cid c. clusterPeek cid (store d) = Some c \<longrightarrow> logTemplateTokens c \<noteq> []"
  shows "\<exists>cluster d'. addLogMessage d content = Inr (cluster, cluster_created, d') \<and> drain_inv d' \<and>
    same_settings d d' \<and> absorbed d tokens cluster cluster_created d' \<and>
    clusterInsert (clusterId cluster) cluster (store d) = Inr (store d')"
proof -
  let ?cid = "clustersCounter d + 1" and ?new = "new_LogCluster tokens (clustersCounter d + 1)"
  obtain st where st: "clusterInsert ?cid ?new (store d) = Inr st" "clusterPeek ?cid st = Some ?new"
    using cluster_laws.insert_law [of "store d" ?cid ?new] I by (auto simp: drain_inv_def)
  let ?d = "d\<lparr>clustersCounter := ?cid, store := st\<rparr>"
  let ?d' = "addSeqToPrefixTree ?d ?cid tokens"
  have "same_settings d ?d'" using addSeq_settings [of ?d ?cid tokens] by (simp add: same_settings_def)
  moreover have "absorbed d tokens ?new cluster_created ?d'"
    using st(2) fresh_id [OF I] by (simp add: absorbed_def new_LogCluster_def addSeq_fields covers_refl)
  moreover have "addLogMessage d content = Inr (?new, cluster_created, ?d')"
    using r none st(1) by (simp add: addLogMessage_def Let_def tokens [symmetric])
  moreover have "clusterInsert (clusterId ?new) ?new (store d) = Inr (store ?d')"
    using st(1) by (simp add: addSeq_fields new_LogCluster_def)
  ultimately show ?thesis using create_inv [OF I st(1) empty] by blast
qed

lemma addLogMessage_old:
  assumes I: "drain_inv d" and tokens: "tokens = getContentAsTokens (extraDelimiters d) content"
    and r: "treeSearch d tokens (simTh d) False = Inr (Some cid)" and p: "clusterPeek cid (store d) = Some old"
    and len: "length (logTemplateTokens old) = length tokens"
    and sim: "tokens \<noteq> [] \<Longrightarrow> simTh d \<le> similarity (paramStr d) (logTemplateTokens old) tokens False"
  shows "\<exists>cluster u st. addLogMessage d content = Inr (cluster, u, d\<lparr>store := st\<rparr>) \<and> drain_inv (d\<lparr>store := st\<rparr>) \<and>
    u \<noteq> cluster_created \<and> absorbed d tokens cluster u (d\<lparr>store := st\<rparr>) \<and>
    (\<forall>j. clusterPeek j st = (if j = clusterId cluster then Some cluster else clusterPeek j (store d))) \<and>
    clusterGet (clusterId cluster) (cluster_write (clusterId cluster) cluster (store d)) = Inr (Some cluster, st)"
proof -
  obtain t where t: "createTemplate (paramStr d) tokens (logTemplateTokens old) = Inr t" "length t = length tokens"
    "covers (paramStr d) t tokens" "\<forall>other. covers (paramStr d) (logTemplateTokens old) other \<longrightarrow> covers (paramStr d) t other"
    using createTemplate_correct [of tokens "logTemplateTokens old" "paramStr d"] len by auto
  define grown where "grown = old\<lparr>logTemplateTokens := t, cluster_size := cluster_size old + 1\<rparr>"
  define u where "u = (if t = logTemplateTokens old then no_change else cluster_template_changed)"
  have cid: "clusterId old = cid" "store_ok (store d)" using I p unfolding drain_inv_def by blast+
  then have g: "clusterId grown = cid" "logTemplateTokens grown = t" "cluster_size grown = cluster_size old + 1"
    by (simp_all add: grown_def)
  obtain st where st: "clusterGet cid (cluster_write cid grown (store d)) = Inr (Some grown, st)" "store_ok st"
    "\<forall>j. clusterPeek j st = (if j = cid then Some grown else clusterPeek j (store d))"
    using cluster_laws.write_touch [OF cid(2), of cid grown] p by auto
  have "addLogMessage d content = Inr (grown, u, d\<lparr>store := st\<rparr>)"
    using r p t(1) st(1) g by (simp add: addLogMessage_def Let_def tokens [symmetric] grown_def u_def)
  moreover have "drain_inv (d\<lparr>store := st\<rparr>)"
    using grow_inv [OF I p st(2,3)] g t(2) len by simp
  moreover have "absorbed d tokens grown u (d\<lparr>store := st\<rparr>)"
    using st(3) t p g sim by (auto simp: absorbed_def u_def)
  moreover have "u \<noteq> cluster_created" by (simp add: u_def)
  ultimately show ?thesis using st g by metis
qed

lemma addLogMessage_correct:
  assumes I: "drain_inv d"
  shows "\<exists>cluster u d'. addLogMessage d content = Inr (cluster, u, d') \<and> drain_inv d' \<and> same_settings d d' \<and>
    absorbed d (getContentAsTokens (extraDelimiters d) content) cluster u d'"
proof -
  define tokens where "tokens = getContentAsTokens (extraDelimiters d) content"
  obtain r where r: "treeSearch d tokens (simTh d) False = Inr r"
    "\<forall>cid c. r = Some cid \<longrightarrow> clusterPeek cid (store d) = Some c \<longrightarrow> length (logTemplateTokens c) = length tokens \<and>
       (tokens \<noteq> [] \<longrightarrow> simTh d \<le> similarity (paramStr d) (logTemplateTokens c) tokens False)"
    "tokens = [] \<longrightarrow> (case r of None \<Rightarrow> True | Some cid \<Rightarrow> clusterPeek cid (store d) = None) \<longrightarrow>
       (\<forall>cid c. clusterPeek cid (store d) = Some c \<longrightarrow> logTemplateTokens c \<noteq> [])"
    using treeSearch_correct [OF I] by blast
  show ?thesis
  proof (cases "case r of None \<Rightarrow> None | Some cid \<Rightarrow> clusterPeek cid (store d)")
    case None
    have "tokens = [] \<Longrightarrow> \<forall>cid c. clusterPeek cid (store d) = Some c \<longrightarrow> logTemplateTokens c \<noteq> []"
      using r(3) None by (auto split: option.splits)
    from addLogMessage_new [OF I tokens_def r(1) None this] show ?thesis by (auto simp: tokens_def)
  next
    case (Some old)
    then obtain cid where cid: "r = Some cid" "clusterPeek cid (store d) = Some old" by (auto split: option.splits)
    have "\<exists>cluster u st. addLogMessage d content = Inr (cluster, u, d\<lparr>store := st\<rparr>) \<and> drain_inv (d\<lparr>store := st\<rparr>) \<and>
      absorbed d tokens cluster u (d\<lparr>store := st\<rparr>)"
      using addLogMessage_old [OF I tokens_def _ cid(2)] r(1,2) cid by blast
    then show ?thesis by (auto simp: tokens_def same_settings_def)
  qed
qed

section \<open>Matching\<close>

lemma fullSearch_correct:
  assumes I: "drain_inv d"
  shows "\<exists>r. fullSearch d tokens = Inr r \<and> (\<forall>c. r = Some c \<longrightarrow> covers (paramStr d) (logTemplateTokens c) tokens \<and>
      clusterPeek (clusterId c) (store d) = Some c) \<and>
    (r = None \<longrightarrow> (\<forall>cid c. clusterPeek cid (store d) = Some c \<longrightarrow> \<not> covers (paramStr d) (logTemplateTokens c) tokens))"
proof -
  let ?node = "childAt (rootNode d) (js_String_nat (length tokens))"
  let ?ids = "getClustersIdsForSeqLen d (length tokens)"
  have ids: "set ?ids = tree_ids ?node"
    by (auto simp: getClustersIdsForSeqLen_def childAt_def tree_ids_def new_Node_def split: option.splits)
  have "count_node_ok d (length tokens) ?node" by (rule drain_inv_count_node [OF I])
  then have len: "same_length (store d) ?ids tokens" unfolding same_length_def ids count_node_ok_def by blast
  obtain m where m: "fastMatch (store d) (paramStr d) ?ids tokens 1 True = Inr m"
    "\<forall>cid. m = Some cid \<longrightarrow> cid \<in> set ?ids \<and> (\<exists>c. clusterPeek cid (store d) = Some c \<and>
       1 \<le> similarity (paramStr d) (logTemplateTokens c) tokens True)"
    "m = None \<longrightarrow> (\<forall>cid\<in>set ?ids. \<forall>c. clusterPeek cid (store d) = Some c \<longrightarrow>
       similarity (paramStr d) (logTemplateTokens c) tokens True < 1)"
    using fastMatch_correct [OF len, where th = 1 and inc = True and param = "paramStr d"] by blast
  show ?thesis
  proof (cases m)
    case None
    have "\<not> covers (paramStr d) (logTemplateTokens c) tokens" if p: "clusterPeek cid (store d) = Some c" for cid c
    proof
      assume cov: "covers (paramStr d) (logTemplateTokens c) tokens"
      then have l: "length (logTemplateTokens c) = length tokens" by (auto simp: covers_def dest: list_all2_lengthD)
      then have "cid \<in> set ?ids" using I p unfolding ids drain_inv_def by metis
      then show False using m(3) None p similarity_full [OF l, of "paramStr d"] cov by (meson not_le)
    qed
    then show ?thesis using m(1) None by (simp add: fullSearch_def)
  next
    case (Some cid)
    then obtain c where c: "cid \<in> set ?ids" "clusterPeek cid (store d) = Some c"
      "1 \<le> similarity (paramStr d) (logTemplateTokens c) tokens True" using m(2) by blast
    have "length (logTemplateTokens c) = length tokens" using len c by (simp add: same_length_def)
    then have "covers (paramStr d) (logTemplateTokens c) tokens" using similarity_full c(3) by blast
    moreover have "clusterId c = cid" using I c(2) unfolding drain_inv_def by blast
    ultimately show ?thesis using m(1) Some c by (simp add: fullSearch_def)
  qed
qed

section \<open>Runs of the miner\<close>

fun drain_run :: "string list \<Rightarrow> Drain \<Rightarrow> drain_error + Drain" where
  "drain_run [] d = Inr d"
| "drain_run (m # ms) d = (case addLogMessage d m of Inl err \<Rightarrow> Inl err | Inr (_, _, d) \<Rightarrow> drain_run ms d)"

definition mine :: "nat \<Rightarrow> rat \<Rightarrow> nat \<Rightarrow> nat option \<Rightarrow> string list \<Rightarrow> string \<Rightarrow> bool \<Rightarrow> string list \<Rightarrow> drain_error + Drain" where
  "mine depth sim children clusterLimit delimiters param numeric messages =
     (case new_Drain depth sim children clusterLimit delimiters param numeric of
        Inl err \<Rightarrow> Inl err
      | Inr d \<Rightarrow> drain_run messages d)"

lemma drain_inv_new:
  assumes "new_Drain depth sim children limit delimiters param numeric = Inr d"
  shows "drain_inv d"
proof -
  have new: "\<exists>xs. represents (lru_new cap) xs" "lru_peek cid (lru_new cap) = None" for cap cid
    using represents_new by (auto simp: lru_peek_def lru_new_def)
  have "store_ok (store d)" "rootNode d = new_Node" "clusterPeek cid (store d) = None" for cid
    using assms new by (auto simp: new_Drain_def split: if_splits option.splits)
  then show ?thesis by (simp add: drain_inv_def new_Node_def)
qed

lemma drain_run_inv:
  "drain_inv d \<Longrightarrow> \<exists>d'. drain_run ms d = Inr d' \<and> drain_inv d' \<and> same_settings d d'"
proof (induction ms arbitrary: d)
  case (Cons m ms)
  obtain c u d1 where d1: "addLogMessage d m = Inr (c, u, d1)" "drain_inv d1" "same_settings d d1"
    using addLogMessage_correct [OF Cons.prems] by blast
  obtain d2 where "drain_run ms d1 = Inr d2" "drain_inv d2" "same_settings d1 d2" using Cons.IH [OF d1(2)] by blast
  then show ?case using d1 by (auto simp: same_settings_def)
qed (simp add: same_settings_def)

lemma drain_run_append:
  "drain_run (ms @ ns) d = (case drain_run ms d of Inl err \<Rightarrow> Inl err | Inr d \<Rightarrow> drain_run ns d)"
  by (induction ms arbitrary: d) (auto split: sum.splits prod.splits)

subsection \<open>Bounded stores and sizes\<close>







subsection \<open>Fan-out\<close>



definition sample_log :: "string list" where
  "sample_log = [''user 17 logged in'', ''user 42 logged in'', ''disk full'']"



text \<open>
  After any history, adding a message returns the cluster the store then holds, whose template
  covers the message. A new cluster has a fresh id and the message itself as its template; an old one
  was similar enough, grows by one, and its template still covers everything it covered before.
\<close>

theorem drain_absorbs_message:
  assumes "mine depth sim children limit delimiters param numeric messages = Inr d"
  shows "\<exists>cluster u d'. addLogMessage d content = Inr (cluster, u, d') \<and>
    absorbed d (getContentAsTokens (extraDelimiters d) content) cluster u d'"
proof -
  obtain d0 where d0: "new_Drain depth sim children limit delimiters param numeric = Inr d0" "drain_run messages d0 = Inr d"
    using assms by (auto simp: mine_def split: sum.splits)
  have "drain_inv d" using drain_run_inv [OF drain_inv_new [OF d0(1)], of messages] d0(2) by auto
  then show ?thesis using addLogMessage_correct by blast
qed

theorem drain_absorbs_message_witness:
  "\<exists>d. mine 4 (2 / 5) 100 None [] ''<*>'' True sample_log = Inr d \<and>
    (\<exists>cluster u d'. addLogMessage d ''user 9 logged in'' = Inr (cluster, u, d') \<and>
       absorbed d (getContentAsTokens (extraDelimiters d) ''user 9 logged in'') cluster u d')"
proof -
  have "\<not> isl (mine 4 (2 / 5) 100 None [] ''<*>'' True sample_log)" by code_simp
  then obtain d where d: "mine 4 (2 / 5) 100 None [] ''<*>'' True sample_log = Inr d"
    by (cases "mine 4 (2 / 5) 100 None [] ''<*>'' True sample_log") auto
  from drain_absorbs_message [OF d] show ?thesis using d by blast
qed

lemma match_after_add:
  assumes I: "drain_inv d" and live: "clusterPeek cid (store d) = Some c"
    "covers (paramStr d) (logTemplateTokens c) (getContentAsTokens (extraDelimiters d) content)"
    and s: "strategy \<noteq> never"
  shows "\<exists>m. match_message d content strategy = Inr (Some m) \<and>
    covers (paramStr d) (logTemplateTokens m) (getContentAsTokens (extraDelimiters d) content)"
proof -
  define tokens where "tokens = getContentAsTokens (extraDelimiters d) content"
  obtain m where m: "fullSearch d tokens = Inr (Some m)" "covers (paramStr d) (logTemplateTokens m) tokens"
    using fullSearch_correct [OF I, of tokens] live by (auto simp: tokens_def)
  obtain r where r: "treeSearch d tokens 1 True = Inr r"
    "\<forall>cid c. r = Some cid \<longrightarrow> clusterPeek cid (store d) = Some c \<longrightarrow> length (logTemplateTokens c) = length tokens \<and>
       (tokens \<noteq> [] \<longrightarrow> 1 \<le> similarity (paramStr d) (logTemplateTokens c) tokens True)"
    "tokens = [] \<longrightarrow> (case r of None \<Rightarrow> True | Some cid \<Rightarrow> clusterPeek cid (store d) = None) \<longrightarrow>
       (\<forall>cid c. clusterPeek cid (store d) = Some c \<longrightarrow> logTemplateTokens c \<noteq> [])"
    "tokens \<noteq> [] \<longrightarrow> (\<forall>cid. r = Some cid \<longrightarrow> clusterPeek cid (store d) \<noteq> None)"
    using treeSearch_correct [OF I, of tokens 1 True] by blast
  show ?thesis
  proof (cases "strategy = always \<or> r = None")
    case True
    then show ?thesis using m r(1) s by (cases strategy) (auto simp: match_message_def tokens_def)
  next
    case False
    then obtain cid' where cid': "r = Some cid'" by auto
    have "tokens = [] \<Longrightarrow> logTemplateTokens c = []" using live(2) by (simp add: covers_def tokens_def)
    then obtain c' where c': "clusterPeek cid' (store d) = Some c'"
      using r(3,4) cid' live(1) by (cases "tokens = []") fastforce+
    have len: "length (logTemplateTokens c') = length tokens" using r(2) cid' c' by blast
    have "covers (paramStr d) (logTemplateTokens c') tokens"
      using r(2) cid' c' similarity_full [OF len, of "paramStr d"] len by (cases "tokens = []") (auto simp: covers_def)
    then show ?thesis using False s r(1) cid' c' by (cases strategy) (auto simp: match_message_def tokens_def)
  qed
qed


text \<open>
  C29. A message that has just been added is found again by a matching call that may search the whole
  subtree: it returns a cluster whose template covers the message.
\<close>

theorem match_finds_added:
  assumes "mine depth sim children limit delimiters param numeric (messages @ [content]) = Inr d" "strategy \<noteq> never"
  shows "\<exists>m. match_message d content strategy = Inr (Some m) \<and>
    covers (paramStr d) (logTemplateTokens m) (getContentAsTokens (extraDelimiters d) content)"
proof -
  obtain d0 where d0: "new_Drain depth sim children limit delimiters param numeric = Inr d0"
    "drain_run (messages @ [content]) d0 = Inr d"
    using assms by (auto simp: mine_def split: sum.splits)
  obtain d1 where d1: "drain_run messages d0 = Inr d1" "drain_inv d1"
    using drain_run_inv [OF drain_inv_new [OF d0(1)]] by blast
  obtain c u d2 where d2: "addLogMessage d1 content = Inr (c, u, d2)" "drain_inv d2" "same_settings d1 d2"
    "absorbed d1 (getContentAsTokens (extraDelimiters d1) content) c u d2"
    using addLogMessage_correct [OF d1(2)] by blast
  have "d = d2" using d0(2) d1 d2(1) by (simp add: drain_run_append)
  then show ?thesis
    using match_after_add [OF d2(2) _ _ assms(2)] d2(3,4) by (auto simp: absorbed_def same_settings_def)
qed

theorem match_finds_added_witness:
  "\<exists>d. mine 4 (2 / 5) 100 (Some 1) [] ''<*>'' True (sample_log @ [''user 9 logged in'']) = Inr d \<and>
    (\<exists>m. match_message d ''user 9 logged in'' fallback = Inr (Some m) \<and>
       covers (paramStr d) (logTemplateTokens m) (getContentAsTokens (extraDelimiters d) ''user 9 logged in''))"
proof -
  have "\<not> isl (mine 4 (2 / 5) 100 (Some 1) [] ''<*>'' True (sample_log @ [''user 9 logged in'']))" by code_simp
  then obtain d where d: "mine 4 (2 / 5) 100 (Some 1) [] ''<*>'' True (sample_log @ [''user 9 logged in'']) = Inr d"
    by (cases "mine 4 (2 / 5) 100 (Some 1) [] ''<*>'' True (sample_log @ [''user 9 logged in''])") auto
  from match_finds_added [OF d, of fallback] show ?thesis using d by blast
qed

end
