(* ===== verification/Bucket_Cache.thy ===== *)
theory Bucket_Cache
  imports Maple_Prelude "HOL-Library.List_Lexorder" "HOL-Library.Char_ord" "HOL-Library.Multiset"
begin

text \<open>
  The bucketed time-series cache, after \<^verbatim>\<open>packages/query-engine/src/caching/bucket-cache.ts\<close>: a
  request for a time range is answered from cached step-aligned buckets and from warehouse queries
  for the gaps, and the settled part of what was fetched is written back in segments.

  Times are integers in epoch milliseconds. What the code calls and does not define is an argument:
  \<open>parse\<close> (\<open>parseWarehouseDateTime\<close>, which goes through \<open>Date.parse\<close>; \<open>None\<close> is \<open>NaN\<close>),
  \<open>rawGetDetailed\<close> (a read of the edge cache), \<open>computeRange\<close> (a warehouse query, which may fail) and the
  fingerprint of the query. Writes to the edge cache are returned as a list: their failures are ignored
  by the code, and nothing is read after the first write. The at most two warehouse queries run in order
  (the code may overlap them, which matters only when both fail). Logging, tracing and the optional
  \<open>prepare\<close> effect, which returns nothing, are left out.
\<close>

section \<open>Data\<close>

record TimeRange =
  r_start :: int
  r_end :: int

record TimeseriesPoint =
  bucket :: string
  series :: json

record CachedBucket =
  b_start :: int
  b_end :: int
  b_points :: "TimeseriesPoint list"

record BucketCacheSegmentData =
  version :: int
  fingerprint :: string
  bucketSeconds :: int
  segmentStartMs :: int
  segmentEndMs :: int
  buckets :: "CachedBucket list"

record MissingRange =
  gap_range :: TimeRange
  cachable :: bool

record BucketCacheOutcome =
  out_points :: "TimeseriesPoint list"
  requestedBuckets :: nat
  bucketsHit :: nat
  bucketsMissed :: nat
  missingRangeCount :: nat
  warehouseQueryCount :: nat
  segmentsHit :: nat
  segmentsMissed :: nat
  segmentsTimedOut :: nat
  segmentsSkipped :: nat
  segmentsErrored :: nat

record BucketCacheRequest =
  req_orgId :: string
  req_bucketSeconds :: int
  req_start :: int
  req_end :: int

type_synonym date_parser = "string \<Rightarrow> int option"

section \<open>Gaps\<close>

definition emit :: "int \<Rightarrow> int \<Rightarrow> int \<Rightarrow> MissingRange list" where
  "emit fluxBoundaryMs from to =
     (if to \<le> from then []
      else if to \<le> fluxBoundaryMs then [\<lparr>gap_range = \<lparr>r_start = from, r_end = to\<rparr>, cachable = True\<rparr>]
      else if from \<ge> fluxBoundaryMs then [\<lparr>gap_range = \<lparr>r_start = from, r_end = to\<rparr>, cachable = False\<rparr>]
      else [\<lparr>gap_range = \<lparr>r_start = from, r_end = fluxBoundaryMs\<rparr>, cachable = True\<rparr>,
            \<lparr>gap_range = \<lparr>r_start = fluxBoundaryMs, r_end = to\<rparr>, cachable = False\<rparr>])"

fun missing_loop ::
  "int \<Rightarrow> int \<Rightarrow> int \<Rightarrow> CachedBucket list \<Rightarrow> int \<Rightarrow> MissingRange list \<Rightarrow> int \<times> MissingRange list" where
  "missing_loop endMs bucketMs flux [] cursor missing = (cursor, missing)"
| "missing_loop endMs bucketMs flux (b # bs) cursor missing =
     (if b_end b \<le> cursor then missing_loop endMs bucketMs flux bs cursor missing
      else if b_start b \<ge> endMs then (cursor, missing)
      else
        let alignedStart = (if js_rem (b_start b) bucketMs = 0 then b_start b
                            else b_start b - js_rem (b_start b) bucketMs + bucketMs);
            missing = (if cursor < alignedStart \<and> cursor < endMs
                       then missing @ emit flux cursor (min alignedStart endMs) else missing);
            bucketEnd = min (b_end b) endMs;
            bucketEnd = (if js_rem bucketEnd bucketMs \<noteq> 0 \<and> bucketEnd < endMs
                         then bucketEnd - js_rem bucketEnd bucketMs else bucketEnd)
        in missing_loop endMs bucketMs flux bs (max cursor bucketEnd) missing)"

definition findMissingRanges :: "CachedBucket list \<Rightarrow> int \<Rightarrow> int \<Rightarrow> int \<Rightarrow> int \<Rightarrow> MissingRange list" where
  "findMissingRanges cached startMs endMs bucketMs flux =
     (if endMs \<le> startMs then []
      else
        let nextAligned = startMs - js_rem startMs bucketMs + bucketMs;
            missing = (if js_rem startMs bucketMs \<noteq> 0 then emit flux startMs (min nextAligned endMs) else []);
            cursor = (if js_rem startMs bucketMs \<noteq> 0 then nextAligned else startMs);
            (cursor, missing) = missing_loop endMs bucketMs flux (sort_key b_start cached) cursor missing
        in if cursor < endMs then missing @ emit flux cursor endMs else missing)"

definition widen :: "(bool, TimeRange) jsmap \<Rightarrow> MissingRange \<Rightarrow> (bool, TimeRange) jsmap" where
  "widen spans m =
     (case jsmap_get spans (cachable m) of
        Some sp \<Rightarrow>
          jsmap_set (cachable m)
            \<lparr>r_start = min (r_start sp) (r_start (gap_range m)), r_end = max (r_end sp) (r_end (gap_range m))\<rparr> spans
      | None \<Rightarrow> jsmap_set (cachable m) (gap_range m) spans)"

definition coalesceMissingRanges :: "MissingRange list \<Rightarrow> MissingRange list" where
  "coalesceMissingRanges missing =
     (let spans = foldl widen [] missing
      in concat (map (\<lambda>c. case jsmap_get spans c of
                            Some sp \<Rightarrow> [\<lparr>gap_range = sp, cachable = c\<rparr>]
                          | None \<Rightarrow> []) [True, False]))"

section \<open>Buckets and points\<close>

text \<open>\<open>Math.floor(ms / bucketMs) * bucketMs\<close>\<close>

definition align :: "int \<Rightarrow> int \<Rightarrow> int" where
  "align bucketMs ms = ms div bucketMs * bucketMs"

definition add_point :: "date_parser \<Rightarrow> int \<Rightarrow> (int, TimeseriesPoint list) jsmap \<Rightarrow> TimeseriesPoint \<Rightarrow>
    (int, TimeseriesPoint list) jsmap" where
  "add_point parse bucketMs byBucket p =
     (case parse (bucket p) of
        None \<Rightarrow> byBucket
      | Some ms \<Rightarrow>
          (case jsmap_get byBucket (align bucketMs ms) of
             Some existing \<Rightarrow> jsmap_set (align bucketMs ms) (existing @ [p]) byBucket
           | None \<Rightarrow> jsmap_set (align bucketMs ms) [p] byBucket))"

definition group_points :: "date_parser \<Rightarrow> int \<Rightarrow> TimeseriesPoint list \<Rightarrow> (int, TimeseriesPoint list) jsmap" where
  "group_points parse bucketMs ps = foldl (add_point parse bucketMs) [] ps"

definition pointsToBuckets :: "date_parser \<Rightarrow> TimeseriesPoint list \<Rightarrow> int \<Rightarrow> int \<Rightarrow> CachedBucket list" where
  "pointsToBuckets parse ps bucketMs flux =
     sort_key b_start
       (map (\<lambda>(s, bps). \<lparr>b_start = s, b_end = s + bucketMs, b_points = bps\<rparr>)
         (filter (\<lambda>(s, bps). \<not> s + bucketMs > flux) (group_points parse bucketMs ps)))"

definition mergeAndDeduplicateBuckets :: "CachedBucket list \<Rightarrow> CachedBucket list \<Rightarrow> CachedBucket list" where
  "mergeAndDeduplicateBuckets existing fresh =
     (let byStart = foldl (\<lambda>m b. jsmap_set (b_start b) b m) [] existing;
          byStart = foldl (\<lambda>m b. jsmap_set (b_start b) b m) byStart fresh
      in sort_key b_start (map snd byStart))"

fun slicePointsFromBuckets :: "date_parser \<Rightarrow> CachedBucket list \<Rightarrow> int \<Rightarrow> int \<Rightarrow> TimeseriesPoint list" where
  "slicePointsFromBuckets parse [] startMs endMs = []"
| "slicePointsFromBuckets parse (b # bs) startMs endMs =
     (if b_end b \<le> startMs then slicePointsFromBuckets parse bs startMs endMs
      else if b_start b \<ge> endMs then []
      else filter (\<lambda>p. case parse (bucket p) of None \<Rightarrow> False | Some ms \<Rightarrow> ms \<ge> startMs \<and> ms < endMs) (b_points b)
           @ slicePointsFromBuckets parse bs startMs endMs)"

text \<open>The loop \<open>for (c = first; c <= last; c += step)\<close>. The step is positive for every caller.\<close>

function steps :: "int \<Rightarrow> int \<Rightarrow> int \<Rightarrow> int list" where
  "steps lo hi step = (if step \<le> 0 \<or> lo > hi then [] else lo # steps (lo + step) hi step)"
  by pat_completeness auto
termination
  by (relation "measure (\<lambda>(lo, hi, step). nat (hi - lo + 1))") auto

declare steps.simps [simp del]

definition requestedBucketStarts :: "int \<Rightarrow> int \<Rightarrow> int \<Rightarrow> int list" where
  "requestedBucketStarts startMs endMs bucketMs =
     (if endMs \<le> startMs then [] else steps (align bucketMs startMs) (align bucketMs (endMs - 1)) bucketMs)"

definition segmentStartsForRange :: "int \<Rightarrow> int \<Rightarrow> int \<Rightarrow> int list" where
  "segmentStartsForRange startMs endMs segmentMs =
     (if endMs \<le> startMs then [] else steps (align segmentMs startMs) (align segmentMs (endMs - 1)) segmentMs)"

definition pointsToCoveredBuckets ::
  "date_parser \<Rightarrow> TimeseriesPoint list \<Rightarrow> TimeRange \<Rightarrow> int \<Rightarrow> int \<Rightarrow> CachedBucket list" where
  "pointsToCoveredBuckets parse ps r bucketMs flux =
     (let pointsByStart = group_points parse bucketMs ps;
          firstFullBucket = - ((- r_start r) div bucketMs) * bucketMs
      in map (\<lambda>s. \<lparr>b_start = s, b_end = s + bucketMs,
                   b_points = (case jsmap_get pointsByStart s of Some ps \<Rightarrow> ps | None \<Rightarrow> [])\<rparr>)
           (takeWhile (\<lambda>s. \<not> s + bucketMs > flux) (steps firstFullBucket (r_end r - bucketMs) bucketMs)))"

section \<open>Stored segments\<close>

fun is_object :: "json \<Rightarrow> bool" where
  "is_object (JObject _) = True"
| "is_object (JArray _) = True"
| "is_object _ = False"

text \<open>\<open>value !== null && typeof value === "object"\<close> holds of objects and of arrays.\<close>

definition valid_point :: "json \<Rightarrow> bool" where
  "valid_point p =
     (is_object p \<and>
      (case json_get ''bucket'' p of Some (JString _) \<Rightarrow> True | _ \<Rightarrow> False) \<and>
      (case json_get ''series'' p of Some s \<Rightarrow> is_object s | None \<Rightarrow> False))"

text \<open>A field for which \<open>Number.isFinite\<close> holds.\<close>

definition finite_field :: "string \<Rightarrow> json \<Rightarrow> rat option" where
  "finite_field k j = (case json_get k j of Some (JNum (Fin r)) \<Rightarrow> Some r | _ \<Rightarrow> None)"

definition valid_bucket :: "int \<Rightarrow> int \<Rightarrow> int \<Rightarrow> json \<Rightarrow> bool" where
  "valid_bucket bucketMs segStart segEnd b =
     (is_object b \<and>
      (case (finite_field ''startMs'' b, finite_field ''endMs'' b) of
         (Some s, Some e) \<Rightarrow>
           s \<ge> of_int segStart \<and> e \<le> of_int segEnd \<and> e - s = of_int bucketMs \<and>
           of_int \<lfloor>s / of_int bucketMs\<rfloor> * of_int bucketMs = s
       | _ \<Rightarrow> False) \<and>
      (case json_get ''points'' b of Some (JArray ps) \<Rightarrow> list_all valid_point ps | _ \<Rightarrow> False))"

definition isBucketCacheSegmentData :: "json \<Rightarrow> string \<Rightarrow> int \<Rightarrow> int \<Rightarrow> int \<Rightarrow> int \<Rightarrow> bool" where
  "isBucketCacheSegmentData data expFingerprint expBucketSeconds bucketMs segStart segEnd =
     (is_object data \<and>
      json_get ''version'' data = Some (JNum (Fin 2)) \<and>
      json_get ''fingerprint'' data = Some (JString expFingerprint) \<and>
      json_get ''bucketSeconds'' data = Some (JNum (Fin (of_int expBucketSeconds))) \<and>
      json_get ''segmentStartMs'' data = Some (JNum (Fin (of_int segStart))) \<and>
      json_get ''segmentEndMs'' data = Some (JNum (Fin (of_int segEnd))) \<and>
      (case json_get ''buckets'' data of
         Some (JArray bs) \<Rightarrow> list_all (valid_bucket bucketMs segStart segEnd) bs
       | _ \<Rightarrow> False))"

text \<open>The JSON form of a payload, and the typed view the code takes of validated data.\<close>

definition point_json :: "TimeseriesPoint \<Rightarrow> json" where
  "point_json p = JObject [(''bucket'', JString (bucket p)), (''series'', series p)]"

definition bucket_json :: "CachedBucket \<Rightarrow> json" where
  "bucket_json b =
     JObject [(''startMs'', JNum (Fin (of_int (b_start b)))), (''endMs'', JNum (Fin (of_int (b_end b)))),
              (''points'', JArray (map point_json (b_points b)))]"

definition segment_json :: "BucketCacheSegmentData \<Rightarrow> json" where
  "segment_json d =
     JObject [(''version'', JNum (Fin (of_int (version d)))), (''fingerprint'', JString (fingerprint d)),
              (''bucketSeconds'', JNum (Fin (of_int (bucketSeconds d)))),
              (''segmentStartMs'', JNum (Fin (of_int (segmentStartMs d)))),
              (''segmentEndMs'', JNum (Fin (of_int (segmentEndMs d)))),
              (''buckets'', JArray (map bucket_json (buckets d)))]"

definition view_point :: "json \<Rightarrow> TimeseriesPoint" where
  "view_point p =
     \<lparr>bucket = (case json_get ''bucket'' p of Some (JString s) \<Rightarrow> s | _ \<Rightarrow> ''''),
      series = (case json_get ''series'' p of Some s \<Rightarrow> s | None \<Rightarrow> JNull)\<rparr>"

definition view_ms :: "string \<Rightarrow> json \<Rightarrow> int" where
  "view_ms k b = (case finite_field k b of Some r \<Rightarrow> \<lfloor>r\<rfloor> | None \<Rightarrow> 0)"

definition view_bucket :: "json \<Rightarrow> CachedBucket" where
  "view_bucket b =
     \<lparr>b_start = view_ms ''startMs'' b, b_end = view_ms ''endMs'' b,
      b_points = (case json_get ''points'' b of Some (JArray ps) \<Rightarrow> map view_point ps | _ \<Rightarrow> [])\<rparr>"

definition view_buckets :: "json \<Rightarrow> CachedBucket list" where
  "view_buckets data = (case json_get ''buckets'' data of Some (JArray bs) \<Rightarrow> map view_bucket bs | _ \<Rightarrow> [])"

section \<open>Answering a request\<close>

datatype ReadStatus = hit | miss | timeout | skipped | read_error

text \<open>A read of the edge cache: \<open>None\<close> is a failed effect, otherwise the status and the stored value.\<close>

type_synonym edge_reader = "string \<Rightarrow> (ReadStatus \<times> json option) option"

record SegmentRead =
  seg_start :: int
  seg_status :: ReadStatus
  seg_buckets :: "CachedBucket list"

definition segment_key :: "string \<Rightarrow> string \<Rightarrow> int \<Rightarrow> string" where
  "segment_key orgId fp segStart = ''v2:'' @ orgId @ '':'' @ fp @ '':'' @ js_String_int segStart"

definition read_segment :: "edge_reader \<Rightarrow> BucketCacheRequest \<Rightarrow> string \<Rightarrow> int \<Rightarrow> int \<Rightarrow> int \<Rightarrow> SegmentRead" where
  "read_segment rawGetDetailed request fp bucketMs segmentMs segStart =
     (case rawGetDetailed (segment_key (req_orgId request) fp segStart) of
        None \<Rightarrow> \<lparr>seg_start = segStart, seg_status = read_error, seg_buckets = []\<rparr>
      | Some (status, v) \<Rightarrow>
          (case (status, v) of
             (hit, Some data) \<Rightarrow>
               if isBucketCacheSegmentData data fp (req_bucketSeconds request) bucketMs segStart (segStart + segmentMs)
               then \<lparr>seg_start = segStart, seg_status = hit, seg_buckets = view_buckets data\<rparr>
               else \<lparr>seg_start = segStart, seg_status = miss, seg_buckets = []\<rparr>
           | _ \<Rightarrow> \<lparr>seg_start = segStart, seg_status = status, seg_buckets = []\<rparr>))"

fun compute_all :: "(TimeRange \<Rightarrow> 'e + TimeseriesPoint list) \<Rightarrow> MissingRange list \<Rightarrow>
    'e + (MissingRange \<times> TimeseriesPoint list) list" where
  "compute_all computeRange [] = Inr []"
| "compute_all computeRange (m # ms) =
     (case computeRange (gap_range m) of
        Inl err \<Rightarrow> Inl err
      | Inr ps \<Rightarrow> (case compute_all computeRange ms of Inl err \<Rightarrow> Inl err | Inr rest \<Rightarrow> Inr ((m, ps) # rest)))"

definition add_bucket :: "int \<Rightarrow> (int, CachedBucket list) jsmap \<Rightarrow> CachedBucket \<Rightarrow> (int, CachedBucket list) jsmap" where
  "add_bucket segmentMs m b =
     (case jsmap_get m (align segmentMs (b_start b)) of
        Some grouped \<Rightarrow> jsmap_set (align segmentMs (b_start b)) (grouped @ [b]) m
      | None \<Rightarrow> jsmap_set (align segmentMs (b_start b)) [b] m)"

definition group_buckets :: "int \<Rightarrow> CachedBucket list \<Rightarrow> (int, CachedBucket list) jsmap" where
  "group_buckets segmentMs bs = foldl (add_bucket segmentMs) [] bs"

definition write_segment ::
  "BucketCacheRequest \<Rightarrow> string \<Rightarrow> int \<Rightarrow> SegmentRead list \<Rightarrow> int \<times> CachedBucket list \<Rightarrow> string \<times> BucketCacheSegmentData" where
  "write_segment request fp segmentMs reads entry =
     (let segStart = fst entry; freshBuckets = snd entry;
          readOf = find (\<lambda>r. seg_start r = segStart) (rev reads);
          readStatus = (case readOf of Some r \<Rightarrow> seg_status r | None \<Rightarrow> miss);
          existing = (case readOf of Some r \<Rightarrow> seg_buckets r | None \<Rightarrow> []);
          merged = (if readStatus = timeout \<or> readStatus = skipped \<or> readStatus = read_error
                    then sort_key b_start freshBuckets
                    else mergeAndDeduplicateBuckets existing freshBuckets)
      in (segment_key (req_orgId request) fp segStart,
          \<lparr>version = 2, fingerprint = fp, bucketSeconds = req_bucketSeconds request, segmentStartMs = segStart,
           segmentEndMs = segStart + segmentMs, buckets = merged\<rparr>))"

definition in_range :: "date_parser \<Rightarrow> int \<Rightarrow> int \<Rightarrow> TimeseriesPoint \<Rightarrow> bool" where
  "in_range parse startMs endMs p = (case parse (bucket p) of None \<Rightarrow> False | Some ms \<Rightarrow> ms \<ge> startMs \<and> ms < endMs)"

definition collect_points :: "TimeseriesPoint list \<Rightarrow> TimeseriesPoint list" where
  "collect_points ps = map snd (foldl (\<lambda>m p. jsmap_set (bucket p) p m) [] ps)"

definition getOrComputeBuckets ::
  "date_parser \<Rightarrow> nat \<Rightarrow> int \<Rightarrow> int \<Rightarrow> string \<Rightarrow> edge_reader \<Rightarrow> (TimeRange \<Rightarrow> 'e + TimeseriesPoint list) \<Rightarrow>
     BucketCacheRequest \<Rightarrow> 'e + (BucketCacheOutcome \<times> (string \<times> BucketCacheSegmentData) list)" where
  "getOrComputeBuckets parse segmentBucketCount fluxSeconds currentTimeMillis fp rawGetDetailed computeRange request =
     (let bucketMs = req_bucketSeconds request * 1000;
          segmentMs = bucketMs * int segmentBucketCount;
          flux = currentTimeMillis - fluxSeconds * 1000;
          startMs = req_start request; endMs = req_end request;
          requestedStarts = requestedBucketStarts startMs endMs bucketMs;
          segmentStarts = segmentStartsForRange startMs endMs segmentMs;
          reads = map (read_segment rawGetDetailed request fp bucketMs segmentMs) segmentStarts;
          existingBuckets = sort_key b_start (concat (map seg_buckets reads));
          hits = length (remdups (map b_start (filter (\<lambda>b. b_start b \<in> set requestedStarts) existingBuckets)));
          missing = findMissingRanges existingBuckets startMs endMs bucketMs flux;
          fillRanges = coalesceMissingRanges missing
      in case compute_all computeRange fillRanges of
           Inl err \<Rightarrow> Inl err
         | Inr rangeResults \<Rightarrow>
             (let freshCachable = concat (map (\<lambda>(item, ps). if cachable item
                                    then pointsToCoveredBuckets parse ps (gap_range item) bucketMs flux else []) rangeResults);
                  writes = map (write_segment request fp segmentMs reads) (group_buckets segmentMs freshCachable);
                  pts = slicePointsFromBuckets parse existingBuckets startMs endMs
                          @ concat (map (\<lambda>(item, ps). filter (in_range parse startMs endMs) ps) rangeResults);
                  countStatus = (\<lambda>s. length (filter (\<lambda>r. seg_status r = s) reads))
              in Inr (\<lparr>out_points = sort_key bucket (collect_points pts),
                       requestedBuckets = length requestedStarts, bucketsHit = hits,
                       bucketsMissed = length requestedStarts - hits,
                       missingRangeCount = length missing, warehouseQueryCount = length fillRanges,
                       segmentsHit = countStatus hit, segmentsMissed = countStatus miss,
                       segmentsTimedOut = countStatus timeout, segmentsSkipped = countStatus skipped,
                       segmentsErrored = countStatus read_error\<rparr>, writes)))"

section \<open>Gaps: what is missing\<close>

definition in_gap :: "MissingRange \<Rightarrow> int \<Rightarrow> bool" where
  "in_gap m t \<longleftrightarrow> r_start (gap_range m) \<le> t \<and> t < r_end (gap_range m)"

definition in_bucket :: "CachedBucket \<Rightarrow> int \<Rightarrow> bool" where
  "in_bucket b t \<longleftrightarrow> b_start b \<le> t \<and> t < b_end b"

text \<open>A cached bucket is one whole step of the grid.\<close>

definition whole_bucket :: "int \<Rightarrow> CachedBucket \<Rightarrow> bool" where
  "whole_bucket bucketMs b \<longleftrightarrow> b_start b mod bucketMs = 0 \<and> b_end b = b_start b + bucketMs"

text \<open>A gap is not empty and lies on one side of the flux boundary, which decides whether it may be cached.\<close>

definition gap_ok :: "int \<Rightarrow> MissingRange \<Rightarrow> bool" where
  "gap_ok flux m \<longleftrightarrow> r_start (gap_range m) < r_end (gap_range m) \<and>
     (if cachable m then r_end (gap_range m) \<le> flux else flux \<le> r_start (gap_range m))"

definition gap_before :: "MissingRange \<Rightarrow> MissingRange \<Rightarrow> bool" where
  "gap_before a b \<longleftrightarrow> r_end (gap_range a) \<le> r_start (gap_range b)"

lemma emit_cover: "(\<exists>m\<in>set (emit flux lo hi). in_gap m t) \<longleftrightarrow> lo \<le> t \<and> t < hi"
  by (auto simp: emit_def in_gap_def)

lemma emit_ok: "m \<in> set (emit flux lo hi) \<Longrightarrow> gap_ok flux m \<and> lo \<le> r_start (gap_range m) \<and> r_end (gap_range m) \<le> hi"
  by (auto simp: emit_def gap_ok_def split: if_splits)

lemma emit_sorted: "sorted_wrt gap_before (emit flux lo hi)"
  by (simp add: emit_def gap_before_def)

definition first_aligned :: "int \<Rightarrow> int \<Rightarrow> int" where
  "first_aligned bucketMs startMs = - ((- startMs) div bucketMs) * bucketMs"

text \<open>
  The invariant of the walk: the gaps so far are in order, lie below the cursor, miss every cached
  bucket (from the first aligned instant on), and together with the cached buckets leave nothing out.
\<close>

definition gaps_inv :: "int \<Rightarrow> int \<Rightarrow> int \<Rightarrow> int \<Rightarrow> CachedBucket set \<Rightarrow> int \<Rightarrow> MissingRange list \<Rightarrow> bool" where
  "gaps_inv startMs endMs bucketMs flux cached cursor missing \<longleftrightarrow>
     startMs \<le> cursor \<and> first_aligned bucketMs startMs \<le> cursor \<and> sorted_wrt gap_before missing \<and>
     (\<forall>m\<in>set missing. gap_ok flux m \<and> startMs \<le> r_start (gap_range m) \<and> r_end (gap_range m) \<le> min cursor endMs) \<and>
     (\<forall>t. startMs \<le> t \<and> t < min cursor endMs \<longrightarrow> (\<exists>m\<in>set missing. in_gap m t) \<or> (\<exists>b\<in>cached. in_bucket b t)) \<and>
     (\<forall>m\<in>set missing. \<forall>t. in_gap m t \<and> first_aligned bucketMs startMs \<le> t \<longrightarrow> (\<forall>b\<in>cached. \<not> in_bucket b t))"

lemma gaps_inv_emit:
  assumes I: "gaps_inv startMs endMs bucketMs flux cached cursor missing" and "cursor \<le> to" "to \<le> endMs"
    and free: "\<And>t b. cursor \<le> t \<Longrightarrow> t < to \<Longrightarrow> b \<in> cached \<Longrightarrow> \<not> in_bucket b t"
  shows "gaps_inv startMs endMs bucketMs flux cached to (missing @ emit flux cursor to)"
proof -
  have "sorted_wrt gap_before (missing @ emit flux cursor to)"
    using I emit_sorted emit_ok unfolding gaps_inv_def sorted_wrt_append gap_before_def by fastforce
  moreover have "gap_ok flux m \<and> startMs \<le> r_start (gap_range m) \<and> r_end (gap_range m) \<le> min to endMs"
    if "m \<in> set (missing @ emit flux cursor to)" for m
    using that I assms(2,3) emit_ok [of m flux cursor to] unfolding gaps_inv_def by fastforce
  moreover have "(\<exists>m\<in>set (missing @ emit flux cursor to). in_gap m t) \<or> (\<exists>b\<in>cached. in_bucket b t)"
    if "startMs \<le> t" "t < min to endMs" for t
    using that I emit_cover [of flux cursor to t] assms(2,3) unfolding gaps_inv_def
    by (cases "t < cursor") auto
  moreover have "\<not> in_bucket b t" if "m \<in> set (missing @ emit flux cursor to)" "in_gap m t"
    "first_aligned bucketMs startMs \<le> t" "b \<in> cached" for m t b
  proof (cases "m \<in> set missing")
    case True
    then show ?thesis using that I unfolding gaps_inv_def by blast
  next
    case False
    then have "cursor \<le> t" "t < to" using that emit_cover [of flux cursor to t] by auto
    then show ?thesis using free that by blast
  qed
  ultimately show ?thesis using I assms(2) unfolding gaps_inv_def by simp
qed

lemma gaps_inv_skip:
  assumes I: "gaps_inv startMs endMs bucketMs flux cached cursor missing" and b: "b \<in> cached" "b_start b \<le> cursor"
  shows "gaps_inv startMs endMs bucketMs flux cached (max cursor (min (b_end b) endMs)) missing"
proof -
  have "(\<exists>m\<in>set missing. in_gap m t) \<or> (\<exists>b\<in>cached. in_bucket b t)"
    if "startMs \<le> t" "t < min (max cursor (min (b_end b) endMs)) endMs" for t
  proof (cases "t < cursor")
    case True
    then show ?thesis using that I unfolding gaps_inv_def by auto
  next
    case False
    then have "in_bucket b t" using that b by (auto simp: in_bucket_def)
    then show ?thesis using b by blast
  qed
  moreover have "r_end (gap_range m) \<le> min (max cursor (min (b_end b) endMs)) endMs" if "m \<in> set missing" for m
  proof -
    have "r_end (gap_range m) \<le> min cursor endMs" using I that unfolding gaps_inv_def by blast
    then show ?thesis by linarith
  qed
  moreover have "startMs \<le> max cursor (min (b_end b) endMs)" "first_aligned bucketMs startMs \<le> max cursor (min (b_end b) endMs)"
    using I unfolding gaps_inv_def by (simp_all add: le_max_iff_disj)
  ultimately show ?thesis using I unfolding gaps_inv_def by blast
qed

lemma missing_loop_correct:
  assumes "gaps_inv startMs endMs bucketMs flux cached cursor missing" "sorted (map b_start bs)" "0 < bucketMs"
    "\<forall>b\<in>set bs. whole_bucket bucketMs b \<and> 0 \<le> b_start b" "set bs \<subseteq> cached" "0 \<le> endMs"
    "\<forall>b\<in>cached. b \<in> set bs \<or> min (b_end b) endMs \<le> cursor"
    "missing_loop endMs bucketMs flux bs cursor missing = (cursor', missing')"
  shows "gaps_inv startMs endMs bucketMs flux cached cursor' missing' \<and>
    (\<forall>b\<in>cached. min (b_end b) endMs \<le> cursor' \<or> endMs \<le> b_start b)"
  using assms
proof (induction bs arbitrary: cursor missing)
  case Nil
  then show ?case by auto
next
  case (Cons b bs)
  have wb: "js_rem (b_start b) bucketMs = 0" "js_rem (b_end b) bucketMs = 0" "b_end b = b_start b + bucketMs"
    "0 \<le> b_start b" "b \<in> cached"
    using Cons.prems(3,4,5) by (auto simp: whole_bucket_def js_rem_nonneg)
  show ?case
  proof (cases "b_end b \<le> cursor")
    case True
    then have "\<forall>c\<in>cached. c \<in> set bs \<or> min (b_end c) endMs \<le> cursor" using Cons.prems(7) by auto
    then show ?thesis using Cons.IH [OF Cons.prems(1) _ Cons.prems(3) _ _ Cons.prems(6)] Cons.prems True by simp
  next
    case after: False
    show ?thesis
    proof (cases "b_start b \<ge> endMs")
      case True
      have "\<forall>c\<in>set (b # bs). endMs \<le> b_start c" using Cons.prems(2) True by auto
      then show ?thesis using Cons.prems after True by auto
    next
      case False
      define c1 where "c1 = (if cursor < b_start b then b_start b else cursor)"
      define m1 where "m1 = (if cursor < b_start b then missing @ emit flux cursor (b_start b) else missing)"
      have I1: "gaps_inv startMs endMs bucketMs flux cached c1 m1"
      proof (cases "cursor < b_start b")
        case True
        have "\<not> in_bucket c t" if "cursor \<le> t" "t < b_start b" "c \<in> cached" for c t
        proof (cases "c \<in> set (b # bs)")
          case True
          then have "b_start b \<le> b_start c" using Cons.prems(2) by auto
          then show ?thesis using that by (simp add: in_bucket_def)
        next
          case False
          then have "min (b_end c) endMs \<le> cursor" using Cons.prems(7) that by blast
          then show ?thesis using that \<open>\<not> b_start b \<ge> endMs\<close> by (auto simp: in_bucket_def)
        qed
        then show ?thesis using gaps_inv_emit [OF Cons.prems(1), of "b_start b"] True False by (simp add: c1_def m1_def)
      qed (use Cons.prems(1) in \<open>simp add: c1_def m1_def\<close>)
      have le: "b_start b \<le> c1" by (simp add: c1_def)
      define c2 where "c2 = max c1 (min (b_end b) endMs)"
      have I2: "gaps_inv startMs endMs bucketMs flux cached c2 m1"
        unfolding c2_def by (rule gaps_inv_skip [OF I1 wb(5) le])
      have be: "(if js_rem (min (b_end b) endMs) bucketMs \<noteq> 0 \<and> min (b_end b) endMs < endMs
          then min (b_end b) endMs - js_rem (min (b_end b) endMs) bucketMs else min (b_end b) endMs) = min (b_end b) endMs"
        using wb(2) by (auto simp: min_def)
      have "max cursor (min (b_end b) endMs) = c2" using False wb(3) Cons.prems(3) by (auto simp: c2_def c1_def)
      then have step: "missing_loop endMs bucketMs flux bs c2 m1 = (cursor', missing')"
        using Cons.prems(8) after False wb(1) be by (auto simp: Let_def m1_def min_def split: if_splits)
      have "\<forall>c\<in>cached. c \<in> set bs \<or> min (b_end c) endMs \<le> c2"
      proof
        fix c assume "c \<in> cached"
        then have "c = b \<or> c \<in> set bs \<or> min (b_end c) endMs \<le> cursor" using Cons.prems(7) by auto
        moreover have "cursor \<le> c2" "min (b_end b) endMs \<le> c2" by (auto simp: c2_def c1_def)
        ultimately show "c \<in> set bs \<or> min (b_end c) endMs \<le> c2" by auto
      qed
      then show ?thesis using Cons.IH [OF I2 _ Cons.prems(3) _ _ Cons.prems(6) _ step] Cons.prems by auto
    qed
  qed
qed

lemma first_aligned_eq:
  assumes "0 < bucketMs" "0 \<le> startMs"
  shows "first_aligned bucketMs startMs =
    (if js_rem startMs bucketMs \<noteq> 0 then startMs - js_rem startMs bucketMs + bucketMs else startMs)"
proof (cases "startMs mod bucketMs = 0")
  case True
  then have "(- startMs) div bucketMs = - (startMs div bucketMs)" using assms by (simp add: zdiv_zminus1_eq_if)
  then show ?thesis using True assms div_mult_mod_eq [of startMs bucketMs] by (simp add: first_aligned_def js_rem_nonneg)
next
  case False
  then have "(- startMs) div bucketMs = - (startMs div bucketMs) - 1" using assms by (simp add: zdiv_zminus1_eq_if)
  then have "first_aligned bucketMs startMs = startMs div bucketMs * bucketMs + bucketMs"
    unfolding first_aligned_def by (simp only: minus_diff_eq minus_minus) (simp add: algebra_simps)
  then show ?thesis using False assms by (simp add: js_rem_nonneg minus_mod_eq_div_mult [symmetric])
qed

lemma gaps_inv_start:
  assumes "0 < bucketMs" "0 \<le> startMs" "startMs < endMs"
  shows "gaps_inv startMs endMs bucketMs flux cached (first_aligned bucketMs startMs)
    (if js_rem startMs bucketMs \<noteq> 0 then emit flux startMs (min (first_aligned bucketMs startMs) endMs) else [])"
proof (cases "js_rem startMs bucketMs = 0")
  case True
  then show ?thesis using first_aligned_eq [OF assms(1,2)] by (auto simp: gaps_inv_def)
next
  case False
  let ?a = "first_aligned bucketMs startMs"
  have "js_rem startMs bucketMs < bucketMs" using assms by (simp add: js_rem_nonneg)
  then have a: "startMs \<le> ?a" using first_aligned_eq [OF assms(1,2)] False by simp
  let ?m = "emit flux startMs (min ?a endMs)"
  have "\<not> ?a \<le> t" if "m \<in> set ?m" "in_gap m t" for m t
    using emit_cover [of flux startMs "min ?a endMs" t] that by auto
  moreover have "gap_ok flux m \<and> startMs \<le> r_start (gap_range m) \<and> r_end (gap_range m) \<le> min ?a endMs" if "m \<in> set ?m" for m
    using emit_ok [OF that] by blast
  moreover have "\<exists>m\<in>set ?m. in_gap m t" if "startMs \<le> t" "t < min ?a endMs" for t
    using emit_cover [of flux startMs "min ?a endMs" t] that by blast
  ultimately have "gaps_inv startMs endMs bucketMs flux cached ?a ?m"
    using a emit_sorted [of flux startMs "min ?a endMs"] unfolding gaps_inv_def by blast
  then show ?thesis using False by simp
qed

lemma findMissingRanges_gaps:
  assumes "0 < bucketMs" "0 \<le> startMs" "startMs < endMs" "\<forall>b\<in>set cached. whole_bucket bucketMs b \<and> 0 \<le> b_start b"
  shows "\<exists>cursor \<ge> endMs. gaps_inv startMs endMs bucketMs flux (set cached) cursor
    (findMissingRanges cached startMs endMs bucketMs flux)"
proof -
  let ?a = "first_aligned bucketMs startMs"
  let ?m0 = "if js_rem startMs bucketMs \<noteq> 0 then emit flux startMs (min ?a endMs) else []"
  obtain cursor missing where l: "missing_loop endMs bucketMs flux (sort_key b_start cached) ?a ?m0 = (cursor, missing)"
    by (meson surj_pair)
  have I0: "gaps_inv startMs endMs bucketMs flux (set cached) ?a ?m0"
    by (rule gaps_inv_start [OF assms(1-3)])
  have I: "gaps_inv startMs endMs bucketMs flux (set cached) cursor missing"
    and past: "\<forall>b\<in>set cached. min (b_end b) endMs \<le> cursor \<or> endMs \<le> b_start b"
    using missing_loop_correct [OF I0 _ assms(1) _ _ _ _ l] assms by auto
  have eq: "findMissingRanges cached startMs endMs bucketMs flux =
      (if cursor < endMs then missing @ emit flux cursor endMs else missing)"
    using l assms(3) first_aligned_eq [OF assms(1,2)]
    by (cases "js_rem startMs bucketMs = 0") (simp_all add: findMissingRanges_def Let_def)
  show ?thesis
  proof (cases "cursor < endMs")
    case True
    have "\<not> in_bucket b t" if "cursor \<le> t" "t < endMs" "b \<in> set cached" for t b
      using past that by (auto simp: in_bucket_def)
    then show ?thesis using gaps_inv_emit [OF I, of endMs] True eq by auto
  next
    case False
    then show ?thesis using I eq by (intro exI [of _ cursor]) simp
  qed
qed

lemma missing_ranges_spec:
  assumes "0 < bucketMs" "0 \<le> startMs" "\<forall>b\<in>set cached. whole_bucket bucketMs b \<and> 0 \<le> b_start b"
    "missing = findMissingRanges cached startMs endMs bucketMs flux"
  shows "sorted_wrt gap_before missing \<and>
    (\<forall>m\<in>set missing. gap_ok flux m \<and> startMs \<le> r_start (gap_range m) \<and> r_end (gap_range m) \<le> endMs) \<and>
    (\<forall>t. startMs \<le> t \<and> t < endMs \<longrightarrow> (\<exists>m\<in>set missing. in_gap m t) \<or> (\<exists>b\<in>set cached. in_bucket b t)) \<and>
    (\<forall>m\<in>set missing. \<forall>t. in_gap m t \<and> first_aligned bucketMs startMs \<le> t \<longrightarrow> (\<forall>b\<in>set cached. \<not> in_bucket b t))"
proof (cases "startMs < endMs")
  case True
  obtain cursor where c: "endMs \<le> cursor" "gaps_inv startMs endMs bucketMs flux (set cached) cursor missing"
    using findMissingRanges_gaps [OF assms(1,2) True assms(3)] assms(4) by blast
  then have "min cursor endMs = endMs" by simp
  then show ?thesis using c(2) unfolding gaps_inv_def by auto
next
  case False
  then show ?thesis using assms(4) by (auto simp: findMissingRanges_def)
qed

section \<open>Coalescing\<close>

definition hull_of :: "MissingRange list \<Rightarrow> bool \<Rightarrow> TimeRange \<Rightarrow> bool" where
  "hull_of missing c sp \<longleftrightarrow> (\<exists>m\<in>set missing. cachable m = c \<and> r_start (gap_range m) = r_start sp) \<and>
     (\<exists>m\<in>set missing. cachable m = c \<and> r_end (gap_range m) = r_end sp) \<and>
     (\<forall>m\<in>set missing. cachable m = c \<longrightarrow> r_start sp \<le> r_start (gap_range m) \<and> r_end (gap_range m) \<le> r_end sp)"

lemma coalesce_spans:
  "case jsmap_get (foldl widen [] missing) c of
     None \<Rightarrow> \<forall>m\<in>set missing. cachable m \<noteq> c
   | Some sp \<Rightarrow> hull_of missing c sp"
proof (induction missing rule: rev_induct)
  case (snoc m missing)
  define spans where "spans = foldl widen [] missing"
  have step: "foldl widen [] (missing @ [m]) = widen spans m" by (simp add: spans_def)
  show ?case
  proof (cases "cachable m = c")
    case False
    then have "jsmap_get (widen spans m) c = jsmap_get spans c"
      by (simp add: widen_def update_conv' split: option.splits)
    then show ?thesis using snoc False unfolding step spans_def [symmetric] by (auto simp: hull_of_def split: option.splits)
  next
    case True
    show ?thesis
    proof (cases "jsmap_get spans c")
      case None
      then have "\<forall>x\<in>set missing. cachable x \<noteq> c" using snoc by (simp add: spans_def)
      moreover have "jsmap_get (widen spans m) c = Some (gap_range m)"
        using None True by (simp add: widen_def update_conv')
      ultimately show ?thesis unfolding step using True by (auto simp: hull_of_def)
    next
      case (Some sp)
      then have h: "hull_of missing c sp" using snoc by (simp add: spans_def)
      have "jsmap_get (widen spans m) c =
          Some \<lparr>r_start = min (r_start sp) (r_start (gap_range m)), r_end = max (r_end sp) (r_end (gap_range m))\<rparr>"
        using Some True by (simp add: widen_def update_conv')
      then show ?thesis unfolding step using True h by (auto simp: hull_of_def min_def max_def)
    qed
  qed
qed simp

lemma coalesce_mem:
  "c \<in> set (coalesceMissingRanges missing) \<longleftrightarrow> jsmap_get (foldl widen [] missing) (cachable c) = Some (gap_range c)"
  by (cases c; cases "cachable c") (auto simp: coalesceMissingRanges_def Let_def split: option.splits)

lemma coalesce_class:
  assumes "c \<in> set (coalesceMissingRanges missing)"
  shows "\<exists>m\<in>set missing. cachable m = cachable c \<and> r_start (gap_range m) = r_start (gap_range c)"
    "\<exists>m\<in>set missing. cachable m = cachable c \<and> r_end (gap_range m) = r_end (gap_range c)"
    "\<And>m. m \<in> set missing \<Longrightarrow> cachable m = cachable c \<Longrightarrow>
       r_start (gap_range c) \<le> r_start (gap_range m) \<and> r_end (gap_range m) \<le> r_end (gap_range c)"
proof -
  have "hull_of missing (cachable c) (gap_range c)"
    using coalesce_spans [of missing "cachable c"] assms by (simp add: coalesce_mem)
  then show "\<exists>m\<in>set missing. cachable m = cachable c \<and> r_start (gap_range m) = r_start (gap_range c)"
    "\<exists>m\<in>set missing. cachable m = cachable c \<and> r_end (gap_range m) = r_end (gap_range c)"
    "\<And>m. m \<in> set missing \<Longrightarrow> cachable m = cachable c \<Longrightarrow>
       r_start (gap_range c) \<le> r_start (gap_range m) \<and> r_end (gap_range m) \<le> r_end (gap_range c)"
    by (simp_all add: hull_of_def)
qed

lemma coalesce_spec:
  assumes "\<forall>m\<in>set missing. gap_ok flux m"
  shows "length (coalesceMissingRanges missing) \<le> 2 \<and>
    (\<forall>m\<in>set (coalesceMissingRanges missing). gap_ok flux m) \<and>
    (\<forall>m\<in>set missing. \<exists>c\<in>set (coalesceMissingRanges missing). cachable c = cachable m \<and>
       (\<forall>t. in_gap m t \<longrightarrow> in_gap c t)) \<and>
    (\<forall>c\<in>set (coalesceMissingRanges missing).
       (\<exists>m\<in>set missing. cachable m = cachable c \<and> r_start (gap_range m) = r_start (gap_range c)) \<and>
       (\<exists>m\<in>set missing. cachable m = cachable c \<and> r_end (gap_range m) = r_end (gap_range c)))"
proof (intro conjI)
  show "length (coalesceMissingRanges missing) \<le> 2"
    by (simp add: coalesceMissingRanges_def Let_def split: option.splits)
  show "\<forall>c\<in>set (coalesceMissingRanges missing). gap_ok flux c"
  proof
    fix c assume c: "c \<in> set (coalesceMissingRanges missing)"
    obtain m1 where m1: "m1 \<in> set missing" "cachable m1 = cachable c" "r_start (gap_range m1) = r_start (gap_range c)"
      using coalesce_class(1) [OF c] by blast
    obtain m2 where m2: "m2 \<in> set missing" "cachable m2 = cachable c" "r_end (gap_range m2) = r_end (gap_range c)"
      using coalesce_class(2) [OF c] by blast
    have "gap_ok flux m1" "gap_ok flux m2" using assms m1(1) m2(1) by blast+
    moreover have "r_end (gap_range m1) \<le> r_end (gap_range c)" using coalesce_class(3) [OF c m1(1,2)] by simp
    ultimately show "gap_ok flux c" using m1(2,3) m2(2,3) by (cases "cachable c") (simp_all add: gap_ok_def)
  qed
  show "\<forall>m\<in>set missing. \<exists>c\<in>set (coalesceMissingRanges missing). cachable c = cachable m \<and>
       (\<forall>t. in_gap m t \<longrightarrow> in_gap c t)"
  proof
    fix m assume m: "m \<in> set missing"
    have "jsmap_get (foldl widen [] missing) (cachable m) \<noteq> None"
    proof
      assume "jsmap_get (foldl widen [] missing) (cachable m) = None"
      then have "\<forall>x\<in>set missing. cachable x \<noteq> cachable m" using coalesce_spans [of missing "cachable m"] by simp
      then show False using m by blast
    qed
    then obtain sp where "jsmap_get (foldl widen [] missing) (cachable m) = Some sp" by blast
    then have c: "\<lparr>gap_range = sp, cachable = cachable m\<rparr> \<in> set (coalesceMissingRanges missing)"
      by (simp add: coalesce_mem)
    have "r_start sp \<le> r_start (gap_range m) \<and> r_end (gap_range m) \<le> r_end sp"
      using coalesce_class(3) [OF c m] by simp
    then show "\<exists>c\<in>set (coalesceMissingRanges missing). cachable c = cachable m \<and> (\<forall>t. in_gap m t \<longrightarrow> in_gap c t)"
      by (intro bexI [OF _ c] conjI allI impI) (simp, unfold in_gap_def, simp)
  qed
  show "\<forall>c\<in>set (coalesceMissingRanges missing).
       (\<exists>m\<in>set missing. cachable m = cachable c \<and> r_start (gap_range m) = r_start (gap_range c)) \<and>
       (\<exists>m\<in>set missing. cachable m = cachable c \<and> r_end (gap_range m) = r_end (gap_range c))"
  proof
    fix c assume c: "c \<in> set (coalesceMissingRanges missing)"
    show "(\<exists>m\<in>set missing. cachable m = cachable c \<and> r_start (gap_range m) = r_start (gap_range c)) \<and>
       (\<exists>m\<in>set missing. cachable m = cachable c \<and> r_end (gap_range m) = r_end (gap_range c))"
      by (rule conjI [OF coalesce_class(1) [OF c] coalesce_class(2) [OF c]])
  qed
qed

section \<open>Steps and grouping\<close>

lemma aligned_mult: "a mod w = 0 \<Longrightarrow> \<exists>k. a = w * (k :: int)"
  by (auto simp: mod_eq_0_iff_dvd elim: dvdE)

lemma steps_spec:
  assumes "0 < step"
  shows "set (steps lo hi step) = {x. lo \<le> x \<and> x \<le> hi \<and> (x - lo) mod step = 0} \<and> sorted (steps lo hi step)"
  using assms
proof (induction lo hi step rule: steps.induct)
  case (1 lo hi step)
  show ?case
  proof (cases "lo > hi")
    case True
    then show ?thesis by (auto simp: steps.simps [of lo hi step])
  next
    case False
    then have IH: "set (steps (lo + step) hi step) = {x. lo + step \<le> x \<and> x \<le> hi \<and> (x - (lo + step)) mod step = 0}"
      "sorted (steps (lo + step) hi step)" using 1 by auto
    have eq: "(x - (lo + step)) mod step = (x - lo) mod step" for x
      using mod_add_self2 [of "x - (lo + step)" step] by (simp add: algebra_simps)
    have dich: "x = lo \<or> lo + step \<le> x" if x: "lo \<le> x" "(x - lo) mod step = 0" for x
    proof -
      obtain k where k: "x - lo = step * k" using aligned_mult [OF x(2)] by blast
      then have "0 \<le> step * k" using x(1) by linarith
      then have "k \<ge> 0" using 1(2) by (simp add: zero_le_mult_iff)
      then show ?thesis
      proof (cases "k = 0")
        case False
        then have "step * 1 \<le> step * k" using \<open>k \<ge> 0\<close> 1(2) by (intro mult_left_mono) auto
        then show ?thesis using k by simp
      qed (use k in simp)
    qed
    have "set (lo # steps (lo + step) hi step) = {x. lo \<le> x \<and> x \<le> hi \<and> (x - lo) mod step = 0}"
    proof (intro set_eqI iffI)
      fix x assume "x \<in> {x. lo \<le> x \<and> x \<le> hi \<and> (x - lo) mod step = 0}"
      then show "x \<in> set (lo # steps (lo + step) hi step)" using dich [of x] IH(1) eq by simp
    qed (use IH(1) False 1(2) eq in auto)
    moreover have "sorted (lo # steps (lo + step) hi step)" using IH 1(2) by auto
    moreover have "steps lo hi step = lo # steps (lo + step) hi step"
      using False 1(2) by (subst steps.simps) simp
    ultimately show ?thesis by simp
  qed
qed

lemma takeWhile_sorted: "sorted xs \<Longrightarrow> takeWhile (\<lambda>s. \<not> s + (w :: int) > flux) xs = filter (\<lambda>s. s + w \<le> flux) xs"
  proof (induction xs)
  case (Cons x xs)
  have "filter (\<lambda>s. s + w \<le> flux) xs = []" if "\<not> x + w \<le> flux"
    unfolding filter_empty_conv using Cons.prems that by fastforce
  then show ?case using Cons by (cases "x + w \<le> flux") auto
qed simp

lemma group_points_spec:
  "jsmap_get (group_points parse bucketMs ps) s =
     (let L = filter (\<lambda>p. map_option (align bucketMs) (parse (bucket p)) = Some s) ps
      in if L = [] then None else Some L)"
proof (induction ps rule: rev_induct)
  case Nil
  then show ?case by (simp add: group_points_def)
next
  case (snoc p ps)
  define g where "g = group_points parse bucketMs ps"
  have step: "group_points parse bucketMs (ps @ [p]) = add_point parse bucketMs g p" by (simp add: group_points_def g_def)
  show ?case
  proof (cases "map_option (align bucketMs) (parse (bucket p)) = Some s")
    case True
    then obtain ms where "parse (bucket p) = Some ms" "align bucketMs ms = s" by auto
    then show ?thesis unfolding step using snoc True
      by (auto simp: add_point_def Let_def update_conv' g_def [symmetric] split: option.splits)
  next
    case False
    then have "jsmap_get (add_point parse bucketMs g p) s = jsmap_get g s"
      by (auto simp: add_point_def update_conv' split: option.splits)
    then show ?thesis unfolding step using snoc False by (simp add: g_def Let_def)
  qed
qed

lemma align_iff: "0 < w \<Longrightarrow> s mod w = 0 \<Longrightarrow> align w t = s \<longleftrightarrow> s \<le> t \<and> t < s + w"
proof -
  assume w: "0 < w" and s: "s mod w = 0"
  then obtain k where k: "s = k * w" using aligned_mult [OF s] by (auto simp: mult.commute)
  have "t div w = k \<longleftrightarrow> k * w \<le> t \<and> t < (k + 1) * w"
  proof
    assume "t div w = k"
    then show "k * w \<le> t \<and> t < (k + 1) * w"
      using w mult_div_mod_eq [of w t] pos_mod_bound [OF w, of t] pos_mod_sign [OF w, of t] by (auto simp: algebra_simps)
  next
    assume "k * w \<le> t \<and> t < (k + 1) * w"
    then have "0 \<le> t - k * w" "t - k * w < w" by (auto simp: algebra_simps)
    then have "(t - k * w) div w = 0" by simp
    then show "t div w = k" using w div_mult_self1 [of w "t - k * w" k] by simp
  qed
  then show ?thesis using w k by (auto simp: align_def algebra_simps)
qed

text \<open>
  Fetched points become exactly the whole buckets inside the fetched range and below the flux boundary,
  each with the points that fall into it.
\<close>

lemma first_aligned_bounds:
  assumes "0 < w"
  shows "x \<le> first_aligned w x \<and> first_aligned w x < x + w \<and> first_aligned w x mod w = 0"
proof -
  let ?q = "(- x) div w"
  have "w * ?q + (- x) mod w = - x" "(- x) mod w < w" "0 \<le> (- x) mod w"
    using assms by (simp_all add: mult_div_mod_eq)
  then have "w * ?q \<le> - x" "- x < w * ?q + w" by linarith+
  then show ?thesis by (simp add: first_aligned_def mult.commute)
qed

lemma aligned_less:
  assumes "0 < (w :: int)" "a mod w = 0" "b mod w = 0" "a < b"
  shows "a + w \<le> b"
proof -
  obtain k l where kl: "a = w * k" "b = w * l" using aligned_mult [OF assms(2)] aligned_mult [OF assms(3)] by blast
  then have "k + 1 \<le> l" using assms by simp
  then have "w * (k + 1) \<le> w * l" using assms(1) by (intro mult_left_mono) auto
  then show ?thesis using kl by (simp add: algebra_simps)
qed

lemma covered_starts:
  assumes w: "0 < bucketMs"
  shows "s \<in> set (takeWhile (\<lambda>s. \<not> s + bucketMs > flux) (steps (first_aligned bucketMs lo) (hi - bucketMs) bucketMs)) \<longleftrightarrow>
    s mod bucketMs = 0 \<and> lo \<le> s \<and> s + bucketMs \<le> hi \<and> s + bucketMs \<le> flux"
proof -
  let ?first = "first_aligned bucketMs lo"
  let ?L = "steps ?first (hi - bucketMs) bucketMs"
  note fa = first_aligned_bounds [OF w, of lo]
  have dvd: "bucketMs dvd ?first" using fa by (simp only: mod_eq_0_iff_dvd)
  have A: "(s - ?first) mod bucketMs = 0 \<longleftrightarrow> s mod bucketMs = 0"
    by (simp only: mod_eq_0_iff_dvd dvd_diff_left_iff [OF dvd])
  have B: "?first \<le> s" if "lo \<le> s" "s mod bucketMs = 0"
  proof (rule ccontr)
    assume "\<not> ?first \<le> s"
    then have "s + bucketMs \<le> ?first" using aligned_less [OF w that(2), of ?first] fa by simp
    then show False using fa that(1) by simp
  qed
  have C: "lo \<le> ?first" using fa by (rule conjunct1)
  have start: "?first \<le> s \<and> (s - ?first) mod bucketMs = 0 \<longleftrightarrow> lo \<le> s \<and> s mod bucketMs = 0"
    unfolding A
  proof
    assume f: "?first \<le> s \<and> s mod bucketMs = 0"
    then show "lo \<le> s \<and> s mod bucketMs = 0" using C by linarith
  next
    assume l: "lo \<le> s \<and> s mod bucketMs = 0"
    show "?first \<le> s \<and> s mod bucketMs = 0" by (rule conjI [OF B [OF conjunct1 [OF l] conjunct2 [OF l]] conjunct2 [OF l]])
  qed
  have L: "takeWhile (\<lambda>s. \<not> s + bucketMs > flux) ?L = filter (\<lambda>s. s + bucketMs \<le> flux) ?L"
    by (rule takeWhile_sorted [OF conjunct2 [OF steps_spec [OF w]]])
  have mem: "s \<in> set ?L \<longleftrightarrow> ?first \<le> s \<and> s \<le> hi - bucketMs \<and> (s - ?first) mod bucketMs = 0"
    by (simp only: conjunct1 [OF steps_spec [OF w]] mem_Collect_eq)
  have "s \<le> hi - bucketMs \<longleftrightarrow> s + bucketMs \<le> hi" by linarith
  note end_iff = this
  have regroup: "(F \<and> M' \<longleftrightarrow> L \<and> M) \<Longrightarrow> (H' \<longleftrightarrow> H) \<Longrightarrow> ((F \<and> H' \<and> M') \<and> X) \<longleftrightarrow> (M \<and> L \<and> H \<and> X)"
    for F M' L M H' H X by auto
  show ?thesis unfolding L set_filter mem_Collect_eq mem by (rule regroup [OF start end_iff])
qed

lemma covered_points:
  assumes "0 < bucketMs" "s mod bucketMs = 0"
  shows "(case jsmap_get (group_points parse bucketMs ps) s of Some ps \<Rightarrow> ps | None \<Rightarrow> []) =
    filter (in_range parse s (s + bucketMs)) ps"
proof -
  have "(map_option (align bucketMs) (parse (bucket p)) = Some s) = in_range parse s (s + bucketMs) p" for p
    using align_iff [OF assms] by (cases "parse (bucket p)") (simp_all add: in_range_def)
  then show ?thesis by (simp add: group_points_spec Let_def)
qed

lemma covered_buckets_spec:
  assumes w: "0 < bucketMs"
  shows "b \<in> set (pointsToCoveredBuckets parse ps r bucketMs flux) \<longleftrightarrow>
    whole_bucket bucketMs b \<and> r_start r \<le> b_start b \<and> b_end b \<le> r_end r \<and> b_end b \<le> flux \<and>
    b_points b = filter (in_range parse (b_start b) (b_end b)) ps"
proof -
  let ?S = "takeWhile (\<lambda>s. \<not> s + bucketMs > flux) (steps (first_aligned bucketMs (r_start r)) (r_end r - bucketMs) bucketMs)"
  let ?b = "\<lambda>s. \<lparr>b_start = s, b_end = s + bucketMs, b_points = filter (in_range parse s (s + bucketMs)) ps\<rparr>"
  have "pointsToCoveredBuckets parse ps r bucketMs flux = map ?b ?S"
    unfolding pointsToCoveredBuckets_def Let_def first_aligned_def [symmetric]
    by (rule map_cong [OF refl]) (use covered_starts [OF w] covered_points [OF w] in simp)
  then have "b \<in> set (pointsToCoveredBuckets parse ps r bucketMs flux) \<longleftrightarrow> (\<exists>s\<in>set ?S. b = ?b s)" by auto
  also have "\<dots> \<longleftrightarrow> b_start b \<in> set ?S \<and> b = ?b (b_start b)" by auto
  also have "b = ?b (b_start b) \<longleftrightarrow> b_end b = b_start b + bucketMs \<and>
      b_points b = filter (in_range parse (b_start b) (b_start b + bucketMs)) ps"
    by (cases b) auto
  finally show ?thesis
    using covered_starts [OF w, of "b_start b" flux "r_start r" "r_end r"] by (auto simp: whole_bucket_def)
qed

section \<open>Points from buckets\<close>

lemma set_slice:
  "sorted (map b_start bs) \<Longrightarrow> set (slicePointsFromBuckets parse bs lo hi) =
     {p. \<exists>b\<in>set bs. p \<in> set (b_points b) \<and> in_range parse lo hi p \<and> lo < b_end b \<and> b_start b < hi}"
proof (induction bs)
  case (Cons b bs)
  have f: "(case parse (bucket p) of None \<Rightarrow> False | Some ms \<Rightarrow> ms \<ge> lo \<and> ms < hi) = in_range parse lo hi p" for p
    by (simp add: in_range_def)
  show ?case
  proof (cases "b_end b \<le> lo")
    case True
    then show ?thesis using Cons by auto
  next
    case after: False
    show ?thesis
    proof (cases "b_start b \<ge> hi")
      case True
      have "\<forall>c\<in>set (b # bs). hi \<le> b_start c" using Cons.prems True by auto
      then show ?thesis using after True by auto
    next
      case False
      then show ?thesis using Cons after by (auto simp: f)
    qed
  qed
qed simp

lemma collect_points_spec:
  "inj_on bucket (set ps) \<Longrightarrow> set (collect_points ps) = set ps \<and> distinct (map bucket (collect_points ps))"
proof -
  define m where "m = (\<lambda>ps :: TimeseriesPoint list. foldl (\<lambda>m p. jsmap_set (bucket p) p m) [] ps)"
  have inv: "distinct (map fst (m ps)) \<and> set (m ps) = (\<lambda>p. (bucket p, p)) ` set ps" if "inj_on bucket (set ps)" for ps
    using that
  proof (induction ps rule: rev_induct)
    case (snoc p ps)
    then have IH: "distinct (map fst (m ps))" "set (m ps) = (\<lambda>p. (bucket p, p)) ` set ps" by (auto simp: inj_on_Un)
    have step: "m (ps @ [p]) = AList.update (bucket p) p (m ps)" by (simp add: m_def)
    have "set (AList.update (bucket p) p (m ps)) = insert (bucket p, p) {x \<in> set (m ps). fst x \<noteq> bucket p}"
      by (rule set_AList_update [OF IH(1)])
    also have "\<dots> = (\<lambda>p. (bucket p, p)) ` set (ps @ [p])"
      using snoc.prems by (auto simp: IH(2) inj_on_def)
    finally show ?case using step IH(1) by (simp add: distinct_update)
  qed (simp add: m_def)
  assume i: "inj_on bucket (set ps)"
  have c: "collect_points ps = map snd (m ps)" by (simp add: collect_points_def m_def)
  have "map bucket (map snd (m ps)) = map fst (m ps)" using inv [OF i] by auto
  then have "distinct (map bucket (collect_points ps))" unfolding c by (simp only: inv [OF i])
  moreover have "set (collect_points ps) = set ps" using inv [OF i] by (simp add: c image_image)
  ultimately show ?thesis by blast
qed

lemma sort_key_set_eq:
  fixes f :: "'a \<Rightarrow> 'b :: linorder"
  assumes "set xs = set ys" "distinct (map f xs)" "distinct (map f ys)"
  shows "sort_key f xs = sort_key f ys"
proof -
  have "mset xs = mset ys" using assms by (simp add: set_eq_iff_mset_eq_distinct distinct_map)
  moreover have "inj_on f (set xs)" using assms(2) by (simp add: distinct_map)
  ultimately show ?thesis by (intro sort_key_inj_key_eq) auto
qed

section \<open>Stored buckets\<close>

lemma valid_bucket_view:
  assumes "valid_bucket bucketMs segStart segEnd j" "0 < bucketMs"
  shows "whole_bucket bucketMs (view_bucket j) \<and> segStart \<le> b_start (view_bucket j) \<and> b_end (view_bucket j) \<le> segEnd"
proof -
  obtain s e where j: "finite_field ''startMs'' j = Some s" "finite_field ''endMs'' j = Some e"
    "of_int segStart \<le> s" "e \<le> of_int segEnd" "e - s = of_int bucketMs"
    "of_int \<lfloor>s / of_int bucketMs\<rfloor> * of_int bucketMs = s"
    using assms(1) unfolding valid_bucket_def by (auto split: option.splits)
  define k where "k = \<lfloor>s / of_int bucketMs\<rfloor> * bucketMs"
  have s: "s = of_int k" using j(6) by (simp add: k_def)
  have e: "e = of_int (k + bucketMs)" using j(5) s by (simp add: algebra_simps)
  have "segStart \<le> k" "k + bucketMs \<le> segEnd" using j(3,4) unfolding s e by (simp_all only: of_int_le_iff)
  moreover have "k mod bucketMs = 0" by (simp add: k_def)
  ultimately show ?thesis using j(1,2) by (simp add: view_bucket_def view_ms_def whole_bucket_def s e)
qed

lemma valid_segment_view:
  assumes "isBucketCacheSegmentData data fp bs bucketMs segStart segEnd" "0 < bucketMs" "b \<in> set (view_buckets data)"
  shows "whole_bucket bucketMs b \<and> segStart \<le> b_start b \<and> b_end b \<le> segEnd"
  using assms valid_bucket_view
  by (auto simp: isBucketCacheSegmentData_def view_buckets_def list_all_iff split: option.splits json.splits)

lemma view_point_json [simp]: "view_point (point_json p) = p"
  by (cases p) (simp add: view_point_def point_json_def)

lemma view_bucket_json [simp]: "view_bucket (bucket_json b) = b"
  by (cases b) (simp add: view_bucket_def bucket_json_def view_ms_def finite_field_def comp_def)

lemma view_segment_json: "view_buckets (segment_json d) = buckets d"
  by (simp add: view_buckets_def segment_json_def comp_def)

text \<open>What is written is accepted again, for the same query and segment and for no other.\<close>

lemma segment_json_valid:
  assumes "version d = 2" "0 < bucketMs"
    "\<forall>b\<in>set (buckets d). whole_bucket bucketMs b \<and> segmentStartMs d \<le> b_start b \<and> b_end b \<le> segmentEndMs d \<and>
       (\<forall>p\<in>set (b_points b). is_object (series p))"
  shows "isBucketCacheSegmentData (segment_json d) (fingerprint d) (bucketSeconds d) bucketMs (segmentStartMs d) (segmentEndMs d)"
proof -
  have "valid_bucket bucketMs (segmentStartMs d) (segmentEndMs d) (bucket_json b)" if b: "b \<in> set (buckets d)" for b
  proof -
    have p: "valid_point (point_json p)" if "p \<in> set (b_points b)" for p
      using assms(3) b that by (simp add: valid_point_def point_json_def)
    have w: "b_start b mod bucketMs = 0" "b_end b = b_start b + bucketMs" "segmentStartMs d \<le> b_start b" "b_end b \<le> segmentEndMs d"
      using assms(3) b by (auto simp: whole_bucket_def)
    then obtain k where k: "b_start b = bucketMs * k" using aligned_mult by blast
    have "of_int (b_start b) / of_int bucketMs = (of_int k :: rat)" using k assms(2) by simp
    then have "of_int \<lfloor>of_int (b_start b) / (of_int bucketMs :: rat)\<rfloor> * of_int bucketMs = (of_int (b_start b) :: rat)"
      using k by simp
    then show ?thesis using p w by (simp add: valid_bucket_def bucket_json_def finite_field_def list_all_iff)
  qed
  then show ?thesis using assms(1) by (simp add: isBucketCacheSegmentData_def segment_json_def list_all_iff)
qed

lemma segment_json_fingerprint:
  "isBucketCacheSegmentData (segment_json d) fp bs w s e \<Longrightarrow> fingerprint d = fp"
  by (simp add: isBucketCacheSegmentData_def segment_json_def)

section \<open>Merging\<close>

lemma foldl_by_start:
  assumes "distinct (map fst m)" "\<forall>(s, b)\<in>set m. b_start b = s"
  shows "distinct (map fst (foldl (\<lambda>m b. jsmap_set (b_start b) b m) m bs)) \<and>
    (\<forall>(s, b)\<in>set (foldl (\<lambda>m b. jsmap_set (b_start b) b m) m bs). b_start b = s) \<and>
    (\<forall>s b. map_of (foldl (\<lambda>m b. jsmap_set (b_start b) b m) m bs) s = Some b \<longrightarrow>
       (if s \<in> b_start ` set bs then b \<in> set bs else map_of m s = Some b)) \<and>
    (\<forall>s. map_of (foldl (\<lambda>m b. jsmap_set (b_start b) b m) m bs) s \<noteq> None \<longleftrightarrow>
       s \<in> b_start ` set bs \<or> map_of m s \<noteq> None)"
proof (induction bs rule: rev_induct)
  case Nil
  then show ?case using assms by simp
next
  case (snoc x bs)
  define g where "g = foldl (\<lambda>m b. jsmap_set (b_start b) b m) m bs"
  have IH: "distinct (map fst g)" "\<forall>(s, b)\<in>set g. b_start b = s"
    "\<And>s b. map_of g s = Some b \<Longrightarrow> if s \<in> b_start ` set bs then b \<in> set bs else map_of m s = Some b"
    "\<And>s. map_of g s \<noteq> None \<longleftrightarrow> s \<in> b_start ` set bs \<or> map_of m s \<noteq> None"
    using snoc unfolding g_def by blast+
  have step: "foldl (\<lambda>m b. jsmap_set (b_start b) b m) m (bs @ [x]) = AList.update (b_start x) x g" by (simp add: g_def)
  have 1: "distinct (map fst (AList.update (b_start x) x g))" using IH(1) by (rule distinct_update)
  have 2: "\<forall>(s, b)\<in>set (AList.update (b_start x) x g). b_start b = s"
    using IH(2) set_AList_update [OF IH(1)] by auto
  have 3: "if s \<in> b_start ` set (bs @ [x]) then b \<in> set (bs @ [x]) else map_of m s = Some b"
    if "map_of (AList.update (b_start x) x g) s = Some b" for s b
    using IH(3) [of s b] that by (cases "s = b_start x") (auto simp: update_conv' split: if_splits)
  have 4: "map_of (AList.update (b_start x) x g) s \<noteq> None \<longleftrightarrow> s \<in> b_start ` set (bs @ [x]) \<or> map_of m s \<noteq> None" for s
    using IH(4) [of s] by (cases "s = b_start x") (simp_all add: update_conv')
  show ?case unfolding step using 1 2 3 4 by blast
qed

lemma merge_buckets_spec:
  "sorted (map b_start (mergeAndDeduplicateBuckets ex fr)) \<and> distinct (map b_start (mergeAndDeduplicateBuckets ex fr)) \<and>
   b_start ` set (mergeAndDeduplicateBuckets ex fr) = b_start ` set ex \<union> b_start ` set fr \<and>
   (\<forall>b\<in>set (mergeAndDeduplicateBuckets ex fr). if b_start b \<in> b_start ` set fr then b \<in> set fr else b \<in> set ex)"
proof -
  define m where "m = foldl (\<lambda>m b. jsmap_set (b_start b) b m) [] ex"
  define n where "n = foldl (\<lambda>m b. jsmap_set (b_start b) b m) m fr"
  have m: "distinct (map fst m)" "\<forall>(s, b)\<in>set m. b_start b = s"
    "\<And>s b. map_of m s = Some b \<Longrightarrow> b \<in> set ex" "\<And>s. map_of m s \<noteq> None \<longleftrightarrow> s \<in> b_start ` set ex"
    using foldl_by_start [of "[]" ex] unfolding m_def by (auto split: if_splits)
  have n: "distinct (map fst n)" "\<forall>(s, b)\<in>set n. b_start b = s"
    "\<And>s b. map_of n s = Some b \<Longrightarrow> if s \<in> b_start ` set fr then b \<in> set fr else map_of m s = Some b"
    "\<And>s. map_of n s \<noteq> None \<longleftrightarrow> s \<in> b_start ` set fr \<or> map_of m s \<noteq> None"
    using foldl_by_start [OF m(1,2), of fr] unfolding n_def by blast+
  have eq: "mergeAndDeduplicateBuckets ex fr = sort_key b_start (map snd n)"
    by (simp add: mergeAndDeduplicateBuckets_def m_def n_def)
  have starts: "map b_start (map snd n) = map fst n" using n(2) by auto
  have mem: "b \<in> set (map snd n) \<longleftrightarrow> map_of n (b_start b) = Some b" for b
  proof
    assume "b \<in> set (map snd n)"
    then obtain s where "(s, b) \<in> set n" by auto
    with n(2) have "(b_start b, b) \<in> set n" by auto
    then show "map_of n (b_start b) = Some b" using n(1) by simp
  next
    assume "map_of n (b_start b) = Some b"
    from map_of_SomeD [OF this] show "b \<in> set (map snd n)" by force
  qed
  have "distinct (map b_start (sort_key b_start (map snd n)))"
    using n(1) starts by (metis distinct_map distinct_sort set_sort)
  moreover have "b_start ` set (map snd n) = b_start ` set ex \<union> b_start ` set fr"
  proof -
    have "b_start ` set (map snd n) = set (map fst n)" using starts by (metis set_map)
    also have "\<dots> = {s. map_of n s \<noteq> None}" by (auto simp: map_of_eq_None_iff)
    also have "\<dots> = b_start ` set ex \<union> b_start ` set fr" unfolding n(4) m(4) by blast
    finally show ?thesis .
  qed
  moreover have "if b_start b \<in> b_start ` set fr then b \<in> set fr else b \<in> set ex" if "b \<in> set (map snd n)" for b
    using n(3) [of "b_start b" b] m(3) [of "b_start b" b] that unfolding mem by (auto split: if_splits)
  ultimately show ?thesis unfolding eq by auto
qed


section \<open>Properties\<close>

text \<open>
  C21. The gaps found for a request are non-empty, in order, inside the requested range and each on one
  side of the flux boundary; together with the cached buckets they leave no requested instant out; and
  from the first aligned instant on none of them asks again for what a cached bucket holds.
\<close>

theorem findMissingRanges_correct:
  assumes "0 < bucketMs" "0 \<le> startMs" "\<forall>b\<in>set cached. whole_bucket bucketMs b \<and> 0 \<le> b_start b"
    "missing = findMissingRanges cached startMs endMs bucketMs flux"
  shows "sorted_wrt gap_before missing \<and>
    (\<forall>m\<in>set missing. gap_ok flux m \<and> startMs \<le> r_start (gap_range m) \<and> r_end (gap_range m) \<le> endMs) \<and>
    (\<forall>t. startMs \<le> t \<and> t < endMs \<longrightarrow> (\<exists>m\<in>set missing. in_gap m t) \<or> (\<exists>b\<in>set cached. in_bucket b t)) \<and>
    (\<forall>m\<in>set missing. \<forall>t. in_gap m t \<and> first_aligned bucketMs startMs \<le> t \<longrightarrow> (\<forall>b\<in>set cached. \<not> in_bucket b t))"
  by (rule missing_ranges_spec [OF assms])

definition sample_cached :: "CachedBucket list" where
  "sample_cached = [\<lparr>b_start = 2000, b_end = 3000, b_points = []\<rparr>, \<lparr>b_start = 1000, b_end = 2000, b_points = []\<rparr>]"

theorem findMissingRanges_correct_witness:
  "findMissingRanges sample_cached 500 4500 1000 4000 =
     [\<lparr>gap_range = \<lparr>r_start = 500, r_end = 1000\<rparr>, cachable = True\<rparr>,
      \<lparr>gap_range = \<lparr>r_start = 3000, r_end = 4000\<rparr>, cachable = True\<rparr>,
      \<lparr>gap_range = \<lparr>r_start = 4000, r_end = 4500\<rparr>, cachable = False\<rparr>] \<and>
   sorted_wrt gap_before (findMissingRanges sample_cached 500 4500 1000 4000)"
proof
  show "findMissingRanges sample_cached 500 4500 1000 4000 =
     [\<lparr>gap_range = \<lparr>r_start = 500, r_end = 1000\<rparr>, cachable = True\<rparr>,
      \<lparr>gap_range = \<lparr>r_start = 3000, r_end = 4000\<rparr>, cachable = True\<rparr>,
      \<lparr>gap_range = \<lparr>r_start = 4000, r_end = 4500\<rparr>, cachable = False\<rparr>]"
    by code_simp
  show "sorted_wrt gap_before (findMissingRanges sample_cached 500 4500 1000 4000)"
    using findMissingRanges_correct [of 1000 500 sample_cached _ 4500 4000, OF _ _ _ refl]
    by (simp add: sample_cached_def whole_bucket_def)
qed

text \<open>
  At most two warehouse queries fill the gaps, one below and one above the flux boundary. Each of
  them stays on its side, covers every gap of its side, and begins and ends where such a gap does.
\<close>

theorem coalesceMissingRanges_correct:
  assumes "\<forall>m\<in>set missing. gap_ok flux m"
  shows "length (coalesceMissingRanges missing) \<le> 2 \<and>
    (\<forall>m\<in>set (coalesceMissingRanges missing). gap_ok flux m) \<and>
    (\<forall>m\<in>set missing. \<exists>c\<in>set (coalesceMissingRanges missing). cachable c = cachable m \<and>
       (\<forall>t. in_gap m t \<longrightarrow> in_gap c t)) \<and>
    (\<forall>c\<in>set (coalesceMissingRanges missing).
       (\<exists>m\<in>set missing. cachable m = cachable c \<and> r_start (gap_range m) = r_start (gap_range c)) \<and>
       (\<exists>m\<in>set missing. cachable m = cachable c \<and> r_end (gap_range m) = r_end (gap_range c)))"
  by (rule coalesce_spec [OF assms])

theorem coalesceMissingRanges_correct_witness:
  "coalesceMissingRanges (findMissingRanges sample_cached 500 4500 1000 4000) =
     [\<lparr>gap_range = \<lparr>r_start = 500, r_end = 4000\<rparr>, cachable = True\<rparr>,
      \<lparr>gap_range = \<lparr>r_start = 4000, r_end = 4500\<rparr>, cachable = False\<rparr>] \<and>
   length (coalesceMissingRanges (findMissingRanges sample_cached 500 4500 1000 4000)) \<le> 2"
proof
  show "coalesceMissingRanges (findMissingRanges sample_cached 500 4500 1000 4000) =
     [\<lparr>gap_range = \<lparr>r_start = 500, r_end = 4000\<rparr>, cachable = True\<rparr>,
      \<lparr>gap_range = \<lparr>r_start = 4000, r_end = 4500\<rparr>, cachable = False\<rparr>]"
    by code_simp
  have "\<forall>m\<in>set (findMissingRanges sample_cached 500 4500 1000 4000). gap_ok 4000 m" by code_simp
  from coalesceMissingRanges_correct [OF this]
  show "length (coalesceMissingRanges (findMissingRanges sample_cached 500 4500 1000 4000)) \<le> 2" by blast
qed

text \<open>
  Merging cached and fresh buckets gives one bucket for every start of either list, in order, and a
  fresh bucket wins over a cached one with the same start.
\<close>

theorem mergeAndDeduplicateBuckets_correct:
  "sorted (map b_start (mergeAndDeduplicateBuckets ex fr)) \<and> distinct (map b_start (mergeAndDeduplicateBuckets ex fr)) \<and>
   b_start ` set (mergeAndDeduplicateBuckets ex fr) = b_start ` set ex \<union> b_start ` set fr \<and>
   (\<forall>b\<in>set (mergeAndDeduplicateBuckets ex fr). if b_start b \<in> b_start ` set fr then b \<in> set fr else b \<in> set ex)"
  by (rule merge_buckets_spec)

theorem mergeAndDeduplicateBuckets_correct_witness:
  "sorted (map b_start (mergeAndDeduplicateBuckets sample_cached [\<lparr>b_start = 2000, b_end = 3000, b_points = [\<lparr>bucket = ''x'', series = JNull\<rparr>]\<rparr>]))"
  using mergeAndDeduplicateBuckets_correct [of sample_cached "[\<lparr>b_start = 2000, b_end = 3000, b_points = [\<lparr>bucket = ''x'', series = JNull\<rparr>]\<rparr>]"] by blast

text \<open>
  Data the validator accepts can be used as it is typed: every stored bucket is one whole aligned
  step that lies in the segment it was asked for.
\<close>

theorem isBucketCacheSegmentData_typed:
  assumes "isBucketCacheSegmentData data fp bs bucketMs segStart segEnd" "0 < bucketMs" "b \<in> set (view_buckets data)"
  shows "whole_bucket bucketMs b \<and> segStart \<le> b_start b \<and> b_end b \<le> segEnd"
  by (rule valid_segment_view [OF assms])

definition sample_segment :: json where
  "sample_segment = segment_json \<lparr>version = 2, fingerprint = ''f'', bucketSeconds = 1, segmentStartMs = 0,
     segmentEndMs = 4000, buckets = sample_cached\<rparr>"

theorem isBucketCacheSegmentData_typed_witness:
  "isBucketCacheSegmentData sample_segment ''f'' 1 1000 0 4000 \<and>
   whole_bucket 1000 \<lparr>b_start = 2000, b_end = 3000, b_points = []\<rparr>"
proof
  show v: "isBucketCacheSegmentData sample_segment ''f'' 1 1000 0 4000"
    by (simp add: sample_segment_def sample_cached_def isBucketCacheSegmentData_def segment_json_def bucket_json_def
        valid_bucket_def finite_field_def)
  have "\<lparr>b_start = 2000, b_end = 3000, b_points = []\<rparr> \<in> set (view_buckets sample_segment)"
    by (simp add: sample_segment_def view_segment_json sample_cached_def)
  from isBucketCacheSegmentData_typed [OF v _ this]
  show "whole_bucket 1000 \<lparr>b_start = 2000, b_end = 3000, b_points = []\<rparr>" by simp
qed

end
