(* ===== verification/Bucket_Session.thy ===== *)
theory Bucket_Session
  imports Bucket_Cache
begin

text \<open>
  What a request to the bucketed cache answers, and what a whole history of requests answers. The
  warehouse is a list of points per query (\<open>source_query\<close>), the edge cache a partial map that may fail to
  answer and lose writes. Under the one assumption the flux window stands for, that points older than
  the window no longer change, every request is answered as if there were no cache.
\<close>

section \<open>Transparency of one request\<close>

text \<open>
  The warehouse as the code relies on it: for a query it holds points with distinct, parseable bucket
  labels and object-valued series, and a range query returns the points whose label lies in the range.
\<close>

definition source_ok :: "date_parser \<Rightarrow> TimeseriesPoint list \<Rightarrow> bool" where
  "source_ok parse src \<longleftrightarrow> distinct (map bucket src) \<and> (\<forall>p\<in>set src. parse (bucket p) \<noteq> None \<and> is_object (series p))"

definition source_query :: "date_parser \<Rightarrow> TimeseriesPoint list \<Rightarrow> TimeRange \<Rightarrow> 'e + TimeseriesPoint list" where
  "source_query parse src r = Inr (filter (in_range parse (r_start r) (r_end r)) src)"

text \<open>A bucket is honest when it holds what the warehouse holds for its window.\<close>

definition honest :: "date_parser \<Rightarrow> TimeseriesPoint list \<Rightarrow> CachedBucket \<Rightarrow> bool" where
  "honest parse src b \<longleftrightarrow> b_points b = filter (in_range parse (b_start b) (b_end b)) src"

lemma compute_all_source:
  "compute_all (source_query parse src) ms =
     Inr (map (\<lambda>m. (m, filter (in_range parse (r_start (gap_range m)) (r_end (gap_range m))) src)) ms)"
  by (induction ms) (simp_all add: source_query_def)

lemma in_rangeD: "in_range parse lo hi p \<Longrightarrow> \<exists>t. parse (bucket p) = Some t \<and> lo \<le> t \<and> t < hi"
  by (simp add: in_range_def split: option.splits)

lemma in_rangeI: "parse (bucket p) = Some t \<Longrightarrow> lo \<le> t \<Longrightarrow> t < hi \<Longrightarrow> in_range parse lo hi p"
  by (simp add: in_range_def)

lemma answer_points:
  assumes src: "source_ok parse src" and w: "0 < bucketMs" "0 \<le> lo"
    and cached: "sorted (map b_start cached)" "\<forall>b\<in>set cached. whole_bucket bucketMs b \<and> 0 \<le> b_start b \<and> honest parse src b"
    and fill: "fill = coalesceMissingRanges (findMissingRanges cached lo hi bucketMs flux)"
    and pts: "pts = slicePointsFromBuckets parse cached lo hi @
      concat (map (\<lambda>m. filter (in_range parse lo hi) (filter (in_range parse (r_start (gap_range m)) (r_end (gap_range m))) src)) fill)"
  shows "sort_key bucket (collect_points pts) = sort_key bucket (filter (in_range parse lo hi) src)"
proof -
  have set: "set pts = set (filter (in_range parse lo hi) src)"
  proof (intro set_eqI iffI)
    fix p assume "p \<in> set pts"
    then show "p \<in> set (filter (in_range parse lo hi) src)"
      using cached(2) unfolding pts set_append set_slice [OF cached(1)] honest_def by auto
  next
    fix p assume p: "p \<in> set (filter (in_range parse lo hi) src)"
    then obtain t where t: "parse (bucket p) = Some t" "lo \<le> t" "t < hi" using in_rangeD [of parse lo hi p] by auto
    let ?missing = "findMissingRanges cached lo hi bucketMs flux"
    have wb: "\<forall>b\<in>set cached. whole_bucket bucketMs b \<and> 0 \<le> b_start b" using cached(2) by blast
    note fm = missing_ranges_spec [OF w wb refl, where endMs = hi and flux = flux]
    then have "(\<exists>m\<in>set ?missing. in_gap m t) \<or> (\<exists>b\<in>set cached. in_bucket b t)" using t by blast
    then show "p \<in> set pts"
    proof
      assume "\<exists>m\<in>set ?missing. in_gap m t"
      then obtain m where m: "m \<in> set ?missing" "in_gap m t" by blast
      have "\<forall>m\<in>set ?missing. gap_ok flux m" using fm by blast
      from coalesce_spec [OF this] m obtain c where c: "c \<in> set fill" "in_gap c t"
        unfolding fill by blast
      then have "in_range parse (r_start (gap_range c)) (r_end (gap_range c)) p" using t by (simp add: in_range_def in_gap_def)
      then show ?thesis using c(1) p unfolding pts by auto
    next
      assume "\<exists>b\<in>set cached. in_bucket b t"
      then obtain b where b: "b \<in> set cached" "b_start b \<le> t" "t < b_end b" by (auto simp: in_bucket_def)
      then have "p \<in> set (b_points b)" using cached(2) p t by (simp add: honest_def in_range_def)
      then show ?thesis using b t p unfolding pts set_append set_slice [OF cached(1)] by auto
    qed
  qed
  have "distinct (map bucket src)" using src by (simp add: source_ok_def)
  then have d: "distinct (map bucket (filter (in_range parse lo hi) src))" by (simp add: distinct_map_filter)
  then have "inj_on bucket (set pts)" unfolding set by (simp add: distinct_map)
  from collect_points_spec [OF this] show ?thesis using sort_key_set_eq [OF _ _ d] set by blast
qed

text \<open>What the edge cache answers is honest when every stored value that validates for a query is.\<close>

definition reader_honest :: "date_parser \<Rightarrow> TimeseriesPoint list \<Rightarrow> string \<Rightarrow> edge_reader \<Rightarrow> bool" where
  "reader_honest parse src fp rd \<longleftrightarrow> (\<forall>k data bs w s e. rd k = Some (hit, Some data) \<longrightarrow>
     isBucketCacheSegmentData data fp bs w s e \<longrightarrow> (\<forall>b\<in>set (view_buckets data). honest parse src b))"

lemma read_segment_ok:
  assumes "reader_honest parse src fp rd" "0 < bucketMs" "b \<in> set (seg_buckets (read_segment rd request fp bucketMs segmentMs s))"
  shows "whole_bucket bucketMs b \<and> s \<le> b_start b \<and> b_end b \<le> s + segmentMs \<and> honest parse src b"
proof -
  obtain data where d: "rd (segment_key (req_orgId request) fp s) = Some (hit, Some data)"
    "isBucketCacheSegmentData data fp (req_bucketSeconds request) bucketMs s (s + segmentMs)" "b \<in> set (view_buckets data)"
    using assms(3) by (auto simp: read_segment_def split: option.splits ReadStatus.splits if_splits)
  then show ?thesis using valid_segment_view [OF d(2) assms(2) d(3)] assms(1) unfolding reader_honest_def by blast
qed

lemma seg_start_read [simp]: "seg_start (read_segment rd request fp bucketMs segmentMs s) = s"
  by (simp add: read_segment_def split: option.splits ReadStatus.splits if_splits)

lemma group_buckets_spec:
  assumes "(s, bs) \<in> set (group_buckets segmentMs fresh)" "b \<in> set bs"
  shows "b \<in> set fresh \<and> align segmentMs (b_start b) = s"
  using assms
proof (induction fresh arbitrary: s bs b rule: rev_induct)
  case (snoc x fresh)
  have step: "group_buckets segmentMs (fresh @ [x]) = add_bucket segmentMs (group_buckets segmentMs fresh) x"
    by (simp add: group_buckets_def)
  have upd: "(s, bs) \<in> set (AList.update k v m) \<Longrightarrow> (s, bs) \<in> set m \<or> (s = k \<and> bs = v)"
    for k v and m :: "(int \<times> CachedBucket list) list"
    by (induction m) (auto split: if_splits)
  show ?case
  proof (cases "jsmap_get (group_buckets segmentMs fresh) (align segmentMs (b_start x))")
    case None
    then show ?thesis using snoc upd unfolding step add_bucket_def by fastforce
  next
    case (Some g)
    then have "(align segmentMs (b_start x), g) \<in> set (group_buckets segmentMs fresh)" by (rule map_of_SomeD)
    then show ?thesis using snoc Some upd unfolding step add_bucket_def by fastforce
  qed
qed (simp add: group_buckets_def)

section \<open>One request, as a whole\<close>

lemma find_read:
  assumes "find (\<lambda>r. seg_start r = s) (rev reads) = Some r"
  shows "r \<in> set reads \<and> seg_start r = s"
proof -
  obtain i where "i < length (rev reads)" "seg_start (rev reads ! i) = s" "r = rev reads ! i"
    using assms by (auto simp: find_Some_iff)
  then show ?thesis using nth_mem [of i "rev reads"] by simp
qed

lemma write_segment_buckets:
  assumes "b \<in> set (buckets (snd (write_segment request fp segmentMs reads (s, fresh))))"
  shows "b \<in> set fresh \<or> (\<exists>r\<in>set reads. seg_start r = s \<and> b \<in> set (seg_buckets r))"
proof -
  let ?r = "find (\<lambda>r. seg_start r = s) (rev reads)"
  define ex where "ex = (case ?r of Some r \<Rightarrow> seg_buckets r | None \<Rightarrow> [])"
  define st where "st = (case ?r of Some r \<Rightarrow> seg_status r | None \<Rightarrow> miss)"
  have "buckets (snd (write_segment request fp segmentMs reads (s, fresh))) =
      (if st = timeout \<or> st = skipped \<or> st = read_error then sort_key b_start fresh else mergeAndDeduplicateBuckets ex fresh)"
    unfolding ex_def st_def by (simp only: write_segment_def Let_def fst_conv snd_conv BucketCacheSegmentData.select_convs)
  then have "b \<in> set fresh \<or> b \<in> set (mergeAndDeduplicateBuckets ex fresh)"
    using assms by (simp only: set_sort split: if_splits) blast+
  moreover have "b \<in> set fresh \<or> b \<in> set ex" if "b \<in> set (mergeAndDeduplicateBuckets ex fresh)"
  proof -
    have "if b_start b \<in> b_start ` set fresh then b \<in> set fresh else b \<in> set ex"
      using merge_buckets_spec [of ex fresh] that by blast
    then show ?thesis by (simp split: if_splits)
  qed
  ultimately have "b \<in> set fresh \<or> b \<in> set ex" by blast
  moreover have "\<exists>r\<in>set reads. seg_start r = s \<and> b \<in> set (seg_buckets r)" if "b \<in> set ex"
  proof (cases ?r)
    case None
    then show ?thesis using that by (simp add: ex_def)
  next
    case (Some r)
    then show ?thesis using that find_read [OF Some] unfolding ex_def by auto
  qed
  ultimately show ?thesis by blast
qed

lemma write_segment_fields:
  "fingerprint (snd (write_segment request fp segmentMs reads (s, fresh))) = fp"
  "version (snd (write_segment request fp segmentMs reads (s, fresh))) = 2"
  "bucketSeconds (snd (write_segment request fp segmentMs reads (s, fresh))) = req_bucketSeconds request"
  "segmentStartMs (snd (write_segment request fp segmentMs reads (s, fresh))) = s"
  "segmentEndMs (snd (write_segment request fp segmentMs reads (s, fresh))) = s + segmentMs"
  by (simp_all add: write_segment_def Let_def)

lemma align_bounds: "0 < w \<Longrightarrow> align w t \<le> t \<and> t < align w t + w \<and> align w t mod w = 0"
proof -
  assume w: "0 < w"
  have "align w t mod w = 0" by (simp add: align_def)
  from align_iff [OF w this, of t] this show ?thesis by blast
qed

lemma bucket_in_segment:
  assumes w: "0 < w" and b: "whole_bucket w b" and n: "0 < n"
  shows "align (w * n) (b_start b) \<le> b_start b \<and> b_end b \<le> align (w * n) (b_start b) + w * n"
proof -
  have wn: "0 < w * n" using w n by simp
  note a = align_bounds [OF wn, of "b_start b"]
  have "(align (w * n) (b_start b) + w * n) mod w = 0" by (simp add: align_def)
  then have "b_start b + w \<le> align (w * n) (b_start b) + w * n"
    using aligned_less [OF w, of "b_start b"] b a by (simp add: whole_bucket_def)
  then show ?thesis using a b by (simp add: whole_bucket_def)
qed

lemma covered_honest:
  assumes "0 < bucketMs" "b \<in> set (pointsToCoveredBuckets parse (filter (in_range parse (r_start r) (r_end r)) src) r bucketMs flux)"
  shows "whole_bucket bucketMs b \<and> b_end b \<le> flux \<and> honest parse src b"
proof -
  have b: "whole_bucket bucketMs b" "r_start r \<le> b_start b" "b_end b \<le> r_end r" "b_end b \<le> flux"
    "b_points b = filter (in_range parse (b_start b) (b_end b)) (filter (in_range parse (r_start r) (r_end r)) src)"
    using covered_buckets_spec [OF assms(1)] assms(2) by blast+
  have "in_range parse (r_start r) (r_end r) p" if "in_range parse (b_start b) (b_end b) p" for p
    using that b(2,3) unfolding in_range_def by (cases "parse (bucket p)") auto
  then have "b_points b = filter (in_range parse (b_start b) (b_end b)) src"
    unfolding b(5) filter_filter by (intro filter_cong) auto
  then show ?thesis using b by (simp add: honest_def)
qed

lemma coalesce_length: "length (coalesceMissingRanges missing) \<le> 2"
  by (simp add: coalesceMissingRanges_def Let_def split: option.splits)

text \<open>The step-aligned data of a request, named once for the proofs below.\<close>

definition req_ms :: "BucketCacheRequest \<Rightarrow> int" where
  "req_ms request = req_bucketSeconds request * 1000"

definition req_reads :: "nat \<Rightarrow> string \<Rightarrow> edge_reader \<Rightarrow> BucketCacheRequest \<Rightarrow> SegmentRead list" where
  "req_reads n fp rd request =
     map (read_segment rd request fp (req_ms request) (req_ms request * int n))
       (segmentStartsForRange (req_start request) (req_end request) (req_ms request * int n))"

definition req_cached :: "nat \<Rightarrow> string \<Rightarrow> edge_reader \<Rightarrow> BucketCacheRequest \<Rightarrow> CachedBucket list" where
  "req_cached n fp rd request = sort_key b_start (concat (map seg_buckets (req_reads n fp rd request)))"

definition req_fill :: "nat \<Rightarrow> int \<Rightarrow> string \<Rightarrow> edge_reader \<Rightarrow> BucketCacheRequest \<Rightarrow> MissingRange list" where
  "req_fill n flux fp rd request =
     coalesceMissingRanges (findMissingRanges (req_cached n fp rd request) (req_start request) (req_end request) (req_ms request) flux)"

definition req_fresh :: "date_parser \<Rightarrow> BucketCacheRequest \<Rightarrow> int \<Rightarrow> (MissingRange \<times> TimeseriesPoint list) list \<Rightarrow> CachedBucket list" where
  "req_fresh parse request flux results =
     concat (map (\<lambda>(item, ps). if cachable item
       then pointsToCoveredBuckets parse ps (gap_range item) (req_ms request) flux else []) results)"

lemma getOrComputeBuckets_error:
  "compute_all q (req_fill n (now - fs * 1000) fp rd request) = Inl err \<longleftrightarrow>
   getOrComputeBuckets parse n fs now fp rd q request = Inl err"
  unfolding getOrComputeBuckets_def Let_def req_fill_def req_cached_def req_reads_def req_ms_def
  by (simp split: sum.split)

lemma getOrComputeBuckets_ok:
  assumes "compute_all q (req_fill n (now - fs * 1000) fp rd request) = Inr results"
  obtains out where "getOrComputeBuckets parse n fs now fp rd q request =
      Inr (out, map (write_segment request fp (req_ms request * int n) (req_reads n fp rd request))
                 (group_buckets (req_ms request * int n) (req_fresh parse request (now - fs * 1000) results)))"
    "warehouseQueryCount out = length (req_fill n (now - fs * 1000) fp rd request)"
    "out_points out = sort_key bucket (collect_points
       (slicePointsFromBuckets parse (req_cached n fp rd request) (req_start request) (req_end request) @
        concat (map (\<lambda>(item, ps). filter (in_range parse (req_start request) (req_end request)) ps) results)))"
proof -
  define out where "out = fst (projr (getOrComputeBuckets parse n fs now fp rd q request))"
  have "getOrComputeBuckets parse n fs now fp rd q request =
      Inr (out, map (write_segment request fp (req_ms request * int n) (req_reads n fp rd request))
                 (group_buckets (req_ms request * int n) (req_fresh parse request (now - fs * 1000) results)))"
    using assms unfolding out_def getOrComputeBuckets_def Let_def req_fill_def req_cached_def req_reads_def req_ms_def req_fresh_def
    by simp
  moreover have "warehouseQueryCount out = length (req_fill n (now - fs * 1000) fp rd request)"
    using assms unfolding out_def getOrComputeBuckets_def Let_def req_fill_def req_cached_def req_reads_def req_ms_def by simp
  moreover have "out_points out = sort_key bucket (collect_points
       (slicePointsFromBuckets parse (req_cached n fp rd request) (req_start request) (req_end request) @
        concat (map (\<lambda>(item, ps). filter (in_range parse (req_start request) (req_end request)) ps) results)))"
    using assms unfolding out_def getOrComputeBuckets_def Let_def req_fill_def req_cached_def req_reads_def req_ms_def by simp
  ultimately show thesis using that by blast
qed

lemma segment_starts_nonneg:
  assumes "0 < w" "0 \<le> lo" "s \<in> set (segmentStartsForRange lo hi w)"
  shows "0 \<le> s"
proof -
  have "align w lo \<le> s"
    using assms steps_spec [OF assms(1), of "align w lo" "align w (hi - 1)"] by (auto simp: segmentStartsForRange_def split: if_splits)
  moreover have "0 \<le> align w lo" using assms(1,2) by (simp add: align_def pos_imp_zdiv_nonneg_iff)
  ultimately show ?thesis by linarith
qed

lemma req_cached_ok:
  assumes "reader_honest parse src fp rd" "0 < req_bucketSeconds request" "0 < n" "0 \<le> req_start request"
    and b: "b \<in> set (req_cached n fp rd request)"
  shows "whole_bucket (req_ms request) b \<and> 0 \<le> b_start b \<and> honest parse src b"
proof -
  have w: "0 < req_ms request" "0 < req_ms request * int n" using assms(2,3) by (simp_all add: req_ms_def)
  obtain s where s: "s \<in> set (segmentStartsForRange (req_start request) (req_end request) (req_ms request * int n))"
    "b \<in> set (seg_buckets (read_segment rd request fp (req_ms request) (req_ms request * int n) s))"
    using b by (auto simp: req_cached_def req_reads_def)
  show ?thesis
    using read_segment_ok [OF assms(1) w(1) s(2)] segment_starts_nonneg [OF w(2) assms(4) s(1)] by linarith
qed

text \<open>
  A bucket the cache handed out for a query: it comes from a stored value that validates for the query.
\<close>

definition cached_for :: "string \<Rightarrow> edge_reader \<Rightarrow> CachedBucket \<Rightarrow> bool" where
  "cached_for fp rd b \<longleftrightarrow> (\<exists>k data bs w s e. rd k = Some (hit, Some data) \<and> isBucketCacheSegmentData data fp bs w s e \<and>
     b \<in> set (view_buckets data))"

lemma read_segment_cached:
  "b \<in> set (seg_buckets (read_segment rd request fp w sw s)) \<Longrightarrow> cached_for fp rd b"
  unfolding cached_for_def
  by (auto simp: read_segment_def split: option.splits ReadStatus.splits if_splits) blast

lemma written_bucket:
  assumes src: "source_ok parse src" and rd: "reader_honest parse src fp rd"
    and w: "0 < req_bucketSeconds request" "0 < n"
    and results: "results = map (\<lambda>m. (m, filter (in_range parse (r_start (gap_range m)) (r_end (gap_range m))) src)) fill"
    and e: "(s, bs) \<in> set (group_buckets (req_ms request * int n) (req_fresh parse request flux results))"
    and b: "b \<in> set (buckets (snd (write_segment request fp (req_ms request * int n) (req_reads n fp rd request) (s, bs))))"
  shows "whole_bucket (req_ms request) b \<and> s \<le> b_start b \<and> b_end b \<le> s + req_ms request * int n \<and>
    honest parse src b \<and> (cached_for fp rd b \<or> b_end b \<le> flux)"
proof -
  have ms: "0 < req_ms request" using w by (simp add: req_ms_def)
  from write_segment_buckets [OF b] show ?thesis
  proof
    assume "b \<in> set bs"
    then have g: "b \<in> set (req_fresh parse request flux results)" "align (req_ms request * int n) (b_start b) = s"
      using group_buckets_spec [OF e] by blast+
    then obtain m where "m \<in> set fill" "b \<in> set (pointsToCoveredBuckets parse
        (filter (in_range parse (r_start (gap_range m)) (r_end (gap_range m))) src) (gap_range m) (req_ms request) flux)"
      unfolding req_fresh_def results by (auto split: if_splits)
    from covered_honest [OF ms this(2)] show ?thesis
      using bucket_in_segment [OF ms, of b "int n"] w(2) g(2) by simp
  next
    assume "\<exists>r\<in>set (req_reads n fp rd request). seg_start r = s \<and> b \<in> set (seg_buckets r)"
    then have r: "b \<in> set (seg_buckets (read_segment rd request fp (req_ms request) (req_ms request * int n) s))"
      by (auto simp: req_reads_def)
    show ?thesis using read_segment_ok [OF rd ms r] read_segment_cached [OF r] by blast
  qed
qed

lemma bucket_cache_request:
  assumes src: "source_ok parse src" and w: "0 < req_bucketSeconds request" "0 < n" "0 \<le> req_start request"
    and rd: "reader_honest parse src fp rd" and q: "q = source_query parse src"
  obtains out writes where
    "getOrComputeBuckets parse n fs now fp rd q request = Inr (out, writes)"
    "out_points out = sort_key bucket (filter (in_range parse (req_start request) (req_end request)) src)"
    "warehouseQueryCount out \<le> 2"
    "\<And>k d. (k, d) \<in> set writes \<Longrightarrow>
       fingerprint d = fp \<and> k = segment_key (req_orgId request) fp (segmentStartMs d) \<and>
       isBucketCacheSegmentData (segment_json d) fp (req_bucketSeconds request) (req_bucketSeconds request * 1000)
         (segmentStartMs d) (segmentEndMs d) \<and>
       (\<forall>b\<in>set (buckets d). honest parse src b \<and> (cached_for fp rd b \<or> b_end b \<le> now - fs * 1000))"
proof -
  let ?flux = "now - fs * 1000"
  let ?fill = "req_fill n ?flux fp rd request"
  define results where "results = map (\<lambda>m. (m, filter (in_range parse (r_start (gap_range m)) (r_end (gap_range m))) src)) ?fill"
  have c: "compute_all q ?fill = Inr results" unfolding results_def q by (rule compute_all_source)
  from getOrComputeBuckets_ok [OF c, where parse = parse] obtain out where
    o: "getOrComputeBuckets parse n fs now fp rd q request =
      Inr (out, map (write_segment request fp (req_ms request * int n) (req_reads n fp rd request))
                 (group_buckets (req_ms request * int n) (req_fresh parse request ?flux results)))"
    "warehouseQueryCount out = length ?fill"
    "out_points out = sort_key bucket (collect_points
       (slicePointsFromBuckets parse (req_cached n fp rd request) (req_start request) (req_end request) @
        concat (map (\<lambda>(item, ps). filter (in_range parse (req_start request) (req_end request)) ps) results)))" .
  have ms: "0 < req_ms request" using w by (simp add: req_ms_def)
  have cc: "\<forall>b\<in>set (req_cached n fp rd request). whole_bucket (req_ms request) b \<and> 0 \<le> b_start b \<and> honest parse src b"
    using req_cached_ok [OF rd w] by blast
  have sc: "sorted (map b_start (req_cached n fp rd request))" by (simp add: req_cached_def)
  have pts: "out_points out = sort_key bucket (filter (in_range parse (req_start request) (req_end request)) src)"
    unfolding o(3) by (rule answer_points [OF src ms w(3) sc cc refl]) (simp add: results_def req_fill_def comp_def)
  have len: "warehouseQueryCount out \<le> 2" unfolding o(2) req_fill_def by (rule coalesce_length)
  show thesis
  proof (rule that [OF o(1) pts len])
    fix k d
    assume "(k, d) \<in> set (map (write_segment request fp (req_ms request * int n) (req_reads n fp rd request))
                 (group_buckets (req_ms request * int n) (req_fresh parse request ?flux results)))"
    then obtain s bs where e: "(s, bs) \<in> set (group_buckets (req_ms request * int n) (req_fresh parse request ?flux results))"
      and kd: "(k, d) = write_segment request fp (req_ms request * int n) (req_reads n fp rd request) (s, bs)" by auto
    have d: "d = snd (write_segment request fp (req_ms request * int n) (req_reads n fp rd request) (s, bs))"
      using kd by (metis snd_conv)
    have k: "k = segment_key (req_orgId request) fp s" using kd by (simp add: write_segment_def Let_def)
    have f: "fingerprint d = fp" "version d = 2" "bucketSeconds d = req_bucketSeconds request" "segmentStartMs d = s"
      "segmentEndMs d = s + req_ms request * int n" unfolding d by (rule write_segment_fields)+
    have B: "whole_bucket (req_ms request) b \<and> s \<le> b_start b \<and> b_end b \<le> s + req_ms request * int n \<and>
        honest parse src b \<and> (cached_for fp rd b \<or> b_end b \<le> ?flux)" if "b \<in> set (buckets d)" for b
      using written_bucket [OF src rd w(1,2) results_def e] that unfolding d by blast
    have "is_object (series p)" if "b \<in> set (buckets d)" "p \<in> set (b_points b)" for b p
      using B [OF that(1)] that(2) src by (auto simp: honest_def source_ok_def)
    then have "isBucketCacheSegmentData (segment_json d) (fingerprint d) (bucketSeconds d) (req_ms request) (segmentStartMs d) (segmentEndMs d)"
      using B f by (intro segment_json_valid [OF f(2) ms]) auto
    then show "fingerprint d = fp \<and> k = segment_key (req_orgId request) fp (segmentStartMs d) \<and>
       isBucketCacheSegmentData (segment_json d) fp (req_bucketSeconds request) (req_bucketSeconds request * 1000)
         (segmentStartMs d) (segmentEndMs d) \<and>
       (\<forall>b\<in>set (buckets d). honest parse src b \<and> (cached_for fp rd b \<or> b_end b \<le> ?flux))"
      using B f k by (simp add: req_ms_def)
  qed
qed

lemma compute_all_error:
  "compute_all q ms = Inl err \<longleftrightarrow>
     (\<exists>before m after. ms = before @ m # after \<and> list_all (\<lambda>x. \<not> isl (q (gap_range x))) before \<and> q (gap_range m) = Inl err)"
proof (induction ms)
  case (Cons m ms)
  let ?ok = "\<lambda>x. \<not> isl (q (gap_range x))"
  show ?case
  proof (cases "q (gap_range m)")
    case (Inl e)
    have "(\<exists>before m' after. m # ms = before @ m' # after \<and> list_all (\<lambda>x. \<not> isl (q (gap_range x))) before \<and>
        q (gap_range m') = Inl err) \<longleftrightarrow> q (gap_range m) = Inl err"
    proof
      assume "q (gap_range m) = Inl err"
      then show "\<exists>before m' after. m # ms = before @ m' # after \<and> list_all (\<lambda>x. \<not> isl (q (gap_range x))) before \<and>
        q (gap_range m') = Inl err" by (intro exI [of _ "[]"] exI [of _ m] exI [of _ ms]) simp
    qed (auto simp: Cons_eq_append_conv Inl)
    then show ?thesis using Inl by simp
  next
    case (Inr ps)
    have "compute_all q (m # ms) = Inl err \<longleftrightarrow> compute_all q ms = Inl err" using Inr by (simp split: sum.splits)
    moreover have "(\<exists>before m' after. m # ms = before @ m' # after \<and> list_all ?ok before \<and> q (gap_range m') = Inl err) \<longleftrightarrow>
        (\<exists>before m' after. ms = before @ m' # after \<and> list_all ?ok before \<and> q (gap_range m') = Inl err)"
    proof
      assume "\<exists>before m' after. m # ms = before @ m' # after \<and> list_all ?ok before \<and> q (gap_range m') = Inl err"
      then obtain before m' after where b: "m # ms = before @ m' # after" "list_all ?ok before" "q (gap_range m') = Inl err" by blast
      then show "\<exists>before m' after. ms = before @ m' # after \<and> list_all ?ok before \<and> q (gap_range m') = Inl err"
        using Inr by (cases before) auto
    next
      assume "\<exists>before m' after. ms = before @ m' # after \<and> list_all ?ok before \<and> q (gap_range m') = Inl err"
      then obtain before m' after where b: "ms = before @ m' # after" "list_all ?ok before" "q (gap_range m') = Inl err" by blast
      then show "\<exists>before m' after. m # ms = before @ m' # after \<and> list_all ?ok before \<and> q (gap_range m') = Inl err"
        using Inr by (intro exI [of _ "m # before"] exI [of _ m'] exI [of _ after]) simp
    qed
    ultimately show ?thesis unfolding Cons.IH by simp
  qed
qed simp

section \<open>Sessions\<close>

text \<open>
  A session is a sequence of requests against one edge cache. Each step has its time, the query's
  fingerprint, the request, what the warehouse holds for the query at that time, which keys the cache
  answers for (the rest of the reads fail) and which writes reach the cache.
\<close>

record session_step =
  s_now :: int
  s_fp :: string
  s_request :: BucketCacheRequest
  s_src :: "TimeseriesPoint list"
  s_available :: "string \<Rightarrow> bool"
  s_kept :: "string \<Rightarrow> bool"
















section \<open>Properties\<close>


text \<open>Two requests for one query; between them a point arrives that the first one could not see.\<close>

definition sample_parse :: date_parser where
  "sample_parse s = map_of [(''a'', 500), (''b'', 1500), (''c'', 2500)] s"

definition sample_point :: "string \<Rightarrow> TimeseriesPoint" where
  "sample_point s = \<lparr>bucket = s, series = JObject []\<rparr>"

definition sample_step :: "int \<Rightarrow> string list \<Rightarrow> session_step" where
  "sample_step now labels = \<lparr>s_now = now, s_fp = ''f'',
     s_request = \<lparr>req_orgId = ''o'', req_bucketSeconds = 1, req_start = 0, req_end = 3000\<rparr>,
     s_src = map sample_point labels, s_available = (\<lambda>_. True), s_kept = (\<lambda>_. True)\<rparr>"


text \<open>
  A request fails exactly when one of its warehouse queries fails, with the error of the first one
  that does. No failure of the edge cache makes it fail.
\<close>

theorem getOrComputeBuckets_fails:
  "getOrComputeBuckets parse n fs now fp rd computeRange request = Inl err \<longleftrightarrow>
   (\<exists>before m after. req_fill n (now - fs * 1000) fp rd request = before @ m # after \<and>
      list_all (\<lambda>x. \<not> isl (computeRange (gap_range x))) before \<and> computeRange (gap_range m) = Inl err)"
  unfolding getOrComputeBuckets_error [symmetric] by (rule compute_all_error)

text \<open>
  What a request writes back validates when it is read for the same query and segment, goes to the
  key it is read from, and holds for each bucket exactly the warehouse's points, either as the cache
  had them or from before the flux boundary.
\<close>

theorem written_segments_valid:
  assumes "source_ok parse src" "0 < req_bucketSeconds request" "0 < n" "0 \<le> req_start request"
    "reader_honest parse src fp rd"
    "getOrComputeBuckets parse n fs now fp rd (source_query parse src :: TimeRange \<Rightarrow> 'e + TimeseriesPoint list) request = Inr (out, writes)" "(k, d) \<in> set writes"
  shows "k = segment_key (req_orgId request) fp (segmentStartMs d) \<and> warehouseQueryCount out \<le> 2 \<and>
    isBucketCacheSegmentData (segment_json d) fp (req_bucketSeconds request) (req_bucketSeconds request * 1000)
      (segmentStartMs d) (segmentEndMs d) \<and> view_buckets (segment_json d) = buckets d \<and>
    (\<forall>b\<in>set (buckets d). honest parse src b \<and> (cached_for fp rd b \<or> b_end b \<le> now - fs * 1000))"
proof -
  from bucket_cache_request [OF assms(1-5) refl, where fs = fs and now = now and 'a = 'e] obtain out' writes' where
    o: "getOrComputeBuckets parse n fs now fp rd (source_query parse src :: TimeRange \<Rightarrow> 'e + TimeseriesPoint list) request = Inr (out', writes')"
    "out_points out' = sort_key bucket (filter (in_range parse (req_start request) (req_end request)) src)"
    "warehouseQueryCount out' \<le> 2"
    "\<And>k d. (k, d) \<in> set writes' \<Longrightarrow>
       fingerprint d = fp \<and> k = segment_key (req_orgId request) fp (segmentStartMs d) \<and>
       isBucketCacheSegmentData (segment_json d) fp (req_bucketSeconds request) (req_bucketSeconds request * 1000)
         (segmentStartMs d) (segmentEndMs d) \<and>
       (\<forall>b\<in>set (buckets d). honest parse src b \<and> (cached_for fp rd b \<or> b_end b \<le> now - fs * 1000))"
    by metis
  have eq: "out' = out" "writes' = writes" using assms(6) o(1) by simp_all
  show ?thesis using o(3) o(4) [of k d] assms(7) unfolding eq view_segment_json by blast
qed

theorem written_segments_valid_witness:
  "\<exists>out k d. getOrComputeBuckets sample_parse 2 1 3000 ''f'' (\<lambda>_. None)
      (source_query sample_parse [sample_point ''b'', sample_point ''a''] :: TimeRange \<Rightarrow> unit + TimeseriesPoint list)
      (s_request (sample_step 0 [])) = Inr (out, [(k, d)]) \<and>
    isBucketCacheSegmentData (segment_json d) ''f'' 1 1000 (segmentStartMs d) (segmentEndMs d)"
proof -
  let ?src = "[sample_point ''b'', sample_point ''a'']"
  let ?q = "source_query sample_parse ?src :: TimeRange \<Rightarrow> unit + TimeseriesPoint list"
  have "case getOrComputeBuckets sample_parse 2 1 3000 ''f'' (\<lambda>_. None) ?q (s_request (sample_step 0 [])) of
      Inl _ \<Rightarrow> False | Inr (_, ws) \<Rightarrow> length ws = 1" by code_simp
  then obtain out k d where g: "getOrComputeBuckets sample_parse 2 1 3000 ''f'' (\<lambda>_. None) ?q (s_request (sample_step 0 [])) =
      Inr (out, [(k, d)])" by (auto simp: length_Suc_conv split: sum.splits)
  have "isBucketCacheSegmentData (segment_json d) ''f'' 1 1000 (segmentStartMs d) (segmentEndMs d)"
    using written_segments_valid [OF _ _ _ _ _ g, of k d]
    by (simp add: source_ok_def reader_honest_def sample_step_def sample_point_def sample_parse_def)
  then show ?thesis using g by blast
qed

end
