(* ===== verification/Event_Registry.thy ===== *)
theory Event_Registry
  imports Event_Envelope
begin

text \<open>
  Signal sources and projections, after \<^verbatim>\<open>packages/eventing-core/src/source.ts\<close> and \<^verbatim>\<open>registry.ts\<close>: the source
  registry with its field catalogues, the projector registry, and the compiled projection registry that
  turns one signal into events.

  A projector's codecs and its projection are functions a host registers; each may throw, which is \<open>Inl\<close>
  with the error's message. Registries are association lists in insertion order.
\<close>

section \<open>Sources\<close>

datatype SignalLeafOperator = leaf_exists | leaf_in | leaf_comparison comparison

fun operator_name :: "SignalLeafOperator \<Rightarrow> string" where
  "operator_name leaf_exists = ''exists''"
| "operator_name leaf_in = ''in''"
| "operator_name (leaf_comparison c) = comparison_name c"

datatype Sensitivity = sens_public | sens_sensitive
datatype ReplayCapability = replay_exact | replay_coerced | replay_unavailable

text \<open>An entry names a field with its type, or a field by name with the types it may have.\<close>

datatype CatalogField = TypedField FieldRef | MultiTypeField FieldNamespace string "SignalScalarType list"

record SignalFieldCatalogEntry =
  entry_field :: CatalogField
  entry_operators :: "SignalLeafOperator list"
  entry_sensitivity :: Sensitivity
  entry_replay :: ReplayCapability

record OpenFieldNamespacePolicy =
  open_namespace :: FieldNamespace
  open_types :: "SignalScalarType list"
  open_operators :: "SignalLeafOperator list"
  open_sensitivity :: Sensitivity
  open_replay :: ReplayCapability

record SignalSourceDefinition =
  def_sourceKind :: string
  def_fields :: "SignalFieldCatalogEntry list"
  def_openFields :: "OpenFieldNamespacePolicy list option"

record RegisteredSignalSource =
  reg_definition :: SignalSourceDefinition
  reg_fields :: "(string, SignalFieldCatalogEntry) jsmap"
  reg_openFields :: "(FieldNamespace, OpenFieldNamespacePolicy) jsmap"

definition key_of :: "FieldNamespace \<Rightarrow> string \<Rightarrow> string" where
  "key_of ns k = namespace_name ns @ '':'' @ k"

definition entry_key :: "SignalFieldCatalogEntry \<Rightarrow> string" where
  "entry_key e = (case entry_field e of TypedField f \<Rightarrow> fieldKey f | MultiTypeField ns k _ \<Rightarrow> key_of ns k)"

definition catalogEntryTypes :: "SignalFieldCatalogEntry \<Rightarrow> SignalScalarType list" where
  "catalogEntryTypes e = (case entry_field e of MultiTypeField _ _ types \<Rightarrow> types | TypedField f \<Rightarrow> [field_type f])"

definition field_key_ok :: "string \<Rightarrow> bool" where
  "field_key_ok k \<longleftrightarrow> 1 \<le> length k \<and> length k \<le> 512"

definition SourceDefinitionSchema :: "SignalSourceDefinition \<Rightarrow> bool" where
  "SourceDefinitionSchema d \<longleftrightarrow>
     def_sourceKind d \<noteq> [] \<and> is_trimmed (def_sourceKind d) \<and>
     list_all (\<lambda>e. entry_operators e \<noteq> [] \<and>
       (case entry_field e of TypedField f \<Rightarrow> field_key_ok (field_name f)
                            | MultiTypeField _ k types \<Rightarrow> field_key_ok k \<and> types \<noteq> [])) (def_fields d) \<and>
     (case def_openFields d of
        None \<Rightarrow> True
      | Some ps \<Rightarrow> list_all (\<lambda>p. open_operators p \<noteq> [] \<and> open_types p \<noteq> []) ps)"

datatype SignalSourceInvalid =
    SourceSchemaInvalid string
  | DuplicateSource string
  | DuplicateField string string
  | DuplicateOpenField string FieldNamespace

type_synonym SignalSourceRegistry = "(string, RegisteredSignalSource) jsmap"

text \<open>The loops that fill a map and stop at the first key they meet twice.\<close>

fun index_by :: "('a \<Rightarrow> 'k) \<Rightarrow> 'a list \<Rightarrow> ('k, 'a) jsmap \<Rightarrow> 'k + ('k, 'a) jsmap" where
  "index_by key [] m = Inr m"
| "index_by key (x # xs) m = (if jsmap_has m (key x) then Inl (key x) else index_by key xs (jsmap_set (key x) x m))"

definition register_source ::
  "SignalSourceRegistry \<Rightarrow> SignalSourceDefinition \<Rightarrow> SignalSourceInvalid + SignalSourceRegistry" where
  "register_source sources d =
     (if \<not> SourceDefinitionSchema d then Inl (SourceSchemaInvalid (def_sourceKind d))
      else if jsmap_has sources (def_sourceKind d) then Inl (DuplicateSource (def_sourceKind d))
      else
        (case index_by entry_key (def_fields d) [] of
           Inl k \<Rightarrow> Inl (DuplicateField (def_sourceKind d) k)
         | Inr fs \<Rightarrow>
             (case index_by open_namespace (case def_openFields d of None \<Rightarrow> [] | Some ps \<Rightarrow> ps) [] of
                Inl ns \<Rightarrow> Inl (DuplicateOpenField (def_sourceKind d) ns)
              | Inr os \<Rightarrow>
                  Inr (jsmap_set (def_sourceKind d) \<lparr>reg_definition = d, reg_fields = fs, reg_openFields = os\<rparr> sources))))"

definition get_source :: "SignalSourceRegistry \<Rightarrow> string \<Rightarrow> RegisteredSignalSource option" where
  "get_source sources sourceKind = jsmap_get sources sourceKind"

record LeafField =
  leaf_field :: FieldRef
  leaf_operator :: SignalLeafOperator
  leaf_path :: string

fun leaf_visit :: "SignalPredicate \<Rightarrow> string \<Rightarrow> LeafField list"
  and leaf_clauses :: "SignalPredicate list \<Rightarrow> nat \<Rightarrow> string \<Rightarrow> LeafField list" where
  "leaf_visit (AllPredicate cs) path = leaf_clauses cs 0 path"
| "leaf_visit (AnyPredicate cs) path = leaf_clauses cs 0 path"
| "leaf_visit (NotPredicate c) path = leaf_visit c (path @ ''.clause'')"
| "leaf_visit (ExistsPredicate f) path = [\<lparr>leaf_field = f, leaf_operator = leaf_exists, leaf_path = path\<rparr>]"
| "leaf_visit (ComparisonPredicate c f v) path = [\<lparr>leaf_field = f, leaf_operator = leaf_comparison c, leaf_path = path\<rparr>]"
| "leaf_visit (InPredicate f vs) path = [\<lparr>leaf_field = f, leaf_operator = leaf_in, leaf_path = path\<rparr>]"
| "leaf_clauses [] i path = []"
| "leaf_clauses (c # cs) i path = leaf_visit c (path @ ''.clauses['' @ js_String_nat i @ '']'') @ leaf_clauses cs (Suc i) path"

definition leafFields :: "SignalPredicate \<Rightarrow> LeafField list" where
  "leafFields predicate = leaf_visit predicate ''selector''"

definition leaf_issues :: "RegisteredSignalSource \<Rightarrow> LeafField \<Rightarrow> ValidationIssue list" where
  "leaf_issues source leaf =
     (let f = leaf_field leaf; opr = leaf_operator leaf; path = leaf_path leaf
      in case jsmap_get (reg_fields source) (fieldKey f) of
           Some e \<Rightarrow>
             (if field_type f \<notin> set (catalogEntryTypes e)
              then [\<lparr>issue_path = path @ ''.field.type'',
                     issue_message = ''catalog field '' @ fieldKey f @ '' allows '' @ js_join '', '' (map type_name (catalogEntryTypes e))\<rparr>]
              else []) @
             (if opr \<notin> set (entry_operators e)
              then [\<lparr>issue_path = path @ ''.op'',
                     issue_message = operator_name opr @ '' is not allowed for catalog field '' @ fieldKey f\<rparr>] else [])
         | None \<Rightarrow>
             (case jsmap_get (reg_openFields source) (field_namespace f) of
                None \<Rightarrow>
                  [\<lparr>issue_path = path @ ''.field'',
                    issue_message = ''unknown field '' @ fieldKey f @ '' for source '' @ def_sourceKind (reg_definition source)\<rparr>]
              | Some p \<Rightarrow>
                  (if field_type f \<notin> set (open_types p)
                   then [\<lparr>issue_path = path @ ''.field.type'',
                          issue_message = type_name (field_type f) @ '' is not allowed for open '' @
                            namespace_name (field_namespace f) @ '' fields''\<rparr>] else []) @
                  (if opr \<notin> set (open_operators p)
                   then [\<lparr>issue_path = path @ ''.op'',
                          issue_message = operator_name opr @ '' is not allowed for open '' @
                            namespace_name (field_namespace f) @ '' fields''\<rparr>] else [])))"

definition validatePredicateAgainstSource :: "SignalPredicate \<Rightarrow> RegisteredSignalSource \<Rightarrow> ValidationIssue list" where
  "validatePredicateAgainstSource predicate source = concat (map (leaf_issues source) (leafFields predicate))"

section \<open>Projectors\<close>

record ProjectedEventData =
  proj_subject :: "string option option"
  proj_time :: "string option"
  proj_data :: json

record 'c SignalProjector =
  pr_id :: string
  pr_version :: int
  pr_sourceKinds :: "string list"
  pr_outputType :: string
  pr_dataSchema :: string
  pr_decodeConfig :: "json \<Rightarrow> string + 'c"
  pr_decodeOutput :: "json \<Rightarrow> string + json"
  pr_project :: "NormalizedSignal \<Rightarrow> 'c \<Rightarrow> string + ProjectedEventData"

type_synonym prepared = "NormalizedSignal \<Rightarrow> string + ProjectedEventData"

record ErasedSignalProjector =
  er_id :: string
  er_version :: int
  er_sourceKinds :: "string list"
  er_outputType :: string
  er_dataSchema :: string
  er_decodeOutput :: "json \<Rightarrow> string + json"
  er_prepare :: "json \<Rightarrow> string + prepared"

type_synonym ProjectorRegistry = "(string, ErasedSignalProjector) jsmap"

datatype ProjectionInvalid =
    ProjectorMetadataInvalid
  | DuplicateProjector string
  | SpecSchemaInvalid
  | UnregisteredSource string
  | InvalidProjection string "ValidationIssue list"
  | DuplicateRevision string string
  | UnregisteredProjector string
  | SourceNotAccepted string
  | InvalidActiveFrom string
  | PredicateInvalid string "ValidationIssue list"
  | InvalidProjectorConfig string
  | AcceptanceTimeInvalid

definition ProjectorMetadataSchema :: "'c SignalProjector \<Rightarrow> bool" where
  "ProjectorMetadataSchema p \<longleftrightarrow>
     pr_id p \<noteq> [] \<and> is_trimmed (pr_id p) \<and> pr_version p > 0 \<and> pr_sourceKinds p \<noteq> [] \<and> [] \<notin> set (pr_sourceKinds p) \<and>
     pr_outputType p \<noteq> [] \<and> is_trimmed (pr_outputType p) \<and> pr_dataSchema p \<noteq> [] \<and> is_trimmed (pr_dataSchema p)"

definition projector_key :: "string \<Rightarrow> int \<Rightarrow> string" where
  "projector_key i version = i @ ''@'' @ js_String_int version"

definition erase :: "'c SignalProjector \<Rightarrow> ErasedSignalProjector" where
  "erase p = \<lparr>er_id = pr_id p, er_version = pr_version p, er_sourceKinds = pr_sourceKinds p, er_outputType = pr_outputType p,
     er_dataSchema = pr_dataSchema p, er_decodeOutput = pr_decodeOutput p,
     er_prepare = (\<lambda>v. case pr_decodeConfig p v of Inl e \<Rightarrow> Inl e | Inr config \<Rightarrow> Inr (\<lambda>signal. pr_project p signal config))\<rparr>"

definition register_projector :: "ProjectorRegistry \<Rightarrow> 'c SignalProjector \<Rightarrow> ProjectionInvalid + ProjectorRegistry" where
  "register_projector projectors p =
     (if \<not> ProjectorMetadataSchema p then Inl ProjectorMetadataInvalid
      else let key = projector_key (pr_id p) (pr_version p)
           in if jsmap_has projectors key then Inl (DuplicateProjector key) else Inr (jsmap_set key (erase p) projectors))"

definition get_projector :: "ProjectorRegistry \<Rightarrow> string \<Rightarrow> int \<Rightarrow> ErasedSignalProjector option" where
  "get_projector projectors i version = jsmap_get projectors (projector_key i version)"

section \<open>Projections\<close>

text \<open>What the schema of a projection adds to its type.\<close>

fun literal_schema :: "SignalScalar \<Rightarrow> bool" where
  "literal_schema (StringScalar s) = (length s \<le> MAX_STRING_LITERAL_CHARACTERS)"
| "literal_schema (BooleanScalar _) = True"
| "literal_schema (Int64Scalar s) = (length s \<le> MAX_DECIMAL_INT64_LENGTH \<and> rx_test DECIMAL_INT64_PATTERN s)"
| "literal_schema (Float64Scalar n) = js_isFinite n"
| "literal_schema (TimestampScalar s) = rx_test RFC3339_TIMESTAMP_PATTERN s"
| "literal_schema (DurationScalar s) = (length s \<le> MAX_DECIMAL_INT64_LENGTH \<and> rx_test DECIMAL_INT64_PATTERN s)"

fun predicate_schema :: "SignalPredicate \<Rightarrow> bool" where
  "predicate_schema (AllPredicate cs) = (1 \<le> length cs \<and> length cs \<le> MAX_PREDICATE_NODES \<and> list_all predicate_schema cs)"
| "predicate_schema (AnyPredicate cs) = (1 \<le> length cs \<and> length cs \<le> MAX_PREDICATE_NODES \<and> list_all predicate_schema cs)"
| "predicate_schema (NotPredicate c) = predicate_schema c"
| "predicate_schema (ExistsPredicate f) = field_key_ok (field_name f)"
| "predicate_schema (ComparisonPredicate c f v) = (field_key_ok (field_name f) \<and> literal_schema v)"
| "predicate_schema (InPredicate f vs) =
     (field_key_ok (field_name f) \<and> 1 \<le> length vs \<and> length vs \<le> MAX_IN_VALUES \<and> list_all literal_schema vs)"

definition SignalPredicateSchema :: "SignalPredicate \<Rightarrow> bool" where
  "SignalPredicateSchema p \<longleftrightarrow> predicateInputBudgetIssue pred_heap (Some (R_pred p)) = None \<and> predicate_schema p"

definition SignalProjectionSpecSchema :: "SignalProjectionSpec \<Rightarrow> bool" where
  "SignalProjectionSpecSchema s \<longleftrightarrow>
     NonEmptyIdentifier (spec_id s) \<and> revision s > 0 \<and> NonEmptyIdentifier (spec_tenantId s) \<and>
     NonEmptyIdentifier (spec_sourceKind s) \<and> SignalPredicateSchema (selector s) \<and>
     NonEmptyIdentifier (ref_id (projector s)) \<and> ref_version (projector s) > 0 \<and> Rfc3339Timestamp (activeFrom s)"

definition validateSignalProjectionSpec :: "bigint_decoder \<Rightarrow> SignalProjectionSpec \<Rightarrow> ValidationIssue list" where
  "validateSignalProjectionSpec bi s =
     (if timestampToEpochNanos (activeFrom s) = None
      then [\<lparr>issue_path = ''activeFrom'', issue_message = ''must be a valid RFC 3339 instant with an explicit offset''\<rparr>] else [])
     @ validateSignalPredicate bi (selector s)"

record CompiledProjection =
  cp_spec :: SignalProjectionSpec
  cp_evaluate :: CompiledSignalPredicate
  cp_projector :: ErasedSignalProjector
  cp_project :: prepared
  cp_activeFromNanos :: int

type_synonym CompiledProjectionRegistry = "(string, CompiledProjection list) jsmap"

definition revisionKey :: "SignalProjectionSpec \<Rightarrow> string" where
  "revisionKey s = spec_tenantId s @ '':'' @ spec_id s @ ''@'' @ js_String_int (revision s)"

text \<open>An enabled spec, compiled.\<close>

definition compile_spec :: "bigint_decoder \<Rightarrow> ProjectorRegistry \<Rightarrow> SignalProjectionSpec \<Rightarrow> ProjectionInvalid + CompiledProjection" where
  "compile_spec bi projectors s =
     (case get_projector projectors (ref_id (projector s)) (ref_version (projector s)) of
        None \<Rightarrow> Inl (UnregisteredProjector (spec_id s))
      | Some p \<Rightarrow>
          if spec_sourceKind s \<notin> set (er_sourceKinds p) then Inl (SourceNotAccepted (spec_id s))
          else
            (case timestampToEpochNanos (activeFrom s) of
               None \<Rightarrow> Inl (InvalidActiveFrom (spec_id s))
             | Some activeFromNanos \<Rightarrow>
                 (case compileSignalPredicate bi (selector s) of
                    Inl issues \<Rightarrow> Inl (PredicateInvalid (spec_id s) issues)
                  | Inr evaluate \<Rightarrow>
                      (case er_prepare p (ref_config (projector s)) of
                         Inl _ \<Rightarrow> Inl (InvalidProjectorConfig (spec_id s))
                       | Inr project \<Rightarrow>
                           Inr \<lparr>cp_spec = s, cp_evaluate = evaluate, cp_projector = p, cp_project = project,
                                cp_activeFromNanos = activeFromNanos\<rparr>))))"

definition push_compiled :: "CompiledProjection \<Rightarrow> CompiledProjectionRegistry \<Rightarrow> CompiledProjectionRegistry" where
  "push_compiled c reg =
     (case jsmap_get reg (spec_sourceKind (cp_spec c)) of
        Some bucket \<Rightarrow> jsmap_set (spec_sourceKind (cp_spec c)) (bucket @ [c]) reg
      | None \<Rightarrow> jsmap_set (spec_sourceKind (cp_spec c)) [c] reg)"

fun compile_loop :: "bigint_decoder \<Rightarrow> SignalSourceRegistry \<Rightarrow> ProjectorRegistry \<Rightarrow> SignalProjectionSpec list \<Rightarrow>
    CompiledProjectionRegistry \<Rightarrow> string list \<Rightarrow> ProjectionInvalid + CompiledProjectionRegistry" where
  "compile_loop bi sources projectors [] reg revisions = Inr reg"
| "compile_loop bi sources projectors (s # specs) reg revisions =
     (if \<not> SignalProjectionSpecSchema s then Inl SpecSchemaInvalid
      else
        (case get_source sources (spec_sourceKind s) of
           None \<Rightarrow> Inl (UnregisteredSource (spec_id s))
         | Some source \<Rightarrow>
             (let issues = validateSignalProjectionSpec bi s @ validatePredicateAgainstSource (selector s) source
              in if issues \<noteq> [] then Inl (InvalidProjection (spec_id s) issues)
                 else if revisionKey s \<in> set revisions then Inl (DuplicateRevision (spec_id s) (revisionKey s))
                 else if \<not> enabled s then compile_loop bi sources projectors specs reg (revisionKey s # revisions)
                 else
                   (case compile_spec bi projectors s of
                      Inl err \<Rightarrow> Inl err
                    | Inr c \<Rightarrow> compile_loop bi sources projectors specs (push_compiled c reg) (revisionKey s # revisions)))))"

definition compile_registry :: "bigint_decoder \<Rightarrow> SignalProjectionSpec list \<Rightarrow> SignalSourceRegistry \<Rightarrow> ProjectorRegistry \<Rightarrow>
    ProjectionInvalid + CompiledProjectionRegistry" where
  "compile_registry bi specs sources projectors = compile_loop bi sources projectors specs [] []"

text \<open>A failed projection: what the codecs throw, or why the envelope is refused.\<close>

datatype projection_error = Thrown string | Refused CloudEventInvalid

record ProjectionFailure =
  fail_projectionId :: string
  fail_projectionRevision :: int
  fail_occurrenceId :: "string option"
  fail_error :: projection_error

record ProjectionBatchResult =
  batch_events :: "MapleCloudEvent list"
  batch_failures :: "ProjectionFailure list"
  batch_typeMismatchFields :: "string list"

definition project_signal :: "(string \<Rightarrow> string) \<Rightarrow> (rat \<Rightarrow> string) \<Rightarrow> NormalizedSignal \<Rightarrow> CompiledProjection \<Rightarrow>
    projection_error + MapleCloudEvent" where
  "project_signal sha256 number_text signal c =
     (case cp_project c signal of
        Inl e \<Rightarrow> Inl (Thrown e)
      | Inr projected \<Rightarrow>
          (case er_decodeOutput (cp_projector c) (proj_data projected) of
             Inl e \<Rightarrow> Inl (Thrown e)
           | Inr data \<Rightarrow>
               map_sum Refused id (makeCloudEvent sha256 number_text
                 \<lparr>in_signal = signal, in_projection = cp_spec c, in_projectorId = er_id (cp_projector c),
                  in_projectorVersion = er_version (cp_projector c), in_outputType = er_outputType (cp_projector c),
                  in_dataSchema = er_dataSchema (cp_projector c), in_subject = proj_subject projected,
                  in_time = proj_time projected, in_data = data\<rparr>)))"

definition set_add :: "'a \<Rightarrow> 'a list \<Rightarrow> 'a list" where
  "set_add x xs = (if x \<in> set xs then xs else xs @ [x])"

text \<open>One projection of the loop. \<open>None\<close> would be an exception that leaves \<open>evaluate\<close>.\<close>

definition evaluate_projection :: "(string \<Rightarrow> string) \<Rightarrow> (rat \<Rightarrow> string) \<Rightarrow> NormalizedSignal \<Rightarrow> int \<Rightarrow> CompiledProjection \<Rightarrow>
    ProjectionBatchResult \<Rightarrow> ProjectionBatchResult option" where
  "evaluate_projection sha256 number_text signal acceptedAtNanos c batch =
     (if spec_tenantId (cp_spec c) \<noteq> sig_tenantId signal then Some batch
      else if acceptedAtNanos < cp_activeFromNanos c then Some batch
      else
        (case cp_evaluate c signal of
           None \<Rightarrow> None
         | Some evaluation \<Rightarrow>
             (let batch = batch\<lparr>batch_typeMismatchFields :=
                    foldl (\<lambda>xs f. set_add (fieldKey f) xs) (batch_typeMismatchFields batch) (typeMismatches evaluation)\<rparr>
              in if \<not> matches evaluation then Some batch
                 else
                   (case project_signal sha256 number_text signal c of
                      Inr e \<Rightarrow> Some (batch\<lparr>batch_events := batch_events batch @ [e]\<rparr>)
                    | Inl err \<Rightarrow>
                        Some (batch\<lparr>batch_failures := batch_failures batch @
                          [\<lparr>fail_projectionId = spec_id (cp_spec c), fail_projectionRevision = revision (cp_spec c),
                            fail_occurrenceId = sig_occurrenceId signal, fail_error = err\<rparr>]\<rparr>)))))"

fun evaluate_all :: "(string \<Rightarrow> string) \<Rightarrow> (rat \<Rightarrow> string) \<Rightarrow> NormalizedSignal \<Rightarrow> int \<Rightarrow> CompiledProjection list \<Rightarrow>
    ProjectionBatchResult \<Rightarrow> ProjectionBatchResult option" where
  "evaluate_all sha256 number_text signal acceptedAtNanos [] batch = Some batch"
| "evaluate_all sha256 number_text signal acceptedAtNanos (c # cs) batch =
     (case evaluate_projection sha256 number_text signal acceptedAtNanos c batch of
        None \<Rightarrow> None
      | Some batch \<Rightarrow> evaluate_all sha256 number_text signal acceptedAtNanos cs batch)"

definition evaluate_registry :: "(string \<Rightarrow> string) \<Rightarrow> (rat \<Rightarrow> string) \<Rightarrow> CompiledProjectionRegistry \<Rightarrow> NormalizedSignal \<Rightarrow>
    string \<Rightarrow> (ProjectionInvalid + ProjectionBatchResult) option" where
  "evaluate_registry sha256 number_text reg signal acceptedAt =
     (case timestampToEpochNanos acceptedAt of
        None \<Rightarrow> Some (Inl AcceptanceTimeInvalid)
      | Some acceptedAtNanos \<Rightarrow>
          map_option Inr (evaluate_all sha256 number_text signal acceptedAtNanos
            (case jsmap_get reg (sig_sourceKind signal) of Some cs \<Rightarrow> cs | None \<Rightarrow> [])
            \<lparr>batch_events = [], batch_failures = [], batch_typeMismatchFields = []\<rparr>))"

section \<open>Sources\<close>

lemma index_by_spec:
  "if distinct (map key xs) \<and> (\<forall>x\<in>set xs. jsmap_get m (key x) = None)
   then index_by key xs m = Inr (m @ map (\<lambda>x. (key x, x)) xs) else isl (index_by key xs m)"
proof (induction xs arbitrary: m)
  case (Cons x xs)
  show ?case
  proof (cases "jsmap_get m (key x)")
    case None
    have upd: "AList.update (key x) x m = m @ [(key x, x)]" using None by (induction m) (auto split: if_splits)
    have fresh: "(\<forall>y\<in>set xs. jsmap_get (m @ [(key x, x)]) (key y) = None) \<longleftrightarrow>
        key x \<notin> key ` set xs \<and> (\<forall>y\<in>set xs. jsmap_get m (key y) = None)"
    proof
      assume a: "\<forall>y\<in>set xs. jsmap_get (m @ [(key x, x)]) (key y) = None"
      then have "key x \<noteq> key y \<and> jsmap_get m (key y) = None" if "y \<in> set xs" for y
        using bspec [OF a that] by (auto simp: map_add_def split: option.splits if_splits)
      then show "key x \<notin> key ` set xs \<and> (\<forall>y\<in>set xs. jsmap_get m (key y) = None)" by blast
    next
      assume a: "key x \<notin> key ` set xs \<and> (\<forall>y\<in>set xs. jsmap_get m (key y) = None)"
      then show "\<forall>y\<in>set xs. jsmap_get (m @ [(key x, x)]) (key y) = None"
        by (metis append_Nil2 fun_upd_apply image_eqI map_add_empty map_add_None map_of.simps map_of_append prod.sel)
    qed
    have "if distinct (map key xs) \<and> (\<forall>y\<in>set xs. jsmap_get (m @ [(key x, x)]) (key y) = None)
        then index_by key xs (m @ [(key x, x)]) = Inr ((m @ [(key x, x)]) @ map (\<lambda>x. (key x, x)) xs)
        else isl (index_by key xs (m @ [(key x, x)]))" by (rule Cons.IH)
    then have "if distinct (map key xs) \<and> key x \<notin> key ` set xs \<and> (\<forall>y\<in>set xs. jsmap_get m (key y) = None)
        then index_by key xs (m @ [(key x, x)]) = Inr (m @ (key x, x) # map (\<lambda>x. (key x, x)) xs)
        else isl (index_by key xs (m @ [(key x, x)]))" unfolding fresh by simp
    moreover have "index_by key (x # xs) m = index_by key xs (m @ [(key x, x)])" using None upd by simp
    ultimately show ?thesis using None by (simp only: list.map distinct.simps list.set ball_simps set_map) argo
  qed simp
qed simp

definition allowed :: "RegisteredSignalSource \<Rightarrow> FieldRef \<Rightarrow> SignalLeafOperator \<Rightarrow> bool" where
  "allowed source f opr \<longleftrightarrow>
     (case jsmap_get (reg_fields source) (fieldKey f) of
        Some e \<Rightarrow> field_type f \<in> set (catalogEntryTypes e) \<and> opr \<in> set (entry_operators e)
      | None \<Rightarrow>
          (case jsmap_get (reg_openFields source) (field_namespace f) of
             Some p \<Rightarrow> field_type f \<in> set (open_types p) \<and> opr \<in> set (open_operators p)
           | None \<Rightarrow> False))"

fun pred_leaves :: "SignalPredicate \<Rightarrow> (FieldRef \<times> SignalLeafOperator) list" where
  "pred_leaves (AllPredicate cs) = concat (map pred_leaves cs)"
| "pred_leaves (AnyPredicate cs) = concat (map pred_leaves cs)"
| "pred_leaves (NotPredicate c) = pred_leaves c"
| "pred_leaves (ExistsPredicate f) = [(f, leaf_exists)]"
| "pred_leaves (ComparisonPredicate c f v) = [(f, leaf_comparison c)]"
| "pred_leaves (InPredicate f vs) = [(f, leaf_in)]"

lemma leaf_visit_leaves:
  "map (\<lambda>l. (leaf_field l, leaf_operator l)) (leaf_visit p path) = pred_leaves p"
  "map (\<lambda>l. (leaf_field l, leaf_operator l)) (leaf_clauses cs i path) = concat (map pred_leaves cs)"
  by (induction p path and cs i path rule: leaf_visit_leaf_clauses.induct) auto

lemma leaf_issues_Nil: "leaf_issues source l = [] \<longleftrightarrow> allowed source (leaf_field l) (leaf_operator l)"
  by (auto simp: leaf_issues_def allowed_def Let_def split: option.splits)

lemma source_validation:
  "validatePredicateAgainstSource p source = [] \<longleftrightarrow> list_all (\<lambda>(f, opr). allowed source f opr) (pred_leaves p)"
proof -
  have "validatePredicateAgainstSource p source = [] \<longleftrightarrow>
      list_all (\<lambda>(f, opr). allowed source f opr) (map (\<lambda>l. (leaf_field l, leaf_operator l)) (leafFields p))"
    by (auto simp: validatePredicateAgainstSource_def leaf_issues_Nil list_all_iff)
  then show ?thesis unfolding leafFields_def leaf_visit_leaves .
qed

lemma register_source_spec:
  "(case register_source sources d of
      Inr sources' \<Rightarrow>
        SourceDefinitionSchema d \<and> get_source sources (def_sourceKind d) = None \<and> distinct (map entry_key (def_fields d)) \<and>
        distinct (map open_namespace (case def_openFields d of None \<Rightarrow> [] | Some ps \<Rightarrow> ps)) \<and>
        (\<forall>k. get_source sources' k =
           (if k = def_sourceKind d
            then Some \<lparr>reg_definition = d, reg_fields = map (\<lambda>e. (entry_key e, e)) (def_fields d),
                       reg_openFields = map (\<lambda>p. (open_namespace p, p)) (case def_openFields d of None \<Rightarrow> [] | Some ps \<Rightarrow> ps)\<rparr>
            else get_source sources k))
    | Inl _ \<Rightarrow>
        \<not> (SourceDefinitionSchema d \<and> get_source sources (def_sourceKind d) = None \<and> distinct (map entry_key (def_fields d)) \<and>
           distinct (map open_namespace (case def_openFields d of None \<Rightarrow> [] | Some ps \<Rightarrow> ps))))"
proof -
  let ?os = "case def_openFields d of None \<Rightarrow> [] | Some ps \<Rightarrow> ps"
  have f: "if distinct (map entry_key (def_fields d)) then index_by entry_key (def_fields d) [] = Inr (map (\<lambda>e. (entry_key e, e)) (def_fields d))
      else isl (index_by entry_key (def_fields d) [])"
    using index_by_spec [of entry_key "def_fields d" "[]"] by simp
  have o: "if distinct (map open_namespace ?os) then index_by open_namespace ?os [] = Inr (map (\<lambda>p. (open_namespace p, p)) ?os)
      else isl (index_by open_namespace ?os [])"
    using index_by_spec [of open_namespace ?os "[]"] by simp
  show ?thesis
  proof (cases "SourceDefinitionSchema d \<and> jsmap_get sources (def_sourceKind d) = None")
    case False
    then show ?thesis by (auto simp: register_source_def get_source_def)
  next
    case True
    show ?thesis
    proof (cases "distinct (map entry_key (def_fields d))")
      case False
      then obtain k where "index_by entry_key (def_fields d) [] = Inl k" using f by (auto simp: isl_def)
      then show ?thesis using True False by (simp add: register_source_def)
    next
      case df: True
      show ?thesis
      proof (cases "distinct (map open_namespace ?os)")
        case False
        then obtain k where "index_by open_namespace ?os [] = Inl k" using o by (auto simp: isl_def)
        then show ?thesis using True df f False by (simp add: register_source_def)
      next
        case od: True
        then show ?thesis using True df f o by (simp add: register_source_def get_source_def update_conv')
      qed
    qed
  qed
qed

section \<open>Compilation\<close>

definition spec_ok :: "bigint_decoder \<Rightarrow> SignalSourceRegistry \<Rightarrow> ProjectorRegistry \<Rightarrow> SignalProjectionSpec \<Rightarrow> bool" where
  "spec_ok bi sources projectors s \<longleftrightarrow>
     SignalProjectionSpecSchema s \<and>
     (\<exists>source. get_source sources (spec_sourceKind s) = Some source \<and>
        validateSignalProjectionSpec bi s @ validatePredicateAgainstSource (selector s) source = []) \<and>
     (enabled s \<longrightarrow> \<not> isl (compile_spec bi projectors s))"

definition compiled :: "bigint_decoder \<Rightarrow> ProjectorRegistry \<Rightarrow> SignalProjectionSpec list \<Rightarrow> CompiledProjection list" where
  "compiled bi projectors specs = map (\<lambda>s. projr (compile_spec bi projectors s)) (filter enabled specs)"

lemma compile_loop_spec:
  "(\<exists>reg'. compile_loop bi sources projectors specs reg revs = Inr reg') \<longleftrightarrow>
     list_all (spec_ok bi sources projectors) specs \<and> distinct (map revisionKey specs) \<and> revisionKey ` set specs \<inter> set revs = {}"
  and compile_loop_result:
  "compile_loop bi sources projectors specs reg revs = Inr reg' \<Longrightarrow>
     reg' = foldl (\<lambda>r c. push_compiled c r) reg (compiled bi projectors specs)"
proof (induction specs arbitrary: reg revs)
  case Nil
  {
    case 1
    then show ?case by simp
  next
    case 2
    then show ?case by (simp add: compiled_def)
  }
next
  case (Cons s specs)
  have ok: "spec_ok bi sources projectors s \<longleftrightarrow> SignalProjectionSpecSchema s \<and>
     (\<exists>source. get_source sources (spec_sourceKind s) = Some source \<and>
        validateSignalProjectionSpec bi s @ validatePredicateAgainstSource (selector s) source = []) \<and>
     (enabled s \<longrightarrow> \<not> isl (compile_spec bi projectors s))" by (simp only: spec_ok_def)
  {
    case 1
    show ?case
    proof (cases "spec_ok bi sources projectors s \<and> revisionKey s \<notin> set revs")
      case False
      then show ?thesis using ok
        by (auto simp: Let_def split: option.splits sum.splits if_splits)
    next
      case True
      then obtain source where src: "SignalProjectionSpecSchema s" "get_source sources (spec_sourceKind s) = Some source"
        "validateSignalProjectionSpec bi s @ validatePredicateAgainstSource (selector s) source = []"
        unfolding ok by blast
      have src4: "\<exists>c. compile_spec bi projectors s = Inr c" if "enabled s"
        using True that unfolding ok by (cases "compile_spec bi projectors s") auto
      have "(\<exists>reg'. compile_loop bi sources projectors (s # specs) reg revs = Inr reg') \<longleftrightarrow>
          list_all (spec_ok bi sources projectors) specs \<and> distinct (map revisionKey specs) \<and>
          revisionKey ` set specs \<inter> set (revisionKey s # revs) = {}"
      proof (cases "enabled s")
        case en: True
        from src4 [OF en] obtain c where "compile_spec bi projectors s = Inr c" by blast
        then show ?thesis using Cons.IH(1) src(1-3) True en by simp
      next
        case False
        then show ?thesis using Cons.IH(1) src(1-3) True by simp
      qed
      then show ?thesis using True by auto
    qed
  next
    case 2
    then obtain source where src: "SignalProjectionSpecSchema s" "get_source sources (spec_sourceKind s) = Some source"
      "validateSignalProjectionSpec bi s @ validatePredicateAgainstSource (selector s) source = []" "revisionKey s \<notin> set revs"
      by (auto simp: Let_def split: option.splits if_splits)
    show ?case
    proof (cases "enabled s")
      case en: True
      then obtain c where c: "compile_spec bi projectors s = Inr c"
        "compile_loop bi sources projectors specs (push_compiled c reg) (revisionKey s # revs) = Inr reg'"
        using 2 src by (auto split: sum.splits)
      show ?thesis using Cons.IH(2) [OF c(2)] c(1) en by (simp add: compiled_def)
    next
      case False
      then have "compile_loop bi sources projectors specs reg (revisionKey s # revs) = Inr reg'" using 2 src by simp
      then show ?thesis using Cons.IH(2) False by (simp add: compiled_def)
    qed
  }
qed

lemma compile_iff_ok:
  "(\<exists>reg. compile_registry bi specs sources projectors = Inr reg) \<longleftrightarrow>
     list_all (spec_ok bi sources projectors) specs \<and> distinct (map revisionKey specs)"
  using compile_loop_spec [of bi sources projectors specs "[]" "[]"] by (simp add: compile_registry_def)

lemma push_all_get:
  "jsmap_get (foldl (\<lambda>r c. push_compiled c r) [] cs) k =
     (let L = filter (\<lambda>c. spec_sourceKind (cp_spec c) = k) cs in if L = [] then None else Some L)"
proof (induction cs arbitrary: k rule: rev_induct)
  case (snoc c cs)
  define r where "r = foldl (\<lambda>r c. push_compiled c r) [] cs"
  have step: "foldl (\<lambda>r c. push_compiled c r) [] (cs @ [c]) = push_compiled c r" by (simp add: r_def)
  have IH: "jsmap_get r k = (let L = filter (\<lambda>c. spec_sourceKind (cp_spec c) = k) cs in if L = [] then None else Some L)" for k
    using snoc unfolding r_def .
  show ?case unfolding step
    using IH [of "spec_sourceKind (cp_spec c)"] IH [of k]
    by (cases "spec_sourceKind (cp_spec c) = k") (auto simp: push_compiled_def update_conv' Let_def split: option.splits if_splits)
qed simp

section \<open>Evaluation\<close>

lemma compile_spec_evaluates:
  assumes "decoder_agrees bi" "compile_spec bi projectors s = Inr c"
  shows "cp_spec c = s" "timestampToEpochNanos (activeFrom s) = Some (cp_activeFromNanos c)"
    "\<exists>mm. cp_evaluate c signal = Some \<lparr>matches = holds bi signal (selector s), typeMismatches = mm\<rparr>"
proof -
  obtain p ev pr a where c: "timestampToEpochNanos (activeFrom s) = Some a" "compileSignalPredicate bi (selector s) = Inr ev"
    "c = \<lparr>cp_spec = s, cp_evaluate = ev, cp_projector = p, cp_project = pr, cp_activeFromNanos = a\<rparr>"
    using assms(2) by (auto simp: compile_spec_def split: option.splits if_splits sum.splits)
  show "cp_spec c = s" "timestampToEpochNanos (activeFrom s) = Some (cp_activeFromNanos c)" using c by simp_all
  show "\<exists>mm. cp_evaluate c signal = Some \<lparr>matches = holds bi signal (selector s), typeMismatches = mm\<rparr>"
    using compile_evaluates [OF assms(1) c(2), of signal] c(3) by auto
qed

text \<open>Whether a projection applies to a signal, and what it then yields.\<close>

definition applies :: "bigint_decoder \<Rightarrow> NormalizedSignal \<Rightarrow> int \<Rightarrow> SignalProjectionSpec \<Rightarrow> bool" where
  "applies bi signal t s \<longleftrightarrow>
     enabled s \<and> spec_sourceKind s = sig_sourceKind signal \<and> spec_tenantId s = sig_tenantId signal \<and>
     (case timestampToEpochNanos (activeFrom s) of None \<Rightarrow> False | Some a \<Rightarrow> a \<le> t) \<and> holds bi signal (selector s)"

definition events_of :: "(projection_error + MapleCloudEvent) list \<Rightarrow> MapleCloudEvent list" where
  "events_of outs = concat (map (\<lambda>x. case x of Inr e \<Rightarrow> [e] | Inl _ \<Rightarrow> []) outs)"

definition failure_of :: "NormalizedSignal \<Rightarrow> SignalProjectionSpec \<Rightarrow> projection_error + MapleCloudEvent \<Rightarrow> ProjectionFailure list" where
  "failure_of signal s x =
     (case x of
        Inl err \<Rightarrow> [\<lparr>fail_projectionId = spec_id s, fail_projectionRevision = revision s,
                      fail_occurrenceId = sig_occurrenceId signal, fail_error = err\<rparr>]
      | Inr _ \<Rightarrow> [])"

definition selects :: "bigint_decoder \<Rightarrow> NormalizedSignal \<Rightarrow> int \<Rightarrow> CompiledProjection \<Rightarrow> bool" where
  "selects bi signal t c \<longleftrightarrow>
     spec_tenantId (cp_spec c) = sig_tenantId signal \<and> cp_activeFromNanos c \<le> t \<and> holds bi signal (selector (cp_spec c))"

lemma evaluate_all_spec:
  assumes "\<forall>c\<in>set cs. \<exists>mm. cp_evaluate c signal = Some \<lparr>matches = holds bi signal (selector (cp_spec c)), typeMismatches = mm\<rparr>"
  shows "\<exists>mm. evaluate_all sha256 number_text signal t cs batch =
    Some (batch\<lparr>batch_events := batch_events batch @ events_of (map (project_signal sha256 number_text signal) (filter (selects bi signal t) cs)),
      batch_failures := batch_failures batch @
        concat (map (\<lambda>c. failure_of signal (cp_spec c) (project_signal sha256 number_text signal c)) (filter (selects bi signal t) cs)),
      batch_typeMismatchFields := mm\<rparr>)"
  using assms
proof (induction cs arbitrary: batch)
  case Nil
  then show ?case by (intro exI [of _ "batch_typeMismatchFields batch"]) (simp add: events_of_def)
next
  case (Cons c cs)
  let ?out = "project_signal sha256 number_text signal c"
  obtain mm where m: "cp_evaluate c signal = Some \<lparr>matches = holds bi signal (selector (cp_spec c)), typeMismatches = mm\<rparr>"
    using Cons.prems by auto
  have "\<exists>x. evaluate_projection sha256 number_text signal t c batch =
      Some (batch\<lparr>batch_events := batch_events batch @ (if selects bi signal t c then events_of [?out] else []),
        batch_failures := batch_failures batch @ (if selects bi signal t c then failure_of signal (cp_spec c) ?out else []),
        batch_typeMismatchFields := x\<rparr>)"
  proof (cases "spec_tenantId (cp_spec c) = sig_tenantId signal \<and> cp_activeFromNanos c \<le> t")
    case False
    then show ?thesis
      by (intro exI [of _ "batch_typeMismatchFields batch"]) (auto simp: evaluate_projection_def selects_def)
  next
    case True
    then show ?thesis using m
      by (intro exI [of _ "foldl (\<lambda>xs f. set_add (fieldKey f) xs) (batch_typeMismatchFields batch) mm"])
        (auto simp: evaluate_projection_def selects_def events_of_def failure_of_def Let_def split: sum.splits)
  qed
  then obtain x where x: "evaluate_projection sha256 number_text signal t c batch =
      Some (batch\<lparr>batch_events := batch_events batch @ (if selects bi signal t c then events_of [?out] else []),
        batch_failures := batch_failures batch @ (if selects bi signal t c then failure_of signal (cp_spec c) ?out else []),
        batch_typeMismatchFields := x\<rparr>)" by blast
  let ?b = "batch\<lparr>batch_events := batch_events batch @ (if selects bi signal t c then events_of [?out] else []),
        batch_failures := batch_failures batch @ (if selects bi signal t c then failure_of signal (cp_spec c) ?out else []),
        batch_typeMismatchFields := x\<rparr>"
  from Cons.IH [of ?b] Cons.prems obtain y where "evaluate_all sha256 number_text signal t cs ?b =
    Some (?b\<lparr>batch_events := batch_events ?b @ events_of (map (project_signal sha256 number_text signal) (filter (selects bi signal t) cs)),
      batch_failures := batch_failures ?b @
        concat (map (\<lambda>c. failure_of signal (cp_spec c) (project_signal sha256 number_text signal c)) (filter (selects bi signal t) cs)),
      batch_typeMismatchFields := y\<rparr>)" by auto
  then show ?case using x by (intro exI [of _ y]) (simp add: events_of_def)
qed

lemma compiled_selected:
  assumes agrees: "decoder_agrees bi" and ok: "\<forall>s\<in>set specs. enabled s \<longrightarrow> \<not> isl (compile_spec bi projectors s)"
  shows "filter (selects bi signal t) (filter (\<lambda>c. spec_sourceKind (cp_spec c) = sig_sourceKind signal) (compiled bi projectors specs)) =
    map (\<lambda>s. projr (compile_spec bi projectors s)) (filter (applies bi signal t) specs)"
  using ok
proof (induction specs)
  case (Cons s specs)
  show ?case
  proof (cases "enabled s")
    case True
    then obtain c where c: "compile_spec bi projectors s = Inr c" using Cons.prems by (cases "compile_spec bi projectors s") auto
    note cs = compile_spec_evaluates [OF agrees c]
    have "applies bi signal t s \<longleftrightarrow> spec_sourceKind (cp_spec c) = sig_sourceKind signal \<and> selects bi signal t c"
      using cs(1,2) True by (auto simp: applies_def selects_def)
    then show ?thesis using Cons c True by (auto simp: compiled_def)
  next
    case False
    then show ?thesis using Cons by (auto simp: compiled_def applies_def)
  qed
qed (simp add: compiled_def)

lemma registry_evaluates:
  assumes "decoder_agrees bi" "compile_registry bi specs sources projectors = Inr reg" "timestampToEpochNanos acceptedAt = Some t"
  shows "\<exists>batch. evaluate_registry sha256 number_text reg signal acceptedAt = Some (Inr batch) \<and>
    batch_events batch =
      events_of (map (\<lambda>s. project_signal sha256 number_text signal (projr (compile_spec bi projectors s))) (filter (applies bi signal t) specs)) \<and>
    batch_failures batch =
      concat (map (\<lambda>s. failure_of signal s (project_signal sha256 number_text signal (projr (compile_spec bi projectors s))))
        (filter (applies bi signal t) specs))"
proof -
  have ok: "list_all (spec_ok bi sources projectors) specs" using compile_iff_ok [of bi specs sources projectors] assms(2) by blast
  then have en: "\<forall>s\<in>set specs. enabled s \<longrightarrow> \<not> isl (compile_spec bi projectors s)" by (simp add: list_all_iff spec_ok_def)
  have reg: "reg = foldl (\<lambda>r c. push_compiled c r) [] (compiled bi projectors specs)"
    using assms(2) compile_loop_result unfolding compile_registry_def by blast
  define cs where "cs = filter (\<lambda>c. spec_sourceKind (cp_spec c) = sig_sourceKind signal) (compiled bi projectors specs)"
  have get: "(case jsmap_get reg (sig_sourceKind signal) of Some cs \<Rightarrow> cs | None \<Rightarrow> []) = cs"
    unfolding reg push_all_get cs_def by (simp add: Let_def)
  have ev: "\<exists>mm. cp_evaluate c signal = Some \<lparr>matches = holds bi signal (selector (cp_spec c)), typeMismatches = mm\<rparr>" if c: "c \<in> set cs" for c
  proof -
    obtain s where s: "s \<in> set specs" "enabled s" "c = projr (compile_spec bi projectors s)"
      using c unfolding cs_def compiled_def by auto
    then have "compile_spec bi projectors s = Inr c" using en by (cases "compile_spec bi projectors s") auto
    from compile_spec_evaluates [OF assms(1) this] show ?thesis by metis
  qed
  let ?sel = "filter (applies bi signal t) specs"
  have sel: "filter (selects bi signal t) cs = map (\<lambda>s. projr (compile_spec bi projectors s)) ?sel"
    unfolding cs_def by (rule compiled_selected [OF assms(1) en])
  have spec: "cp_spec (projr (compile_spec bi projectors s)) = s" if "s \<in> set ?sel" for s
  proof -
    have "\<not> isl (compile_spec bi projectors s)" using that en by (auto simp: applies_def)
    then obtain c where "compile_spec bi projectors s = Inr c" by (cases "compile_spec bi projectors s") auto
    then show ?thesis using compile_spec_evaluates(1) [OF assms(1)] by simp
  qed
  from evaluate_all_spec [of cs signal bi sha256 number_text t "\<lparr>batch_events = [], batch_failures = [], batch_typeMismatchFields = []\<rparr>"] ev
  obtain mm where "evaluate_all sha256 number_text signal t cs \<lparr>batch_events = [], batch_failures = [], batch_typeMismatchFields = []\<rparr> =
      Some \<lparr>batch_events = events_of (map (project_signal sha256 number_text signal) (filter (selects bi signal t) cs)),
        batch_failures = concat (map (\<lambda>c. failure_of signal (cp_spec c) (project_signal sha256 number_text signal c)) (filter (selects bi signal t) cs)),
        batch_typeMismatchFields = mm\<rparr>" by auto
  moreover have "map (\<lambda>c. failure_of signal (cp_spec c) (project_signal sha256 number_text signal c)) (filter (selects bi signal t) cs) =
      map (\<lambda>s. failure_of signal s (project_signal sha256 number_text signal (projr (compile_spec bi projectors s)))) ?sel"
    unfolding sel map_map using spec by (intro map_cong) auto
  ultimately have "evaluate_all sha256 number_text signal t cs \<lparr>batch_events = [], batch_failures = [], batch_typeMismatchFields = []\<rparr> =
      Some \<lparr>batch_events = events_of (map (\<lambda>s. project_signal sha256 number_text signal (projr (compile_spec bi projectors s))) ?sel),
        batch_failures = concat (map (\<lambda>s. failure_of signal s (project_signal sha256 number_text signal (projr (compile_spec bi projectors s)))) ?sel),
        batch_typeMismatchFields = mm\<rparr>" by (simp only: sel map_map comp_def)
  then show ?thesis unfolding evaluate_registry_def assms(3) by (simp add: get)
qed

text \<open>What an event carries.\<close>

lemma project_signal_event:
  assumes "project_signal sha256 number_text signal c = Inr e"
  obtains input where "makeCloudEvent sha256 number_text input = Inr e" "in_signal input = signal" "in_projection input = cp_spec c"
proof -
  obtain projected data where p: "cp_project c signal = Inr projected" "er_decodeOutput (cp_projector c) (proj_data projected) = Inr data"
    using assms by (auto simp: project_signal_def split: sum.splits)
  define input where "input = \<lparr>in_signal = signal, in_projection = cp_spec c, in_projectorId = er_id (cp_projector c),
    in_projectorVersion = er_version (cp_projector c), in_outputType = er_outputType (cp_projector c),
    in_dataSchema = er_dataSchema (cp_projector c), in_subject = proj_subject projected, in_time = proj_time projected, in_data = data\<rparr>"
  have "map_sum Refused id (makeCloudEvent sha256 number_text input) = Inr e"
    using assms p by (simp add: project_signal_def input_def)
  then have "makeCloudEvent sha256 number_text input = Inr e" by (cases "makeCloudEvent sha256 number_text input") auto
  then show thesis using that by (simp add: input_def)
qed

lemma registry_event:
  assumes "decoder_agrees bi" "compile_registry bi specs sources projectors = Inr reg"
    "evaluate_registry sha256 number_text reg signal acceptedAt = Some (Inr batch)" "e \<in> set (batch_events batch)"
  shows "\<exists>t s occ. timestampToEpochNanos acceptedAt = Some t \<and> s \<in> set specs \<and> applies bi signal t s \<and>
    MapleCloudEventSchema e \<and> ev_tenantid e = sig_tenantId signal \<and> spec_tenantId s = sig_tenantId signal \<and>
    ev_source e = sig_source signal \<and> ev_projectionid e = spec_id s \<and> ev_projectionrevision e = revision s \<and>
    sig_occurrenceId signal = Some occ \<and>
    ev_id e = makeEventId sha256 \<lparr>id_tenantId = sig_tenantId signal, id_sourceKind = sig_sourceKind signal,
      id_source = sig_source signal, id_occurrenceId = occ, id_projectionId = spec_id s, id_projectionRevision = revision s\<rparr>"
proof -
  obtain t where t: "timestampToEpochNanos acceptedAt = Some t"
    using assms(3) by (cases "timestampToEpochNanos acceptedAt") (auto simp: evaluate_registry_def)
  have "batch_events batch = events_of (map (\<lambda>s. project_signal sha256 number_text signal (projr (compile_spec bi projectors s)))
      (filter (applies bi signal t) specs))"
    using registry_evaluates [OF assms(1,2) t, of sha256 number_text signal] assms(3) by auto
  then obtain s where s: "s \<in> set specs" "applies bi signal t s"
    "project_signal sha256 number_text signal (projr (compile_spec bi projectors s)) = Inr e"
    using assms(4) by (auto simp: events_of_def split: sum.splits)
  have "spec_ok bi sources projectors s"
    using compile_iff_ok [of bi specs sources projectors] assms(2) s(1) by (auto simp: list_all_iff)
  then obtain c where c: "compile_spec bi projectors s = Inr c"
    using s(2) unfolding spec_ok_def applies_def by (cases "compile_spec bi projectors s") auto
  from project_signal_event [OF s(3)] obtain input where i: "makeCloudEvent sha256 number_text input = Inr e" "in_signal input = signal"
    "in_projection input = s" using c compile_spec_evaluates(1) [OF assms(1) c] by auto
  show ?thesis using makeCloudEvent_fields [OF i(1)] i(2,3) t s(1,2) by (auto simp: applies_def)
qed

section \<open>Properties\<close>

text \<open>
  C2. Evaluating a signal against a compiled registry gives, in the order of the specs, exactly one outcome for
  every enabled spec of the signal's tenant and source kind that is active at the acceptance time and
  whose selector holds: an event, or a failure that names the spec. No other spec takes part and no
  exception leaves the evaluation, whatever the projectors throw.
\<close>

theorem evaluate_registry_batch:
  assumes "decoder_agrees bi" "compile_registry bi specs sources projectors = Inr reg" "timestampToEpochNanos acceptedAt = Some t"
  shows "\<exists>batch. evaluate_registry sha256 number_text reg signal acceptedAt = Some (Inr batch) \<and>
    batch_events batch =
      events_of (map (\<lambda>s. project_signal sha256 number_text signal (projr (compile_spec bi projectors s))) (filter (applies bi signal t) specs)) \<and>
    batch_failures batch =
      concat (map (\<lambda>s. failure_of signal s (project_signal sha256 number_text signal (projr (compile_spec bi projectors s))))
        (filter (applies bi signal t) specs))"
  by (rule registry_evaluates [OF assms])

definition sample_source :: SignalSourceDefinition where
  "sample_source = \<lparr>def_sourceKind = ''k'', def_fields = [\<lparr>entry_field = TypedField sample_field,
     entry_operators = [leaf_comparison op_gt, leaf_in], entry_sensitivity = sens_public, entry_replay = replay_exact\<rparr>], def_openFields = None\<rparr>"

definition sample_projector :: "unit SignalProjector" where
  "sample_projector = \<lparr>pr_id = ''pr'', pr_version = 1, pr_sourceKinds = [''k''], pr_outputType = ''out'', pr_dataSchema = ''schema'',
     pr_decodeConfig = (\<lambda>_. Inr ()), pr_decodeOutput = (\<lambda>j. Inr j),
     pr_project = (\<lambda>signal _. Inr \<lparr>proj_subject = None, proj_time = None, proj_data = sig_data signal\<rparr>)\<rparr>"

definition sample_spec :: "string \<Rightarrow> string \<Rightarrow> SignalProjectionSpec" where
  "sample_spec tenant i = \<lparr>spec_id = i, revision = 1, enabled = True, spec_tenantId = tenant, spec_sourceKind = ''k'',
     selector = sample_predicate, projector = \<lparr>ref_id = ''pr'', ref_version = 1, ref_config = JNull\<rparr>, activeFrom = ''2024-01-01T00:00:00Z''\<rparr>"

definition sample_sources :: SignalSourceRegistry where
  "sample_sources = projr (register_source [] sample_source)"

definition sample_projectors :: ProjectorRegistry where
  "sample_projectors = projr (register_projector [] sample_projector)"

lemma sample_timestamps:
  "timestampToEpochNanos ''2024-01-01T00:00:00Z'' = Some 1704067200000000000"
  "timestampToEpochNanos ''2024-02-29T00:00:00Z'' = Some 1709164800000000000"
proof -
  have "TIMESTAMP_exec ''2024-01-01T00:00:00Z'' = Some \<lparr>m_year = ''2024'', m_month = ''01'', m_day = ''01'', m_hour = ''00'',
      m_minute = ''00'', m_second = ''00'', m_fraction = '''', m_zone = Zulu\<rparr>"
    "TIMESTAMP_exec ''2024-02-29T00:00:00Z'' = Some \<lparr>m_year = ''2024'', m_month = ''02'', m_day = ''29'', m_hour = ''00'',
      m_minute = ''00'', m_second = ''00'', m_fraction = '''', m_zone = Zulu\<rparr>"
    by (simp_all add: TIMESTAMP_exec_def digits_n_def is_digit_def fraction_exec_def zone_exec_def)
  moreover have "dval (padEnd9 []) = 0" by (simp add: padEnd9_def eval_nat_numeral dval_def digit_val_def)
  ultimately show "timestampToEpochNanos ''2024-01-01T00:00:00Z'' = Some 1704067200000000000"
    "timestampToEpochNanos ''2024-02-29T00:00:00Z'' = Some 1709164800000000000"
    by (simp_all add: timestampToEpochNanos_def Let_def dval_def [of "[_, _]"] dval_def [of "[_, _, _, _]"] digit_val_def
      daysInMonth_def isLeapYear_def utc_day_def day_from_year_def month_offset_def)
qed

lemmas identifier_defs = NonEmptyIdentifier_def is_trimmed_def js_trim_def js_space_def

lemma sample_predicate_schema: "SignalPredicateSchema sample_predicate"
proof -
  have "js_String_int 9 = ''9''" "js_String_int 12 = ''12''" by code_simp+
  moreover have "INT64_MIN \<le> 9" "9 \<le> INT64_MAX" "INT64_MIN \<le> 12" "12 \<le> INT64_MAX" by (simp_all add: INT64_MIN_def INT64_MAX_def)
  ultimately have "rx_test DECIMAL_INT64_PATTERN ''9''" "rx_test DECIMAL_INT64_PATTERN ''12''" unfolding decimal_int64 by metis+
  moreover have "field_key_ok ''n''" by code_simp
  ultimately have "predicate_schema sample_predicate" by (simp add: sample_predicate_def sample_field_def limit_defs)
  moreover have "predicateInputBudgetIssue pred_heap (Some (R_pred sample_predicate)) = None" by code_simp
  ultimately show ?thesis by (simp add: SignalPredicateSchema_def)
qed

lemma sample_spec_parts:
  assumes "NonEmptyIdentifier tenant" "NonEmptyIdentifier i"
  shows "spec_ok js_BigInt sample_sources sample_projectors (sample_spec tenant i)"
proof -
  have "NonEmptyIdentifier ''pr''" "NonEmptyIdentifier ''k''" by (simp_all add: identifier_defs)
  moreover have "Rfc3339Timestamp ''2024-01-01T00:00:00Z''" unfolding Rfc3339Timestamp_def rfc3339_pattern by (simp add: sample_timestamps)
  ultimately have sch: "SignalProjectionSpecSchema (sample_spec tenant i)"
    using assms sample_predicate_schema by (simp add: SignalProjectionSpecSchema_def sample_spec_def)
  have "validateSignalPredicate js_BigInt sample_predicate = []" by code_simp
  then have val: "validateSignalProjectionSpec js_BigInt (sample_spec tenant i) = []"
    by (simp add: validateSignalProjectionSpec_def sample_spec_def sample_timestamps)
  have "case get_source sample_sources ''k'' of None \<Rightarrow> False | Some source \<Rightarrow> validatePredicateAgainstSource sample_predicate source = []"
    by code_simp
  then have src: "\<exists>source. get_source sample_sources ''k'' = Some source \<and> validatePredicateAgainstSource sample_predicate source = []"
    by (auto split: option.splits)
  have "case get_projector sample_projectors ''pr'' 1 of None \<Rightarrow> False
      | Some p \<Rightarrow> ''k'' \<in> set (er_sourceKinds p) \<and> \<not> isl (er_prepare p JNull)" by code_simp
  moreover have "\<not> isl (compileSignalPredicate js_BigInt sample_predicate)" by code_simp
  ultimately have "\<not> isl (compile_spec js_BigInt sample_projectors (sample_spec tenant i))"
    by (auto simp: compile_spec_def sample_spec_def sample_timestamps split: option.splits sum.splits)
  then show ?thesis using sch val src unfolding spec_ok_def by (auto simp: sample_spec_def)
qed


lemma sample_compiles:
  assumes "NonEmptyIdentifier tenant" "NonEmptyIdentifier i"
  shows "\<exists>reg. compile_registry js_BigInt [sample_spec tenant i] sample_sources sample_projectors = Inr reg"
  using compile_iff_ok [of js_BigInt "[sample_spec tenant i]"] sample_spec_parts [OF assms] by simp

lemma sample_get_projector: "get_projector sample_projectors ''pr'' 1 = Some (erase sample_projector)"
  by (simp add: get_projector_def sample_projectors_def register_projector_def ProjectorMetadataSchema_def sample_projector_def
    identifier_defs Let_def)

lemma sample_applies: "applies js_BigInt sample_signal 1709164800000000000 (sample_spec ''t'' ''p'')"
proof -
  have "\<not> isl (compileSignalPredicate js_BigInt sample_predicate)" by code_simp
  then obtain ev where ev: "compileSignalPredicate js_BigInt sample_predicate = Inr ev"
    by (cases "compileSignalPredicate js_BigInt sample_predicate") auto
  have "decoder_agrees js_BigInt" by (simp add: decoder_agrees_def)
  from compile_evaluates [OF this ev, of sample_signal] obtain mm where
    "ev sample_signal = Some \<lparr>matches = holds js_BigInt sample_signal sample_predicate, typeMismatches = mm\<rparr>" by blast
  moreover have "case projr (compileSignalPredicate js_BigInt sample_predicate) sample_signal of None \<Rightarrow> False | Some r \<Rightarrow> matches r" by code_simp
  ultimately have "holds js_BigInt sample_signal sample_predicate" using ev by simp
  then show ?thesis by (simp add: applies_def sample_spec_def sample_signal_def sample_timestamps)
qed

definition sample_event :: MapleCloudEvent where
  "sample_event = \<lparr>ev_specversion = ''1.0'', ev_id = ''sha256:00'', ev_source = ''src'', ev_type = ''out'', ev_subject = None,
     ev_time = ''2024-02-29T00:00:00Z'', ev_datacontenttype = ''application/json'', ev_dataschema = ''schema'', ev_tenantid = ''t'',
     ev_projectionid = ''p'', ev_projectionrevision = 1, ev_projectorid = ''pr'', ev_projectorversion = 1,
     ev_sourceoccurrenceid = Some ''o1'', ev_identityquality = Some iq_source, ev_data = JNull\<rparr>"


lemma sample_event_size: "length (utf8 (stringify (\<lambda>_. ''0'') (canonicalizeJson (event_json sample_event)))) \<le> MAX_CLOUD_EVENT_BYTES"
proof -
  have "length (stringify (\<lambda>_. ''0'') (canonicalizeJson (event_json sample_event))) \<le> 4000"
    unfolding event_json_def
    by (rule order_trans [OF object_size]) (simp add: sample_event_def optional_field_def json_string_def json_char_def)
  then show ?thesis using utf8_size [of "stringify (\<lambda>_. ''0'') (canonicalizeJson (event_json sample_event))"] by (simp add: MAX_CLOUD_EVENT_BYTES_def)
qed

lemma sample_projects:
  "project_signal (\<lambda>_. ''00'') (\<lambda>_. ''0'') sample_signal (projr (compile_spec js_BigInt sample_projectors (sample_spec ''t'' ''p''))) = Inr sample_event"
proof -
  have "\<not> isl (compileSignalPredicate js_BigInt sample_predicate)" by code_simp
  then obtain ev where ev: "compileSignalPredicate js_BigInt sample_predicate = Inr ev"
    by (cases "compileSignalPredicate js_BigInt sample_predicate") auto
  have "compile_spec js_BigInt sample_projectors (sample_spec ''t'' ''p'') =
      Inr \<lparr>cp_spec = sample_spec ''t'' ''p'', cp_evaluate = ev, cp_projector = erase sample_projector,
        cp_project = (\<lambda>signal. pr_project sample_projector signal ()), cp_activeFromNanos = 1704067200000000000\<rparr>"
    by (simp add: compile_spec_def sample_spec_def sample_get_projector sample_timestamps ev) (simp add: erase_def sample_projector_def)
  moreover have "MapleCloudEventSchema sample_event"
    by (simp add: MapleCloudEventSchema_def sample_event_def identifier_defs Rfc3339Timestamp_def rfc3339_pattern sample_timestamps)
  then have "validateMapleCloudEvent (\<lambda>_. ''0'') sample_event = Inr \<lparr>v_event = sample_event, v_canonicalJson = stringify (\<lambda>_. ''0'') (canonicalizeJson (event_json sample_event)),
      v_byteLength = length (utf8 (stringify (\<lambda>_. ''0'') (canonicalizeJson (event_json sample_event))))\<rparr>"
    using sample_event_size by (simp add: validateMapleCloudEvent_def Let_def)
  ultimately show ?thesis
    by (simp add: project_signal_def erase_def sample_projector_def makeCloudEvent_def sample_signal_def sample_spec_def makeEventId_def
      is_trimmed_def js_trim_def js_space_def sample_timestamps Let_def sample_event_def)
qed

theorem evaluate_registry_batch_witness:
  "\<exists>reg t batch. compile_registry js_BigInt [sample_spec ''t'' ''p''] sample_sources sample_projectors = Inr reg \<and>
     timestampToEpochNanos ''2024-02-29T00:00:00Z'' = Some t \<and>
     evaluate_registry (\<lambda>_. ''00'') (\<lambda>_. ''0'') reg sample_signal ''2024-02-29T00:00:00Z'' = Some (Inr batch) \<and>
     batch_events batch = events_of (map (\<lambda>s. project_signal (\<lambda>_. ''00'') (\<lambda>_. ''0'') sample_signal
       (projr (compile_spec js_BigInt sample_projectors s))) (filter (applies js_BigInt sample_signal t) [sample_spec ''t'' ''p'']))"
proof -
  have "NonEmptyIdentifier ''t''" "NonEmptyIdentifier ''p''" by (simp_all add: identifier_defs)
  from sample_compiles [OF this] obtain reg where
    reg: "compile_registry js_BigInt [sample_spec ''t'' ''p''] sample_sources sample_projectors = Inr reg" by blast
  note t = sample_timestamps(2)
  have "decoder_agrees js_BigInt" by (simp add: decoder_agrees_def)
  from evaluate_registry_batch [OF this reg t, of "\<lambda>_. ''00''" "\<lambda>_. ''0''" sample_signal] reg t show ?thesis by blast
qed

text \<open>
  Every event of a batch carries the signal's own tenant, source and occurrence and the id and revision of
  a spec of that tenant that applies; its id is the identity of exactly those values, and its envelope
  satisfies the event schema.
\<close>

theorem evaluate_registry_events:
  assumes "decoder_agrees bi" "compile_registry bi specs sources projectors = Inr reg"
    "evaluate_registry sha256 number_text reg signal acceptedAt = Some (Inr batch)" "e \<in> set (batch_events batch)"
  shows "\<exists>t s occ. timestampToEpochNanos acceptedAt = Some t \<and> s \<in> set specs \<and> applies bi signal t s \<and>
    MapleCloudEventSchema e \<and> ev_tenantid e = sig_tenantId signal \<and> spec_tenantId s = sig_tenantId signal \<and>
    ev_source e = sig_source signal \<and> ev_projectionid e = spec_id s \<and> ev_projectionrevision e = revision s \<and>
    sig_occurrenceId signal = Some occ \<and>
    ev_id e = makeEventId sha256 \<lparr>id_tenantId = sig_tenantId signal, id_sourceKind = sig_sourceKind signal,
      id_source = sig_source signal, id_occurrenceId = occ, id_projectionId = spec_id s, id_projectionRevision = revision s\<rparr>"
  by (rule registry_event [OF assms])

theorem evaluate_registry_events_witness:
  "\<exists>reg batch e. compile_registry js_BigInt [sample_spec ''t'' ''p''] sample_sources sample_projectors = Inr reg \<and>
     evaluate_registry (\<lambda>_. ''00'') (\<lambda>_. ''0'') reg sample_signal ''2024-02-29T00:00:00Z'' = Some (Inr batch) \<and>
     e \<in> set (batch_events batch) \<and> ev_tenantid e = ''t''"
proof -
  have "NonEmptyIdentifier ''t''" "NonEmptyIdentifier ''p''" by (simp_all add: identifier_defs)
  from sample_compiles [OF this] obtain reg where
    reg: "compile_registry js_BigInt [sample_spec ''t'' ''p''] sample_sources sample_projectors = Inr reg" by blast
  have agrees: "decoder_agrees js_BigInt" by (simp add: decoder_agrees_def)
  note t = sample_timestamps(2)
  from registry_evaluates [OF agrees reg t, of "\<lambda>_. ''00''" "\<lambda>_. ''0''" sample_signal] obtain batch where
    b: "evaluate_registry (\<lambda>_. ''00'') (\<lambda>_. ''0'') reg sample_signal ''2024-02-29T00:00:00Z'' = Some (Inr batch)"
    "batch_events batch = events_of (map (\<lambda>s. project_signal (\<lambda>_. ''00'') (\<lambda>_. ''0'') sample_signal
       (projr (compile_spec js_BigInt sample_projectors s))) (filter (applies js_BigInt sample_signal 1709164800000000000) [sample_spec ''t'' ''p'']))" by blast
  have e: "sample_event \<in> set (batch_events batch)" unfolding b(2) by (simp add: events_of_def sample_applies sample_projects)
  from evaluate_registry_events [OF agrees reg b(1) e] have "ev_tenantid sample_event = ''t''" by (auto simp: sample_signal_def)
  then show ?thesis using reg b(1) e by blast
qed

text \<open>
  C31. A list of specs compiles exactly when each of them fits its schema, its source and its projector, and no
  two of them have the same revision key.
\<close>

theorem compile_registry_accepts:
  "(\<exists>reg. compile_registry bi specs sources projectors = Inr reg) \<longleftrightarrow>
     list_all (spec_ok bi sources projectors) specs \<and> distinct (map revisionKey specs)"
  by (rule compile_iff_ok)

text \<open>
  C32. The revision key joins tenant and projection id with a colon, which both may contain. Two specs of
  different tenants can therefore exclude each other: each compiles alone, and together they are refused
  as one duplicate revision.
\<close>

theorem revisionKey_crosses_tenants:
  "(\<exists>reg. compile_registry js_BigInt [sample_spec ''a:b'' ''c''] sample_sources sample_projectors = Inr reg) \<and>
   (\<exists>reg. compile_registry js_BigInt [sample_spec ''a'' ''b:c''] sample_sources sample_projectors = Inr reg) \<and>
   (\<nexists>reg. compile_registry js_BigInt [sample_spec ''a:b'' ''c'', sample_spec ''a'' ''b:c''] sample_sources sample_projectors = Inr reg)"
proof -
  have "NonEmptyIdentifier ''a:b''" "NonEmptyIdentifier ''c''" "NonEmptyIdentifier ''a''" "NonEmptyIdentifier ''b:c''" by (simp_all add: identifier_defs)
  moreover have "revisionKey (sample_spec ''a:b'' ''c'') = revisionKey (sample_spec ''a'' ''b:c'')"
    by (simp add: revisionKey_def sample_spec_def)
  ultimately show ?thesis using sample_compiles by (simp add: compile_iff_ok)
qed

end
