(* ===== verification/Ingest_Scan.thy ===== *)
theory Ingest_Scan
  imports Js_Regex "HOL-Library.Sublist"
begin

text \<open>
  How ingest rules look at text, after \<^verbatim>\<open>packages/ingest-rules/src/detectors.ts\<close> and the text part of
  \<^verbatim>\<open>engine.ts\<close>: the cut of a value at 16 KiB of UTF-8, key globs, the search for accepted matches, the
  detectors with their checks, and the replacement of the spans found.

  A text is a list of UTF-16 code units, as JavaScript has it. Case conversion is the argument \<open>lower\<close>.
\<close>

unbundle bit_operations_syntax

section \<open>Texts and their UTF-8 encoding\<close>

type_synonym jstext = "16 word list"

text \<open>The text of a literal of the source.\<close>

definition units :: "string \<Rightarrow> jstext" where
  "units s = map of_char s"

definition high_surrogate :: "16 word \<Rightarrow> bool" where
  "high_surrogate u \<longleftrightarrow> u \<ge> 0xd800 \<and> u \<le> 0xdbff"

definition low_surrogate :: "16 word \<Rightarrow> bool" where
  "low_surrogate u \<longleftrightarrow> u AND 0xfc00 = 0xdc00"

text \<open>The code points of a text, each as its one or two units. A surrogate without a partner stands alone.\<close>

fun code_points :: "jstext \<Rightarrow> jstext list" where
  "code_points [] = []"
| "code_points [u] = [[u]]"
| "code_points (u # v # us) =
     (if high_surrogate u \<and> low_surrogate v then [u, v] # code_points us else [u] # code_points (v # us))"

text \<open>\<open>TextEncoder.encode\<close>; a lone surrogate becomes U+FFFD.\<close>

definition utf8_unit :: "16 word \<Rightarrow> 8 word list" where
  "utf8_unit u =
     (if u < 0x80 then [ucast u]
      else if u < 0x800 then [0xc0 OR ucast (drop_bit 6 u), 0x80 OR ucast (u AND 0x3f)]
      else if u \<ge> 0xd800 \<and> u \<le> 0xdfff then [0xef, 0xbf, 0xbd]
      else [0xe0 OR ucast (drop_bit 12 u), 0x80 OR ucast (drop_bit 6 u AND 0x3f), 0x80 OR ucast (u AND 0x3f)])"

definition utf8_pair :: "16 word \<Rightarrow> 16 word \<Rightarrow> 8 word list" where
  "utf8_pair u v =
     (let cp = 0x10000 + push_bit 10 (ucast (u AND 0x3ff)) + ucast (v AND 0x3ff) :: 32 word
      in [0xf0 OR ucast (drop_bit 18 cp), 0x80 OR ucast (drop_bit 12 cp AND 0x3f), 0x80 OR ucast (drop_bit 6 cp AND 0x3f),
          0x80 OR ucast (cp AND 0x3f)])"

fun utf8_point :: "jstext \<Rightarrow> 8 word list" where
  "utf8_point [u] = utf8_unit u"
| "utf8_point [u, v] = utf8_pair u v"
| "utf8_point _ = []"

definition encode_utf8 :: "jstext \<Rightarrow> 8 word list" where
  "encode_utf8 s = concat (map utf8_point (code_points s))"

definition scanBytes :: nat where
  "scanBytes = 16 * 1024"

function cut_loop :: "jstext \<Rightarrow> nat \<Rightarrow> nat \<Rightarrow> nat" where
  "cut_loop text bytes index =
     (if index < length text then
        (let code_unit = text ! index;
             pair = code_unit \<ge> 0xd800 \<and> code_unit \<le> 0xdbff \<and> index + 1 < length text \<and> (text ! (index + 1)) AND 0xfc00 = 0xdc00;
             sz = (if pair then 4 else if code_unit < 0x80 then 1 else if code_unit < 0x800 then 2 else 3)
         in if bytes + sz > scanBytes then index
            else cut_loop text (bytes + sz) (if pair then index + 2 else index + 1))
      else index)"
  by pat_completeness auto
termination
  by (relation "measure (\<lambda>(text, bytes, index). length text - index)") auto

declare cut_loop.simps [simp del]

definition scanCut :: "jstext \<Rightarrow> nat" where
  "scanCut text = (if length text * 3 \<le> scanBytes then length text else cut_loop text 0 0)"

section \<open>Key globs\<close>

definition ASTERISK :: "16 word" where
  "ASTERISK = 42"

text \<open>
  The loop of \<open>globMatches\<close>: \<open>star\<close> is the position of the last \<open>*\<close> seen and \<open>resume\<close> where its run ends so far.
\<close>

definition glob_sound :: "nat \<Rightarrow> nat \<Rightarrow> nat option \<Rightarrow> nat \<Rightarrow> bool" where
  "glob_sound p t star resume \<longleftrightarrow> (case star of None \<Rightarrow> True | Some s \<Rightarrow> s < p \<and> resume \<le> t)"

definition glob_left :: "nat \<Rightarrow> nat option \<Rightarrow> nat" where
  "glob_left n star = (case star of None \<Rightarrow> n + 1 | Some s \<Rightarrow> n - s)"

function glob_loop :: "jstext \<Rightarrow> jstext \<Rightarrow> nat \<Rightarrow> nat \<Rightarrow> nat option \<Rightarrow> nat \<Rightarrow> nat option" where
  "glob_loop pattern text p t star resume =
     (if t < length text then
        if p < length pattern \<and> pattern ! p \<noteq> ASTERISK \<and> pattern ! p = text ! t
        then glob_loop pattern text (p + 1) (t + 1) star resume
        else if p < length pattern \<and> pattern ! p = ASTERISK
        then glob_loop pattern text (p + 1) t (Some p) t
        else (case star of
                Some s \<Rightarrow> glob_loop pattern text (s + 1) (resume + 1) star (resume + 1)
              | None \<Rightarrow> None)
      else Some p)"
  by pat_completeness auto
termination
  apply (relation "measures [
    \<lambda>(pattern, text, p, t, star, resume). if glob_sound p t star resume then 0 else 1,
    \<lambda>(pattern, text, p, t, star, resume). if glob_sound p t star resume then glob_left (length pattern) star else 0,
    \<lambda>(pattern, text, p, t, star, resume). if glob_sound p t star resume then length text - resume else 0,
    \<lambda>(pattern, text, p, t, star, resume). length text - t]")
     apply (auto simp: glob_sound_def glob_left_def split: option.splits)
  done

declare glob_loop.simps [simp del]

text \<open>\<open>while (pattern[p] === "*") p++\<close>\<close>

function skip_stars :: "jstext \<Rightarrow> nat \<Rightarrow> nat" where
  "skip_stars pattern p = (if p < length pattern \<and> pattern ! p = ASTERISK then skip_stars pattern (p + 1) else p)"
  by pat_completeness auto
termination
  by (relation "measure (\<lambda>(pattern, p). length pattern - p)") auto

declare skip_stars.simps [simp del]

definition globMatches :: "(jstext \<Rightarrow> jstext) \<Rightarrow> jstext \<Rightarrow> jstext \<Rightarrow> bool" where
  "globMatches lower pattern key =
     (case glob_loop pattern (lower key) 0 0 None 0 of
        None \<Rightarrow> False
      | Some p \<Rightarrow> skip_stars pattern p = length pattern)"

section \<open>Searching and replacing\<close>

record Span =
  sp_start :: nat
  sp_end :: nat

type_synonym engine = "jstext \<Rightarrow> nat \<Rightarrow> (nat \<times> nat) option"

text \<open>
  The loop of \<open>findAll\<close> over \<open>exec\<close>, which gives start and length of a match at or after \<open>lastIndex\<close>. \<open>None\<close> would
  be a loop that does not end.
\<close>

partial_function (option) find_loop ::
  "engine \<Rightarrow> jstext \<Rightarrow> (jstext \<Rightarrow> nat \<Rightarrow> nat \<Rightarrow> bool) \<Rightarrow> Span list \<Rightarrow> nat \<Rightarrow> Span list option" where
  "find_loop exec text accept spans lastIndex =
     (case exec text lastIndex of
        None \<Rightarrow> Some spans
      | Some m \<Rightarrow>
          (let start = fst m; stop = start + snd m
           in if stop = start then find_loop exec text accept spans (start + 1)
              else if accept text start stop then find_loop exec text accept (spans @ [\<lparr>sp_start = start, sp_end = stop\<rparr>]) stop
              else find_loop exec text accept spans (start + 1)))"

declare find_loop.simps [code]

definition findAll :: "engine \<Rightarrow> jstext \<Rightarrow> (jstext \<Rightarrow> nat \<Rightarrow> nat \<Rightarrow> bool) \<Rightarrow> Span list" where
  "findAll exec text accept = (case find_loop exec text accept [] 0 of Some spans \<Rightarrow> spans | None \<Rightarrow> [])"

definition replaceSpans :: "jstext \<Rightarrow> Span list \<Rightarrow> (jstext \<Rightarrow> jstext) \<Rightarrow> jstext" where
  "replaceSpans text spans replace =
     foldr (\<lambda>span acc. take (sp_start span) acc @ replace (take (sp_end span - sp_start span) (drop (sp_start span) acc))
                       @ drop (sp_end span) acc) spans text"

section \<open>Detectors\<close>

datatype IngestRuleDetector =
  det_email | det_credit_card | det_jwt | det_api_token | det_ipv4 | det_ipv6 | det_phone | det_iban

fun detector_name :: "IngestRuleDetector \<Rightarrow> jstext" where
  "detector_name det_email = units ''email''"
| "detector_name det_credit_card = units ''credit_card''"
| "detector_name det_jwt = units ''jwt''"
| "detector_name det_api_token = units ''api_token''"
| "detector_name det_ipv4 = units ''ipv4''"
| "detector_name det_ipv6 = units ''ipv6''"
| "detector_name det_phone = units ''phone''"
| "detector_name det_iban = units ''iban''"

definition unit_range :: "nat \<Rightarrow> nat \<Rightarrow> jstext" where
  "unit_range a b = map of_nat [a..<Suc b]"

definition digit_units :: jstext where "digit_units = unit_range 48 57"
definition upper_units :: jstext where "upper_units = unit_range 65 90"
definition lower_units :: jstext where "lower_units = unit_range 97 122"
definition alnum_units :: jstext where "alnum_units = upper_units @ lower_units @ digit_units"
definition hex_units :: jstext where "hex_units = digit_units @ unit_range 65 70 @ unit_range 97 102"

text \<open>\<open>text[i]\<close> and \<open>text[i - 1]\<close>, which is undefined for \<open>i = 0\<close>.\<close>

definition unit_at :: "jstext \<Rightarrow> nat \<Rightarrow> 16 word option" where
  "unit_at text i = (if i < length text then Some (text ! i) else None)"

definition unit_before :: "jstext \<Rightarrow> nat \<Rightarrow> 16 word option" where
  "unit_before text i = (if i = 0 then None else unit_at text (i - 1))"

definition isAsciiAlnum :: "16 word option \<Rightarrow> bool" where
  "isAsciiAlnum c = (case c of None \<Rightarrow> False | Some u \<Rightarrow> u \<in> set alnum_units)"

definition isDigit :: "16 word option \<Rightarrow> bool" where
  "isDigit c = (case c of None \<Rightarrow> False | Some u \<Rightarrow> 48 \<le> u \<and> u \<le> 57)"

definition bounded :: "jstext \<Rightarrow> nat \<Rightarrow> nat \<Rightarrow> bool" where
  "bounded text start stop \<longleftrightarrow> \<not> isAsciiAlnum (unit_before text start) \<and> \<not> isAsciiAlnum (unit_at text stop)"

definition digitsOf :: "jstext \<Rightarrow> jstext" where
  "digitsOf m = filter (\<lambda>u. u \<in> set digit_units) m"

definition luhn :: "jstext \<Rightarrow> bool" where
  "luhn digits =
     (let total = foldl (\<lambda>total (index, u).
            let digit = unat u - 48; doubled = (if index mod 2 = 1 then digit * 2 else digit)
            in total + (if doubled > 9 then doubled - 9 else doubled)) 0 (enumerate 0 (rev digits))
      in total mod 10 = (0 :: nat))"

text \<open>
  The digits that stand for one character of an IBAN, \<open>None\<close> where \<open>Number\<close> would give \<open>NaN\<close>; a remainder
  that is \<open>NaN\<close> stays so and is not 1.
\<close>

definition iban_digits :: "jstext \<Rightarrow> nat list option" where
  "iban_digits c =
     (case c of
        [] \<Rightarrow> Some []
      | u # us \<Rightarrow>
          if us = [] \<and> isDigit (Some u) then Some [unat u - 48]
          else if unat u < 55 then None
          else Some (map (\<lambda>d. of_char d - 48) (js_String_nat (unat u - 55))))"

definition ibanValid :: "jstext \<Rightarrow> bool" where
  "ibanValid raw =
     (let compact = filter (\<lambda>u. u \<noteq> 32) raw;
          rotated = drop 4 compact @ take 4 compact;
          remainder = foldl (\<lambda>acc c. case acc of
              None \<Rightarrow> None
            | Some n \<Rightarrow> map_option (foldl (\<lambda>inner digit. (inner * 10 + digit) mod 97) n) (iban_digits c)) (Some 0) (code_points rotated)
      in remainder = Some 1)"

text \<open>The number of \<open>::\<close> that \<open>split("::")\<close> finds.\<close>

fun count_doubles :: "jstext \<Rightarrow> nat" where
  "count_doubles (u # v # us) = (if u = 58 \<and> v = 58 then Suc (count_doubles us) else count_doubles (v # us))"
| "count_doubles _ = 0"

definition isIpv6Address :: "jstext \<Rightarrow> bool" where
  "isIpv6Address m =
     (let colons = count_list m 58; doubles = count_doubles m; hasHex = list_ex (\<lambda>u. u \<in> set hex_units) m
      in if \<not> hasHex then False
         else if doubles = 1 then colons \<le> 7
         else doubles = 0 \<and> colons = 7)"

text \<open>\<open>r{n,}\<close>, and one to one the patterns of the table.\<close>

definition Many :: "nat \<Rightarrow> 16 word rx \<Rightarrow> 16 word rx" where
  "Many n r = Cat [Rep n n r, Star r]"

definition OCTET :: "16 word rx" where
  "OCTET =
     Alt [Cat [Lit (units ''25''), Cls (unit_range 48 53)],
          Cat [Lit (units ''2''), Cls (unit_range 48 52), Cls digit_units],
          Cat [Lit (units ''1''), Rep 2 2 (Cls digit_units)],
          Cat [Rep 0 1 (Cls (unit_range 49 57)), Cls digit_units]]"

fun detector_regex :: "IngestRuleDetector \<Rightarrow> 16 word rx" where
  "detector_regex det_email =
     Cat [Rep 1 64 (Cls (alnum_units @ units ''._%+-'')), Lit (units ''@''), Rep 1 63 (Cls (alnum_units @ units ''-'')),
          Rep 0 8 (Cat [Lit (units ''.''), Rep 1 63 (Cls (alnum_units @ units ''-''))]), Lit (units ''.''),
          Rep 2 24 (Cls (upper_units @ lower_units))]"
| "detector_regex det_credit_card =
     Cat [Cls digit_units, Rep 12 18 (Cat [Rep 0 1 (Cls (units '' -'')), Cls digit_units])]"
| "detector_regex det_jwt =
     Cat [Lit (units ''eyJ''), Many 1 (Cls (alnum_units @ units ''_-'')), Lit (units ''.eyJ''),
          Many 1 (Cls (alnum_units @ units ''_-'')), Lit (units ''.''), Star (Cls (alnum_units @ units ''_-''))]"
| "detector_regex det_api_token =
     Alt [Cat [Alt [Lit (units ''sk''), Lit (units ''pk''), Lit (units ''rk'')], Lit (units ''_''),
               Alt [Lit (units ''live''), Lit (units ''test'')], Lit (units ''_''), Many 10 (Cls alnum_units)],
          Cat [Lit (units ''gh''), Cls (units ''pousr''), Lit (units ''_''), Many 36 (Cls alnum_units)],
          Cat [Lit (units ''github_pat_''), Many 22 (Cls (alnum_units @ units ''_''))],
          Cat [Lit (units ''xox''), Cls (units ''abprs''), Lit (units ''-''), Many 10 (Cls (alnum_units @ units ''-''))],
          Cat [Lit (units ''AKIA''), Rep 16 16 (Cls (digit_units @ upper_units))],
          Cat [Lit (units ''AIza''), Rep 35 35 (Cls (alnum_units @ units ''_-''))],
          Cat [Lit (units ''glpat-''), Many 20 (Cls (alnum_units @ units ''_-''))],
          Cat [Lit (units ''sk-''), Many 20 (Cls (alnum_units @ units ''_-''))],
          Cat [Cls (units ''Bb''), Lit (units ''earer ''), Many 8 (Cls (alnum_units @ units ''._~+/=-''))]]"
| "detector_regex det_ipv4 = Cat [Rep 3 3 (Cat [OCTET, Lit (units ''.'')]), OCTET]"
| "detector_regex det_ipv6 = Cat [Rep 0 4 (Cls hex_units), Rep 2 7 (Cat [Lit (units '':''), Rep 0 4 (Cls hex_units)])]"
| "detector_regex det_phone =
     Alt [Cat [Lit (units ''+''), Cls digit_units, Rep 6 18 (Cls (digit_units @ units '' ().-'')), Cls digit_units],
          Cat [Rep 0 1 (Lit (units ''('')), Rep 3 3 (Cls digit_units), Rep 0 1 (Lit (units '')'')), Cls (units '' .-''),
               Rep 3 3 (Cls digit_units), Cls (units '' .-''), Rep 4 4 (Cls digit_units)]]"
| "detector_regex det_iban =
     Cat [Rep 2 2 (Cls upper_units), Rep 2 2 (Cls digit_units),
          Rep 2 7 (Cat [Rep 0 1 (Lit (units '' '')), Rep 4 4 (Cls (upper_units @ digit_units))]),
          Rep 0 1 (Cat [Rep 0 1 (Lit (units '' '')), Rep 1 3 (Cls (upper_units @ digit_units))])]"

fun detector_accept :: "IngestRuleDetector \<Rightarrow> jstext \<Rightarrow> nat \<Rightarrow> nat \<Rightarrow> bool" where
  "detector_accept det_email text start stop = True"
| "detector_accept det_credit_card text start stop =
     (let digits = digitsOf (take (stop - start) (drop start text))
      in bounded text start stop \<and> length digits \<ge> 13 \<and> length digits \<le> 19 \<and> luhn digits)"
| "detector_accept det_jwt text start stop = True"
| "detector_accept det_api_token text start stop = bounded text start stop"
| "detector_accept det_ipv4 text start stop =
     (bounded text start stop \<and> unit_before text start \<noteq> Some 46 \<and>
      \<not> (unit_at text stop = Some 46 \<and> isDigit (unit_at text (stop + 1))))"
| "detector_accept det_ipv6 text start stop =
     (bounded text start stop \<and> unit_before text start \<noteq> Some 58 \<and> unit_at text stop \<noteq> Some 58 \<and>
      isIpv6Address (take (stop - start) (drop start text)))"
| "detector_accept det_phone text start stop =
     (let digits = length (digitsOf (take (stop - start) (drop start text)))
      in bounded text start stop \<and> digits \<ge> 10 \<and> digits \<le> 15)"
| "detector_accept det_iban text start stop =
     (bounded text start stop \<and> ibanValid (take (stop - start) (drop start text)))"

section \<open>Globs against their meaning\<close>

text \<open>A \<open>*\<close> stands for any run of units, every other unit for itself.\<close>

fun glob :: "jstext \<Rightarrow> jstext \<Rightarrow> bool" where
  "glob [] t \<longleftrightarrow> t = []"
| "glob (c # p) t \<longleftrightarrow>
     (if c = ASTERISK then list_ex (\<lambda>i. glob p (drop i t)) [0..<Suc (length t)]
      else case t of [] \<Rightarrow> False | d # t' \<Rightarrow> c = d \<and> glob p t')"

lemma glob_star: "glob (ASTERISK # p) t \<longleftrightarrow> (\<exists>i\<le>length t. glob p (drop i t))"
  by (simp del: upt_Suc add: list_ex_iff Bex_def less_Suc_eq_le)

lemma glob_star_from:
  assumes "t \<le> length subj"
  shows "glob (ASTERISK # p) (drop t subj) \<longleftrightarrow> (\<exists>i\<ge>t. i \<le> length subj \<and> glob p (drop i subj))" (is "?b \<longleftrightarrow> ?a")
proof
  assume ?a
  then obtain i where "i \<ge> t" "i \<le> length subj" "glob p (drop i subj)" by blast
  then show ?b unfolding glob_star by (intro exI [of _ "i - t"]) simp
next
  assume ?b
  then obtain i where "i \<le> length (drop t subj)" "glob p (drop i (drop t subj))" unfolding glob_star by blast
  then show ?a using assms by (intro exI [of _ "i + t"]) auto
qed

lemma glob_star_shorter:
  assumes "glob (ASTERISK # p) (drop i t)" "i \<le> length t"
  shows "glob (ASTERISK # p) t"
proof -
  from assms(1) obtain j where "j \<le> length (drop i t)" "glob p (drop j (drop i t))" unfolding glob_star by blast
  then show ?thesis using assms(2) unfolding glob_star drop_drop by (metis add.commute le_diff_conv2 length_drop)
qed

lemma glob_literal: "ASTERISK \<notin> set w \<Longrightarrow> glob (w @ p) t \<longleftrightarrow> (\<exists>t'. t = w @ t' \<and> glob p t')"
proof (induction w arbitrary: t)
  case (Cons c w)
  then show ?case by (cases t) auto
qed simp

lemma skip_stars_glob: "p \<le> length pattern \<Longrightarrow> skip_stars pattern p = length pattern \<longleftrightarrow> glob (drop p pattern) []"
proof (induction pattern p rule: skip_stars.induct)
  case (1 pattern p)
  show ?case
  proof (cases "p < length pattern")
    case True
    then have d: "drop p pattern = pattern ! p # drop (p + 1) pattern" by (simp add: Cons_nth_drop_Suc)
    show ?thesis
    proof (cases "pattern ! p = ASTERISK")
      case star: True
      then have "skip_stars pattern p = skip_stars pattern (p + 1)" using True by (subst skip_stars.simps) simp
      then show ?thesis using 1 True star unfolding d by (simp add: glob_star)
    next
      case False
      then show ?thesis using True unfolding d by (subst skip_stars.simps) simp
    qed
  next
    case False
    then show ?thesis using 1(2) by (subst skip_stars.simps) simp
  qed
qed

text \<open>Between the last \<open>*\<close> and \<open>p\<close> the pattern is literal and equals the text from \<open>resume\<close> to \<open>t\<close>.\<close>

definition glob_inv :: "jstext \<Rightarrow> jstext \<Rightarrow> nat \<Rightarrow> nat \<Rightarrow> nat option \<Rightarrow> nat \<Rightarrow> bool" where
  "glob_inv pattern subj p t star resume \<longleftrightarrow> p \<le> length pattern \<and> t \<le> length subj \<and>
     (case star of
        None \<Rightarrow> True
      | Some s \<Rightarrow> \<exists>w. drop s pattern = ASTERISK # w @ drop p pattern \<and> ASTERISK \<notin> set w \<and> drop resume subj = w @ drop t subj \<and>
          s < length pattern \<and> p = s + 1 + length w \<and> t = resume + length w)"

definition glob_goal :: "jstext \<Rightarrow> jstext \<Rightarrow> nat \<Rightarrow> nat \<Rightarrow> nat option \<Rightarrow> nat \<Rightarrow> bool" where
  "glob_goal pattern subj p t star resume \<longleftrightarrow> glob (drop p pattern) (drop t subj) \<or>
     (case star of
        None \<Rightarrow> False
      | Some s \<Rightarrow> \<exists>i>resume. i \<le> length subj \<and> glob (drop (s + 1) pattern) (drop i subj))"

lemma glob_inv_Some:
  assumes "glob_inv pattern subj p t (Some s) resume"
  obtains w where "drop s pattern = ASTERISK # w @ drop p pattern" "drop (s + 1) pattern = w @ drop p pattern" "ASTERISK \<notin> set w"
    "drop resume subj = w @ drop t subj" "s < length pattern" "p = s + 1 + length w" "t = resume + length w" "p \<le> length pattern" "t \<le> length subj"
proof -
  from assms obtain w where w: "drop s pattern = ASTERISK # w @ drop p pattern" "ASTERISK \<notin> set w"
    "drop resume subj = w @ drop t subj" "s < length pattern" "p = s + 1 + length w" "t = resume + length w" "p \<le> length pattern" "t \<le> length subj"
    unfolding glob_inv_def by auto
  have "drop (s + 1) pattern = tl (drop s pattern)" by (simp add: drop_Suc tl_drop)
  then have "drop (s + 1) pattern = w @ drop p pattern" using w(1) by simp
  then show thesis using that w by blast
qed

text \<open>A later end for the run of the last \<open>*\<close> cannot help once the pattern is exhausted or at the next \<open>*\<close>.\<close>

lemma glob_later_end:
  assumes "glob_inv pattern subj p t (Some s) resume" "resume < i" "i \<le> length subj" "glob (drop (s + 1) pattern) (drop i subj)"
  shows "t < length subj" "\<exists>j>t. j \<le> length subj \<and> glob (drop p pattern) (drop j subj)"
proof -
  from glob_inv_Some [OF assms(1)] obtain w where w: "drop (s + 1) pattern = w @ drop p pattern" "ASTERISK \<notin> set w" "t = resume + length w"
    "t \<le> length subj" by metis
  from assms(4) obtain t' where t': "drop i subj = w @ t'" "glob (drop p pattern) t'" unfolding w(1) using glob_literal [OF w(2)] by blast
  have len: "length (drop i subj) = length w + length t'" by (simp add: t'(1))
  then have j: "i + length w \<le> length subj" using assms(3) by simp
  have "drop (i + length w) subj = drop (length w) (drop i subj)" by (simp add: add.commute)
  then have "drop (i + length w) subj = t'" by (simp add: t'(1))
  then have "glob (drop p pattern) (drop (i + length w) subj)" using t' by simp
  moreover have "i + length w > t" using w(3) assms(2) by simp
  ultimately show "\<exists>j>t. j \<le> length subj \<and> glob (drop p pattern) (drop j subj)" "t < length subj" using j by auto
qed

lemma next_index:
  fixes n m :: nat
  assumes "n < m"
  shows "(\<exists>i>n. i \<le> m \<and> P i) \<longleftrightarrow> P (n + 1) \<or> (\<exists>i>n + 1. i \<le> m \<and> P i)"
proof
  assume "\<exists>i>n. i \<le> m \<and> P i"
  then obtain i where "i > n" "i \<le> m" "P i" by blast
  moreover from this have "i = n + 1 \<or> i > n + 1" by linarith
  ultimately show "P (n + 1) \<or> (\<exists>i>n + 1. i \<le> m \<and> P i)" by blast
next
  assume "P (n + 1) \<or> (\<exists>i>n + 1. i \<le> m \<and> P i)"
  then show "\<exists>i>n. i \<le> m \<and> P i"
  proof
    assume "P (n + 1)"
    then show ?thesis using assms by (intro exI [of _ "n + 1"]) simp
  next
    assume "\<exists>i>n + 1. i \<le> m \<and> P i"
    then show ?thesis by (meson add_lessD1)
  qed
qed

lemma glob_loop_correct:
  assumes "glob_inv pattern subj p t star resume"
  shows "(case glob_loop pattern subj p t star resume of None \<Rightarrow> False | Some p \<Rightarrow> skip_stars pattern p = length pattern) \<longleftrightarrow>
    glob_goal pattern subj p t star resume"
  using assms
proof (induction pattern subj p t star resume rule: glob_loop.induct)
  case (1 pattern subj p t star resume)
  let ?l = "\<lambda>x. case x of None \<Rightarrow> False | Some p \<Rightarrow> skip_stars pattern p = length pattern"
  have p: "p \<le> length pattern" and t: "t \<le> length subj" using 1(4) by (auto simp: glob_inv_def)
  have dp: "drop p pattern = pattern ! p # drop (p + 1) pattern" if "p < length pattern" using that by (simp add: Cons_nth_drop_Suc)
  have dt: "drop t subj = subj ! t # drop (t + 1) subj" if "t < length subj" using that by (simp add: Cons_nth_drop_Suc)
  consider (stop) "t = length subj"
    | (lit) "t < length subj" "p < length pattern" "pattern ! p \<noteq> ASTERISK" "pattern ! p = subj ! t"
    | (star) "t < length subj" "p < length pattern" "pattern ! p = ASTERISK"
    | (retry) s where "t < length subj" "\<not> (p < length pattern \<and> (pattern ! p = ASTERISK \<or> pattern ! p = subj ! t))" "star = Some s"
    | (stuck) "t < length subj" "\<not> (p < length pattern \<and> (pattern ! p = ASTERISK \<or> pattern ! p = subj ! t))" "star = None"
    using t by (cases "t = length subj"; cases star; cases "p < length pattern"; cases "pattern ! p = ASTERISK"; cases "pattern ! p = subj ! t") auto
  then show ?case
  proof cases
    case stop
    have "glob_loop pattern subj p t star resume = Some p" using stop by (subst glob_loop.simps) simp
    moreover have "\<not> (\<exists>i>resume. i \<le> length subj \<and> glob (drop (s + 1) pattern) (drop i subj))" if "star = Some s" for s
      using glob_later_end(1) [OF 1(4) [unfolded that]] stop by blast
    then have "glob_goal pattern subj p t star resume \<longleftrightarrow> glob (drop p pattern) []"
      using stop by (cases star) (auto simp: glob_goal_def)
    ultimately show ?thesis using skip_stars_glob [OF p] by simp
  next
    case lit
    have "glob_inv pattern subj (p + 1) (t + 1) star resume"
    proof (cases star)
      case (Some s)
      from glob_inv_Some [OF 1(4) [unfolded Some]] obtain w where w: "drop s pattern = ASTERISK # w @ drop p pattern" "ASTERISK \<notin> set w"
        "drop resume subj = w @ drop t subj" "s < length pattern" "p = s + 1 + length w" "t = resume + length w" by metis
      then show ?thesis using Some lit dp dt unfolding glob_inv_def by (auto intro!: exI [of _ "w @ [pattern ! p]"])
    qed (use lit in \<open>simp add: glob_inv_def\<close>)
    moreover have "glob_loop pattern subj p t star resume = glob_loop pattern subj (p + 1) (t + 1) star resume"
      using lit by (subst glob_loop.simps) simp
    moreover have "glob_goal pattern subj (p + 1) (t + 1) star resume = glob_goal pattern subj p t star resume"
      using lit dp dt by (simp add: glob_goal_def)
    ultimately show ?thesis using 1(1) lit by simp
  next
    case star
    have "glob_inv pattern subj (p + 1) t (Some p) t" using star dp by (simp add: glob_inv_def)
    moreover have "glob_loop pattern subj p t star resume = glob_loop pattern subj (p + 1) t (Some p) t"
      using star by (subst glob_loop.simps) simp
    moreover have "glob_goal pattern subj (p + 1) t (Some p) t = glob_goal pattern subj p t star resume"
    proof -
      have d: "drop p pattern = ASTERISK # drop (p + 1) pattern" using star dp by simp
      have "glob_goal pattern subj (p + 1) t (Some p) t \<longleftrightarrow> (\<exists>i\<ge>t. i \<le> length subj \<and> glob (drop (p + 1) pattern) (drop i subj))"
        unfolding glob_goal_def using t by (auto simp: le_less)
      also have "\<dots> \<longleftrightarrow> glob (drop p pattern) (drop t subj)" unfolding d by (rule glob_star_from [OF t, symmetric])
      also have "\<dots> \<longleftrightarrow> glob_goal pattern subj p t star resume"
      proof -
        have "glob (drop p pattern) (drop t subj)" if i: "star = Some s" "resume < i" "i \<le> length subj" "glob (drop (s + 1) pattern) (drop i subj)" for s i
        proof -
          from glob_later_end(2) [OF 1(4) [unfolded i(1)] i(2-4)] obtain j where j: "j > t" "j \<le> length subj" "glob (drop p pattern) (drop j subj)" by blast
          then have "glob (ASTERISK # drop (p + 1) pattern) (drop (j - t) (drop t subj))" using star dp by simp
          from glob_star_shorter [OF this] show ?thesis using j star dp by simp
        qed
        then show ?thesis by (auto simp: glob_goal_def split: option.splits)
      qed
      finally show ?thesis .
    qed
    ultimately show ?thesis using 1(2) star by simp
  next
    case retry
    have ng: "\<not> glob (drop p pattern) (drop t subj)" using retry dp dt by (cases "p < length pattern") (auto split: list.splits)
    have step: "glob_loop pattern subj p t star resume = glob_loop pattern subj (s + 1) (resume + 1) (Some s) (resume + 1)"
      using retry by (subst glob_loop.simps) auto
    from glob_inv_Some [OF 1(4) [unfolded retry(3)]] obtain w where w: "drop s pattern = ASTERISK # w @ drop p pattern"
      "drop (s + 1) pattern = w @ drop p pattern" "s < length pattern" "t = resume + length w" by metis
    have inv: "glob_inv pattern subj (s + 1) (resume + 1) (Some s) (resume + 1)" using w retry(1) by (auto simp: glob_inv_def)
    have "glob_goal pattern subj (s + 1) (resume + 1) (Some s) (resume + 1) \<longleftrightarrow> (\<exists>i>resume. i \<le> length subj \<and> glob (drop (s + 1) pattern) (drop i subj))"
      using next_index [of resume "length subj" "\<lambda>i. glob (drop (s + 1) pattern) (drop i subj)"] w(4) retry(1) by (simp add: glob_goal_def)
    also have "\<dots> \<longleftrightarrow> glob_goal pattern subj p t star resume" using ng retry(3) by (simp add: glob_goal_def)
    finally show ?thesis using 1(3) [OF retry(1) _ _ retry(3)] retry inv step by auto
  next
    case stuck
    have "\<not> glob (drop p pattern) (drop t subj)" using stuck dp dt by (cases "p < length pattern") (auto split: list.splits)
    moreover have "glob_loop pattern subj p t star resume = None" using stuck by (subst glob_loop.simps) auto
    ultimately show ?thesis using stuck by (simp add: glob_goal_def)
  qed
qed

lemma globMatches_iff: "globMatches lower pattern key \<longleftrightarrow> glob pattern (lower key)"
  using glob_loop_correct [of pattern "lower key" 0 0 None 0] by (simp add: globMatches_def glob_inv_def glob_goal_def)

section \<open>The cut at a code point\<close>

lemma concat_code_points [simp]: "concat (code_points s) = s"
  by (induction s rule: code_points.induct) auto

lemma code_points_first: "code_points (v # us) = c # cs \<Longrightarrow> \<exists>vs. c = v # vs"
  by (cases us) (auto split: if_splits)

lemma code_points_prefix: "code_points s = head @ rest \<Longrightarrow> code_points (concat head) = head"
proof (induction s arbitrary: head rule: code_points.induct)
  case (2 u)
  then show ?case by (cases head) auto
next
  case (3 u v us)
  show ?case
  proof (cases head)
    case (Cons c head')
    show ?thesis
    proof (cases "high_surrogate u \<and> low_surrogate v")
      case True
      then show ?thesis using 3 Cons by auto
    next
      case False
      then have h: "c = [u]" "code_points (v # us) = head' @ rest" using 3(3) Cons by auto
      then have ih: "code_points (concat head') = head'" using 3(2) False by blast
      show ?thesis
      proof (cases head')
        case Nil
        then show ?thesis using h Cons by simp
      next
        case (Cons d head'')
        then obtain vs where "d = v # vs" using code_points_first h(2) by (metis append_Cons)
        then show ?thesis using Cons h \<open>head = c # head'\<close> False ih by (cases "vs @ concat head''") auto
      qed
    qed
  qed simp
qed simp

definition utf8_length :: "jstext list \<Rightarrow> nat" where
  "utf8_length cs = length (concat (map utf8_point cs))"

lemma utf8_length_simps [simp]:
  "utf8_length [] = 0" "utf8_length (c # cs) = length (utf8_point c) + utf8_length cs"
  by (simp_all add: utf8_length_def)

lemma utf8_prefix: "code_points s = head @ rest \<Longrightarrow> length (encode_utf8 (concat head)) = utf8_length head"
  using code_points_prefix by (auto simp: encode_utf8_def utf8_length_def)

lemma utf8_unit_size: "length (utf8_unit u) = (if u < 0x80 then 1 else if u < 0x800 then 2 else 3)"
  by (simp add: utf8_unit_def)

lemma utf8_pair_size: "length (utf8_pair u v) = 4"
  by (simp add: utf8_pair_def Let_def)

lemma utf8_length_bound: "utf8_length (code_points s) \<le> 3 * length s"
  by (induction s rule: code_points.induct) (auto simp: utf8_unit_size utf8_pair_size)

text \<open>The code point at an index.\<close>

definition point_at :: "jstext \<Rightarrow> nat \<Rightarrow> jstext" where
  "point_at s index =
     (if high_surrogate (s ! index) \<and> index + 1 < length s \<and> low_surrogate (s ! (index + 1))
      then [s ! index, s ! (index + 1)] else [s ! index])"

lemma point_at_length: "index < length s \<Longrightarrow> 0 < length (point_at s index) \<and> index + length (point_at s index) \<le> length s"
  by (simp add: point_at_def)

lemma code_points_at:
  assumes "index < length s"
  shows "code_points (drop index s) = point_at s index # code_points (drop (index + length (point_at s index)) s)"
proof (cases "index + 1 < length s")
  case True
  then have "drop index s = s ! index # s ! (index + 1) # drop (index + 2) s" by (simp add: Cons_nth_drop_Suc)
  moreover have "drop (index + 1) s = s ! (index + 1) # drop (index + 2) s" using True by (simp add: Cons_nth_drop_Suc)
  ultimately show ?thesis using True by (simp add: point_at_def)
next
  case False
  then have "drop index s = [s ! index]" "drop (index + 1) s = []" using assms by (simp_all add: Cons_nth_drop_Suc [symmetric])
  then show ?thesis using False by (simp add: point_at_def)
qed

lemma cut_loop_step:
  assumes "index < length s"
  shows "cut_loop s bytes index = (if bytes + length (utf8_point (point_at s index)) > scanBytes then index
      else cut_loop s (bytes + length (utf8_point (point_at s index))) (index + length (point_at s index)))"
proof (cases "high_surrogate (s ! index) \<and> index + 1 < length s \<and> low_surrogate (s ! (index + 1))")
  case True
  then have "point_at s index = [s ! index, s ! (index + 1)]" by (simp add: point_at_def)
  then show ?thesis using True by (subst cut_loop.simps) (simp add: utf8_pair_size high_surrogate_def low_surrogate_def Let_def)
next
  case False
  then have p: "point_at s index = [s ! index]" by (simp add: point_at_def)
  have "\<not> (s ! index \<ge> 0xd800 \<and> s ! index \<le> 0xdbff \<and> index + 1 < length s \<and> (s ! (index + 1)) AND 0xfc00 = 0xdc00)"
    using False by (simp add: high_surrogate_def low_surrogate_def)
  then show ?thesis using assms unfolding p by (subst cut_loop.simps) (simp only: Let_def utf8_point.simps utf8_unit_size if_False if_True simp_thms list.size One_nat_def add_Suc_right add_0_right)
qed

lemma cut_loop_spec:
  assumes "index \<le> length s" "bytes \<le> scanBytes"
  shows "\<exists>head rest. code_points (drop index s) = head @ rest \<and> cut_loop s bytes index = index + length (concat head) \<and>
    bytes + utf8_length head \<le> scanBytes \<and> (rest = [] \<or> bytes + utf8_length head + length (utf8_point (hd rest)) > scanBytes)"
  using assms
proof (induction "length s - index" arbitrary: bytes index rule: less_induct)
  case less
  show ?case
  proof (cases "index < length s")
    case True
    let ?c = "point_at s index"
    note cp = code_points_at [OF True] and step = cut_loop_step [OF True, of bytes] and pos = point_at_length [OF True]
    show ?thesis
    proof (cases "bytes + length (utf8_point ?c) > scanBytes")
      case over: True
      then show ?thesis using step cp less(3) by (intro exI [of _ "[]"] exI [of _ "?c # code_points (drop (index + length ?c) s)"]) simp
    next
      case False
      have "length s - (index + length ?c) < length s - index" using pos True by linarith
      from less(1) [OF this, of "bytes + length (utf8_point ?c)"] False pos obtain head rest where
        h: "code_points (drop (index + length ?c) s) = head @ rest"
          "cut_loop s (bytes + length (utf8_point ?c)) (index + length ?c) = index + length ?c + length (concat head)"
          "bytes + length (utf8_point ?c) + utf8_length head \<le> scanBytes"
          "rest = [] \<or> bytes + length (utf8_point ?c) + utf8_length head + length (utf8_point (hd rest)) > scanBytes" by auto
      have "code_points (drop index s) = (?c # head) @ rest" "cut_loop s bytes index = index + length (concat (?c # head))"
        "bytes + utf8_length (?c # head) \<le> scanBytes"
        "rest = [] \<or> bytes + utf8_length (?c # head) + length (utf8_point (hd rest)) > scanBytes" using h step False cp by auto
      then show ?thesis by blast
    qed
  next
    case False
    then show ?thesis using less(2,3) by (intro exI [of _ "[]"]) (simp add: cut_loop.simps)
  qed
qed

lemma scanCut_prefix:
  "\<exists>head rest. code_points s = head @ rest \<and> take (scanCut s) s = concat head \<and> length (encode_utf8 (concat head)) \<le> scanBytes \<and>
     (rest = [] \<or> length (encode_utf8 (concat head @ hd rest)) > scanBytes)"
proof -
  have "\<exists>head rest. code_points s = head @ rest \<and> scanCut s = length (concat head) \<and> utf8_length head \<le> scanBytes \<and>
     (rest = [] \<or> utf8_length head + length (utf8_point (hd rest)) > scanBytes)"
  proof (cases "length s * 3 \<le> scanBytes")
    case True
    then show ?thesis using utf8_length_bound [of s]
      by (intro exI [of _ "code_points s"] exI [of _ "[]"]) (simp add: scanCut_def)
  next
    case False
    then show ?thesis using cut_loop_spec [of 0 s 0] by (simp add: scanCut_def)
  qed
  then obtain head rest where h: "code_points s = head @ rest" "scanCut s = length (concat head)" "utf8_length head \<le> scanBytes"
    "rest = [] \<or> utf8_length head + length (utf8_point (hd rest)) > scanBytes" by blast
  have "take (length (concat head)) (concat (code_points s)) = concat head" unfolding h(1) by simp
  then have t: "take (scanCut s) s = concat head" using h(2) by simp
  have "length (encode_utf8 (concat head @ hd rest)) = utf8_length head + length (utf8_point (hd rest))" if "rest \<noteq> []"
  proof -
    from that have "code_points s = (head @ [hd rest]) @ tl rest" using h(1) by simp
    from utf8_prefix [OF this] show ?thesis by (simp add: utf8_length_def)
  qed
  then have "rest = [] \<or> length (encode_utf8 (concat head @ hd rest)) > scanBytes" using h(4) by (cases "rest = []") simp_all
  moreover have "length (encode_utf8 (concat head)) \<le> scanBytes" using h(3) utf8_prefix [OF h(1)] by simp
  ultimately show ?thesis using h(1) t by blast
qed

section \<open>The search ends and its spans are in order\<close>

fun spans_from :: "nat \<Rightarrow> nat \<Rightarrow> Span list \<Rightarrow> bool" where
  "spans_from i n [] \<longleftrightarrow> True"
| "spans_from i n (s # ss) \<longleftrightarrow> i \<le> sp_start s \<and> sp_start s < sp_end s \<and> sp_end s \<le> n \<and> spans_from (sp_end s) n ss"

lemma spans_from_mono: "spans_from j n ss \<Longrightarrow> i \<le> j \<Longrightarrow> spans_from i n ss"
  by (cases ss) auto

lemma spans_from_start: "spans_from i n ss \<Longrightarrow> s \<in> set ss \<Longrightarrow> i \<le> sp_start s \<and> sp_start s < sp_end s \<and> sp_end s \<le> n"
  by (induction ss arbitrary: i) fastforce+

text \<open>The search relies on \<open>exec\<close> only for matches that lie in the text and not before \<open>lastIndex\<close>.\<close>

locale text_engine = regex_engine exec for exec :: engine
begin

lemma find_loop_returns:
  "\<exists>new. find_loop exec s accept spans i = Some (spans @ new) \<and> spans_from i (length s) new \<and>
     list_all (\<lambda>x. accept s (sp_start x) (sp_end x)) new"
proof (induction "Suc (length s) - i" arbitrary: spans i rule: less_induct)
  case less
  show ?case
  proof (cases "exec s i")
    case None
    then show ?thesis by (subst find_loop.simps) simp
  next
    case (Some m)
    obtain start len where m: "m = (start, len)" by (cases m)
    have b: "i \<le> start" "start + len \<le> length s" using exec_inside [of s i start len] Some m by auto
    show ?thesis
    proof (cases "len > 0 \<and> accept s start (start + len)")
      case True
      let ?x = "\<lparr>sp_start = start, sp_end = start + len\<rparr>"
      have "Suc (length s) - (start + len) < Suc (length s) - i" using b True by linarith
      from less [OF this, of "spans @ [?x]"] obtain new where
        n: "find_loop exec s accept (spans @ [?x]) (start + len) = Some ((spans @ [?x]) @ new)"
        "spans_from (start + len) (length s) new" "list_all (\<lambda>x. accept s (sp_start x) (sp_end x)) new" by blast
      have "find_loop exec s accept spans i = Some (spans @ (?x # new))"
        using n(1) Some m True by (subst find_loop.simps) (simp add: Let_def)
      moreover have "spans_from i (length s) (?x # new)" using n(2) b True by simp
      moreover have "list_all (\<lambda>x. accept s (sp_start x) (sp_end x)) (?x # new)" using n(3) True by simp
      ultimately show ?thesis by blast
    next
      case False
      have "Suc (length s) - (start + 1) < Suc (length s) - i" using b by linarith
      from less [OF this, of spans] obtain new where n: "find_loop exec s accept spans (start + 1) = Some (spans @ new)"
        "spans_from (start + 1) (length s) new" "list_all (\<lambda>x. accept s (sp_start x) (sp_end x)) new" by blast
      have "find_loop exec s accept spans i = Some (spans @ new)"
        using n(1) Some m False by (subst find_loop.simps) (auto simp: Let_def)
      moreover have "spans_from i (length s) new" using n(2) b by (auto intro: spans_from_mono)
      ultimately show ?thesis using n(3) by blast
    qed
  qed
qed

lemma findAll_spans:
  "find_loop exec s accept [] 0 = Some (findAll exec s accept)" "spans_from 0 (length s) (findAll exec s accept)"
  "list_all (\<lambda>x. accept s (sp_start x) (sp_end x)) (findAll exec s accept)"
  using find_loop_returns [of s accept "[]" 0] by (auto simp: findAll_def)

end

interpretation text_matcher: text_engine "rx_exec r" for r
  by unfold_locales

text \<open>When every match is accepted and none is empty, a match starts only inside a span.\<close>

lemma find_loop_covers:
  assumes "[] \<notin> lang r" "find_loop (rx_exec r) s accept spans i = Some (spans @ new)" "i \<le> j" "rests r (drop j s) \<noteq> []"
    "\<And>a b. accept s a b" "j \<le> length s"
  shows "\<exists>x\<in>set new. sp_start x \<le> j \<and> j < sp_end x"
  using assms(2,3)
proof (induction "Suc (length s) - i" arbitrary: spans i new rule: less_induct)
  case less
  have "rx_exec r s i \<noteq> None" using less(3) assms(4,6) unfolding rx_exec_None by blast
  then obtain start len where m: "rx_exec r s i = Some (start, len)" by auto
  note e = rx_exec_Some [OF m]
  have len: "len > 0" using e(3) assms(1) by (cases len) auto
  have "\<not> start > j" using e(4) [of j] less(3) assms(4) by auto
  then have sj: "start \<le> j" by simp
  let ?x = "\<lparr>sp_start = start, sp_end = start + len\<rparr>"
  have step: "find_loop (rx_exec r) s accept spans i = find_loop (rx_exec r) s accept (spans @ [?x]) (start + len)"
    using m len assms(5) by (subst find_loop.simps) (simp add: Let_def)
  from text_matcher.find_loop_returns [of r s accept "spans @ [?x]" "start + len"] obtain new' where
    n: "find_loop (rx_exec r) s accept (spans @ [?x]) (start + len) = Some ((spans @ [?x]) @ new')" by blast
  then have new: "new = ?x # new'" using step less(2) by simp
  show ?case
  proof (cases "j < start + len")
    case True
    then show ?thesis using new sj by simp
  next
    case False
    have "Suc (length s) - (start + len) < Suc (length s) - i" using e(1,2) len by linarith
    from less(1) [OF this n] False obtain x where "x \<in> set new'" "sp_start x \<le> j" "j < sp_end x" by auto
    then show ?thesis using new by auto
  qed
qed

section \<open>Replacing the spans\<close>

fun weave :: "(jstext \<Rightarrow> jstext) \<Rightarrow> jstext \<Rightarrow> nat \<Rightarrow> Span list \<Rightarrow> jstext" where
  "weave f s i [] = drop i s"
| "weave f s i (x # xs) = take (sp_start x - i) (drop i s) @ f (take (sp_end x - sp_start x) (drop (sp_start x) s)) @ weave f s (sp_end x) xs"

lemma replaceSpans_weave:
  assumes "spans_from i (length s) xs" "i \<le> length s"
  shows "replaceSpans s xs f = take i s @ weave f s i xs"
  using assms
proof (induction xs arbitrary: i)
  case Nil
  then show ?case by (simp add: replaceSpans_def)
next
  case (Cons x xs)
  let ?acc = "replaceSpans s xs f"
  have x: "i \<le> sp_start x" "sp_start x < sp_end x" "sp_end x \<le> length s" "spans_from (sp_end x) (length s) xs" using Cons(2) by auto
  have acc: "?acc = take (sp_end x) s @ weave f s (sp_end x) xs" using Cons(1) [OF x(4) x(3)] .
  have "take (sp_start x) ?acc = take (sp_start x) s" "drop (sp_end x) ?acc = weave f s (sp_end x) xs"
    "take (sp_end x - sp_start x) (drop (sp_start x) ?acc) = take (sp_end x - sp_start x) (drop (sp_start x) s)"
    using x unfolding acc by (auto simp: min_def drop_take)
  then have "replaceSpans s (x # xs) f =
      take (sp_start x) s @ f (take (sp_end x - sp_start x) (drop (sp_start x) s)) @ weave f s (sp_end x) xs"
    by (simp add: replaceSpans_def)
  moreover have "take (sp_start x) s = take i s @ take (sp_start x - i) (drop i s)"
    using x(1) by (metis le_add_diff_inverse take_add)
  ultimately show ?case by simp
qed

section \<open>Texts without a match\<close>

definition lacks :: "16 word rx \<Rightarrow> jstext \<Rightarrow> bool" where
  "lacks r s \<longleftrightarrow> (\<forall>u\<in>lang r. \<not> sublist u s)"

lemma lacks_exec: "lacks r s \<Longrightarrow> rx_exec r s i = None"
  unfolding rx_exec_None
proof (intro allI impI)
  fix j
  assume "lacks r s" "i \<le> j \<and> j \<le> length s"
  have "sublist u s" if "drop j s = u @ s'" for u s'
    using that by (metis append_take_drop_id sublist_appendI)
  then show "rests r (drop j s) = []" using \<open>lacks r s\<close> rests_nonempty [of r "drop j s"] unfolding lacks_def by blast
qed

lemma lacks_findAll: "lacks r s \<Longrightarrow> findAll (rx_exec r) s accept = []"
  by (simp add: findAll_def find_loop.simps lacks_exec)

lemma lacks_sublist: "lacks r s \<Longrightarrow> sublist t s \<Longrightarrow> lacks r t"
  unfolding lacks_def using sublist_order.order_trans by blast

text \<open>A unit that no match contains separates two texts.\<close>

lemma lacks_separated:
  assumes "lacks r a" "lacks r b" "\<And>u. u \<in> lang r \<Longrightarrow> c \<notin> set u" "[] \<notin> lang r"
  shows "lacks r (a @ c # b)"
  unfolding lacks_def
proof (intro ballI notI)
  fix u
  assume u: "u \<in> lang r" "sublist u (a @ c # b)"
  then obtain p q where pq: "a @ c # b = p @ u @ q" unfolding sublist_def by blast
  have "length p + length u \<le> length a \<or> length p > length a"
  proof (rule ccontr)
    assume "\<not> ?thesis"
    then have l: "length p \<le> length a" "length a < length p + length u" by simp_all
    have "(a @ c # b) ! length a = c" by simp
    moreover have i: "length a - length p < length u" using l by linarith
    ultimately have "u ! (length a - length p) = c" unfolding pq using l by (simp add: nth_append)
    then have "c \<in> set u" using i nth_mem by blast
    then show False using assms(3) u(1) by blast
  qed
  then show False
  proof
    assume "length p + length u \<le> length a"
    then have "take (length p + length u) (a @ c # b) = take (length p + length u) a" by simp
    then have "p @ u = take (length p + length u) a" unfolding pq by simp
    then have "sublist u a" unfolding sublist_def by (metis append_assoc append_take_drop_id)
    then show False using assms(1) u(1) by (simp add: lacks_def)
  next
    assume "length p > length a"
    then have "drop (Suc (length a)) (a @ c # b) = drop (Suc (length a)) p @ u @ q" unfolding pq by simp
    then have "b = drop (Suc (length a)) p @ u @ q" by simp
    then have "sublist u b" unfolding sublist_def by blast
    then show False using assms(2) u(1) by (simp add: lacks_def)
  qed
qed

section \<open>Masks leave no match behind\<close>

fun alphabet :: "'a rx \<Rightarrow> 'a set" where
  "alphabet (Cls cs) = set cs"
| "alphabet (Lit w) = set w"
| "alphabet (Cat rs) = \<Union> (alphabet ` set rs)"
| "alphabet (Alt rs) = \<Union> (alphabet ` set rs)"
| "alphabet (Rep lo hi r) = alphabet r"
| "alphabet (Star r) = alphabet r"

lemma lang_pow_alphabet: "(\<And>u. u \<in> L \<Longrightarrow> set u \<subseteq> A) \<Longrightarrow> u \<in> lang_pow L k \<Longrightarrow> set u \<subseteq> A"
  by (induction k arbitrary: u) fastforce+

lemma lang_alphabet: "u \<in> lang r \<Longrightarrow> set u \<subseteq> alphabet r"
proof (induction r arbitrary: u rule: lang.induct)
  case (4 r rs)
  then obtain v w where "u = v @ w" "v \<in> lang r" "w \<in> lang (Cat rs)" by auto
  then show ?case using 4 by fastforce
next
  case (7 lo hi r)
  then obtain k where k: "k \<in> {lo..hi}" "u \<in> lang_pow (lang r) k" by auto
  have "set v \<subseteq> alphabet r" if "v \<in> lang r" for v using 7(1) [OF k(1) that] .
  from lang_pow_alphabet [OF this k(2)] show ?case by simp
next
  case (8 r)
  then obtain k where k: "u \<in> lang_pow (lang r) k" by auto
  have "set v \<subseteq> alphabet r" if "v \<in> lang r" for v using 8(1) [OF UNIV_I that] .
  from lang_pow_alphabet [OF this k] show ?case by simp
qed fastforce+

text \<open>A unit that every match contains.\<close>

fun needs :: "'a \<Rightarrow> 'a rx \<Rightarrow> bool" where
  "needs c (Cls cs) \<longleftrightarrow> set cs \<subseteq> {c}"
| "needs c (Lit w) \<longleftrightarrow> c \<in> set w"
| "needs c (Cat rs) \<longleftrightarrow> (\<exists>r\<in>set rs. needs c r)"
| "needs c (Alt rs) \<longleftrightarrow> (\<forall>r\<in>set rs. needs c r)"
| "needs c (Rep lo hi r) \<longleftrightarrow> 0 < lo \<and> needs c r"
| "needs c (Star r) \<longleftrightarrow> False"

lemma lang_needs: "needs c r \<Longrightarrow> u \<in> lang r \<Longrightarrow> c \<in> set u"
proof (induction r arbitrary: u rule: lang.induct)
  case (4 r rs)
  then obtain v w where "u = v @ w" "v \<in> lang r" "w \<in> lang (Cat rs)" by auto
  then show ?case using 4 by fastforce
next
  case (7 lo hi r)
  then obtain k where k: "lo \<le> k" "u \<in> lang_pow (lang r) k" by auto
  then obtain j where "k = Suc j" using 7(2) by (cases k) auto
  then obtain v w where "u = v @ w" "v \<in> lang r" using k by auto
  then show ?case using 7 by auto
qed fastforce+

lemma lacks_needs: "needs c r \<Longrightarrow> c \<notin> set s \<Longrightarrow> lacks r s"
  unfolding lacks_def using lang_needs set_mono_sublist by fastforce

lemma needs_nonempty: "needs c r \<Longrightarrow> [] \<notin> lang r"
  using lang_needs by fastforce

text \<open>\<open>replace\<close> puts a text without a match between two units that no match contains.\<close>

definition seals :: "(jstext \<Rightarrow> jstext) \<Rightarrow> 16 word rx \<Rightarrow> bool" where
  "seals f r \<longleftrightarrow> [] \<notin> lang r \<and> (\<forall>m. \<exists>a w b. f m = a # w @ [b] \<and> lacks r w \<and> a \<notin> alphabet r \<and> b \<notin> alphabet r)"

lemma lacks_seal:
  assumes "seals f r" "lacks r s" "lacks r t"
  shows "lacks r (s @ f m @ t)"
proof -
  obtain a w b where f: "f m = a # w @ [b]" "lacks r w" "a \<notin> alphabet r" "b \<notin> alphabet r" using assms(1) unfolding seals_def by blast
  have "[] \<notin> lang r" using assms(1) unfolding seals_def by blast
  then have "lacks r (w @ b # t)" using lacks_separated [OF f(2) assms(3), of b] f(4) lang_alphabet by blast
  from lacks_separated [OF assms(2) this, of a] show ?thesis using f \<open>[] \<notin> lang r\<close> lang_alphabet by (simp, blast)
qed

lemma lacks_weave_old:
  assumes "seals f r" "lacks r s"
  shows "lacks r (weave f s i xs)"
proof (induction xs arbitrary: i)
  case Nil
  then show ?case using assms(2) by (simp add: lacks_sublist sublist_drop)
next
  case (Cons x xs)
  have "lacks r (take (sp_start x - i) (drop i s))"
    using assms(2) lacks_sublist sublist_order.order_trans [OF sublist_take sublist_drop] by blast
  from lacks_seal [OF assms(1) this Cons.IH] show ?case by simp
qed

lemma lacks_weave_new:
  assumes "seals f r" "spans_from i (length s) xs" "i \<le> length s"
    "\<And>j. i \<le> j \<Longrightarrow> j \<le> length s \<Longrightarrow> rests r (drop j s) \<noteq> [] \<Longrightarrow> \<exists>x\<in>set xs. sp_start x \<le> j \<and> j < sp_end x"
  shows "lacks r (weave f s i xs)"
  using assms(2-4)
proof (induction xs arbitrary: i)
  case Nil
  have "\<not> sublist u (drop i s)" if "u \<in> lang r" for u
  proof
    assume "sublist u (drop i s)"
    then obtain p q where p: "drop i s = p @ u @ q" unfolding sublist_def by blast
    have "drop (i + length p) s = drop (length p) (drop i s)" by (simp add: add.commute)
    then have "drop (i + length p) s = u @ q" unfolding p by simp
    moreover have "i + length p \<le> length s" using arg_cong [OF p, of length] Nil(2) by simp
    ultimately show False using Nil(3) [of "i + length p"] that rests_nonempty [of r "u @ q"] by auto
  qed
  then show ?case by (simp add: lacks_def)
next
  case (Cons x xs)
  have x: "i \<le> sp_start x" "sp_start x < sp_end x" "sp_end x \<le> length s" "spans_from (sp_end x) (length s) xs" using Cons(2) by auto
  have "\<not> sublist u (take (sp_start x - i) (drop i s))" if u: "u \<in> lang r" for u
  proof
    assume "sublist u (take (sp_start x - i) (drop i s))"
    then obtain p q where p: "take (sp_start x - i) (drop i s) = p @ u @ q" unfolding sublist_def by blast
    then have d: "drop i s = (p @ u @ q) @ drop (sp_start x - i) (drop i s)" by (metis append_take_drop_id)
    have "drop (i + length p) s = drop (length p) (drop i s)" by (simp add: add.commute)
    also have "\<dots> = u @ q @ drop (sp_start x - i) (drop i s)" by (subst d) simp
    finally have m: "rests r (drop (i + length p) s) \<noteq> []" using rests_nonempty u by auto
    have "length (p @ u @ q) \<le> sp_start x - i" using arg_cong [OF p, of length] by simp
    moreover have "u \<noteq> []" using u assms(1) unfolding seals_def by blast
    then have "0 < length u" by simp
    ultimately have lt: "i + length p < sp_start x" unfolding length_append by linarith
    then obtain y where "y \<in> set (x # xs)" "sp_start y \<le> i + length p" using Cons(4) [of "i + length p"] m x by auto
    then show False using lt x spans_from_start [OF x(4), of y] by auto
  qed
  then have gap: "lacks r (take (sp_start x - i) (drop i s))" by (simp add: lacks_def)
  have "lacks r (weave f s (sp_end x) xs)"
  proof (rule Cons(1) [OF x(4) x(3)])
    fix j
    assume "sp_end x \<le> j" "j \<le> length s" "rests r (drop j s) \<noteq> []"
    then show "\<exists>y\<in>set xs. sp_start y \<le> j \<and> j < sp_end y" using Cons(4) [of j] x by force
  qed
  from lacks_seal [OF assms(1) gap this] show ?case by simp
qed

lemma replace_keeps_lacking:
  assumes "text_engine exec" "seals f r" "lacks r s"
  shows "lacks r (replaceSpans s (findAll exec s accept) f)"
  using replaceSpans_weave [OF text_engine.findAll_spans(2) [OF assms(1)], of s accept f] lacks_weave_old [OF assms(2,3)] by simp

lemma replace_makes_lacking:
  assumes "seals f r" "\<And>a b. accept s a b"
  shows "lacks r (replaceSpans s (findAll (rx_exec r) s accept) f)"
proof -
  note sp = text_matcher.findAll_spans [where r = r and s = s and accept = accept]
  have "\<exists>x\<in>set (findAll (rx_exec r) s accept). sp_start x \<le> j \<and> j < sp_end x" if "j \<le> length s" "rests r (drop j s) \<noteq> []" for j
    using find_loop_covers [of r s accept "[]" 0 "findAll (rx_exec r) s accept" j] sp(1) assms that unfolding seals_def by auto
  then have "lacks r (weave f s 0 (findAll (rx_exec r) s accept))" using lacks_weave_new [OF assms(1) sp(2)] by blast
  then show ?thesis using replaceSpans_weave [OF sp(2), of f] by simp
qed

section \<open>Properties\<close>

text \<open>
  C18. The backtracking loop of \<open>globMatches\<close> ends on every pattern and key and decides the glob relation: a
  \<open>*\<close> of the pattern stands for any run of characters of the lower-cased key, every other character for itself.
\<close>

theorem globMatches_reference: "globMatches lower pattern key \<longleftrightarrow> glob pattern (lower key)"
  by (rule globMatches_iff)

text \<open>
  The part of a value that is scanned is its longest prefix of whole code points whose UTF-8 encoding has
  at most 16 KiB, whether the cut is taken from the short cut on the length or from the loop.
\<close>

theorem scanCut_longest:
  "\<exists>head rest. code_points s = head @ rest \<and> take (scanCut s) s = concat head \<and> length (encode_utf8 (concat head)) \<le> scanBytes \<and>
     (rest = [] \<or> length (encode_utf8 (concat head @ hd rest)) > scanBytes)"
  by (rule scanCut_prefix)

end
