(* ===== verification/Ingest_Hash.thy ===== *)
theory Ingest_Hash
  imports Maple_Prelude
begin

text \<open>
  SHA-256 and HMAC-SHA256 of \<^verbatim>\<open>packages/ingest-rules/src/sha256.ts\<close>, with the arithmetic the source computes
  with: numbers are integers, the bitwise operators work on signed 32-bit values and \<open>>>> 0\<close> takes the
  unsigned 32-bit value. The second part states the algorithm of the standard over 32-bit words and shows that
  the source computes it.
\<close>

unbundle bit_operations_syntax

section \<open>Operators on numbers\<close>

definition js_int32 :: "int \<Rightarrow> int" where
  "js_int32 x = signed_take_bit 31 x"

definition js_uint32 :: "int \<Rightarrow> int" where
  "js_uint32 x = take_bit 32 x"

definition js_and :: "int \<Rightarrow> int \<Rightarrow> int" where
  "js_and x y = js_int32 x AND js_int32 y"

definition js_or :: "int \<Rightarrow> int \<Rightarrow> int" where
  "js_or x y = js_int32 x OR js_int32 y"

definition js_xor :: "int \<Rightarrow> int \<Rightarrow> int" where
  "js_xor x y = js_int32 x XOR js_int32 y"

definition js_not :: "int \<Rightarrow> int" where
  "js_not x = NOT (js_int32 x)"

text \<open>\<open>x << n\<close>, \<open>x >> n\<close> and \<open>x >>> n\<close> for \<open>n < 32\<close>\<close>

definition js_shl :: "int \<Rightarrow> nat \<Rightarrow> int" where
  "js_shl x n = js_int32 (push_bit n (js_int32 x))"

definition js_sar :: "int \<Rightarrow> nat \<Rightarrow> int" where
  "js_sar x n = drop_bit n (js_int32 x)"

definition js_shr :: "int \<Rightarrow> nat \<Rightarrow> int" where
  "js_shr x n = drop_bit n (js_uint32 x)"

section \<open>The hash function\<close>

type_synonym bytes = "8 word list"

text \<open>The table of round constants, one list for each row of the source\<close>

definition K :: "int list" where
  "K = concat [
     [0x428a2f98, 0x71374491, 0xb5c0fbcf, 0xe9b5dba5, 0x3956c25b, 0x59f111f1, 0x923f82a4, 0xab1c5ed5],
     [0xd807aa98, 0x12835b01, 0x243185be, 0x550c7dc3, 0x72be5d74, 0x80deb1fe, 0x9bdc06a7, 0xc19bf174],
     [0xe49b69c1, 0xefbe4786, 0x0fc19dc6, 0x240ca1cc, 0x2de92c6f, 0x4a7484aa, 0x5cb0a9dc, 0x76f988da],
     [0x983e5152, 0xa831c66d, 0xb00327c8, 0xbf597fc7, 0xc6e00bf3, 0xd5a79147, 0x06ca6351, 0x14292967],
     [0x27b70a85, 0x2e1b2138, 0x4d2c6dfc, 0x53380d13, 0x650a7354, 0x766a0abb, 0x81c2c92e, 0x92722c85],
     [0xa2bfe8a1, 0xa81a664b, 0xc24b8b70, 0xc76c51a3, 0xd192e819, 0xd6990624, 0xf40e3585, 0x106aa070],
     [0x19a4c116, 0x1e376c08, 0x2748774c, 0x34b0bcb5, 0x391c0cb3, 0x4ed8aa4a, 0x5b9cca4f, 0x682e6ff3],
     [0x748f82ee, 0x78a5636f, 0x84c87814, 0x8cc70208, 0x90befffa, 0xa4506ceb, 0xbef9a3f7, 0xc67178f2]]"

definition rotr :: "int \<Rightarrow> nat \<Rightarrow> int" where
  "rotr x n = js_or (js_shr x n) (js_shl x (32 - n))"

text \<open>\<open>DataView.setUint32\<close> and \<open>getUint32\<close>, big-endian\<close>

definition be32 :: "int \<Rightarrow> bytes" where
  "be32 v = [of_int (drop_bit 24 v), of_int (drop_bit 16 v), of_int (drop_bit 8 v), of_int v]"

definition setUint32 :: "nat \<Rightarrow> int \<Rightarrow> bytes \<Rightarrow> bytes" where
  "setUint32 offset v bs = take offset bs @ be32 v @ drop (offset + 4) bs"

definition getUint32 :: "bytes \<Rightarrow> nat \<Rightarrow> int" where
  "getUint32 bs offset =
     uint (bs ! offset) * 16777216 + uint (bs ! (offset + 1)) * 65536 + uint (bs ! (offset + 2)) * 256 + uint (bs ! (offset + 3))"

definition padded_message :: "bytes \<Rightarrow> bytes" where
  "padded_message message =
     (let bitLength = int (length message) * 8;
          size = nat (js_shl (js_sar (int (length message) + 9 + 63) 6) 6);
          padded = (message @ replicate (size - length message) 0)[length message := 0x80]
      in setUint32 (size - 4) (js_uint32 bitLength) (setUint32 (size - 8) (bitLength div 2 ^ 32) padded))"

definition INITIAL :: "int list" where
  "INITIAL = [0x6a09e667, 0xbb67ae85, 0x3c6ef372, 0xa54ff53a, 0x510e527f, 0x9b05688c, 0x1f83d9ab, 0x5be0cd19]"

definition schedule_step :: "int list \<Rightarrow> nat \<Rightarrow> int list" where
  "schedule_step w i =
     (let s0 = js_xor (js_xor (rotr (w ! (i - 15)) 7) (rotr (w ! (i - 15)) 18)) (js_shr (w ! (i - 15)) 3);
          s1 = js_xor (js_xor (rotr (w ! (i - 2)) 17) (rotr (w ! (i - 2)) 19)) (js_shr (w ! (i - 2)) 10)
      in w[i := js_uint32 (w ! (i - 16) + s0 + w ! (i - 7) + s1)])"

definition schedule :: "bytes \<Rightarrow> nat \<Rightarrow> int list \<Rightarrow> int list" where
  "schedule padded offset w =
     foldl schedule_step (foldl (\<lambda>w i. w[i := getUint32 padded (offset + i * 4)]) w [0..<16]) [16..<64]"

record 'n registers =
  ra :: "'n"
  rb :: "'n"
  rc :: "'n"
  rd :: "'n"
  re :: "'n"
  rf :: "'n"
  rg :: "'n"
  rh :: "'n"

definition round_step :: "int list \<Rightarrow> int registers \<Rightarrow> nat \<Rightarrow> int registers" where
  "round_step w s i =
     (let t1 = js_uint32 (rh s + js_xor (js_xor (rotr (re s) 6) (rotr (re s) 11)) (rotr (re s) 25)
                          + js_xor (js_and (re s) (rf s)) (js_and (js_not (re s)) (rg s)) + K ! i + w ! i);
          t2 = js_uint32 (js_xor (js_xor (rotr (ra s) 2) (rotr (ra s) 13)) (rotr (ra s) 22)
                          + js_xor (js_xor (js_and (ra s) (rb s)) (js_and (ra s) (rc s))) (js_and (rb s) (rc s)))
      in \<lparr>ra = js_uint32 (t1 + t2), rb = ra s, rc = rb s, rd = rc s, re = js_uint32 (rd s + t1), rf = re s, rg = rf s, rh = rg s\<rparr>)"

definition add_registers :: "int list \<Rightarrow> int registers \<Rightarrow> int list" where
  "add_registers h s =
     [js_uint32 (h ! 0 + ra s), js_uint32 (h ! 1 + rb s), js_uint32 (h ! 2 + rc s), js_uint32 (h ! 3 + rd s),
      js_uint32 (h ! 4 + re s), js_uint32 (h ! 5 + rf s), js_uint32 (h ! 6 + rg s), js_uint32 (h ! 7 + rh s)]"

text \<open>One block; the array \<open>w\<close> is shared by all blocks.\<close>

definition block_step :: "bytes \<Rightarrow> int list \<times> int list \<Rightarrow> nat \<Rightarrow> int list \<times> int list" where
  "block_step padded st b =
     (let h = fst st; w = schedule padded (b * 64) (snd st);
          s = foldl (round_step w)
            \<lparr>ra = h ! 0, rb = h ! 1, rc = h ! 2, rd = h ! 3, re = h ! 4, rf = h ! 5, rg = h ! 6, rh = h ! 7\<rparr> [0..<64]
      in (add_registers h s, w))"

definition sha256 :: "bytes \<Rightarrow> bytes" where
  "sha256 message =
     (let padded = padded_message message;
          h = fst (foldl (block_step padded) (INITIAL, replicate 64 0) [0..<length padded div 64])
      in concat (map be32 h))"

definition hmacSha256 :: "bytes \<Rightarrow> bytes \<Rightarrow> bytes" where
  "hmacSha256 key message =
     (let k = (if length key > 64 then sha256 key else key);
          block = k @ replicate (64 - length k) 0;
          inner = map (\<lambda>byte. byte XOR 0x36) block @ message;
          outer = map (\<lambda>byte. byte XOR 0x5c) block @ sha256 inner
      in sha256 outer)"

definition hex_char :: "nat \<Rightarrow> char" where
  "hex_char n = (if n < 10 then char_of (48 + n) else char_of (87 + n))"

definition toHex :: "bytes \<Rightarrow> string" where
  "toHex bs = concat (map (\<lambda>b. [hex_char (unat b div 16), hex_char (unat b mod 16)]) bs)"

section \<open>The standard, over 32-bit words\<close>

definition Ch :: "32 word \<Rightarrow> 32 word \<Rightarrow> 32 word \<Rightarrow> 32 word" where
  "Ch x y z = (x AND y) XOR (NOT x AND z)"

definition Maj :: "32 word \<Rightarrow> 32 word \<Rightarrow> 32 word \<Rightarrow> 32 word" where
  "Maj x y z = (x AND y) XOR (x AND z) XOR (y AND z)"

definition Sigma0 :: "32 word \<Rightarrow> 32 word" where
  "Sigma0 x = word_rotr 2 x XOR word_rotr 13 x XOR word_rotr 22 x"

definition Sigma1 :: "32 word \<Rightarrow> 32 word" where
  "Sigma1 x = word_rotr 6 x XOR word_rotr 11 x XOR word_rotr 25 x"

definition sigma0 :: "32 word \<Rightarrow> 32 word" where
  "sigma0 x = word_rotr 7 x XOR word_rotr 18 x XOR drop_bit 3 x"

definition sigma1 :: "32 word \<Rightarrow> 32 word" where
  "sigma1 x = word_rotr 17 x XOR word_rotr 19 x XOR drop_bit 10 x"

fun W :: "32 word list \<Rightarrow> nat \<Rightarrow> 32 word" where
  "W M t = (if t < 16 then M ! t else sigma1 (W M (t - 2)) + W M (t - 7) + sigma0 (W M (t - 15)) + W M (t - 16))"

declare W.simps [simp del]

definition fips_round :: "32 word \<Rightarrow> 32 word \<Rightarrow> 32 word registers \<Rightarrow> 32 word registers" where
  "fips_round k w s =
     (let t1 = rh s + Sigma1 (re s) + Ch (re s) (rf s) (rg s) + k + w; t2 = Sigma0 (ra s) + Maj (ra s) (rb s) (rc s)
      in \<lparr>ra = t1 + t2, rb = ra s, rc = rb s, rd = rc s, re = rd s + t1, rf = re s, rg = rf s, rh = rg s\<rparr>)"

definition compress :: "32 word list \<Rightarrow> 32 word list \<Rightarrow> 32 word list" where
  "compress H M =
     (let s = foldl (\<lambda>s t. fips_round (of_int (K ! t)) (W M t) s)
            \<lparr>ra = H ! 0, rb = H ! 1, rc = H ! 2, rd = H ! 3, re = H ! 4, rf = H ! 5, rg = H ! 6, rh = H ! 7\<rparr> [0..<64]
      in [H ! 0 + ra s, H ! 1 + rb s, H ! 2 + rc s, H ! 3 + rd s, H ! 4 + re s, H ! 5 + rf s, H ! 6 + rg s, H ! 7 + rh s])"

text \<open>A one bit, zeros up to 56 modulo 64 bytes, and the length in bits as a 64-bit number.\<close>

definition fips_pad :: "bytes \<Rightarrow> bytes" where
  "fips_pad m = m @ [0x80] @ replicate (nat ((55 - int (length m)) mod 64)) 0 @
     map (\<lambda>i. of_int (drop_bit (8 * i) (8 * int (length m)))) [7, 6, 5, 4, 3, 2, 1, 0]"

definition fips_word :: "bytes \<Rightarrow> nat \<Rightarrow> 32 word" where
  "fips_word bs i = ucast (bs ! i) * 2 ^ 24 + ucast (bs ! (i + 1)) * 2 ^ 16 + ucast (bs ! (i + 2)) * 2 ^ 8 + ucast (bs ! (i + 3))"

definition fips_block :: "bytes \<Rightarrow> nat \<Rightarrow> 32 word list" where
  "fips_block bs b = map (\<lambda>i. fips_word bs (b * 64 + i * 4)) [0..<16]"

definition word_bytes :: "32 word \<Rightarrow> bytes" where
  "word_bytes w = [ucast (drop_bit 24 w), ucast (drop_bit 16 w), ucast (drop_bit 8 w), ucast w]"

definition fips_sha256 :: "bytes \<Rightarrow> bytes" where
  "fips_sha256 m =
     (let p = fips_pad m
      in concat (map word_bytes (foldl compress (map of_int INITIAL) (map (fips_block p) [0..<length p div 64]))))"

section \<open>The operators on numbers act as on words\<close>

lemma word_of_int32 [simp]: "(of_int (js_int32 x) :: 32 word) = of_int x"
  by (rule bit_word_eqI) (simp add: js_int32_def bit_simps)

lemma word_of_uint32 [simp]: "(of_int (js_uint32 x) :: 32 word) = of_int x"
  by (rule bit_word_eqI) (simp add: js_uint32_def bit_simps)

lemma word_of_and [simp]: "(of_int (js_and x y) :: 32 word) = of_int x AND of_int y"
  by (rule bit_word_eqI) (simp add: js_and_def js_int32_def bit_simps)

lemma word_of_or [simp]: "(of_int (js_or x y) :: 32 word) = of_int x OR of_int y"
  by (rule bit_word_eqI) (simp add: js_or_def js_int32_def bit_simps)

lemma word_of_xor [simp]: "(of_int (js_xor x y) :: 32 word) = of_int x XOR of_int y"
  by (rule bit_word_eqI) (simp add: js_xor_def js_int32_def bit_simps)

lemma word_of_not [simp]: "(of_int (js_not x) :: 32 word) = NOT (of_int x)"
  by (rule bit_word_eqI) (simp add: js_not_def js_int32_def bit_simps)

lemma word_of_shl [simp]: "(of_int (js_shl x n) :: 32 word) = push_bit n (of_int x)"
  by (rule bit_word_eqI) (auto simp: js_shl_def js_int32_def bit_simps)

lemma word_of_shr [simp]: "(of_int (js_shr x n) :: 32 word) = drop_bit n (of_int x)"
  by (rule bit_word_eqI) (auto simp: js_shr_def js_uint32_def bit_simps)

lemma word_of_rotr [simp]:
  assumes "0 < n" "n < 32"
  shows "(of_int (rotr x n) :: 32 word) = word_rotr n (of_int x)"
proof (rule bit_word_eqI)
  fix i
  assume "i < LENGTH(32)"
  then have i: "i < 32" by simp
  have "(i + n) mod 32 = (if i + n < 32 then i + n else i + n - 32)" using assms i by (simp add: mod_if)
  then show "bit (of_int (rotr x n) :: 32 word) i = bit (word_rotr n (of_int x :: 32 word)) i"
    using assms i by (auto simp: rotr_def bit_simps algebra_simps)
qed

lemma word_of_get: "(of_int (getUint32 bs i) :: 32 word) = fips_word bs i"
  by (simp add: getUint32_def fips_word_def)

lemma be32_word: "be32 v = word_bytes (of_int v)"
  by (simp add: be32_def word_bytes_def) (intro conjI; rule bit_word_eqI; auto simp: bit_simps)

section \<open>The loops\<close>

definition reg_word :: "int registers \<Rightarrow> 32 word registers" where
  "reg_word s = \<lparr>ra = of_int (ra s), rb = of_int (rb s), rc = of_int (rc s), rd = of_int (rd s), re = of_int (re s),
     rf = of_int (rf s), rg = of_int (rg s), rh = of_int (rh s)\<rparr>"

lemma round_step_word: "reg_word (round_step w s i) = fips_round (of_int (K ! i)) (of_int (w ! i)) (reg_word s)"
  by (simp add: round_step_def fips_round_def reg_word_def Sigma0_def Sigma1_def Ch_def Maj_def Let_def xor.assoc)

lemma rounds_word:
  "reg_word (foldl (round_step w) s ts) = foldl (\<lambda>s t. fips_round (of_int (K ! t)) (of_int (w ! t)) s) (reg_word s) ts"
  by (induction ts arbitrary: s) (simp_all add: round_step_word)

lemma load_nth:
  "n \<le> length w \<Longrightarrow> i < length w \<Longrightarrow> foldl (\<lambda>w i. w[i := f i]) w [0..<n] ! i = (if i < n then f i else w ! i)"
  "length (foldl (\<lambda>w i. w[i := f i]) w [0..<n]) = length w"
  by (induction n) (auto simp: nth_list_update)

lemma schedule_length: "length (foldl schedule_step w ts) = length w"
  by (induction ts arbitrary: w) (simp_all add: schedule_step_def Let_def)

lemma schedule_step_word:
  assumes "16 \<le> i" "i < length w"
  shows "of_int (schedule_step w i ! i) = sigma1 (of_int (w ! (i - 2))) + of_int (w ! (i - 7)) + sigma0 (of_int (w ! (i - 15))) + of_int (w ! (i - 16))"
  using assms by (simp add: schedule_step_def sigma0_def sigma1_def Let_def xor.assoc algebra_simps)

lemma schedule_step_other: "j \<noteq> i \<Longrightarrow> schedule_step w i ! j = w ! j"
  by (simp add: schedule_step_def Let_def)

lemma schedule_prefix:
  assumes "length w = 64" "\<And>i. i < 16 \<Longrightarrow> of_int (w ! i) = M ! i" "16 + n \<le> 64" "i < 16 + n"
  shows "of_int (foldl schedule_step w [16..<16 + n] ! i) = W M i"
  using assms(3,4)
proof (induction n arbitrary: i)
  case 0
  then show ?case using assms(2) by (simp add: W.simps)
next
  case (Suc n)
  let ?w = "foldl schedule_step w [16..<16 + n]"
  have l: "length ?w = 64" by (simp add: schedule_length assms(1))
  have e: "foldl schedule_step w [16..<16 + Suc n] = schedule_step ?w (16 + n)" by (simp only: add_Suc_right upt_Suc) simp
  have ih: "of_int (?w ! j) = W M j" if "j < 16 + n" for j using Suc that by simp
  show ?case
  proof (cases "i = 16 + n")
    case True
    have "of_int (schedule_step ?w (16 + n) ! (16 + n)) = W M (16 + n)"
      using schedule_step_word [of "16 + n" ?w] Suc(2) l ih by (subst W.simps) simp
    then show ?thesis unfolding e True .
  next
    case False
    then show ?thesis unfolding e using schedule_step_other [OF False] ih Suc(3) by simp
  qed
qed

lemma schedule_word:
  assumes "length w = 64" "i < 64"
  shows "of_int (schedule padded (b * 64) w ! i) = W (fips_block padded b) i"
proof -
  let ?w = "foldl (\<lambda>w i. w[i := getUint32 padded (b * 64 + i * 4)]) w [0..<16]"
  have "length ?w = 64" using assms(1) by (simp add: load_nth(2))
  moreover have "of_int (?w ! i) = fips_block padded b ! i" if "i < 16" for i
    using that assms(1) by (simp add: load_nth(1) fips_block_def word_of_get)
  ultimately show ?thesis using schedule_prefix [of ?w "fips_block padded b" 48 i] assms(2) unfolding schedule_def by simp
qed

lemma block_step_word:
  assumes "length (snd st) = 64" "length (fst st) = 8"
  shows "map of_int (fst (block_step padded st b)) = compress (map of_int (fst st)) (fips_block padded b)"
    "length (snd (block_step padded st b)) = 64" "length (fst (block_step padded st b)) = 8"
proof -
  note upt_rec_numeral [simp del]
  define h where "h = fst st"
  define w where "w = schedule padded (b * 64) (snd st)"
  define i where "i = \<lparr>ra = h ! 0, rb = h ! 1, rc = h ! 2, rd = h ! 3, re = h ! 4, rf = h ! 5, rg = h ! 6, rh = h ! 7\<rparr>"
  define s where "s = foldl (round_step w) i [0..<64]"
  define s' where "s' = foldl (\<lambda>s t. fips_round (of_int (K ! t)) (W (fips_block padded b) t) s) (reg_word i) [0..<64]"
  have step: "block_step padded st b = (add_registers h s, w)" by (simp add: block_step_def h_def w_def i_def s_def Let_def)
  have "reg_word s = s'"
    unfolding s_def s'_def rounds_word by (rule foldl_cong) (use schedule_word [OF assms(1)] in \<open>auto simp: w_def\<close>)
  then have r: "of_int (ra s) = ra s'" "of_int (rb s) = rb s'" "of_int (rc s) = rc s'" "of_int (rd s) = rd s'"
    "of_int (re s) = re s'" "of_int (rf s) = rf s'" "of_int (rg s) = rg s'" "of_int (rh s) = rh s'"
    by (auto simp: reg_word_def)
  have n: "map of_int h ! j = (of_int (h ! j) :: 32 word)" if "j < 8" for j using that assms(2) by (simp add: h_def)
  have "reg_word i = \<lparr>ra = map of_int h ! 0, rb = map of_int h ! 1, rc = map of_int h ! 2, rd = map of_int h ! 3,
      re = map of_int h ! 4, rf = map of_int h ! 5, rg = map of_int h ! 6, rh = map of_int h ! 7\<rparr>"
    using n by (simp add: i_def reg_word_def)
  then have "compress (map of_int h) (fips_block padded b) =
      [map of_int h ! 0 + ra s', map of_int h ! 1 + rb s', map of_int h ! 2 + rc s', map of_int h ! 3 + rd s',
       map of_int h ! 4 + re s', map of_int h ! 5 + rf s', map of_int h ! 6 + rg s', map of_int h ! 7 + rh s']"
    by (simp add: compress_def s'_def Let_def)
  also have "\<dots> = map of_int (add_registers h s)" using n r by (simp add: add_registers_def)
  finally show "map of_int (fst (block_step padded st b)) = compress (map of_int (fst st)) (fips_block padded b)"
    by (simp add: step h_def)
  show "length (snd (block_step padded st b)) = 64" "length (fst (block_step padded st b)) = 8"
    by (simp_all add: step w_def schedule_def schedule_length load_nth(2) assms add_registers_def)
qed

lemma blocks_word:
  assumes "length (snd st) = 64" "length (fst st) = 8"
  shows "map of_int (fst (foldl (block_step padded) st bs)) = foldl compress (map of_int (fst st)) (map (fips_block padded) bs)"
  using assms
proof (induction bs arbitrary: st)
  case (Cons b bs)
  then show ?case using block_step_word [OF Cons(2,3), of padded b] by simp
qed simp

section \<open>Padding\<close>

lemma int32_small: "0 \<le> x \<Longrightarrow> x < 2 ^ 31 \<Longrightarrow> js_int32 x = x"
  by (simp add: js_int32_def signed_take_bit_int_eq_self)

lemma padded_size:
  assumes "0 \<le> x" "x < 2 ^ 31"
  shows "js_shl (js_sar x 6) 6 = x div 64 * 64"
proof -
  have d: "js_sar x 6 = x div 64" using assms by (simp add: js_sar_def int32_small drop_bit_eq_div)
  have "x div 64 * 64 \<le> x" by simp
  then have "0 \<le> x div 64" "x div 64 < 2 ^ 31" "x div 64 * 64 < 2 ^ 31" "0 \<le> x div 64 * 64" using assms by auto
  then show ?thesis unfolding d by (simp add: js_shl_def int32_small push_bit_eq_mult)
qed

lemma length_bytes:
  "be32 (n div 2 ^ 32) @ be32 (js_uint32 n) = map (\<lambda>i. of_int (drop_bit (8 * i) n)) [7, 6, 5, 4, 3, 2, 1, 0]"
proof -
  have "n div 2 ^ 32 = drop_bit 32 n" by (simp add: drop_bit_eq_div)
  then show ?thesis by (simp add: be32_def js_uint32_def) (intro conjI; rule bit_word_eqI; auto simp: bit_simps)
qed

lemma padded_message_fips:
  assumes "int (length m) + 72 < 2 ^ 31"
  shows "padded_message m = fips_pad m"
proof -
  define n where "n = length m"
  define size where "size = (n + 72) div 64 * 64"
  have "js_shl (js_sar (int (n + 72)) 6) 6 = int (n + 72) div 64 * 64"
    using assms by (intro padded_size) (simp_all add: n_def)
  also have "\<dots> = int size" unfolding size_def by (simp only: of_nat_mult of_nat_div of_nat_numeral)
  finally have sz: "nat (js_shl (js_sar (int n + 9 + 63) 6) 6) = size" by (simp add: add.commute)
  have s: "size \<le> n + 72" "n + 9 \<le> size" unfolding size_def by linarith+
  have k: "nat ((55 - int n) mod 64) = size - 9 - n"
  proof -
    have "55 - int n = int (size - 9 - n) + 64 * (1 - int ((n + 72) div 64))" using s by (simp add: size_def of_nat_diff)
    then have "(55 - int n) mod 64 = int (size - 9 - n) mod 64" by (simp only: mod_mult_self2)
    also have "\<dots> = int (size - 9 - n)" using s by simp
    finally show ?thesis by simp
  qed
  let ?p = "m @ [0x80] @ replicate (size - 9 - n) 0"
  have upd: "(m @ replicate (size - n) 0)[n := 0x80] = ?p @ replicate 8 0"
  proof -
    have "size - n = Suc (size - 9 - n + 8)" using s by simp
    then have "replicate (size - n) (0 :: 8 word) = 0 # replicate (size - 9 - n) 0 @ replicate 8 0"
      by (simp only: replicate.simps replicate_add)
    then show ?thesis by (simp add: n_def list_update_append)
  qed
  have set: "setUint32 (size - 4) y (setUint32 (size - 8) x (p @ replicate 8 0)) = p @ be32 x @ be32 y" if "length p = size - 8" for p x y
    using that s by (simp add: setUint32_def be32_def)
  have "length ?p = size - 8" using s by (simp add: n_def)
  from set [OF this] have "padded_message m = ?p @ be32 (int n * 8 div 2 ^ 32) @ be32 (js_uint32 (int n * 8))"
    unfolding padded_message_def Let_def n_def [symmetric] sz upd .
  also have "\<dots> = ?p @ map (\<lambda>i. of_int (drop_bit (8 * i) (int n * 8))) [7, 6, 5, 4, 3, 2, 1, 0]" unfolding length_bytes ..
  also have "\<dots> = fips_pad m" unfolding fips_pad_def n_def [symmetric] k by (simp add: mult.commute)
  finally show ?thesis .
qed

lemma sha256_fips:
  assumes "int (length m) + 72 < 2 ^ 31"
  shows "sha256 m = fips_sha256 m"
proof -
  have "map of_int (fst (foldl (block_step (fips_pad m)) (INITIAL, replicate 64 0) bs)) =
      foldl compress (map of_int INITIAL) (map (fips_block (fips_pad m)) bs)" for bs
    using blocks_word [of "(INITIAL, replicate 64 0)"] by (simp add: INITIAL_def)
  then have "concat (map word_bytes (map of_int (fst (foldl (block_step (fips_pad m)) (INITIAL, replicate 64 0) bs)))) =
      concat (map word_bytes (foldl compress (map of_int INITIAL) (map (fips_block (fips_pad m)) bs)))" for bs by simp
  moreover have "be32 = word_bytes \<circ> of_int" by (rule ext) (simp add: be32_word)
  ultimately show ?thesis by (simp add: sha256_def fips_sha256_def padded_message_fips [OF assms] Let_def comp_def)
qed

section \<open>HMAC\<close>

definition rfc_hmac :: "bytes \<Rightarrow> bytes \<Rightarrow> bytes" where
  "rfc_hmac key m =
     (let k = (if length key > 64 then fips_sha256 key else key); k0 = k @ replicate (64 - length k) 0
      in fips_sha256 (map (\<lambda>b. b XOR 0x5c) k0 @ fips_sha256 (map (\<lambda>b. b XOR 0x36) k0 @ m)))"

lemma length_fips: "length (fips_sha256 m) = 32"
proof -
  have "length H = 8 \<Longrightarrow> length (foldl compress H bs) = 8" for H bs
  proof (induction bs arbitrary: H)
    case (Cons b bs)
    have "length (compress H b) = 8" by (simp add: compress_def Let_def)
    then show ?case using Cons by simp
  qed simp
  moreover have "length (concat (map word_bytes ws)) = 4 * length ws" for ws by (induction ws) (simp_all add: word_bytes_def)
  ultimately show ?thesis by (simp add: fips_sha256_def Let_def INITIAL_def del: foldl_map)
qed

lemma hmac_rfc:
  assumes "int (length key) + 72 < 2 ^ 31" "int (length m) + 136 < 2 ^ 31"
  shows "hmacSha256 key m = rfc_hmac key m"
proof -
  define k where "k = (if length key > 64 then fips_sha256 key else key)"
  have k: "length k \<le> 64" "k = (if length key > 64 then sha256 key else key)"
    using sha256_fips [OF assms(1)] by (simp_all add: k_def length_fips)
  let ?k0 = "k @ replicate (64 - length k) 0"
  have l: "length ?k0 = 64" using k(1) by simp
  have inner: "sha256 (map (\<lambda>b. b XOR 0x36) ?k0 @ m) = fips_sha256 (map (\<lambda>b. b XOR 0x36) ?k0 @ m)"
    by (rule sha256_fips) (use l assms(2) in simp)
  have "sha256 (map (\<lambda>b. b XOR 0x5c) ?k0 @ x) = fips_sha256 (map (\<lambda>b. b XOR 0x5c) ?k0 @ x)" if "length x = 32" for x
    by (rule sha256_fips) (use l that in simp)
  then show ?thesis using inner by (simp add: hmacSha256_def rfc_hmac_def k(2) [symmetric] k_def [symmetric] Let_def length_fips)
qed

section \<open>Properties\<close>

text \<open>
  C22. The synchronous hash computes SHA-256 of the standard, with its 32-bit words, padding and message
  schedule, although it works with signed shifts, unnormalised sums and one reused array; and the keyed hash is
  HMAC over it. The lengths are bounded by what the signed shifts of the padding can represent.
\<close>

theorem hmacSha256_standard:
  assumes "int (length key) + 72 < 2 ^ 31" "int (length m) + 136 < 2 ^ 31"
  shows "sha256 m = fips_sha256 m \<and> hmacSha256 key m = rfc_hmac key m"
  using hmac_rfc [OF assms] sha256_fips [of m] assms(2) by simp

theorem hmacSha256_standard_witness:
  "sha256 [97, 98, 99] = fips_sha256 [97, 98, 99] \<and> hmacSha256 [107] [97, 98, 99] = rfc_hmac [107] [97, 98, 99]"
  by (rule hmacSha256_standard) simp_all

end
