(* ===== verification/Ingest_Engine.thy ===== *)
theory Ingest_Engine
  imports Ingest_Scan Ingest_Hash
begin

text \<open>
  The rule engine of \<^verbatim>\<open>packages/ingest-rules/src/engine.ts\<close> with the rule model and validator of
  \<^verbatim>\<open>packages/domain/src/ingest-rules.ts\<close>: conditions, sampling, redaction and their order.

  What the engine takes from the JavaScript run time or from the compiler of custom patterns is the record
  \<open>Runtime\<close>: case conversion, the text of a non-negative number, the compiled form of a custom pattern and
  the problem the validator finds in one.
\<close>

section \<open>Rules\<close>

datatype IngestRuleSignal = traces | logs | metrics

datatype IngestRuleField =
  f_service_name | f_name | f_attribute | f_resource_attribute | f_body | f_severity | f_span_kind | f_span_status

datatype IngestRuleOp =
  o_eq | o_neq | o_in | o_not_in | o_prefix | o_contains | o_regex | o_exists | o_not_exists | o_lt | o_gte

record IngestRuleCondition =
  cond_field :: IngestRuleField
  cond_key :: "jstext option"
  cond_op :: IngestRuleOp
  cond_value :: "jstext option"
  cond_values :: "jstext list option"

datatype IngestRuleScope = in_attributes | in_resource | in_events | in_body

datatype IngestRuleRedactMethod = by_mask | by_hash | by_remove

record IngestRuleRedactAction =
  act_keys :: "jstext list"
  act_detectors :: "IngestRuleDetector list"
  act_patterns :: "jstext list"
  act_scopes :: "IngestRuleScope list"
  act_method :: IngestRuleRedactMethod

datatype IngestRuleAction = Drop int | Redact IngestRuleRedactAction

record IngestRuleSpec =
  rule_signals :: "IngestRuleSignal list"
  rule_conditions :: "IngestRuleCondition list"
  rule_action :: IngestRuleAction

record Runtime =
  toLowerCase :: "jstext \<Rightarrow> jstext"
  number_text :: "rat \<Rightarrow> jstext"
  compileIngestRegex :: "jstext \<Rightarrow> engine option"
  regexProblem :: "jstext \<Rightarrow> string option"

section \<open>Validation\<close>

definition isProtectedKey :: "jstext \<Rightarrow> bool" where
  "isProtectedKey key \<longleftrightarrow> key = units ''service.name'' \<or> key = units ''org_id'' \<or>
     rx_test (Cat [Lit (units ''maple_''), Many 1 (Cls (lower_units @ digit_units @ units ''_''))]) key"

definition SINGLE_OPS :: "IngestRuleOp list" where "SINGLE_OPS = [o_eq, o_neq, o_prefix, o_contains, o_regex]"
definition LIST_OPS :: "IngestRuleOp list" where "LIST_OPS = [o_in, o_not_in]"
definition PRESENCE_OPS :: "IngestRuleOp list" where "PRESENCE_OPS = [o_exists, o_not_exists]"

fun FIELD_SIGNALS :: "IngestRuleField \<Rightarrow> IngestRuleSignal list option" where
  "FIELD_SIGNALS f_name = Some [traces, metrics]"
| "FIELD_SIGNALS f_body = Some [logs]"
| "FIELD_SIGNALS f_severity = Some [logs]"
| "FIELD_SIGNALS f_span_kind = Some [traces]"
| "FIELD_SIGNALS f_span_status = Some [traces]"
| "FIELD_SIGNALS _ = None"

fun FIELD_OPS :: "IngestRuleField \<Rightarrow> IngestRuleOp list" where
  "FIELD_OPS f_service_name = SINGLE_OPS @ LIST_OPS"
| "FIELD_OPS f_name = SINGLE_OPS @ LIST_OPS"
| "FIELD_OPS f_attribute = SINGLE_OPS @ LIST_OPS @ PRESENCE_OPS"
| "FIELD_OPS f_resource_attribute = SINGLE_OPS @ LIST_OPS @ PRESENCE_OPS"
| "FIELD_OPS f_body = [o_eq, o_neq, o_prefix, o_contains, o_regex]"
| "FIELD_OPS f_severity = [o_lt, o_gte]"
| "FIELD_OPS f_span_kind = LIST_OPS"
| "FIELD_OPS f_span_status = LIST_OPS"

definition SPAN_KINDS :: "jstext list" where
  "SPAN_KINDS = map units [''unspecified'', ''internal'', ''server'', ''client'', ''producer'', ''consumer'']"

definition SPAN_STATUSES :: "jstext list" where
  "SPAN_STATUSES = map units [''unset'', ''ok'', ''error'']"

definition SEVERITY_LEVELS :: "(jstext \<times> int) list" where
  "SEVERITY_LEVELS =
     [(units ''trace'', 1), (units ''debug'', 5), (units ''info'', 9), (units ''warn'', 13), (units ''error'', 17), (units ''fatal'', 21)]"

definition valuesPerCondition :: nat where "valuesPerCondition = 100"
definition valueLength :: nat where "valueLength = 1024"
definition conditionsPerRule :: nat where "conditionsPerRule = 20"
definition keysPerRule :: nat where "keysPerRule = 32"
definition patternsPerRule :: nat where "patternsPerRule = 10"

text \<open>The problems of a rule, one constructor per message.\<close>

datatype rule_problem =
    UnsupportedOp IngestRuleField IngestRuleOp
  | NeedsKey IngestRuleField
  | TakesNoKey IngestRuleField
  | OnlyAppliesTo IngestRuleField "IngestRuleSignal list"
  | NeedsValues IngestRuleOp
  | TooManyValues IngestRuleOp
  | ValueTooLong
  | UnknownSpanKind
  | UnknownSpanStatus
  | TakesValues IngestRuleOp
  | TakesNoValue IngestRuleOp
  | NeedsValue IngestRuleOp
  | TakesValue IngestRuleOp
  | UnknownSeverity
  | RegexProblem string
  | NoSignal
  | DuplicateSignal
  | TooManyConditions
  | ConditionProblem nat rule_problem
  | BadKeepPercent
  | DropNeedsCondition
  | MetricsSampled
  | NothingToRedact
  | TooManyKeys
  | BadKey
  | ProtectedKey jstext
  | DuplicateDetector
  | TooManyPatterns
  | PatternProblem nat string
  | NoScope
  | BodyOnlyLogs
  | EventsOnlyTraces

definition conditionProblem :: "Runtime \<Rightarrow> IngestRuleCondition \<Rightarrow> IngestRuleSignal list \<Rightarrow> rule_problem option" where
  "conditionProblem rt c signals =
     (let field = cond_field c; opr = cond_op c; keyed = (field = f_attribute \<or> field = f_resource_attribute)
      in if opr \<notin> set (FIELD_OPS field) then Some (UnsupportedOp field opr)
         else if keyed \<and> (cond_key c = None \<or> cond_key c = Some []) then Some (NeedsKey field)
         else if \<not> keyed \<and> cond_key c \<noteq> None then Some (TakesNoKey field)
         else if (case FIELD_SIGNALS field of None \<Rightarrow> False | Some only \<Rightarrow> list_ex (\<lambda>s. s \<notin> set only) signals)
         then Some (OnlyAppliesTo field (the (FIELD_SIGNALS field)))
         else if opr \<in> set LIST_OPS then
           (let values = (case cond_values c of None \<Rightarrow> [] | Some vs \<Rightarrow> vs)
            in if values = [] then Some (NeedsValues opr)
               else if length values > valuesPerCondition then Some (TooManyValues opr)
               else if list_ex (\<lambda>v. length v > valueLength) values then Some ValueTooLong
               else if field = f_span_kind \<and> list_ex (\<lambda>v. v \<notin> set SPAN_KINDS) values then Some UnknownSpanKind
               else if field = f_span_status \<and> list_ex (\<lambda>v. v \<notin> set SPAN_STATUSES) values then Some UnknownSpanStatus
               else if cond_value c = None then None else Some (TakesValues opr))
         else if opr \<in> set PRESENCE_OPS then
           (if cond_value c = None \<and> cond_values c = None then None else Some (TakesNoValue opr))
         else
           (case cond_value c of
              None \<Rightarrow> Some (NeedsValue opr)
            | Some v \<Rightarrow>
                if cond_values c \<noteq> None then Some (TakesValue opr)
                else if length v > valueLength then Some ValueTooLong
                else if field = f_severity \<and> map_of SEVERITY_LEVELS v = None then Some UnknownSeverity
                else if opr = o_regex then map_option RegexProblem (regexProblem rt v)
                else None))"

definition ingestRuleProblems :: "Runtime \<Rightarrow> IngestRuleSpec \<Rightarrow> rule_problem list" where
  "ingestRuleProblems rt spec =
     (if rule_signals spec = [] then [NoSignal] else [])
     @ (if card (set (rule_signals spec)) \<noteq> length (rule_signals spec) then [DuplicateSignal] else [])
     @ (if length (rule_conditions spec) > conditionsPerRule then [TooManyConditions] else [])
     @ concat (map (\<lambda>(index, c). case conditionProblem rt c (rule_signals spec) of None \<Rightarrow> [] | Some p \<Rightarrow> [ConditionProblem (index + 1) p])
         (enumerate 0 (rule_conditions spec)))
     @ (case rule_action spec of
          Drop keepPercent \<Rightarrow>
            (if keepPercent < 0 \<or> keepPercent > 100 then [BadKeepPercent] else [])
            @ (if rule_conditions spec = [] then [DropNeedsCondition] else [])
            @ (if keepPercent > 0 \<and> metrics \<in> set (rule_signals spec) then [MetricsSampled] else [])
        | Redact action \<Rightarrow>
            (if length (act_keys action) + length (act_detectors action) + length (act_patterns action) = 0 then [NothingToRedact] else [])
            @ (if length (act_keys action) > keysPerRule then [TooManyKeys] else [])
            @ concat (map (\<lambda>key. if key = [] \<or> length key > valueLength then [BadKey]
                                 else if isProtectedKey key then [ProtectedKey key] else []) (act_keys action))
            @ (if card (set (act_detectors action)) \<noteq> length (act_detectors action) then [DuplicateDetector] else [])
            @ (if length (act_patterns action) > patternsPerRule then [TooManyPatterns] else [])
            @ concat (map (\<lambda>(index, p). case regexProblem rt p of None \<Rightarrow> [] | Some problem \<Rightarrow> [PatternProblem (index + 1) problem])
                (enumerate 0 (act_patterns action)))
            @ (if act_scopes action = [] then [NoScope] else [])
            @ (if in_body \<in> set (act_scopes action) \<and> logs \<notin> set (rule_signals spec) then [BodyOnlyLogs] else [])
            @ (if in_events \<in> set (act_scopes action) \<and> traces \<notin> set (rule_signals spec) then [EventsOnlyTraces] else []))"

section \<open>Records\<close>

datatype js_double = Double jsnum | NegZero

datatype AttrValue =
    AttrStr jstext
  | AttrNum js_double
  | AttrBig int
  | AttrBool bool
  | AttrBytes bytes
  | AttrList "AttrValue list"
  | AttrMap "(jstext \<times> AttrValue) list"

type_synonym attrs = "(jstext \<times> AttrValue) list"

record RuleEvent =
  event_name :: jstext
  event_attributes :: attrs

record RuleRecord =
  rec_signal :: IngestRuleSignal
  rec_resource :: attrs
  rec_attributes :: attrs
  rec_name :: "jstext option"
  rec_body :: "AttrValue option"
  rec_severityNumber :: "int option"
  rec_severityText :: "jstext option"
  rec_traceId :: "jstext option"
  rec_spanKind :: "jstext option"
  rec_spanStatus :: "jstext option"
  rec_statusMessage :: "jstext option"
  rec_events :: "RuleEvent list option"

record CompiledCondition =
  cc_condition :: IngestRuleCondition
  cc_values :: "jstext list"
  cc_regex :: "engine option"

record CompiledRule =
  cr_index :: nat
  cr_spec :: IngestRuleSpec
  cr_signals :: "IngestRuleSignal list"
  cr_conditions :: "CompiledCondition list"
  cr_keys :: "jstext list"
  cr_patterns :: "engine list"

record InvalidRule =
  inv_index :: nat
  inv_problems :: "rule_problem list"

record CompiledRules =
  cs_rules :: "CompiledRule list"
  cs_invalid :: "InvalidRule list"
  cs_salt :: bytes

datatype RuleOutcome =
    Dropped nat "nat list"
  | Kept RuleRecord "nat list" "(nat, nat) jsmap"

definition compileCondition :: "Runtime \<Rightarrow> IngestRuleCondition \<Rightarrow> CompiledCondition" where
  "compileCondition rt c =
     \<lparr>cc_condition = c, cc_values = (case cond_values c of None \<Rightarrow> [] | Some vs \<Rightarrow> vs),
      cc_regex = (if cond_op c = o_regex then (case cond_value c of None \<Rightarrow> None | Some v \<Rightarrow> compileIngestRegex rt v) else None)\<rparr>"

definition compileRule :: "Runtime \<Rightarrow> nat \<Rightarrow> IngestRuleSpec \<Rightarrow> CompiledRule" where
  "compileRule rt index spec =
     \<lparr>cr_index = index, cr_spec = spec, cr_signals = rule_signals spec, cr_conditions = map (compileCondition rt) (rule_conditions spec),
      cr_keys = (case rule_action spec of Redact action \<Rightarrow> map (toLowerCase rt) (act_keys action) | Drop _ \<Rightarrow> []),
      cr_patterns = (case rule_action spec of
          Redact action \<Rightarrow> List.map_filter (compileIngestRegex rt) (act_patterns action)
        | Drop _ \<Rightarrow> [])\<rparr>"

definition compileRules :: "Runtime \<Rightarrow> IngestRuleSpec list \<Rightarrow> jstext \<Rightarrow> CompiledRules" where
  "compileRules rt specs salt =
     \<lparr>cs_rules = concat (map (\<lambda>(index, spec). if ingestRuleProblems rt spec \<noteq> [] then [] else [compileRule rt index spec]) (enumerate 0 specs)),
      cs_invalid = concat (map (\<lambda>(index, spec). if ingestRuleProblems rt spec \<noteq> []
          then [\<lparr>inv_index = index, inv_problems = ingestRuleProblems rt spec\<rparr>] else []) (enumerate 0 specs)),
      cs_salt = encode_utf8 salt\<rparr>"

section \<open>Conditions\<close>

definition LETTER_E :: "16 word" where "LETTER_E = 101"
definition POINT :: "16 word" where "POINT = 46"

text \<open>\<open>Number(exponentText)\<close> for a text like \<open>+21\<close> or \<open>-7\<close>\<close>

definition exponent_value :: "jstext \<Rightarrow> int" where
  "exponent_value s =
     (let digits = (\<lambda>ds. foldl (\<lambda>n u. 10 * n + (uint u - 48)) 0 ds)
      in case s of
           [] \<Rightarrow> 0
         | u # us \<Rightarrow> if u = 45 then - digits us else if u = 43 then digits us else digits s)"

definition shift_point :: "jstext \<Rightarrow> jstext" where
  "shift_point text =
     (let mantissa = takeWhile (\<lambda>u. u \<noteq> LETTER_E) text;
          exponentText = drop (length mantissa + 1) text;
          whole = takeWhile (\<lambda>u. u \<noteq> POINT) mantissa;
          digits = whole @ drop (length whole + 1) mantissa;
          point = int (length whole) + exponent_value exponentText
      in if point \<ge> int (length digits) then digits @ replicate (nat (point - int (length digits))) 48
         else if point \<le> 0 then units ''0.'' @ replicate (nat (- point)) 48 @ digits
         else take (nat point) digits @ [POINT] @ drop (nat point) digits)"

definition formatDouble :: "Runtime \<Rightarrow> js_double \<Rightarrow> jstext" where
  "formatDouble rt value =
     (case value of
        Double NaN \<Rightarrow> units ''NaN''
      | Double PosInf \<Rightarrow> units ''inf''
      | Double NegInf \<Rightarrow> units ''-inf''
      | NegZero \<Rightarrow> units ''-0''
      | Double (Fin r) \<Rightarrow>
          (let text = number_text rt \<bar>r\<bar>;
               unsigned = (if LETTER_E \<notin> set text then text else shift_point text)
           in if r < 0 then units ''-'' @ unsigned else unsigned))"

fun comparable :: "Runtime \<Rightarrow> AttrValue \<Rightarrow> jstext option" where
  "comparable rt (AttrStr s) = Some s"
| "comparable rt (AttrNum n) = Some (formatDouble rt n)"
| "comparable rt (AttrBig n) = Some (units (js_String_int n))"
| "comparable rt (AttrBool b) = Some (if b then units ''true'' else units ''false'')"
| "comparable rt _ = None"

definition startsWith :: "jstext \<Rightarrow> jstext \<Rightarrow> bool" where
  "startsWith s p \<longleftrightarrow> take (length p) s = p"

definition text_includes :: "jstext \<Rightarrow> jstext \<Rightarrow> bool" where
  "text_includes s p \<longleftrightarrow> list_ex (\<lambda>i. take (length p) (drop i s) = p) [0..<Suc (length s)]"

definition SEVERITY_PREFIXES :: "(jstext \<times> int) list" where
  "SEVERITY_PREFIXES =
     [(units ''trace'', 1), (units ''debug'', 5), (units ''info'', 9), (units ''warn'', 13), (units ''err'', 17),
      (units ''fatal'', 21), (units ''crit'', 21), (units ''emerg'', 21)]"

definition severityOf :: "Runtime \<Rightarrow> RuleRecord \<Rightarrow> int option" where
  "severityOf rt r =
     (let text = toLowerCase rt (case rec_severityText r of None \<Rightarrow> [] | Some s \<Rightarrow> s);
          named = map_option snd (find (\<lambda>(prefix, _). startsWith text prefix) SEVERITY_PREFIXES)
      in case rec_severityNumber r of
           Some n \<Rightarrow> if n > 0 then Some n else named
         | None \<Rightarrow> named)"

text \<open>The outer \<open>None\<close> is \<open>undefined\<close> (missing), the inner one \<open>null\<close> (present, not comparable).\<close>

definition fieldValue :: "Runtime \<Rightarrow> RuleRecord \<Rightarrow> IngestRuleCondition \<Rightarrow> jstext option option" where
  "fieldValue rt r c =
     (let key = (case cond_key c of None \<Rightarrow> [] | Some k \<Rightarrow> k)
      in case cond_field c of
           f_service_name \<Rightarrow>
             (case map_of (rec_resource r) (units ''service.name'') of None \<Rightarrow> Some (Some []) | Some v \<Rightarrow> Some (comparable rt v))
         | f_name \<Rightarrow> Some (Some (case rec_name r of None \<Rightarrow> [] | Some s \<Rightarrow> s))
         | f_attribute \<Rightarrow> map_option (comparable rt) (map_of (rec_attributes r) key)
         | f_resource_attribute \<Rightarrow> map_option (comparable rt) (map_of (rec_resource r) key)
         | f_body \<Rightarrow> map_option (comparable rt) (rec_body r)
         | f_span_kind \<Rightarrow> map_option Some (rec_spanKind r)
         | f_span_status \<Rightarrow> map_option Some (rec_spanStatus r)
         | f_severity \<Rightarrow> None)"

definition conditionMatches :: "Runtime \<Rightarrow> RuleRecord \<Rightarrow> CompiledCondition \<Rightarrow> bool" where
  "conditionMatches rt r cc =
     (let c = cc_condition cc
      in if cond_field c = f_severity then
           (case (severityOf rt r, map_of SEVERITY_LEVELS (case cond_value c of None \<Rightarrow> [] | Some v \<Rightarrow> v)) of
              (Some severity, Some level) \<Rightarrow> if cond_op c = o_lt then severity < level else severity \<ge> level
            | _ \<Rightarrow> False)
         else
           let value = fieldValue rt r c; operand = (case cond_value c of None \<Rightarrow> [] | Some v \<Rightarrow> v)
           in if cond_op c = o_exists then value \<noteq> None
              else if cond_op c = o_not_exists then value = None
              else
                (case value of
                   None \<Rightarrow> cond_op c = o_neq \<or> cond_op c = o_not_in
                 | Some None \<Rightarrow> False
                 | Some (Some v) \<Rightarrow>
                     (case cond_op c of
                        o_eq \<Rightarrow> v = operand
                      | o_neq \<Rightarrow> v \<noteq> operand
                      | o_in \<Rightarrow> v \<in> set (cc_values cc)
                      | o_not_in \<Rightarrow> v \<notin> set (cc_values cc)
                      | o_prefix \<Rightarrow> startsWith v operand
                      | o_contains \<Rightarrow> text_includes v operand
                      | o_regex \<Rightarrow> (case cc_regex cc of None \<Rightarrow> False | Some exec \<Rightarrow> exec (take (scanCut v) v) 0 \<noteq> None)
                      | _ \<Rightarrow> False)))"

definition ruleMatches :: "Runtime \<Rightarrow> CompiledRule \<Rightarrow> RuleRecord \<Rightarrow> bool" where
  "ruleMatches rt rule r \<longleftrightarrow> rec_signal r \<in> set (cr_signals rule) \<and> list_all (conditionMatches rt r) (cr_conditions rule)"

section \<open>Sampling\<close>

text \<open>\<open>getBigUint64(0)\<close> of a digest\<close>

definition first_uint64 :: "bytes \<Rightarrow> nat" where
  "first_uint64 bs = foldl (\<lambda>n b. n * 256 + unat b) 0 (take 8 bs)"

text \<open>\<open>random\<close> is the value of the one draw a record gets.\<close>

definition keepBySample :: "Runtime \<Rightarrow> jstext option \<Rightarrow> int \<Rightarrow> rat \<Rightarrow> bool" where
  "keepBySample rt traceId keepPercent random =
     (if keepPercent \<ge> 100 then True
      else if keepPercent \<le> 0 then False
      else case traceId of
             None \<Rightarrow> random * 100 < of_int keepPercent
           | Some t \<Rightarrow>
               if t = [] then random * 100 < of_int keepPercent
               else int (first_uint64 (sha256 (encode_utf8 (toLowerCase rt t))) mod 100) < keepPercent)"

section \<open>Redaction\<close>

definition MASK :: jstext where
  "MASK = units ''[REDACTED]''"

record RedactContext =
  ctx_rule :: CompiledRule
  ctx_method :: IngestRuleRedactMethod
  ctx_detectors :: "IngestRuleDetector list"
  ctx_salt :: bytes

definition hashText :: "bytes \<Rightarrow> jstext \<Rightarrow> jstext" where
  "hashText salt text = units ''hash:'' @ units (take 16 (toHex (hmacSha256 salt (encode_utf8 text))))"

definition replacement :: "RedactContext \<Rightarrow> IngestRuleDetector option \<Rightarrow> jstext \<Rightarrow> jstext" where
  "replacement ctx label matched =
     (if ctx_method ctx = by_hash then hashText (ctx_salt ctx) matched
      else case label of None \<Rightarrow> MASK | Some d \<Rightarrow> units ''[REDACTED:'' @ detector_name d @ units '']'')"

text \<open>Results come with what they add to the context's count of replacements.\<close>

definition scan_step :: "(jstext \<Rightarrow> jstext) \<Rightarrow> engine \<Rightarrow> (jstext \<Rightarrow> nat \<Rightarrow> nat \<Rightarrow> bool) \<Rightarrow> jstext \<times> nat \<Rightarrow> jstext \<times> nat" where
  "scan_step replace exec accept st =
     (let spans = findAll exec (fst st) accept in (replaceSpans (fst st) spans replace, snd st + length spans))"

definition scanString :: "RedactContext \<Rightarrow> jstext \<Rightarrow> jstext \<times> nat" where
  "scanString ctx text =
     (let cut = scanCut text; tail_text = drop cut text;
          afterDetectors = foldl (\<lambda>st d. scan_step (replacement ctx (Some d)) (rx_exec (detector_regex d)) (detector_accept d) st)
            (take cut text, 0) (ctx_detectors ctx);
          afterPatterns = foldl (\<lambda>st exec. scan_step (replacement ctx None) exec (\<lambda>_ _ _. True) st) afterDetectors (cr_patterns (ctx_rule ctx))
      in (fst afterPatterns @ tail_text, snd afterPatterns))"

text \<open>\<open>None\<close> is \<open>REMOVED\<close>.\<close>

definition keyReplacement :: "RedactContext \<Rightarrow> AttrValue \<Rightarrow> AttrValue option" where
  "keyReplacement ctx value =
     (if ctx_method ctx = by_remove then None
      else case value of
             AttrStr s \<Rightarrow> Some (AttrStr (if ctx_method ctx = by_hash then hashText (ctx_salt ctx) s else MASK))
           | _ \<Rightarrow> Some (AttrStr MASK))"

fun scanValue :: "Runtime \<Rightarrow> RedactContext \<Rightarrow> AttrValue \<Rightarrow> AttrValue \<times> nat"
  and scanList :: "Runtime \<Rightarrow> RedactContext \<Rightarrow> AttrValue list \<Rightarrow> AttrValue list \<times> nat"
  and redactMap :: "Runtime \<Rightarrow> RedactContext \<Rightarrow> bool \<Rightarrow> attrs \<Rightarrow> attrs \<times> nat" where
  "scanValue rt ctx (AttrStr s) =
     (if length (ctx_detectors ctx) + length (cr_patterns (ctx_rule ctx)) = 0 then (AttrStr s, 0)
      else (AttrStr (fst (scanString ctx s)), snd (scanString ctx s)))"
| "scanValue rt ctx (AttrList vs) = (AttrList (fst (scanList rt ctx vs)), snd (scanList rt ctx vs))"
| "scanValue rt ctx (AttrMap m) = (AttrMap (fst (redactMap rt ctx False m)), snd (redactMap rt ctx False m))"
| "scanValue rt ctx v = (v, 0)"
| "scanList rt ctx [] = ([], 0)"
| "scanList rt ctx (v # vs) =
     (fst (scanValue rt ctx v) # fst (scanList rt ctx vs), snd (scanValue rt ctx v) + snd (scanList rt ctx vs))"
| "redactMap rt ctx topLevel [] = ([], 0)"
| "redactMap rt ctx topLevel ((key, value) # m) =
     (let (others, n) = redactMap rt ctx topLevel m
      in if topLevel \<and> isProtectedKey key then ((key, value) # others, n)
         else if list_ex (\<lambda>pattern. globMatches (toLowerCase rt) pattern key) (cr_keys (ctx_rule ctx)) then
           (case keyReplacement ctx value of None \<Rightarrow> (others, n + 1) | Some v \<Rightarrow> ((key, v) # others, n + 1))
         else ((key, fst (scanValue rt ctx value)) # others, n + snd (scanValue rt ctx value)))"

definition scopeHas :: "CompiledRule \<Rightarrow> IngestRuleScope \<Rightarrow> bool" where
  "scopeHas rule scope = (case rule_action (cr_spec rule) of Redact action \<Rightarrow> scope \<in> set (act_scopes action) | Drop _ \<Rightarrow> False)"

definition context_of :: "CompiledRule \<Rightarrow> IngestRuleRedactAction \<Rightarrow> bytes \<Rightarrow> RedactContext" where
  "context_of rule action salt =
     \<lparr>ctx_rule = rule, ctx_method = act_method action, ctx_detectors = act_detectors action, ctx_salt = salt\<rparr>"

definition redactRecord :: "Runtime \<Rightarrow> RuleRecord \<Rightarrow> CompiledRule \<Rightarrow> bytes \<Rightarrow> RuleRecord \<times> nat" where
  "redactRecord rt r rule salt =
     (case rule_action (cr_spec rule) of
        Drop _ \<Rightarrow> (r, 0)
      | Redact action \<Rightarrow>
          (let ctx = context_of rule action salt;
               attributes = (if scopeHas rule in_attributes then redactMap rt ctx True (rec_attributes r) else (rec_attributes r, 0));
               resource = (if scopeHas rule in_resource then redactMap rt ctx True (rec_resource r) else (rec_resource r, 0));
               redact_event = (\<lambda>e. (e\<lparr>event_attributes := fst (redactMap rt ctx True (event_attributes e))\<rparr>,
                                    snd (redactMap rt ctx True (event_attributes e))));
               events = (if scopeHas rule in_events then map_option (map redact_event) (rec_events r)
                         else map_option (map (\<lambda>e. (e, 0))) (rec_events r));
               body = (if scopeHas rule in_body then map_option (scanValue rt ctx) (rec_body r)
                       else map_option (\<lambda>v. (v, 0)) (rec_body r));
               status = (case rec_statusMessage r of
                           None \<Rightarrow> None
                         | Some s \<Rightarrow> if scopeHas rule in_attributes \<and> s \<noteq> [] then Some (scanString ctx s) else Some (s, 0))
           in (r\<lparr>rec_attributes := fst attributes, rec_resource := fst resource, rec_events := map_option (map fst) events,
                 rec_body := map_option fst body, rec_statusMessage := map_option fst status\<rparr>,
               snd attributes + snd resource + (case events of None \<Rightarrow> 0 | Some es \<Rightarrow> sum_list (map snd es))
               + (case body of None \<Rightarrow> 0 | Some b \<Rightarrow> snd b) + (case status of None \<Rightarrow> 0 | Some s \<Rightarrow> snd s))))"

section \<open>Applying the rules\<close>

definition apply_step :: "Runtime \<Rightarrow> bytes \<Rightarrow> RuleRecord \<times> (nat, nat) jsmap \<Rightarrow> CompiledRule \<Rightarrow> RuleRecord \<times> (nat, nat) jsmap" where
  "apply_step rt salt st rule =
     (let (r, count) = redactRecord rt (fst st) rule salt
      in (r, if count > 0 then jsmap_set (cr_index rule) count (snd st) else snd st))"

definition applyRules :: "Runtime \<Rightarrow> CompiledRules \<Rightarrow> RuleRecord \<Rightarrow> rat \<Rightarrow> RuleOutcome" where
  "applyRules rt compiled r random =
     (let matching = filter (\<lambda>rule. ruleMatches rt rule r) (cs_rules compiled);
          matched = map cr_index matching;
          dropper = find (\<lambda>rule. case rule_action (cr_spec rule) of
              Drop keepPercent \<Rightarrow> \<not> keepBySample rt (rec_traceId r) keepPercent random
            | Redact _ \<Rightarrow> False) matching
      in case dropper of
           Some rule \<Rightarrow> Dropped (cr_index rule) matched
         | None \<Rightarrow>
             (let redacted = foldl (apply_step rt (cs_salt compiled)) (r, [])
                (filter (\<lambda>rule. case rule_action (cr_spec rule) of Redact _ \<Rightarrow> True | Drop _ \<Rightarrow> False) matching)
              in Kept (fst redacted) matched (snd redacted)))"

definition redactWithMatched :: "Runtime \<Rightarrow> CompiledRules \<Rightarrow> nat list \<Rightarrow> attrs \<Rightarrow> attrs" where
  "redactWithMatched rt compiled matched attributes =
     foldl (\<lambda>current rule. case rule_action (cr_spec rule) of
         Drop _ \<Rightarrow> current
       | Redact action \<Rightarrow> fst (redactMap rt (context_of rule action (cs_salt compiled)) True current)) attributes
       (filter (\<lambda>rule. cr_index rule \<in> set matched \<and> scopeHas rule in_attributes) (cs_rules compiled))"

section \<open>Protected keys\<close>

lemma redactMap_protected: "isProtectedKey k \<Longrightarrow> map_of (fst (redactMap rt ctx True m)) k = map_of m k"
  by (induction m) (auto simp: Let_def split: prod.splits option.splits)

text \<open>What a rule never changes: the protected attributes, and everything that is not text to redact.\<close>

definition same_event :: "jstext \<Rightarrow> RuleEvent \<Rightarrow> RuleEvent \<Rightarrow> bool" where
  "same_event k e e' \<longleftrightarrow> event_name e' = event_name e \<and> map_of (event_attributes e') k = map_of (event_attributes e) k"

definition same_routing :: "jstext \<Rightarrow> RuleRecord \<Rightarrow> RuleRecord \<Rightarrow> bool" where
  "same_routing k r r' \<longleftrightarrow>
     map_of (rec_attributes r') k = map_of (rec_attributes r) k \<and> map_of (rec_resource r') k = map_of (rec_resource r) k \<and>
     rel_option (list_all2 (same_event k)) (rec_events r) (rec_events r') \<and>
     rec_signal r' = rec_signal r \<and> rec_name r' = rec_name r \<and> rec_traceId r' = rec_traceId r \<and>
     rec_severityNumber r' = rec_severityNumber r \<and> rec_severityText r' = rec_severityText r \<and>
     rec_spanKind r' = rec_spanKind r \<and> rec_spanStatus r' = rec_spanStatus r"

lemma same_routing_refl: "same_routing k r r"
  by (auto simp: same_routing_def same_event_def option.rel_refl list_all2_refl)

lemma same_routing_trans: "same_routing k a b \<Longrightarrow> same_routing k b c \<Longrightarrow> same_routing k a c"
proof -
  assume ab: "same_routing k a b" and bc: "same_routing k b c"
  have "rel_option (list_all2 (same_event k)) (rec_events a) (rec_events c)"
  proof (cases "rec_events a")
    case None
    then show ?thesis using ab bc by (simp add: same_routing_def)
  next
    case (Some x)
    then obtain y where y: "rec_events b = Some y" "list_all2 (same_event k) x y" using ab by (auto simp: same_routing_def option_rel_Some1)
    then obtain z where z: "rec_events c = Some z" "list_all2 (same_event k) y z" using bc by (auto simp: same_routing_def option_rel_Some1)
    have "list_all2 (same_event k) x z" using list_all2_trans [OF _ y(2) z(2)] by (auto simp: same_event_def)
    then show ?thesis using Some z by simp
  qed
  then show ?thesis using ab bc by (simp add: same_routing_def)
qed

lemma redactRecord_routing:
  assumes "isProtectedKey k"
  shows "same_routing k r (fst (redactRecord rt r rule salt))"
proof (cases "rule_action (cr_spec rule)")
  case (Drop p)
  then show ?thesis by (simp add: redactRecord_def same_routing_refl)
next
  case (Redact action)
  have "rel_option (list_all2 (same_event k)) es (map_option (map fst) (if b then map_option (map (\<lambda>e. (e\<lparr>event_attributes := fst (redactMap rt ctx True (event_attributes e))\<rparr>,
      snd (redactMap rt ctx True (event_attributes e))))) es else map_option (map (\<lambda>e. (e, 0))) es))" for b es ctx
    using assms by (cases es) (auto simp: list_all2_conv_all_nth same_event_def redactMap_protected)
  then show ?thesis using assms by (simp add: Redact redactRecord_def same_routing_def redactMap_protected Let_def)
qed

lemma apply_routing:
  assumes "isProtectedKey k"
  shows "same_routing k (fst st) (fst (foldl (apply_step rt salt) st rules))"
proof (induction rules arbitrary: st)
  case Nil
  then show ?case by (simp add: same_routing_refl)
next
  case (Cons rule rules)
  have "fst (apply_step rt salt st rule) = fst (redactRecord rt (fst st) rule salt)"
    by (simp add: apply_step_def Let_def case_prod_beta)
  then have "same_routing k (fst st) (fst (apply_step rt salt st rule))" using redactRecord_routing [OF assms] by simp
  then show ?case using Cons [of "apply_step rt salt st rule"] same_routing_trans by simp
qed

lemma applyRules_Kept:
  assumes "applyRules rt compiled r random = Kept r' matched counts"
  shows "r' = fst (foldl (apply_step rt (cs_salt compiled)) (r, [])
    (filter (\<lambda>rule. case rule_action (cr_spec rule) of Redact _ \<Rightarrow> True | Drop _ \<Rightarrow> False) (filter (\<lambda>rule. ruleMatches rt rule r) (cs_rules compiled))))"
  using assms by (auto simp: applyRules_def Let_def split: option.splits)

section \<open>Detectors leave nothing behind\<close>

fun texts :: "AttrValue \<Rightarrow> jstext list" where
  "texts (AttrStr s) = [s]"
| "texts (AttrList vs) = concat (map texts vs)"
| "texts (AttrMap m) = concat (map (\<lambda>(k, v). texts v) m)"
| "texts _ = []"

text \<open>A text that is scanned to its end.\<close>

definition short :: "jstext \<Rightarrow> bool" where
  "short s \<longleftrightarrow> scanCut s = length s"

text \<open>The unit that every match of the detector contains.\<close>

fun key_unit :: "IngestRuleDetector \<Rightarrow> 16 word" where
  "key_unit det_email = 64"
| "key_unit _ = 46"

definition accepts_all :: "IngestRuleDetector \<Rightarrow> bool" where
  "accepts_all d \<longleftrightarrow> d = det_email \<or> d = det_jwt"

lemma detector_needs: "accepts_all d \<Longrightarrow> needs (key_unit d) (detector_regex d)"
  by (auto simp: accepts_all_def Many_def units_def)

lemma set_unit_range: "b < 65536 \<Longrightarrow> u \<in> set (unit_range a b) \<longleftrightarrow> a \<le> unat u \<and> unat u \<le> b"
proof -
  assume b: "b < 65536"
  have "u \<in> set (unit_range a b) \<longleftrightarrow> (\<exists>n. a \<le> n \<and> n \<le> b \<and> u = of_nat n)" by (auto simp: unit_range_def)
  also have "\<dots> \<longleftrightarrow> a \<le> unat u \<and> unat u \<le> b"
  proof
    assume "\<exists>n. a \<le> n \<and> n \<le> b \<and> u = of_nat n"
    then obtain n where n: "a \<le> n" "n \<le> b" "u = of_nat n" by blast
    then have "unat u = n" using b by (simp add: unat_of_nat)
    then show "a \<le> unat u \<and> unat u \<le> b" using n by simp
  next
    assume "a \<le> unat u \<and> unat u \<le> b"
    then show "\<exists>n. a \<le> n \<and> n \<le> b \<and> u = of_nat n" by (intro exI [of _ "unat u"]) simp
  qed
  finally show ?thesis .
qed

lemmas unit_class_defs = alnum_units_def upper_units_def lower_units_def digit_units_def set_unit_range

lemma brackets_outside: "accepts_all d \<Longrightarrow> 91 \<notin> alphabet (detector_regex d) \<and> 93 \<notin> alphabet (detector_regex d)"
  by (auto simp: accepts_all_def Many_def unit_class_defs units_def)

lemma replacement_seals:
  assumes "ctx_method ctx \<noteq> by_hash" "accepts_all d"
  shows "seals (replacement ctx label) (detector_regex d)"
proof -
  have inner: "\<exists>w. replacement ctx label m = 91 # w @ [93] \<and> set w \<inter> {64, 46} = {}" for m
  proof (cases label)
    case None
    have "replacement ctx None m = 91 # units ''REDACTED'' @ [93]" using assms(1) by (simp add: replacement_def MASK_def units_def)
    moreover have "set (units ''REDACTED'') \<inter> {64, 46} = {}" by (simp add: units_def)
    ultimately show ?thesis using None by blast
  next
    case (Some e)
    have "replacement ctx (Some e) m = 91 # (units ''REDACTED:'' @ detector_name e) @ [93]"
      using assms(1) by (simp add: replacement_def units_def)
    moreover have "set (units ''REDACTED:'' @ detector_name e) \<inter> {64, 46} = {}" by (cases e) (simp_all add: units_def)
    ultimately show ?thesis using Some by blast
  qed
  have key: "key_unit d \<in> {64, 46}" by (cases d) simp_all
  have "\<exists>a w b. replacement ctx label m = a # w @ [b] \<and> lacks (detector_regex d) w \<and> a \<notin> alphabet (detector_regex d) \<and> b \<notin> alphabet (detector_regex d)" for m
  proof -
    from inner [of m] obtain w where w: "replacement ctx label m = 91 # w @ [93]" "set w \<inter> {64, 46} = {}" by blast
    have "lacks (detector_regex d) w" using lacks_needs [OF detector_needs [OF assms(2)]] w(2) key by blast
    then show ?thesis using w(1) brackets_outside [OF assms(2)] by blast
  qed
  then show ?thesis using needs_nonempty [OF detector_needs [OF assms(2)]] by (simp add: seals_def)
qed

lemma mask_lacks: "accepts_all d \<Longrightarrow> lacks (detector_regex d) MASK"
proof -
  assume d: "accepts_all d"
  have "key_unit d \<in> {64, 46}" by (cases d) simp_all
  moreover have "set MASK \<inter> {64, 46} = {}" by (simp add: MASK_def units_def)
  ultimately show ?thesis using lacks_needs [OF detector_needs [OF d]] by blast
qed

lemma detectors_keep:
  assumes "ctx_method ctx \<noteq> by_hash" "accepts_all d" "lacks (detector_regex d) (fst st)"
  shows "lacks (detector_regex d) (fst (foldl (\<lambda>st e. scan_step (replacement ctx (Some e)) (rx_exec (detector_regex e)) (detector_accept e) st) st ds))"
  using assms(3)
proof (induction ds arbitrary: st)
  case (Cons e ds)
  have "lacks (detector_regex d) (fst (scan_step (replacement ctx (Some e)) (rx_exec (detector_regex e)) (detector_accept e) st))"
    using replace_keeps_lacking [OF text_matcher.text_engine_axioms replacement_seals [OF assms(1,2)] Cons(2)]
    by (simp add: scan_step_def Let_def)
  from Cons(1) [OF this] show ?case by simp
qed simp

lemma patterns_keep:
  assumes "ctx_method ctx \<noteq> by_hash" "accepts_all d" "lacks (detector_regex d) (fst st)" "list_all text_engine ps"
  shows "lacks (detector_regex d) (fst (foldl (\<lambda>st exec. scan_step (replacement ctx None) exec (\<lambda>_ _ _. True) st) st ps))"
  using assms(3,4)
proof (induction ps arbitrary: st)
  case (Cons exec ps)
  have "lacks (detector_regex d) (fst (scan_step (replacement ctx None) exec (\<lambda>_ _ _. True) st))"
    using replace_keeps_lacking [OF _ replacement_seals [OF assms(1,2)] Cons(2)] Cons(3) by (simp add: scan_step_def Let_def)
  from Cons(1) [OF this] Cons(3) show ?case by simp
qed simp

lemma scanString_lacks:
  assumes "ctx_method ctx \<noteq> by_hash" "accepts_all d" "d \<in> set (ctx_detectors ctx)" "list_all text_engine (cr_patterns (ctx_rule ctx))" "short s"
  shows "lacks (detector_regex d) (fst (scanString ctx s))"
proof -
  let ?step = "\<lambda>st e. scan_step (replacement ctx (Some e)) (rx_exec (detector_regex e)) (detector_accept e) st"
  obtain xs ys where ds: "ctx_detectors ctx = xs @ d # ys" using split_list [OF assms(3)] by blast
  let ?st = "foldl ?step (take (scanCut s) s, 0) xs"
  have "lacks (detector_regex d) (fst (?step ?st d))"
    using replace_makes_lacking [OF replacement_seals [OF assms(1,2)], where accept = "detector_accept d"] assms(2)
    by (auto simp: scan_step_def Let_def accepts_all_def)
  from detectors_keep [OF assms(1,2) this, of ys]
  have "lacks (detector_regex d) (fst (foldl ?step (take (scanCut s) s, 0) (ctx_detectors ctx)))" by (simp add: ds)
  from patterns_keep [OF assms(1,2) this assms(4)] show ?thesis
    using assms(5) by (simp add: scanString_def short_def Let_def)
qed

text \<open>A context that masks with a detector whose every candidate counts.\<close>

definition masks :: "RedactContext \<Rightarrow> IngestRuleDetector \<Rightarrow> bool" where
  "masks ctx d \<longleftrightarrow> ctx_method ctx \<noteq> by_hash \<and> accepts_all d \<and> d \<in> set (ctx_detectors ctx) \<and> list_all text_engine (cr_patterns (ctx_rule ctx))"

lemma keyReplacement_lacks:
  assumes "masks ctx d" "keyReplacement ctx v = Some v'"
  shows "list_all (lacks (detector_regex d)) (texts v')"
  using assms mask_lacks by (auto simp: masks_def keyReplacement_def split: if_splits AttrValue.splits)

lemma redaction_lacks:
  "masks ctx d \<Longrightarrow> list_all short (texts v) \<Longrightarrow> list_all (lacks (detector_regex d)) (texts (fst (scanValue rt ctx v)))"
  "masks ctx d \<Longrightarrow> list_all (\<lambda>v. list_all short (texts v)) vs \<Longrightarrow>
     list_all (\<lambda>v. list_all (lacks (detector_regex d)) (texts v)) (fst (scanList rt ctx vs))"
  "masks ctx d \<Longrightarrow> list_all (\<lambda>(k, v). list_all short (texts v)) m \<Longrightarrow>
     list_all (\<lambda>(k, v). topLevel \<and> isProtectedKey k \<or> list_all (lacks (detector_regex d)) (texts v)) (fst (redactMap rt ctx topLevel m))"
proof (induction rt ctx v and rt ctx vs and rt ctx topLevel m rule: scanValue_scanList_redactMap.induct)
  case (1 rt ctx s)
  then have "length (ctx_detectors ctx) \<noteq> 0" by (auto simp: masks_def)
  then show ?case using 1 scanString_lacks [of ctx d s] by (simp add: masks_def)
next
  case (2 rt ctx vs)
  then have "list_all (\<lambda>v. list_all (lacks (detector_regex d)) (texts v)) (fst (scanList rt ctx vs))" by (simp add: list_all_iff)
  then show ?case by (auto simp: list_all_iff)
next
  case (3 rt ctx m)
  then have "list_all (\<lambda>(k, v). list_all (lacks (detector_regex d)) (texts v)) (fst (redactMap rt ctx False m))"
    by (auto simp: list_all_iff)
  then show ?case by (auto simp: list_all_iff)
next
  case (8 rt ctx topLevel key v m)
  let ?ok = "\<lambda>(k, v). topLevel \<and> isProtectedKey k \<or> list_all (lacks (detector_regex d)) (texts v)"
  obtain others n where o: "redactMap rt ctx topLevel m = (others, n)" by (cases "redactMap rt ctx topLevel m")
  then have "list_all ?ok others" using 8 by auto
  moreover have "list_all (lacks (detector_regex d)) (texts (fst (scanValue rt ctx v)))"
    if "\<not> (topLevel \<and> isProtectedKey key)" "\<not> list_ex (\<lambda>pattern. globMatches (toLowerCase rt) pattern key) (cr_keys (ctx_rule ctx))"
    using 8 that o by auto
  ultimately show ?case using keyReplacement_lacks [OF 8(4), of v] o
    by (auto simp: Let_def simp del: scanValue.simps split: option.splits)
qed (auto simp: list_all_iff)

section \<open>Keys\<close>

definition keyed :: "Runtime \<Rightarrow> RedactContext \<Rightarrow> jstext \<Rightarrow> bool" where
  "keyed rt ctx k \<longleftrightarrow> list_ex (\<lambda>pattern. glob pattern (toLowerCase rt k)) (cr_keys (ctx_rule ctx))"

definition replaced :: "RedactContext \<Rightarrow> AttrValue \<Rightarrow> bool" where
  "replaced ctx v \<longleftrightarrow> ctx_method ctx \<noteq> by_remove \<and>
     (v = AttrStr MASK \<or> ctx_method ctx = by_hash \<and> (\<exists>s. v = AttrStr (hashText (ctx_salt ctx) s)))"

text \<open>All attributes inside a value.\<close>

fun entries :: "AttrValue \<Rightarrow> attrs" where
  "entries (AttrList vs) = concat (map entries vs)"
| "entries (AttrMap m) = concat (map (\<lambda>(k, v). (k, v) # entries v) m)"
| "entries _ = []"

definition entry_done :: "Runtime \<Rightarrow> RedactContext \<Rightarrow> jstext \<times> AttrValue \<Rightarrow> bool" where
  "entry_done rt ctx e = (if keyed rt ctx (fst e) then replaced ctx (snd e) else True)"

text \<open>Below the protected attributes at the top, whatever has a matching key is replaced, at any depth.\<close>

definition keys_done :: "Runtime \<Rightarrow> RedactContext \<Rightarrow> bool \<Rightarrow> attrs \<Rightarrow> bool" where
  "keys_done rt ctx topLevel m \<longleftrightarrow>
     list_all (\<lambda>(k, v). topLevel \<and> isProtectedKey k \<or> entry_done rt ctx (k, v) \<and> list_all (entry_done rt ctx) (entries v)) m"

lemma keyed_iff: "list_ex (\<lambda>pattern. globMatches (toLowerCase rt) pattern k) (cr_keys (ctx_rule ctx)) \<longleftrightarrow> keyed rt ctx k"
  by (simp add: keyed_def globMatches_iff)

lemma keyReplacement_done:
  assumes "keyReplacement ctx v = Some v'"
  shows "replaced ctx v' \<and> entries v' = []"
  using assms by (auto simp: keyReplacement_def replaced_def split: if_splits AttrValue.splits)

lemma keys_done_simps:
  "keys_done rt ctx topLevel []"
  "keys_done rt ctx topLevel ((k, v) # m) \<longleftrightarrow>
     (topLevel \<and> isProtectedKey k \<or> entry_done rt ctx (k, v) \<and> list_all (entry_done rt ctx) (entries v)) \<and> keys_done rt ctx topLevel m"
  by (simp_all add: keys_done_def)

lemma entry_done_iff: "entry_done rt ctx (k, v) \<longleftrightarrow> \<not> keyed rt ctx k \<or> replaced ctx v"
  by (simp add: entry_done_def)

lemma redaction_keys:
  "list_all (entry_done rt ctx) (entries (fst (scanValue rt ctx v)))"
  "list_all (\<lambda>v. list_all (entry_done rt ctx) (entries v)) (fst (scanList rt ctx vs))"
  "keys_done rt ctx topLevel (fst (redactMap rt ctx topLevel m))"
proof (induction rt ctx v and rt ctx vs and rt ctx topLevel m rule: scanValue_scanList_redactMap.induct)
  case (2 rt ctx vs)
  then show ?case by (auto simp: list_all_iff)
next
  case (3 rt ctx m)
  then show ?case by (auto simp: list_all_iff keys_done_def)
next
  case (8 rt ctx topLevel key v m)
  obtain others n where o: "redactMap rt ctx topLevel m = (others, n)" by (cases "redactMap rt ctx topLevel m")
  then have "keys_done rt ctx topLevel others" using 8 by simp
  moreover have "list_all (entry_done rt ctx) (entries (fst (scanValue rt ctx v)))"
    if "\<not> (topLevel \<and> isProtectedKey key)" "\<not> keyed rt ctx key" using 8 that o keyed_iff by auto
  ultimately show ?case using keyReplacement_done [of ctx v] o unfolding redactMap.simps keyed_iff
    by (auto simp: Let_def keys_done_simps entry_done_iff simp del: scanValue.simps split: option.splits)
qed (auto simp: keys_done_simps)

section \<open>Records\<close>

definition clean :: "IngestRuleDetector \<Rightarrow> jstext \<Rightarrow> bool" where
  "clean d s \<longleftrightarrow> findAll (rx_exec (detector_regex d)) s (detector_accept d) = []"

definition clean_attrs :: "IngestRuleDetector \<Rightarrow> attrs \<Rightarrow> bool" where
  "clean_attrs d m \<longleftrightarrow> list_all (\<lambda>(k, v). isProtectedKey k \<or> list_all (clean d) (texts v)) m"

definition short_attrs :: "attrs \<Rightarrow> bool" where
  "short_attrs m \<longleftrightarrow> list_all (\<lambda>(k, v). list_all short (texts v)) m"

definition short_record :: "RuleRecord \<Rightarrow> bool" where
  "short_record r \<longleftrightarrow> short_attrs (rec_attributes r) \<and> short_attrs (rec_resource r) \<and>
     pred_option (list_all (\<lambda>e. short_attrs (event_attributes e))) (rec_events r) \<and>
     pred_option (\<lambda>v. list_all short (texts v)) (rec_body r) \<and> pred_option short (rec_statusMessage r)"

text \<open>Nothing that the detector finds is left where the rule looks.\<close>

definition clean_record :: "IngestRuleDetector \<Rightarrow> CompiledRule \<Rightarrow> RuleRecord \<Rightarrow> bool" where
  "clean_record d rule r \<longleftrightarrow>
     (if scopeHas rule in_attributes then clean_attrs d (rec_attributes r) \<and> pred_option (clean d) (rec_statusMessage r) else True) \<and>
     (if scopeHas rule in_resource then clean_attrs d (rec_resource r) else True) \<and>
     (if scopeHas rule in_events then pred_option (list_all (\<lambda>e. clean_attrs d (event_attributes e))) (rec_events r) else True) \<and>
     (if scopeHas rule in_body then pred_option (\<lambda>v. list_all (clean d) (texts v)) (rec_body r) else True)"

lemma lacks_clean: "lacks (detector_regex d) s \<Longrightarrow> clean d s"
  by (simp add: clean_def lacks_findAll)

lemma redactMap_clean:
  assumes "masks ctx d" "short_attrs m"
  shows "clean_attrs d (fst (redactMap rt ctx True m))"
  using redaction_lacks(3) [OF assms(1), of m True rt] assms(2) lacks_clean
  by (auto simp: clean_attrs_def short_attrs_def list_all_iff)

lemma redactRecord_cleans:
  assumes "rule_action (cr_spec rule) = Redact action" "masks (context_of rule action salt) d" "short_record r"
  shows "clean_record d rule (fst (redactRecord rt r rule salt))"
proof -
  let ?ctx = "context_of rule action salt"
  have "clean_attrs d (fst (redactMap rt ?ctx True (rec_attributes r)))" "clean_attrs d (fst (redactMap rt ?ctx True (rec_resource r)))"
    using redactMap_clean [OF assms(2)] assms(3) by (simp_all add: short_record_def)
  moreover have "pred_option (list_all (\<lambda>e. clean_attrs d (fst (redactMap rt ?ctx True (event_attributes e))))) (rec_events r)"
    using redactMap_clean [OF assms(2)] assms(3) by (cases "rec_events r") (auto simp: short_record_def list_all_iff)
  moreover have "pred_option (\<lambda>v. list_all (clean d) (texts (fst (scanValue rt ?ctx v)))) (rec_body r)"
    using redaction_lacks(1) [OF assms(2)] assms(3) lacks_clean by (cases "rec_body r") (auto simp: short_record_def list_all_iff)
  moreover have "clean d (fst (scanString ?ctx s))" if "rec_statusMessage r = Some s" for s
    using that scanString_lacks [of ?ctx d s] assms(2,3) lacks_clean by (auto simp: short_record_def masks_def)
  moreover have "clean d []" using lacks_needs [OF detector_needs] assms(2) lacks_clean by (auto simp: masks_def)
  ultimately show ?thesis using assms(1)
    by (simp add: redactRecord_def clean_record_def Let_def list.pred_map comp_def option.pred_map split: option.splits)
qed

section \<open>Properties\<close>

text \<open>
  C17. When a record is kept, no rule has changed what routes and bills it: the protected attributes of the
  record, its resource and its events have their values, and signal, name, trace id, severity, span kind and
  status are as received.
\<close>

theorem applyRules_protected:
  assumes "applyRules rt compiled r random = Kept r' matched counts" "isProtectedKey k"
  shows "same_routing k r r'"
  using apply_routing [OF assms(2), of "(r, [])"] applyRules_Kept [OF assms(1)] by simp

definition sample_runtime :: Runtime where
  "sample_runtime = \<lparr>toLowerCase = id, number_text = (\<lambda>_. units ''0''), compileIngestRegex = (\<lambda>_. None), regexProblem = (\<lambda>_. None)\<rparr>"

definition sample_action :: IngestRuleRedactAction where
  "sample_action = \<lparr>act_keys = [units ''*password*''], act_detectors = [det_ipv4, det_email], act_patterns = [],
     act_scopes = [in_attributes], act_method = by_mask\<rparr>"

definition sample_rule :: CompiledRule where
  "sample_rule = compileRule sample_runtime 0 \<lparr>rule_signals = [logs], rule_conditions = [], rule_action = Redact sample_action\<rparr>"

definition sample_record :: RuleRecord where
  "sample_record = \<lparr>rec_signal = logs, rec_resource = [],
     rec_attributes = [(units ''service.name'', AttrStr (units ''a@b.io'')), (units ''to'', AttrStr (units ''bob@x.org''))],
     rec_name = None, rec_body = None, rec_severityNumber = None, rec_severityText = None, rec_traceId = None, rec_spanKind = None,
     rec_spanStatus = None, rec_statusMessage = None, rec_events = None\<rparr>"

theorem applyRules_protected_witness:
  "\<exists>r' matched counts. applyRules sample_runtime \<lparr>cs_rules = [sample_rule], cs_invalid = [], cs_salt = []\<rparr> sample_record 0 = Kept r' matched counts \<and>
     map_of (rec_attributes r') (units ''service.name'') = Some (AttrStr (units ''a@b.io''))"
proof -
  let ?c = "\<lparr>cs_rules = [sample_rule], cs_invalid = [], cs_salt = []\<rparr>"
  have "ruleMatches sample_runtime sample_rule sample_record"
    by (simp add: ruleMatches_def sample_rule_def compileRule_def sample_record_def)
  moreover have "rule_action (cr_spec sample_rule) = Redact sample_action" by (simp add: sample_rule_def compileRule_def)
  ultimately obtain r' matched counts where k: "applyRules sample_runtime ?c sample_record 0 = Kept r' matched counts"
    by (auto simp: applyRules_def Let_def)
  have "isProtectedKey (units ''service.name'')" by (simp add: isProtectedKey_def)
  from applyRules_protected [OF k this] have "map_of (rec_attributes r') (units ''service.name'') = Some (AttrStr (units ''a@b.io''))"
    by (simp add: same_routing_def sample_record_def)
  then show ?thesis using k by blast
qed

text \<open>
  C5. A redact rule that masks or removes and looks for e-mail addresses or tokens leaves none of them in any
  text it scans to the end: in attributes at every depth below the protected ones, in the resource, in the
  events, in the body and in the status message, whatever its other detectors and patterns do afterwards.
\<close>

theorem redactRecord_clean:
  assumes "rule_action (cr_spec rule) = Redact action" "act_method action \<noteq> by_hash" "d \<in> set (act_detectors action)"
    "d = det_email \<or> d = det_jwt" "list_all text_engine (cr_patterns rule)" "short_record r"
  shows "clean_record d rule (fst (redactRecord rt r rule salt))"
  by (rule redactRecord_cleans [OF assms(1) _ assms(6)]) (use assms in \<open>simp add: masks_def context_of_def accepts_all_def\<close>)

theorem redactRecord_clean_witness:
  "clean_attrs det_email (rec_attributes (fst (redactRecord sample_runtime sample_record sample_rule [])))"
proof -
  have "clean_record det_email sample_rule (fst (redactRecord sample_runtime sample_record sample_rule []))"
  proof (rule redactRecord_clean)
    show "rule_action (cr_spec sample_rule) = Redact sample_action" by (simp add: sample_rule_def compileRule_def)
    show "act_method sample_action \<noteq> by_hash" "det_email \<in> set (act_detectors sample_action)" by (simp_all add: sample_action_def)
    show "det_email = det_email \<or> det_email = det_jwt" by simp
    show "list_all text_engine (cr_patterns sample_rule)"
      by (simp add: sample_rule_def compileRule_def sample_action_def List.map_filter_def)
    show "short_record sample_record"
      by (simp add: short_record_def short_attrs_def short_def sample_record_def scanCut_def scanBytes_def units_def)
  qed
  moreover have "scopeHas sample_rule in_attributes" by (simp add: scopeHas_def sample_rule_def compileRule_def sample_action_def)
  ultimately show ?thesis by (simp add: clean_record_def)
qed

text \<open>
  After a redact rule, every attribute whose key matches one of the rule's globs is gone or holds a mask or
  a keyed hash, at any depth, with the protected attributes at the top as the only exception.
\<close>

theorem redactMap_keys: "keys_done rt ctx True (fst (redactMap rt ctx True m))"
  by (rule redaction_keys(3))

end
