(* ===== verification/Js_Text.thy ===== *)
theory Js_Text
  imports Maple_Prelude
begin

text \<open>
  Methods of JavaScript strings that the text languages of the platform use, on 8-bit characters: \<open>toLowerCase\<close>,
  \<open>split\<close> with one character, and lemmas on \<open>trim\<close>.
\<close>

abbreviation DQ :: char where "DQ \<equiv> CHR 0x22"
abbreviation SQ :: char where "SQ \<equiv> CHR 0x27"

text \<open>\<open>toLowerCase\<close> on characters below 256\<close>

definition lower_char :: "char \<Rightarrow> char" where
  "lower_char c =
     (let n = (of_char c :: nat)
      in if (65 \<le> n \<and> n \<le> 90) \<or> (192 \<le> n \<and> n \<le> 222 \<and> n \<noteq> 215) then char_of (n + 32) else c)"

definition js_lower :: "string \<Rightarrow> string" where
  "js_lower = map lower_char"

text \<open>\<open>split(d)\<close>; \<open>cur\<close> is the text since the last separator\<close>

fun split_char :: "char \<Rightarrow> string \<Rightarrow> string \<Rightarrow> string list" where
  "split_char d cur [] = [cur]"
| "split_char d cur (c # cs) = (if c = d then cur # split_char d [] cs else split_char d (cur @ [c]) cs)"

text \<open>The space characters that scanners test one by one\<close>

definition ascii_space :: "char \<Rightarrow> bool" where
  "ascii_space c \<longleftrightarrow> (of_char c :: nat) \<in> {9, 10, 13, 32}"

section \<open>Trimming\<close>

lemma space_char: "js_space (CHR '' '')" "ascii_space (CHR '' '')"
  by (simp_all add: js_space_def ascii_space_def)

lemma trim_tight: "x \<noteq> [] \<Longrightarrow> \<not> js_space (hd x) \<Longrightarrow> \<not> js_space (last x) \<Longrightarrow> js_trim x = x"
  unfolding js_trim_def by (metis dropWhile_eq_self_iff hd_rev rev_rev_ident)

lemma drop_space_idem: "dropWhile js_space (dropWhile js_space s) = dropWhile js_space s"
  by (induction s) auto

lemma trim_ends:
  assumes "js_trim s \<noteq> []"
  shows "\<not> js_space (hd (js_trim s)) \<and> \<not> js_space (last (js_trim s))"
proof -
  let ?l = "dropWhile js_space s"
  have r: "js_trim s = rev (dropWhile js_space (rev ?l))" by (simp add: js_trim_def)
  obtain y where y: "rev ?l = y @ dropWhile js_space (rev ?l)" by (metis takeWhile_dropWhile_id)
  then have "?l = js_trim s @ rev y" unfolding r by (metis rev_append rev_rev_ident)
  then have "hd ?l = hd (js_trim s)" "?l \<noteq> []" using assms by (metis hd_append2, auto)
  then have "\<not> js_space (hd (js_trim s))" by (metis hd_dropWhile)
  moreover have "\<not> js_space (last (js_trim s))" using assms unfolding r by (metis hd_dropWhile last_rev rev_is_Nil_conv)
  ultimately show ?thesis ..
qed

lemma js_trim_idem: "js_trim (js_trim s) = js_trim s"
proof (cases "js_trim s = []")
  case False
  then show ?thesis using trim_ends by (intro trim_tight) simp_all
next
  case True
  then show ?thesis by (simp only:) (simp add: js_trim_def)
qed

lemma trim_leading: "js_space c \<Longrightarrow> js_trim (c # x) = js_trim x"
  by (simp add: js_trim_def)

section \<open>Lower case\<close>

lemma lower_char_idem: "lower_char (lower_char c) = lower_char c" and lower_char_space: "js_space (lower_char c) = js_space c"
proof -
  let ?n = "of_char c :: nat"
  have "lower_char (lower_char c) = lower_char c \<and> js_space (lower_char c) = js_space c"
  proof (cases "(65 \<le> ?n \<and> ?n \<le> 90) \<or> (192 \<le> ?n \<and> ?n \<le> 222 \<and> ?n \<noteq> 215)")
    case True
    then have "?n + 32 < 256" by auto
    then have "(of_char (char_of (?n + 32) :: char) :: nat) = ?n + 32" by (simp add: take_bit_eq_mod del: of_char_of) (simp add: take_bit_eq_mod)
    then show ?thesis using True by (auto simp: lower_char_def js_space_def Let_def)
  next
    case False
    then have "lower_char c = c" unfolding lower_char_def Let_def by (rule if_not_P)
    then show ?thesis by simp
  qed
  then show "lower_char (lower_char c) = lower_char c" "js_space (lower_char c) = js_space c" by simp_all
qed

lemma js_lower_trim: "js_trim (js_lower s) = js_lower (js_trim s)" "js_lower (js_lower s) = js_lower s"
  by (simp_all add: js_trim_def js_lower_def dropWhile_map rev_map comp_def lower_char_space lower_char_idem)

end
