(* ===== verification/Where_Clause.thy ===== *)
theory Where_Clause
  imports Js_Text
begin

text \<open>
  The where-clause language of filters and saved views, after \<^verbatim>\<open>packages/domain/src/where-clause.ts\<close>: splitting
  an expression at its keywords outside quotes and parentheses, parsing one clause, groups of alternatives, and the
  quoting of a value.

  The code walks a string by index; the model walks the rest of the string, and the text read since the last
  separator is an argument. A regular expression with one way to match is the function that finds that way: the
  classes in it are disjoint from what follows them, so no shorter run could match either. Where the code's expression
  has alternatives that can both start (\<open><=\<close> and \<open><\<close>), the model tries them in order, as the matcher does.
  \<open>Number\<close>, the conversion of a text to a number, is an argument.
\<close>

section \<open>Clauses\<close>

datatype WhereOperator =
  w_eq | w_neq | w_gt | w_lt | w_gte | w_lte | w_contains | w_not_contains | w_exists | w_not_exists

record ParsedClause =
  cl_key :: string
  cl_rawKey :: "string option"
  cl_operator :: WhereOperator
  cl_value :: string

record WhereClauseParseWarning =
  warn_message :: string
  warn_clause :: string

definition normalizeKey :: "string \<Rightarrow> string" where
  "normalizeKey raw =
     (let k = js_lower (js_trim raw)
      in if k = ''service'' then ''service.name''
         else if k = ''span'' then ''span.name''
         else if k = ''environment'' \<or> k = ''env'' \<or> k = ''deployment.environment.name'' then ''deployment.environment''
         else if k = ''commit_sha'' \<or> k = ''deployment.commit_sha'' then ''vcs.ref.head.revision''
         else if k = ''root.only'' then ''root_only''
         else if k = ''errors_only'' then ''has_error''
         else k)"

definition parseBoolean :: "string \<Rightarrow> bool option" where
  "parseBoolean value =
     (let normalized = js_lower (js_trim value)
      in if normalized \<in> set [''1'', ''true'', ''yes'', ''y''] then Some True
         else if normalized \<in> set [''0'', ''false'', ''no'', ''n''] then Some False
         else None)"

definition parseNumber :: "(string \<Rightarrow> jsnum) \<Rightarrow> string \<Rightarrow> jsnum option" where
  "parseNumber Number value =
     (if js_trim value = [] then None else if js_isFinite (Number value) then Some (Number value) else None)"

definition splitCsv :: "string \<Rightarrow> string list" where
  "splitCsv input = filter (\<lambda>s. s \<noteq> []) (map js_trim (split_char (CHR '','') [] input))"

section \<open>Splitting at a keyword\<close>

text \<open>The length of a match of \<open>^\s+KEYWORD\s+\<close>, letters in either case\<close>

definition separator_exec :: "string \<Rightarrow> string \<Rightarrow> nat option" where
  "separator_exec keyword s =
     (let before = takeWhile js_space s; r = dropWhile js_space s; n = length keyword; after = takeWhile js_space (drop n r)
      in if before \<noteq> [] \<and> length r \<ge> n \<and> js_lower (take n r) = js_lower keyword \<and> after \<noteq> []
         then Some (length before + n + length after) else None)"

lemma separator_exec_pos: "separator_exec keyword s = Some n \<Longrightarrow> 0 < n"
  by (auto simp: separator_exec_def Let_def split: if_splits)

text \<open>The loop of \<open>splitOnKeyword\<close>: \<open>cur\<close> is \<open>expression.slice(start, i)\<close>.\<close>

function split_scan :: "string \<Rightarrow> string \<Rightarrow> nat \<Rightarrow> char option \<Rightarrow> string \<Rightarrow> string list" where
  "split_scan keyword cur depth quote [] = [cur]"
| "split_scan keyword cur depth quote (c # rest) =
     (case quote of
        Some q \<Rightarrow> split_scan keyword (cur @ [c]) depth (if c = q then None else quote) rest
      | None \<Rightarrow>
          if c = DQ \<or> c = SQ then split_scan keyword (cur @ [c]) depth (Some c) rest
          else if c = CHR ''('' then split_scan keyword (cur @ [c]) (depth + 1) None rest
          else if c = CHR '')'' then split_scan keyword (cur @ [c]) (depth - 1) None rest
          else if depth = 0 \<and> ascii_space c then
            (case separator_exec keyword (c # rest) of
               Some n \<Rightarrow> cur # split_scan keyword [] depth None (drop (n - 1) rest)
             | None \<Rightarrow> split_scan keyword (cur @ [c]) depth None rest)
          else split_scan keyword (cur @ [c]) depth None rest)"
  by pat_completeness auto
termination by (relation "measure (\<lambda>(keyword, cur, depth, quote, s). length s)") auto

declare split_scan.simps [simp del]

definition splitOnKeyword :: "string \<Rightarrow> string \<Rightarrow> string list" where
  "splitOnKeyword expression keyword = filter (\<lambda>p. p \<noteq> []) (map js_trim (split_scan keyword [] 0 None expression))"

definition splitWhereClause :: "string \<Rightarrow> string list" where
  "splitWhereClause expression = splitOnKeyword expression ''AND''"

definition quoteWhereValue :: "string \<Rightarrow> string" where
  "quoteWhereValue value =
     (if DQ \<notin> set value then [DQ] @ value @ [DQ]
      else if SQ \<notin> set value then [SQ] @ value @ [SQ]
      else [DQ] @ value @ [DQ])"

section \<open>One clause\<close>

definition unsupported :: "string \<Rightarrow> WhereClauseParseWarning" where
  "unsupported part = \<lparr>warn_message = ''Unsupported clause syntax ignored: '' @ part, warn_clause = part\<rparr>"

definition key_char :: "char \<Rightarrow> bool" where
  "key_char c \<longleftrightarrow> (let n = (of_char c :: nat) in
     (97 \<le> n \<and> n \<le> 122) \<or> (65 \<le> n \<and> n \<le> 90) \<or> (48 \<le> n \<and> n \<le> 57) \<or> n = 95 \<or> n = 46 \<or> n = 45)"

text \<open>What follows \<open>^([a-zA-Z0-9_.-]+)\s+\<close>, and what follows \<open>^([a-zA-Z0-9_.-]+)\s*\<close>, with the key\<close>

definition key_space :: "string \<Rightarrow> (string \<times> string) option" where
  "key_space part =
     (let k = takeWhile key_char part; r = dropWhile key_char part
      in if k \<noteq> [] \<and> takeWhile js_space r \<noteq> [] then Some (k, dropWhile js_space r) else None)"

definition key_spaces :: "string \<Rightarrow> (string \<times> string) option" where
  "key_spaces part =
     (let k = takeWhile key_char part in if k \<noteq> [] then Some (k, dropWhile js_space (dropWhile key_char part)) else None)"

text \<open>\<open>!\s*\<close>\<close>

definition bang :: "string \<Rightarrow> string option" where
  "bang r = (case r of c # r' \<Rightarrow> if c = CHR ''!'' then Some (dropWhile js_space r') else None | [] \<Rightarrow> None)"

text \<open>\<open>(?:"([^"]*)"|'([^']*)'|([^\s]+))$\<close>: a value in quotes, or a bare token\<close>

datatype where_value = Quoted string | Bare string

definition in_quotes :: "char \<Rightarrow> string \<Rightarrow> bool" where
  "in_quotes q r \<longleftrightarrow> 2 \<le> length r \<and> hd r = q \<and> last r = q \<and> q \<notin> set (butlast (tl r))"

definition value_exec :: "string \<Rightarrow> where_value option" where
  "value_exec r =
     (if in_quotes DQ r \<or> in_quotes SQ r then Some (Quoted (butlast (tl r)))
      else if r \<noteq> [] \<and> list_all (\<lambda>c. \<not> js_space c) r then Some (Bare r)
      else None)"

fun value_text :: "where_value \<Rightarrow> string" where
  "value_text (Quoted v) = v"
| "value_text (Bare v) = v"

text \<open>\<open>contains\s+\<close> and the value\<close>

definition contains_exec :: "string \<Rightarrow> where_value option" where
  "contains_exec r =
     (let s = drop 8 r
      in if js_lower (take 8 r) = ''contains'' \<and> takeWhile js_space s \<noteq> [] then value_exec (dropWhile js_space s) else None)"

fun operator_text :: "WhereOperator \<Rightarrow> string" where
  "operator_text w_eq = ''=''"
| "operator_text w_neq = ''!=''"
| "operator_text w_gt = ''>''"
| "operator_text w_lt = ''<''"
| "operator_text w_gte = ''>=''"
| "operator_text w_lte = ''<=''"
| "operator_text w_contains = ''contains''"
| "operator_text w_not_contains = ''!contains''"
| "operator_text w_exists = ''exists''"
| "operator_text w_not_exists = ''!exists''"

text \<open>\<open>(!=|<=|>=|<|>|=)\s*\<close> and the value: the first alternative after which a value follows\<close>

fun comparison_exec :: "WhereOperator list \<Rightarrow> string \<Rightarrow> (WhereOperator \<times> where_value) option" where
  "comparison_exec [] r = None"
| "comparison_exec (p # ps) r =
     (let n = length (operator_text p); s = value_exec (dropWhile js_space (drop n r))
      in if take n r = operator_text p \<and> s \<noteq> None then Some (p, the s) else comparison_exec ps r)"

definition make_clause :: "string \<Rightarrow> WhereOperator \<Rightarrow> string \<Rightarrow> ParsedClause" where
  "make_clause k p v = \<lparr>cl_key = js_lower (js_trim k), cl_rawKey = Some (js_trim k), cl_operator = p, cl_value = v\<rparr>"

definition notExistsMatch :: "string \<Rightarrow> string option" where
  "notExistsMatch part =
     (case key_space part of
        Some (k, r) \<Rightarrow> (case bang r of Some r' \<Rightarrow> if js_lower r' = ''exists'' then Some k else None | None \<Rightarrow> None)
      | None \<Rightarrow> None)"

definition existsMatch :: "string \<Rightarrow> string option" where
  "existsMatch part =
     (case key_space part of Some (k, r) \<Rightarrow> if js_lower r = ''exists'' then Some k else None | None \<Rightarrow> None)"

definition notContainsMatch :: "string \<Rightarrow> (string \<times> where_value) option" where
  "notContainsMatch part =
     (case key_space part of
        Some (k, r) \<Rightarrow> (case bang r of Some r' \<Rightarrow> map_option (Pair k) (contains_exec r') | None \<Rightarrow> None)
      | None \<Rightarrow> None)"

definition containsMatch :: "string \<Rightarrow> (string \<times> where_value) option" where
  "containsMatch part =
     (case key_space part of Some (k, r) \<Rightarrow> map_option (Pair k) (contains_exec r) | None \<Rightarrow> None)"

definition compMatch :: "string \<Rightarrow> (string \<times> WhereOperator \<times> where_value) option" where
  "compMatch part =
     (case key_spaces part of
        Some (k, r) \<Rightarrow> map_option (Pair k) (comparison_exec [w_neq, w_lte, w_gte, w_lt, w_gt, w_eq] r)
      | None \<Rightarrow> None)"

definition parseSimpleClause :: "string \<Rightarrow> WhereClauseParseWarning + ParsedClause" where
  "parseSimpleClause part =
     (case notExistsMatch part of Some k \<Rightarrow> Inr (make_clause k w_not_exists '''')
      | None \<Rightarrow>
        (case existsMatch part of Some k \<Rightarrow> Inr (make_clause k w_exists '''')
         | None \<Rightarrow>
           (case notContainsMatch part of Some (k, v) \<Rightarrow> Inr (make_clause k w_not_contains (js_trim (value_text v)))
            | None \<Rightarrow>
              (case containsMatch part of Some (k, v) \<Rightarrow> Inr (make_clause k w_contains (js_trim (value_text v)))
               | None \<Rightarrow>
                 (case compMatch part of
                    Some (k, p, v) \<Rightarrow>
                      (case v of
                         Bare t \<Rightarrow>
                           if hd t = DQ \<or> hd t = SQ
                           then Inl \<lparr>warn_message = ''Unclosed quote in clause: '' @ part, warn_clause = part\<rparr>
                           else Inr (make_clause k p (js_trim t))
                       | Quoted t \<Rightarrow> Inr (make_clause k p (js_trim t)))
                  | None \<Rightarrow> Inl (unsupported part))))))"

section \<open>Groups and whole expressions\<close>

text \<open>The loop of \<open>unwrapParentheses\<close>; \<open>None\<close> is its early return.\<close>

fun unwrap_scan :: "int \<Rightarrow> char option \<Rightarrow> string \<Rightarrow> int option" where
  "unwrap_scan depth quote [] = Some depth"
| "unwrap_scan depth quote (c # rest) =
     (case quote of
        Some q \<Rightarrow> unwrap_scan depth (if c = q then None else quote) rest
      | None \<Rightarrow>
          if c = DQ \<or> c = SQ then unwrap_scan depth (Some c) rest
          else if c = CHR ''('' then unwrap_scan (depth + 1) None rest
          else if c = CHR '')'' then if depth - 1 = 0 \<and> rest \<noteq> [] then None else unwrap_scan (depth - 1) None rest
          else unwrap_scan depth None rest)"

definition unwrapParentheses :: "string \<Rightarrow> string option" where
  "unwrapParentheses part =
     (if part = [] \<or> hd part \<noteq> CHR ''('' \<or> last part \<noteq> CHR '')'' then None
      else if unwrap_scan 0 None part = Some 0 then Some (js_trim (butlast (tl part))) else None)"

record ParseWhereClauseResult =
  res_clauses :: "ParsedClause list"
  res_groups :: "ParsedClause list list"
  res_warnings :: "WhereClauseParseWarning list"

definition group_warning :: "string \<Rightarrow> WhereClauseParseWarning" where
  "group_warning part =
     \<lparr>warn_message = ''OR group ignored: every member must be a single clause, without AND or nested parentheses: '' @ part,
      warn_clause = part\<rparr>"

text \<open>What one part adds to the result: a warning, a clause or a group\<close>

datatype part_result = PWarning WhereClauseParseWarning | PClause ParsedClause | PGroup "ParsedClause list"

definition parse_part :: "bool \<Rightarrow> string \<Rightarrow> part_result" where
  "parse_part orGroups part =
     (case unwrapParentheses part of
        None \<Rightarrow> (case parseSimpleClause part of Inl w \<Rightarrow> PWarning w | Inr c \<Rightarrow> PClause c)
      | Some inner \<Rightarrow>
          (let members = splitOnKeyword inner ''OR''
           in if length members = 1
              then (case parseSimpleClause inner of Inl _ \<Rightarrow> PWarning (unsupported part) | Inr c \<Rightarrow> PClause c)
              else if \<not> orGroups then PWarning (unsupported part)
              else
                let parsedMembers = map parseSimpleClause members; valid = map projr (filter (\<lambda>m. \<not> isl m) parsedMembers)
                in if length valid \<noteq> length parsedMembers then PWarning (group_warning part) else PGroup valid))"

definition push_part :: "part_result \<Rightarrow> ParseWhereClauseResult \<Rightarrow> ParseWhereClauseResult" where
  "push_part p r =
     (case p of
        PWarning w \<Rightarrow> r\<lparr>res_warnings := res_warnings r @ [w]\<rparr>
      | PClause c \<Rightarrow> r\<lparr>res_clauses := res_clauses r @ [c]\<rparr>
      | PGroup g \<Rightarrow> r\<lparr>res_groups := res_groups r @ [g]\<rparr>)"

definition parseWhereClause :: "string \<Rightarrow> bool \<Rightarrow> ParseWhereClauseResult" where
  "parseWhereClause expression orGroups =
     (let trimmed = js_trim expression; empty = \<lparr>res_clauses = [], res_groups = [], res_warnings = []\<rparr>
      in if trimmed = [] then empty
         else foldl (\<lambda>r part. push_part (parse_part orGroups part) r) empty (splitWhereClause trimmed))"

section \<open>Printing\<close>

text \<open>The expression of a list of clauses and groups, with every value quoted by \<open>quoteWhereValue\<close>\<close>

definition print_clause :: "ParsedClause \<Rightarrow> string" where
  "print_clause c =
     the (cl_rawKey c) @ '' '' @ operator_text (cl_operator c) @
     (if cl_operator c = w_exists \<or> cl_operator c = w_not_exists then [] else '' '' @ quoteWhereValue (cl_value c))"

datatype where_item = Clause ParsedClause | Group "ParsedClause list"

fun print_joined :: "string \<Rightarrow> string list \<Rightarrow> string" where
  "print_joined keyword [] = []"
| "print_joined keyword [x] = x"
| "print_joined keyword (x # y # zs) = x @ '' '' @ keyword @ '' '' @ print_joined keyword (y # zs)"

fun print_item :: "where_item \<Rightarrow> string" where
  "print_item (Clause c) = print_clause c"
| "print_item (Group cs) = ''('' @ print_joined ''OR'' (map print_clause cs) @ '')''"

definition print_where :: "where_item list \<Rightarrow> string" where
  "print_where items = print_joined ''AND'' (map print_item items)"

text \<open>What the language can spell: a value without both kinds of quote. The parser trims it.\<close>

definition clause_ok :: "ParsedClause \<Rightarrow> bool" where
  "clause_ok c \<longleftrightarrow>
     (\<exists>k. cl_rawKey c = Some k \<and> k \<noteq> [] \<and> list_all key_char k \<and> cl_key c = js_lower k) \<and>
     (DQ \<notin> set (cl_value c) \<or> SQ \<notin> set (cl_value c)) \<and>
     (cl_operator c = w_exists \<or> cl_operator c = w_not_exists \<longrightarrow> cl_value c = [])"

fun item_ok :: "where_item \<Rightarrow> bool" where
  "item_ok (Clause c) \<longleftrightarrow> clause_ok c"
| "item_ok (Group cs) \<longleftrightarrow> 2 \<le> length cs \<and> list_all clause_ok cs"

definition read_back :: "ParsedClause \<Rightarrow> ParsedClause" where
  "read_back c = c\<lparr>cl_value := js_trim (cl_value c)\<rparr>"

definition clauses_of :: "where_item list \<Rightarrow> ParsedClause list" where
  "clauses_of items = concat (map (\<lambda>i. case i of Clause c \<Rightarrow> [read_back c] | Group _ \<Rightarrow> []) items)"

definition groups_of :: "where_item list \<Rightarrow> ParsedClause list list" where
  "groups_of items = concat (map (\<lambda>i. case i of Clause _ \<Rightarrow> [] | Group cs \<Rightarrow> [map read_back cs]) items)"

section \<open>Scanning what was printed\<close>

lemma key_char_facts:
  assumes "key_char c"
  shows "\<not> js_space c" "\<not> ascii_space c" "c \<noteq> DQ" "c \<noteq> SQ" "c \<noteq> CHR ''(''" "c \<noteq> CHR '')''" "c \<noteq> CHR ''!''" "c \<noteq> CHR ''=''"
    "c \<noteq> CHR ''<''" "c \<noteq> CHR ''>''"
  using assms by (auto simp: key_char_def Let_def js_space_def ascii_space_def)

text \<open>A character the scanner passes without a change of its state\<close>

definition plain :: "char \<Rightarrow> bool" where
  "plain c \<longleftrightarrow> c \<noteq> DQ \<and> c \<noteq> SQ \<and> c \<noteq> CHR ''('' \<and> c \<noteq> CHR '')'' \<and> \<not> js_space c"

lemma ascii_is_space: "ascii_space c \<Longrightarrow> js_space c"
  by (auto simp: ascii_space_def js_space_def)

lemma scan_plain: "list_all plain w \<Longrightarrow> split_scan kw cur d None (w @ rest) = split_scan kw (cur @ w) d None rest"
  by (induction w arbitrary: cur) (auto simp: split_scan.simps plain_def dest: ascii_is_space)

lemma scan_quoted: "q \<notin> set v \<Longrightarrow> split_scan kw cur d (Some q) (v @ q # rest) = split_scan kw (cur @ v @ [q]) d None rest"
  by (induction v arbitrary: cur) (auto simp: split_scan.simps)

lemma scan_quote:
  "DQ \<notin> set v \<or> SQ \<notin> set v \<Longrightarrow> split_scan kw cur d None (quoteWhereValue v @ rest) = split_scan kw (cur @ quoteWhereValue v) d None rest"
  using scan_quoted [of DQ v] scan_quoted [of SQ v] by (auto simp: quoteWhereValue_def split_scan.simps)

lemma unwrap_plain: "list_all plain w \<Longrightarrow> unwrap_scan d None (w @ rest) = unwrap_scan d None rest"
  by (induction w) (auto simp: plain_def)

lemma unwrap_quoted: "q \<notin> set v \<Longrightarrow> unwrap_scan d (Some q) (v @ q # rest) = unwrap_scan d None rest"
  by (induction v) auto

lemma unwrap_quote: "DQ \<notin> set v \<or> SQ \<notin> set v \<Longrightarrow> unwrap_scan d None (quoteWhereValue v @ rest) = unwrap_scan d None rest"
  using unwrap_quoted [of DQ v] unwrap_quoted [of SQ v] by (auto simp: quoteWhereValue_def)

text \<open>A space before something that does not begin with the keyword's first letter is no separator.\<close>

lemma scan_space:
  assumes "d = 0 \<Longrightarrow> r \<noteq> [] \<and> \<not> js_space (hd r) \<and> lower_char (hd r) \<noteq> lower_char (hd kw)" "kw \<noteq> []"
  shows "split_scan kw cur d None (CHR '' '' # r) = split_scan kw (cur @ '' '') d None r"
proof -
  have "separator_exec kw (CHR '' '' # r) = None" if d: "d = 0"
  proof -
    obtain c r' k kw' where r: "r = c # r'" "kw = k # kw'" using assms d by (cases r; cases kw) auto
    then show ?thesis using assms d by (simp add: separator_exec_def js_lower_def Let_def space_char)
  qed
  then show ?thesis using space_char by (simp add: split_scan.simps)
qed

lemma scan_separator:
  assumes "kw \<noteq> []" "list_all (\<lambda>c. \<not> js_space c) kw" "r \<noteq> []" "\<not> js_space (hd r)"
  shows "split_scan kw cur 0 None (CHR '' '' # kw @ CHR '' '' # r) = cur # split_scan kw [] 0 None r"
proof -
  obtain k kw' where k: "kw = k # kw'" "\<not> js_space k" using assms by (cases kw) auto
  have "takeWhile js_space r = []" using assms(3,4) by (cases r) auto
  then have "separator_exec kw (CHR '' '' # kw @ CHR '' '' # r) = Some (length kw + 2)"
    using k by (simp add: separator_exec_def Let_def space_char)
  then show ?thesis using space_char by (simp add: split_scan.simps)
qed

lemma operator_plain: "list_all plain (operator_text p)"
  by (cases p) (simp_all add: plain_def js_space_def)

lemma operator_head:
  "operator_text p \<noteq> []" "lower_char (hd (operator_text p)) \<noteq> CHR ''a''" "lower_char (hd (operator_text p)) \<noteq> CHR ''o''"
  "\<not> js_space (hd (operator_text p))"
  by (cases p; simp add: lower_char_def js_space_def)+

lemma key_plain: "list_all key_char k \<Longrightarrow> list_all plain k"
  by (auto simp: list_all_iff plain_def dest: key_char_facts)

definition keyword_ok :: "string \<Rightarrow> bool" where
  "keyword_ok kw \<longleftrightarrow> kw = ''AND'' \<or> kw = ''OR''"

lemma keyword_facts:
  assumes "keyword_ok kw"
  shows "kw \<noteq> []" "list_all (\<lambda>c. \<not> js_space c) kw" "lower_char (hd kw) = CHR ''a'' \<or> lower_char (hd kw) = CHR ''o''"
  using assms by (auto simp: keyword_ok_def js_space_def lower_char_def char_of_def bit_0)

lemma quote_head: "quoteWhereValue v \<noteq> []" "hd (quoteWhereValue v) = DQ \<or> hd (quoteWhereValue v) = SQ"
  "last (quoteWhereValue v) = DQ \<or> last (quoteWhereValue v) = SQ"
  by (auto simp: quoteWhereValue_def)

lemma quote_not_keyword: "keyword_ok kw \<Longrightarrow> q = DQ \<or> q = SQ \<Longrightarrow> lower_char q \<noteq> lower_char (hd kw) \<and> \<not> js_space q"
  by (auto simp: keyword_ok_def lower_char_def js_space_def char_of_def bit_0)

lemma scan_clause:
  assumes "clause_ok c" "keyword_ok kw"
  shows "split_scan kw cur d None (print_clause c @ rest) = split_scan kw (cur @ print_clause c) d None rest"
proof -
  obtain k where k: "cl_rawKey c = Some k" "list_all plain k" using assms by (auto simp: clause_ok_def intro: key_plain)
  let ?p = "operator_text (cl_operator c)" and ?v = "quoteWhereValue (cl_value c)"
  have sp: "split_scan kw x d None (CHR '' '' # ?p @ y) = split_scan kw (x @ '' '' @ ?p) d None y" for x y
  proof -
    have "split_scan kw x d None (CHR '' '' # ?p @ y) = split_scan kw (x @ '' '') d None (?p @ y)"
      using operator_head [of "cl_operator c"] keyword_facts [OF assms(2)] by (intro scan_space) auto
    then show ?thesis using scan_plain [OF operator_plain] by simp
  qed
  have sv: "split_scan kw x d None (CHR '' '' # ?v @ y) = split_scan kw (x @ '' '' @ ?v) d None y" for x y
  proof -
    have "split_scan kw x d None (CHR '' '' # ?v @ y) = split_scan kw (x @ '' '') d None (?v @ y)"
      using quote_head [of "cl_value c"] quote_not_keyword [OF assms(2)] keyword_facts [OF assms(2)] by (intro scan_space) auto
    then show ?thesis using scan_quote [of "cl_value c"] assms(1) by (simp add: clause_ok_def)
  qed
  show ?thesis using k by (simp add: print_clause_def scan_plain sp sv)
qed

section \<open>Parsing what was printed\<close>

lemma key_run:
  assumes "list_all key_char k" "k \<noteq> []" "r \<noteq> []" "\<not> js_space (hd r)"
  shows "key_space (k @ CHR '' '' # r) = Some (k, r)" "key_spaces (k @ CHR '' '' # r) = Some (k, r)"
proof -
  have sp: "\<not> key_char (CHR '' '')" by (simp add: key_char_def)
  have "takeWhile key_char (k @ CHR '' '' # r) = k" "dropWhile key_char (k @ CHR '' '' # r) = CHR '' '' # r"
    using assms(1) sp by (induction k) auto
  moreover have "dropWhile js_space r = r" using assms(3,4) by (cases r) auto
  ultimately show "key_space (k @ CHR '' '' # r) = Some (k, r)" "key_spaces (k @ CHR '' '' # r) = Some (k, r)"
    using assms(2) by (simp_all add: key_space_def key_spaces_def Let_def space_char)
qed

lemma drop_space_quote: "dropWhile js_space (CHR '' '' # quoteWhereValue v) = quoteWhereValue v"
  using quote_head [of v] by (cases "quoteWhereValue v") (auto simp: js_space_def)

lemma value_quote: "DQ \<notin> set v \<or> SQ \<notin> set v \<Longrightarrow> value_exec (quoteWhereValue v) = Some (Quoted v)"
  by (auto simp: value_exec_def in_quotes_def quoteWhereValue_def)

lemma lower_letters:
  "lower_char (CHR ''e'') = CHR ''e''" "lower_char (CHR ''x'') = CHR ''x''" "lower_char (CHR ''i'') = CHR ''i''"
  "lower_char (CHR ''s'') = CHR ''s''" "lower_char (CHR ''t'') = CHR ''t''" "lower_char (CHR ''c'') = CHR ''c''"
  "lower_char (CHR ''o'') = CHR ''o''" "lower_char (CHR ''n'') = CHR ''n''" "lower_char (CHR ''a'') = CHR ''a''"
  "lower_char (CHR ''='') = CHR ''=''" "lower_char (CHR ''!'') = CHR ''!''" "lower_char (CHR ''<'') = CHR ''<''" "lower_char (CHR ''>'') = CHR ''>''"
  by (simp_all add: lower_char_def)

lemma not_space:
  "\<not> js_space (CHR ''e'')" "\<not> js_space (CHR ''c'')" "\<not> js_space (CHR ''='')" "\<not> js_space (CHR ''!'')" "\<not> js_space (CHR ''<'')" "\<not> js_space (CHR ''>'')"
  by (simp_all add: js_space_def)

lemma parse_printed:
  assumes "clause_ok c"
  shows "parseSimpleClause (print_clause c) = Inr (read_back c)"
proof -
  obtain k where k: "cl_rawKey c = Some k" "k \<noteq> []" "list_all key_char k" "cl_key c = js_lower k"
    using assms by (auto simp: clause_ok_def)
  let ?p = "operator_text (cl_operator c)" and ?v = "quoteWhereValue (cl_value c)"
  define tail where "tail = (if cl_operator c = w_exists \<or> cl_operator c = w_not_exists then [] else '' '' @ ?v)"
  have text_eq: "print_clause c = k @ CHR '' '' # (?p @ tail)" using k by (simp add: print_clause_def tail_def)
  have "?p @ tail \<noteq> []" "\<not> js_space (hd (?p @ tail))" using operator_head [of "cl_operator c"] by simp_all
  note run = key_run [OF k(3,2) this]
  have trim_k: "js_trim k = k"
  proof -
    have ns: "\<not> js_space x" if "x \<in> set k" for x using k(3) that key_char_facts(1) by (auto simp: list_all_iff)
    then have "dropWhile js_space k = k" "dropWhile js_space (rev k) = rev k"
      using k(2) by (metis dropWhile_eq_self_iff list.set_sel(1), metis dropWhile_eq_self_iff hd_rev last_in_set rev_is_Nil_conv)
    then show ?thesis by (simp add: js_trim_def)
  qed
  have v: "value_exec ?v = Some (Quoted (cl_value c))" using assms value_quote by (auto simp: clause_ok_def)
  have mk: "make_clause k (cl_operator c) (js_trim (cl_value c)) = read_back c" using k trim_k by (simp add: make_clause_def read_back_def)
  define r where "r = ?p @ tail"
  have m: "notExistsMatch (print_clause c) = (case bang r of Some r' \<Rightarrow> if js_lower r' = ''exists'' then Some k else None | None \<Rightarrow> None)"
    "existsMatch (print_clause c) = (if js_lower r = ''exists'' then Some k else None)"
    "notContainsMatch (print_clause c) = (case bang r of Some r' \<Rightarrow> map_option (Pair k) (contains_exec r') | None \<Rightarrow> None)"
    "containsMatch (print_clause c) = map_option (Pair k) (contains_exec r)"
    "compMatch (print_clause c) = map_option (Pair k) (comparison_exec [w_neq, w_lte, w_gte, w_lt, w_gt, w_eq] r)"
    unfolding text_eq notExistsMatch_def existsMatch_def notContainsMatch_def containsMatch_def compMatch_def run r_def by simp_all
  note q = drop_space_quote [of "cl_value c", unfolded dropWhile.simps if_P [OF space_char(1)]]
  note e = js_lower_def bang_def contains_exec_def Let_def lower_letters not_space space_char
  show ?thesis
  proof (cases "cl_operator c")
    case w_exists
    moreover from this assms have "js_trim (cl_value c) = []" by (simp add: clause_ok_def js_trim_def)
    ultimately show ?thesis using mk by (simp add: parseSimpleClause_def m r_def e tail_def)
  next
    case w_not_exists
    moreover from this assms have "js_trim (cl_value c) = []" by (simp add: clause_ok_def js_trim_def)
    ultimately show ?thesis using mk by (simp add: parseSimpleClause_def m r_def e tail_def)
  qed (use mk v in \<open>simp_all add: parseSimpleClause_def m r_def e tail_def q\<close>)
qed

section \<open>Whole expressions\<close>

definition passes :: "string \<Rightarrow> string \<Rightarrow> bool" where
  "passes kw x \<longleftrightarrow> x \<noteq> [] \<and> \<not> js_space (hd x) \<and> \<not> js_space (last x) \<and>
     (\<forall>cur rest. split_scan kw cur 0 None (x @ rest) = split_scan kw (cur @ x) 0 None rest)"

lemma split_joined:
  assumes "keyword_ok kw" "xs \<noteq> []" "list_all (passes kw) xs"
  shows "split_scan kw cur 0 None (print_joined kw xs) = (cur @ hd xs) # tl xs"
  using assms(2,3)
proof (induction xs arbitrary: cur rule: induct_list012)
  case (2 x)
  then have "split_scan kw cur 0 None (x @ []) = split_scan kw (cur @ x) 0 None []" by (auto simp: passes_def simp del: append_Nil2)
  then show ?case by (simp add: split_scan.simps)
next
  case (3 x y zs)
  have y: "print_joined kw (y # zs) \<noteq> []" "\<not> js_space (hd (print_joined kw (y # zs)))"
    using 3(4) by (cases zs; simp add: passes_def)+
  have "split_scan kw cur 0 None (print_joined kw (x # y # zs)) =
      split_scan kw (cur @ x) 0 None (CHR '' '' # kw @ CHR '' '' # print_joined kw (y # zs))"
    using 3(4) by (simp add: passes_def)
  also have "\<dots> = (cur @ x) # split_scan kw [] 0 None (print_joined kw (y # zs))"
    by (rule scan_separator [OF keyword_facts(1,2) [OF assms(1)] y])
  also have "split_scan kw [] 0 None (print_joined kw (y # zs)) = y # zs" using 3(2) [of "[]"] 3(4) by simp
  finally show ?case by simp
qed simp

lemma splitOnKeyword_joined:
  assumes "keyword_ok kw" "xs \<noteq> []" "list_all (passes kw) xs"
  shows "splitOnKeyword (print_joined kw xs) kw = xs"
proof -
  have "split_scan kw [] 0 None (print_joined kw xs) = xs" using split_joined [OF assms] assms(2) by simp
  moreover have "map js_trim xs = xs"
    using assms(3) trim_tight by (intro map_idI) (auto simp: list_all_iff passes_def)
  moreover have "filter (\<lambda>p. p \<noteq> []) xs = xs" using assms(3) by (auto simp: list_all_iff passes_def filter_id_conv)
  ultimately show ?thesis by (simp add: splitOnKeyword_def)
qed

lemma clause_ends:
  assumes "clause_ok c"
  shows "print_clause c \<noteq> [] \<and> key_char (hd (print_clause c)) \<and> \<not> js_space (last (print_clause c))"
proof -
  obtain k where k: "cl_rawKey c = Some k" "k \<noteq> []" "list_all key_char k" using assms by (auto simp: clause_ok_def)
  have "\<not> js_space (last (quoteWhereValue v))" for v using quote_head(3) [of v] by (auto simp: js_space_def)
  moreover have "\<not> js_space (last (operator_text p))" for p by (cases p) (simp_all add: js_space_def)
  ultimately show ?thesis
    using k quote_head(1) operator_head(1) by (auto simp: print_clause_def list_all_iff)
qed

lemma clause_passes: "clause_ok c \<Longrightarrow> keyword_ok kw \<Longrightarrow> passes kw (print_clause c)"
  using clause_ends [of c] scan_clause [of c kw] key_char_facts(1) by (auto simp: passes_def)

lemma scan_group:
  assumes "keyword_ok kw" "list_all clause_ok cs"
  shows "split_scan kw cur (Suc d) None (print_joined ''OR'' (map print_clause cs) @ rest) =
    split_scan kw (cur @ print_joined ''OR'' (map print_clause cs)) (Suc d) None rest"
  using assms(2)
proof (induction cs arbitrary: cur rule: induct_list012)
  case (2 c)
  then show ?case using scan_clause assms(1) by simp
next
  case (3 c e cs)
  have gap: "split_scan kw x (Suc d) None (CHR '' '' # CHR ''O'' # CHR ''R'' # CHR '' '' # y) = split_scan kw (x @ '' OR '') (Suc d) None y" for x y
    by (simp add: split_scan.simps)
  show ?case using 3 scan_clause [OF _ assms(1)] gap by simp
qed simp

lemma item_passes:
  assumes "item_ok i"
  shows "passes ''AND'' (print_item i)"
proof (cases i)
  case (Clause c)
  then show ?thesis using assms clause_passes by (simp add: keyword_ok_def)
next
  case (Group cs)
  have kw: "keyword_ok ''AND''" by (simp add: keyword_ok_def)
  have "split_scan ''AND'' cur 0 None (print_item i @ rest) = split_scan ''AND'' (cur @ print_item i) 0 None rest" for cur rest
    using scan_group [OF kw, of cs "cur @ ''(''" 0] assms Group by (simp add: split_scan.simps)
  then show ?thesis using Group by (simp add: passes_def js_space_def)
qed

lemma unwrap_clause: "clause_ok c \<Longrightarrow> unwrap_scan d None (print_clause c @ rest) = unwrap_scan d None rest"
proof -
  assume c: "clause_ok c"
  then obtain k where k: "cl_rawKey c = Some k" "list_all plain k" by (auto simp: clause_ok_def intro: key_plain)
  have sp: "unwrap_scan d None (CHR '' '' # y) = unwrap_scan d None y" for y by simp
  show ?thesis using c k
    by (auto simp: print_clause_def clause_ok_def unwrap_plain operator_plain unwrap_quote sp simp del: unwrap_scan.simps)
qed

lemma unwrap_joined: "list_all clause_ok cs \<Longrightarrow> unwrap_scan d None (print_joined ''OR'' (map print_clause cs) @ rest) = unwrap_scan d None rest"
proof (induction cs rule: induct_list012)
  case (3 c e cs)
  have "unwrap_scan d None (CHR '' '' # CHR ''O'' # CHR ''R'' # CHR '' '' # y) = unwrap_scan d None y" for y by simp
  then show ?case using 3 by (simp add: unwrap_clause del: unwrap_scan.simps)
qed (simp_all add: unwrap_clause)

lemma joined_ends:
  assumes "xs \<noteq> []" "list_all (passes kw) xs"
  shows "print_joined kw xs \<noteq> [] \<and> hd (print_joined kw xs) = hd (hd xs) \<and> last (print_joined kw xs) = last (last xs)"
  using assms by (induction xs rule: induct_list012) (auto simp: passes_def)

lemma parse_part_clause: "clause_ok c \<Longrightarrow> parse_part orGroups (print_clause c) = PClause (read_back c)"
proof -
  assume c: "clause_ok c"
  then have "unwrapParentheses (print_clause c) = None"
    using clause_ends key_char_facts(5) by (auto simp: unwrapParentheses_def)
  then show ?thesis using parse_printed [OF c] by (simp add: parse_part_def)
qed

lemma parse_part_group:
  assumes "item_ok (Group cs)"
  shows "parse_part True (print_item (Group cs)) = PGroup (map read_back cs)"
proof -
  let ?x = "print_joined ''OR'' (map print_clause cs)"
  have ok: "keyword_ok ''OR''" "list_all clause_ok cs" "cs \<noteq> []" using assms by (auto simp: keyword_ok_def)
  then have p: "list_all (passes ''OR'') (map print_clause cs)" using clause_passes by (auto simp: list_all_iff)
  have "passes ''OR'' (hd (map print_clause cs))" "passes ''OR'' (last (map print_clause cs))"
    using p ok(3) by (metis list_all_iff hd_in_set map_is_Nil_conv, metis list_all_iff last_in_set map_is_Nil_conv)
  then have "?x \<noteq> []" "js_trim ?x = ?x"
    using joined_ends [of "map print_clause cs" "''OR''"] p ok(3) by (auto intro!: trim_tight simp: passes_def)
  moreover have "unwrap_scan 0 None (print_item (Group cs)) = Some 0"
    using unwrap_joined [OF ok(2), of 1 "'')''"] by simp
  ultimately have "unwrapParentheses (print_item (Group cs)) = Some ?x" by (simp add: unwrapParentheses_def butlast_append)
  moreover have "splitOnKeyword ?x ''OR'' = map print_clause cs" using ok(1,3) p by (intro splitOnKeyword_joined) simp_all
  moreover have "map parseSimpleClause (map print_clause cs) = map Inr (map read_back cs)" using ok(2) parse_printed by (simp add: list_all_iff)
  moreover have "length (map print_clause cs) \<noteq> 1" using assms by simp
  moreover have "filter (\<lambda>m. \<not> isl m) (map Inr xs) = map Inr xs" "map projr (map Inr xs) = xs" for xs :: "ParsedClause list"
    by (induction xs) simp_all
  ultimately show ?thesis unfolding parse_part_def Let_def by (simp del: map_map print_item.simps)
qed

lemma push_items:
  assumes "list_all item_ok items" "orGroups \<or> groups_of items = []"
  shows "foldl (\<lambda>r part. push_part (parse_part orGroups part) r) r (map print_item items) =
    r\<lparr>res_clauses := res_clauses r @ clauses_of items, res_groups := res_groups r @ groups_of items\<rparr>"
  using assms
proof (induction items arbitrary: r)
  case Nil
  then show ?case by (simp add: clauses_of_def groups_of_def)
next
  case (Cons i items)
  have rest: "orGroups \<or> groups_of items = []" using Cons.prems(2) by (auto simp: groups_of_def)
  show ?case
  proof (cases i)
    case (Clause c)
    then have "parse_part orGroups (print_item i) = PClause (read_back c)" using Cons.prems(1) parse_part_clause by simp
    then show ?thesis using Cons.IH [OF _ rest] Cons.prems(1) Clause by (simp add: push_part_def clauses_of_def groups_of_def)
  next
    case (Group cs)
    then have "orGroups" using Cons.prems(2) by (auto simp: groups_of_def)
    then have "parse_part orGroups (print_item i) = PGroup (map read_back cs)" using Cons.prems(1) parse_part_group Group by simp
    then show ?thesis using Cons.IH [OF _ rest] Cons.prems(1) Group by (simp add: push_part_def clauses_of_def groups_of_def)
  qed
qed

lemma parse_print_where:
  assumes "list_all item_ok items" "orGroups \<or> groups_of items = []"
  shows "parseWhereClause (print_where items) orGroups =
    \<lparr>res_clauses = clauses_of items, res_groups = groups_of items, res_warnings = []\<rparr>"
proof (cases "items = []")
  case True
  then show ?thesis by (simp add: parseWhereClause_def print_where_def js_trim_def clauses_of_def groups_of_def)
next
  case False
  let ?xs = "map print_item items"
  have p: "list_all (passes ''AND'') ?xs" using assms(1) item_passes by (auto simp: list_all_iff)
  have "passes ''AND'' (hd ?xs)" "passes ''AND'' (last ?xs)"
    using p False by (metis list_all_iff hd_in_set map_is_Nil_conv, metis list_all_iff last_in_set map_is_Nil_conv)
  then have "print_where items \<noteq> []" "js_trim (print_where items) = print_where items"
    using joined_ends [of ?xs "''AND''"] p False by (auto intro!: trim_tight simp: passes_def print_where_def)
  moreover have "splitWhereClause (print_where items) = ?xs"
    unfolding splitWhereClause_def print_where_def using p False by (intro splitOnKeyword_joined) (simp_all add: keyword_ok_def)
  ultimately show ?thesis using push_items [OF assms] by (simp add: parseWhereClause_def Let_def)
qed

section \<open>What is dropped and what is accounted for\<close>

definition is_separator :: "string \<Rightarrow> string \<Rightarrow> bool" where
  "is_separator kw s \<longleftrightarrow> (\<exists>a w b. s = a @ w @ b \<and> a \<noteq> [] \<and> b \<noteq> [] \<and> list_all js_space (a @ b) \<and> js_lower w = js_lower kw)"

fun woven :: "string list \<Rightarrow> string list \<Rightarrow> string" where
  "woven (p # ps) (s # ss) = p @ s @ woven ps ss"
| "woven ps ss = concat ps"

lemma separator_exec_text:
  assumes "separator_exec kw s = Some n"
  shows "is_separator kw (take n s) \<and> n \<le> length s"
proof -
  define a r m b where "a = takeWhile js_space s" and "r = dropWhile js_space s" and "m = length kw" and "b = takeWhile js_space (drop m r)"
  have e: "a \<noteq> []" "m \<le> length r" "js_lower (take m r) = js_lower kw" "b \<noteq> []" "n = length a + m + length b"
    using assms by (auto simp: separator_exec_def Let_def a_def r_def m_def b_def split: if_splits)
  obtain y where y: "drop m r = b @ y" unfolding b_def by (metis takeWhile_dropWhile_id)
  have "s = a @ r" by (simp add: a_def r_def)
  also have "r = take m r @ b @ y" using y by (metis append_take_drop_id)
  finally have s: "s = a @ take m r @ b @ y" .
  have "n = length (a @ take m r @ b)" using e by simp
  then have t: "take n s = a @ take m r @ b" using s by (metis append_assoc append_eq_conv_conj)
  have "list_all js_space a" "list_all js_space b" by (auto simp: a_def b_def list_all_iff dest: set_takeWhileD)
  moreover have "n \<le> length s" using e(2,5) s by (metis \<open>n = length (a @ take m r @ b)\<close> append_assoc length_append le_add1)
  ultimately show ?thesis using e t unfolding is_separator_def by auto
qed

lemma split_scan_step:
  obtains d' quote' where "split_scan kw cur d quote (c # rest) = split_scan kw (cur @ [c]) d' quote' rest"
  | n where "separator_exec kw (c # rest) = Some n" "split_scan kw cur d quote (c # rest) = cur # split_scan kw [] d None (drop (n - 1) rest)"
proof (cases quote)
  case (Some q)
  then show ?thesis using that(1) by (simp add: split_scan.simps)
next
  case None
  show ?thesis
  proof (cases "c = DQ \<or> c = SQ \<or> c = CHR ''('' \<or> c = CHR '')''")
    case True
    then show ?thesis using None that(1) by (elim disjE) (simp_all add: split_scan.simps)
  next
    case False
    then have step: "split_scan kw cur d quote (c # rest) =
        (if d = 0 \<and> ascii_space c
         then case separator_exec kw (c # rest) of
                Some n \<Rightarrow> cur # split_scan kw [] d None (drop (n - 1) rest)
              | None \<Rightarrow> split_scan kw (cur @ [c]) d None rest
         else split_scan kw (cur @ [c]) d None rest)"
      using None by (simp add: split_scan.simps)
    show ?thesis
    proof (cases "d = 0 \<and> ascii_space c \<and> separator_exec kw (c # rest) \<noteq> None")
      case True
      then show ?thesis using that(2) step by auto
    next
      case False
      then have "split_scan kw cur d quote (c # rest) = split_scan kw (cur @ [c]) d None rest" using step by (auto split: if_splits)
      then show ?thesis by (rule that(1))
    qed
  qed
qed

lemma scan_lossless:
  "\<exists>seps. length (split_scan kw cur d quote s) = Suc (length seps) \<and> list_all (is_separator kw) seps \<and>
     woven (split_scan kw cur d quote s) seps = cur @ s"
proof (induction "length s" arbitrary: cur d quote s rule: less_induct)
  case less
  show ?case
  proof (cases s)
    case Nil
    then show ?thesis by (intro exI [of _ "[]"]) (simp add: split_scan.simps)
  next
    case (Cons c rest)
    show ?thesis
    proof (rule split_scan_step [of kw cur d quote c rest])
      fix d' quote' assume "split_scan kw cur d quote (c # rest) = split_scan kw (cur @ [c]) d' quote' rest"
      then show ?thesis using less [of rest "cur @ [c]" d' quote'] Cons by simp
    next
      fix n assume n: "separator_exec kw (c # rest) = Some n" "split_scan kw cur d quote (c # rest) = cur # split_scan kw [] d None (drop (n - 1) rest)"
      obtain seps where "length (split_scan kw [] d None (drop (n - 1) rest)) = Suc (length seps)" "list_all (is_separator kw) seps"
        "woven (split_scan kw [] d None (drop (n - 1) rest)) seps = drop (n - 1) rest"
        using less [of "drop (n - 1) rest" "[]" d None] Cons by (auto simp: less_Suc_eq_le)
      moreover have "take n (c # rest) @ drop (n - 1) rest = c # rest" using separator_exec_pos [OF n(1)] by (cases n) simp_all
      ultimately show ?thesis using n separator_exec_text [OF n(1)] Cons by (intro exI [of _ "take n (c # rest) # seps"]) simp
    qed
  qed
qed

text \<open>What a parsed clause looks like, whatever the text was\<close>

definition clause_wf :: "ParsedClause \<Rightarrow> bool" where
  "clause_wf c \<longleftrightarrow>
     (\<exists>k. cl_rawKey c = Some k \<and> k \<noteq> [] \<and> list_all key_char k \<and> cl_key c = js_lower k) \<and>
     js_trim (cl_value c) = cl_value c \<and> (cl_operator c = w_exists \<or> cl_operator c = w_not_exists \<longrightarrow> cl_value c = [])"

lemma key_trim: "list_all key_char k \<Longrightarrow> js_trim k = k"
proof (cases "k = []")
  case False
  assume "list_all key_char k"
  then show ?thesis using False key_char_facts(1) by (intro trim_tight) (auto simp: list_all_iff)
qed (simp add: js_trim_def)

lemma key_run_key:
  "key_space part = Some (k, r) \<Longrightarrow> k \<noteq> [] \<and> list_all key_char k"
  "key_spaces part = Some (k, r) \<Longrightarrow> k \<noteq> [] \<and> list_all key_char k"
  by (auto simp: key_space_def key_spaces_def Let_def list_all_iff dest: set_takeWhileD split: if_splits)

lemma make_clause_wf:
  assumes "k \<noteq> [] \<and> list_all key_char k" "js_trim v = v" "p = w_exists \<or> p = w_not_exists \<Longrightarrow> v = []"
  shows "clause_wf (make_clause k p v)"
  using assms key_trim [of k] by (simp add: clause_wf_def make_clause_def)

lemma comparison_operator: "comparison_exec ps r = Some (p, v) \<Longrightarrow> p \<in> set ps"
  by (induction ps r rule: comparison_exec.induct) (auto simp: Let_def split: if_splits)

lemma match_key:
  "notExistsMatch part = Some k \<Longrightarrow> k \<noteq> [] \<and> list_all key_char k"
  "existsMatch part = Some k \<Longrightarrow> k \<noteq> [] \<and> list_all key_char k"
  "notContainsMatch part = Some (k, v) \<Longrightarrow> k \<noteq> [] \<and> list_all key_char k"
  "containsMatch part = Some (k, v) \<Longrightarrow> k \<noteq> [] \<and> list_all key_char k"
  "compMatch part = Some (k, p, v) \<Longrightarrow> k \<noteq> [] \<and> list_all key_char k \<and> p \<in> set [w_neq, w_lte, w_gte, w_lt, w_gt, w_eq]"
proof -
  show "notExistsMatch part = Some k \<Longrightarrow> k \<noteq> [] \<and> list_all key_char k"
    using key_run_key(1) by (fastforce simp: notExistsMatch_def split: option.splits if_splits)
  show "existsMatch part = Some k \<Longrightarrow> k \<noteq> [] \<and> list_all key_char k"
    using key_run_key(1) by (fastforce simp: existsMatch_def split: option.splits if_splits)
  show "notContainsMatch part = Some (k, v) \<Longrightarrow> k \<noteq> [] \<and> list_all key_char k"
    using key_run_key(1) by (fastforce simp: notContainsMatch_def split: option.splits)
  show "containsMatch part = Some (k, v) \<Longrightarrow> k \<noteq> [] \<and> list_all key_char k"
    using key_run_key(1) by (fastforce simp: containsMatch_def split: option.splits)
  show "compMatch part = Some (k, p, v) \<Longrightarrow> k \<noteq> [] \<and> list_all key_char k \<and> p \<in> set [w_neq, w_lte, w_gte, w_lt, w_gt, w_eq]"
    using key_run_key(2) comparison_operator unfolding compMatch_def by (force split: option.splits simp del: set_simps)
qed

lemma parseSimpleClause_cases:
  assumes "parseSimpleClause part = Inr c"
  obtains k p v where "k \<noteq> []" "list_all key_char k" "c = make_clause k p (js_trim v)" "p = w_exists \<or> p = w_not_exists \<Longrightarrow> v = []"
proof -
  have nil: "js_trim [] = []" by (simp add: js_trim_def)
  consider (ne) k where "notExistsMatch part = Some k" "c = make_clause k w_not_exists []"
    | (ex) k where "existsMatch part = Some k" "c = make_clause k w_exists []"
    | (nc) k v where "notContainsMatch part = Some (k, v)" "c = make_clause k w_not_contains (js_trim (value_text v))"
    | (co) k v where "containsMatch part = Some (k, v)" "c = make_clause k w_contains (js_trim (value_text v))"
    | (cm) k p v t where "compMatch part = Some (k, p, v)" "c = make_clause k p (js_trim t)"
    using assms by (auto simp: parseSimpleClause_def split: option.splits where_value.splits if_splits)
  then show ?thesis
  proof cases
    case ne
    then show ?thesis using match_key(1) [OF ne(1)] that [of k w_not_exists "[]"] nil by simp
  next
    case ex
    then show ?thesis using match_key(2) [OF ex(1)] that [of k w_exists "[]"] nil by simp
  next
    case nc
    then show ?thesis using match_key(3) [OF nc(1)] that [of k w_not_contains] by simp
  next
    case co
    then show ?thesis using match_key(4) [OF co(1)] that [of k w_contains] by simp
  next
    case cm
    then show ?thesis using match_key(5) [OF cm(1)] that [of k p t] by auto
  qed
qed

lemma parseSimpleClause_wf: "parseSimpleClause part = Inr c \<Longrightarrow> clause_wf c"
  by (erule parseSimpleClause_cases) (auto intro!: make_clause_wf simp: js_trim_idem js_trim_def [of "[]"])

fun part_wf :: "bool \<Rightarrow> part_result \<Rightarrow> bool" where
  "part_wf orGroups (PWarning w) = True"
| "part_wf orGroups (PClause c) = clause_wf c"
| "part_wf orGroups (PGroup g) = (orGroups \<and> length g \<noteq> 1 \<and> list_all clause_wf g)"

lemma parse_part_wf: "part_wf orGroups (parse_part orGroups part)"
proof (cases "unwrapParentheses part")
  case None
  then show ?thesis by (auto simp: parse_part_def parseSimpleClause_wf split: sum.splits)
next
  case (Some inner)
  let ?ms = "map parseSimpleClause (splitOnKeyword inner ''OR'')"
  have "list_all clause_wf (map projr (filter (\<lambda>m. \<not> isl m) ?ms))"
    using parseSimpleClause_wf by (auto simp: list_all_iff)
  then show ?thesis using Some by (auto simp: parse_part_def Let_def parseSimpleClause_wf split: sum.splits)
qed

lemma push_parts:
  assumes "\<And>p. p \<in> set parts \<Longrightarrow> part_wf b p"
  shows "let r' = foldl (\<lambda>r p. push_part p r) r parts in
    length (res_clauses r') + length (res_groups r') + length (res_warnings r') =
      length (res_clauses r) + length (res_groups r) + length (res_warnings r) + length parts \<and>
    (list_all clause_wf (res_clauses r) \<longrightarrow> list_all clause_wf (res_clauses r')) \<and>
    (list_all (\<lambda>g. b \<and> length g \<noteq> 1 \<and> list_all clause_wf g) (res_groups r) \<longrightarrow>
      list_all (\<lambda>g. b \<and> length g \<noteq> 1 \<and> list_all clause_wf g) (res_groups r'))"
  using assms
proof (induction parts arbitrary: r)
  case (Cons p parts)
  have "part_wf b p" using Cons.prems by simp
  then show ?case using Cons.IH [of "push_part p r"] Cons.prems by (cases p) (simp_all add: push_part_def Let_def)
qed simp

definition sample_clause :: "string \<Rightarrow> WhereOperator \<Rightarrow> string \<Rightarrow> ParsedClause" where
  "sample_clause k p v = \<lparr>cl_key = js_lower k, cl_rawKey = Some k, cl_operator = p, cl_value = v\<rparr>"

lemma sample_clause_ok: "k \<noteq> [] \<Longrightarrow> list_all key_char k \<Longrightarrow> DQ \<notin> set v \<or> SQ \<notin> set v \<Longrightarrow>
    (p = w_exists \<or> p = w_not_exists \<Longrightarrow> v = []) \<Longrightarrow> clause_ok (sample_clause k p v)"
  by (simp add: clause_ok_def sample_clause_def)

section \<open>Properties\<close>

text \<open>
  C13. Parsing what was printed: for every list of clauses and groups that the language can spell, the parser returns
  exactly these clauses and groups, with each value trimmed and without a warning. Keywords, quotes and parentheses
  inside a quoted value never split it.
\<close>

theorem parseWhereClause_print:
  assumes "list_all item_ok items" "orGroups \<or> groups_of items = []"
  shows "parseWhereClause (print_where items) orGroups =
    \<lparr>res_clauses = clauses_of items, res_groups = groups_of items, res_warnings = []\<rparr>"
  by (rule parse_print_where [OF assms])

theorem parseWhereClause_print_witness:
  "parseWhereClause
     (print_where [Clause (sample_clause ''x'' w_eq ''buy and sell''), Group [sample_clause ''a'' w_lte ''1'', sample_clause ''b'' w_not_exists '''']]) True =
   \<lparr>res_clauses = [sample_clause ''x'' w_eq ''buy and sell''], res_groups = [[sample_clause ''a'' w_lte ''1'', sample_clause ''b'' w_not_exists '''']],
    res_warnings = []\<rparr>"
proof -
  let ?items = "[Clause (sample_clause ''x'' w_eq ''buy and sell''), Group [sample_clause ''a'' w_lte ''1'', sample_clause ''b'' w_not_exists '''']]"
  have "list_all item_ok ?items" by (auto intro!: sample_clause_ok simp: key_char_def)
  moreover have "clauses_of ?items = [sample_clause ''x'' w_eq ''buy and sell'']"
    "groups_of ?items = [[sample_clause ''a'' w_lte ''1'', sample_clause ''b'' w_not_exists '''']]"
    by (simp_all add: clauses_of_def groups_of_def read_back_def sample_clause_def js_trim_def js_space_def)
  ultimately show ?thesis using parseWhereClause_print [of ?items True] by simp
qed

text \<open>
  C35. No part of an expression is lost: the parts and the separators between them make up the whole expression, and
  every part that is not blank shows up as exactly one clause, group or warning. Groups appear only when asked for,
  and every clause has a key in lower case and a trimmed value.
\<close>

theorem parseWhereClause_accounts:
  "let r = parseWhereClause expression orGroups in
     length (res_clauses r) + length (res_groups r) + length (res_warnings r) = length (splitWhereClause (js_trim expression)) \<and>
     list_all clause_wf (res_clauses r) \<and> list_all (\<lambda>g. orGroups \<and> length g \<noteq> 1 \<and> list_all clause_wf g) (res_groups r) \<and>
     (\<exists>parts seps. length parts = Suc (length seps) \<and> list_all (is_separator ''AND'') seps \<and> woven parts seps = js_trim expression \<and>
       splitWhereClause (js_trim expression) = filter (\<lambda>p. p \<noteq> []) (map js_trim parts))"
proof -
  let ?e = "js_trim expression" and ?empty = "\<lparr>res_clauses = [], res_groups = [], res_warnings = []\<rparr>"
  have nil: "splitWhereClause [] = []" by (simp add: splitWhereClause_def splitOnKeyword_def split_scan.simps js_trim_def)
  have "foldl (\<lambda>r part. push_part (parse_part orGroups part) r) x ps = foldl (\<lambda>r p. push_part p r) x (map (parse_part orGroups) ps)" for x ps
    by (induction ps arbitrary: x) simp_all
  then have r: "parseWhereClause expression orGroups = foldl (\<lambda>r p. push_part p r) ?empty (map (parse_part orGroups) (splitWhereClause ?e))"
    using nil by (simp add: parseWhereClause_def Let_def)
  have wf: "p \<in> set (map (parse_part orGroups) (splitWhereClause ?e)) \<Longrightarrow> part_wf orGroups p" for p
    using parse_part_wf by auto
  obtain seps where "length (split_scan ''AND'' [] 0 None ?e) = Suc (length seps)" "list_all (is_separator ''AND'') seps"
    "woven (split_scan ''AND'' [] 0 None ?e) seps = [] @ ?e" using scan_lossless by blast
  moreover have "splitWhereClause ?e = filter (\<lambda>p. p \<noteq> []) (map js_trim (split_scan ''AND'' [] 0 None ?e))"
    by (simp add: splitWhereClause_def splitOnKeyword_def)
  ultimately show ?thesis using push_parts [OF wf, of "map (parse_part orGroups) (splitWhereClause ?e)" ?empty] unfolding r Let_def
    by (intro conjI) (simp_all, blast)
qed

text \<open>Key aliases are settled after one step.\<close>

theorem normalizeKey_idempotent: "normalizeKey (normalizeKey raw) = normalizeKey raw"
proof -
  define k where "k = js_lower (js_trim raw)"
  have k: "js_lower (js_trim k) = k" by (simp add: k_def js_lower_trim js_trim_idem)
  have targets: "\<forall>t\<in>set [''service.name'', ''span.name'', ''deployment.environment'', ''vcs.ref.head.revision'', ''root_only'', ''has_error''].
      js_lower (js_trim t) = t"
    by (simp add: js_lower_def js_trim_def js_space_def lower_char_def)
  show ?thesis
    unfolding normalizeKey_def [of raw] k_def [symmetric] Let_def using targets k by (auto simp: normalizeKey_def [of "_ # _"] normalizeKey_def [of k])
qed

text \<open>
  C36. The doc comment of \<open>quoteWhereValue\<close> promises that a value with both kinds of quote makes the parser reject the
  clause. A value may instead close its quote and go on with a clause of its own: the expression built from it is read as two
  clauses, without a warning.
\<close>

theorem quoteWhereValue_injects:
  assumes "k \<noteq> []" "list_all key_char k" "k' \<noteq> []" "list_all key_char k'" "DQ \<notin> set v" "DQ \<notin> set v'" "SQ \<in> set v \<or> SQ \<in> set v'"
  shows "parseWhereClause (k @ '' = '' @ quoteWhereValue (v @ [DQ] @ '' AND '' @ k' @ '' = '' @ [DQ] @ v')) orGroups =
    \<lparr>res_clauses = [read_back (sample_clause k w_eq v), read_back (sample_clause k' w_eq v')], res_groups = [], res_warnings = []\<rparr>"
proof -
  let ?items = "[Clause (sample_clause k w_eq v), Clause (sample_clause k' w_eq v')]"
  have "list_all item_ok ?items" using assms by (auto intro!: sample_clause_ok)
  then have "parseWhereClause (print_where ?items) orGroups = \<lparr>res_clauses = clauses_of ?items, res_groups = groups_of ?items, res_warnings = []\<rparr>"
    by (rule parse_print_where) (simp add: groups_of_def)
  moreover have "print_where ?items = k @ '' = '' @ quoteWhereValue (v @ [DQ] @ '' AND '' @ k' @ '' = '' @ [DQ] @ v')"
    using assms by (auto simp: print_where_def print_clause_def sample_clause_def quoteWhereValue_def)
  ultimately show ?thesis by (simp add: clauses_of_def groups_of_def)
qed

theorem quoteWhereValue_injects_witness:
  "parseWhereClause (''k'' @ '' = '' @ quoteWhereValue (''a'' @ [DQ] @ '' AND '' @ ''y'' @ '' = '' @ [DQ] @ (''it'' @ [SQ] @ ''s''))) False =
    \<lparr>res_clauses = [read_back (sample_clause ''k'' w_eq ''a''), read_back (sample_clause ''y'' w_eq (''it'' @ [SQ] @ ''s''))], res_groups = [], res_warnings = []\<rparr>"
  by (rule quoteWhereValue_injects) (simp_all add: key_char_def)

text \<open>
  The same comment promises that a value is read back verbatim: it is trimmed. And an empty pair of parentheses is a group
  without members, with no warning.
\<close>

theorem quoteWhereValue_trims:
  "parseWhereClause (''k = '' @ quoteWhereValue '' a '') orGroups = \<lparr>res_clauses = [sample_clause ''k'' w_eq ''a''], res_groups = [], res_warnings = []\<rparr>"
proof -
  let ?items = "[Clause (sample_clause ''k'' w_eq '' a '')]"
  have "list_all item_ok ?items" by (auto intro!: sample_clause_ok simp: key_char_def)
  then have "parseWhereClause (print_where ?items) orGroups = \<lparr>res_clauses = clauses_of ?items, res_groups = groups_of ?items, res_warnings = []\<rparr>"
    by (rule parse_print_where) (simp add: groups_of_def)
  moreover have "print_where ?items = ''k = '' @ quoteWhereValue '' a ''" by (simp add: print_where_def print_clause_def sample_clause_def)
  ultimately show ?thesis by (simp add: clauses_of_def groups_of_def read_back_def sample_clause_def js_trim_def js_space_def)
qed

theorem empty_group_is_silent: "parseWhereClause ''()'' True = \<lparr>res_clauses = [], res_groups = [[]], res_warnings = []\<rparr>"
  by (simp add: parseWhereClause_def splitWhereClause_def splitOnKeyword_def split_scan.simps js_trim_def js_space_def ascii_space_def
    parse_part_def unwrapParentheses_def push_part_def)

end
