(* ===== verification/Prom_Parser.thy ===== *)
theory Prom_Parser
  imports Js_Text
begin

text \<open>
  The parser of the Prometheus text exposition format, after \<^verbatim>\<open>lib/prometheus-otlp/src/parser.ts\<close>: escapes, labels,
  sample lines, the family a sample belongs to, and the whole body.

  The code walks a line by index; the model walks the rest of the line. The parser collects families in a \<open>Map\<close> of
  mutable records; the model's map is a list in insertion order, and a write to a record is an update of its entry.
  Strings are lists of 8-bit characters. \<open>Number\<close>, the conversion of a text, and \<open>times1000\<close>, the product of a
  floating-point number and 1000, are arguments.
\<close>

section \<open>Data\<close>

datatype PromMetricType = counter | gauge | histogram | summary | untyped

type_synonym labels = "(string, string) jsmap"

record PromSample =
  sm_name :: string
  sm_labels :: labels
  sm_value :: jsnum
  sm_timestampMs :: "jsnum option"

record PromMetricFamily =
  fam_name :: string
  fam_type :: PromMetricType
  fam_help :: "string option"
  fam_unit :: "string option"
  fam_samples :: "PromSample list"

record PromParseResult =
  pr_families :: "PromMetricFamily list"
  pr_skippedLineCount :: nat

abbreviation BS :: char where "BS \<equiv> CHR 0x5C"
abbreviation NL :: char where "NL \<equiv> CHR 0x0A"
abbreviation CR :: char where "CR \<equiv> CHR 0x0D"

definition letter :: "char \<Rightarrow> bool" where
  "letter c \<longleftrightarrow> (let n = (of_char c :: nat) in (97 \<le> n \<and> n \<le> 122) \<or> (65 \<le> n \<and> n \<le> 90) \<or> n = 95)"

definition decimal_digit :: "char \<Rightarrow> bool" where
  "decimal_digit c \<longleftrightarrow> 48 \<le> (of_char c :: nat) \<and> (of_char c :: nat) \<le> 57"

text \<open>The prefix that \<open>/^[a-zA-Z_:][a-zA-Z0-9_:]*/\<close> matches, and the one of \<open>/^[a-zA-Z_][a-zA-Z0-9_]*/\<close>\<close>

definition METRIC_NAME_RE :: "string \<Rightarrow> string option" where
  "METRIC_NAME_RE s =
     (case s of [] \<Rightarrow> None
      | c # cs \<Rightarrow> if letter c \<or> c = CHR '':'' then Some (c # takeWhile (\<lambda>c. letter c \<or> decimal_digit c \<or> c = CHR '':'') cs) else None)"

definition LABEL_NAME_RE :: "string \<Rightarrow> string option" where
  "LABEL_NAME_RE s =
     (case s of [] \<Rightarrow> None
      | c # cs \<Rightarrow> if letter c then Some (c # takeWhile (\<lambda>c. letter c \<or> decimal_digit c) cs) else None)"

section \<open>Values\<close>

fun unescape_loop :: "string \<Rightarrow> string" where
  "unescape_loop [] = []"
| "unescape_loop [c] = [c]"
| "unescape_loop (c # d # r) =
     (if c = BS \<and> d = BS then BS # unescape_loop r
      else if c = BS \<and> d = CHR ''n'' then NL # unescape_loop r
      else if c = BS \<and> d = DQ then DQ # unescape_loop r
      else c # unescape_loop (d # r))"

definition unescapeValue :: "string \<Rightarrow> string" where
  "unescapeValue raw = (if BS \<notin> set raw then raw else unescape_loop raw)"

definition parseSampleValue :: "(string \<Rightarrow> jsnum) \<Rightarrow> string \<Rightarrow> jsnum option" where
  "parseSampleValue Number token =
     (if token = ''+Inf'' \<or> token = ''Inf'' then Some PosInf
      else if token = ''-Inf'' then Some NegInf
      else if token = ''NaN'' \<or> token = ''Nan'' \<or> token = ''nan'' then Some NaN
      else if token = [] then None
      else if Number token = NaN then None else Some (Number token))"

fun normalizeTimestamp :: "(rat \<Rightarrow> rat) \<Rightarrow> jsnum \<Rightarrow> jsnum" where
  "normalizeTimestamp times1000 (Fin r) = (if \<bar>r\<bar> < 100000000000 then js_round (Fin (times1000 r)) else js_round (Fin r))"
| "normalizeTimestamp times1000 n = js_round n"

section \<open>Labels\<close>

definition blank :: "char \<Rightarrow> bool" where
  "blank c \<longleftrightarrow> c = CHR '' '' \<or> c = CHR 0x09"

text \<open>The raw text up to the closing quote, escapes kept, and what follows it\<close>

fun quoted_raw :: "string \<Rightarrow> string \<Rightarrow> (string \<times> string) option" where
  "quoted_raw raw [] = None"
| "quoted_raw raw [c] = (if c = DQ then Some (raw, []) else None)"
| "quoted_raw raw (c # d # r) =
     (if c = BS then quoted_raw (raw @ [c, d]) r
      else if c = DQ then Some (raw, d # r)
      else quoted_raw (raw @ [c]) (d # r))"

text \<open>
  \<open>labels[name] = value\<close> on an object literal. No label name is an array index, so keys keep the order in which they
  were added; assigning a string to \<open>__proto__\<close> does nothing.
\<close>

definition set_label :: "string \<Rightarrow> string \<Rightarrow> labels \<Rightarrow> labels" where
  "set_label name v ls = (if name = ''__proto__'' then ls else jsmap_set name v ls)"

text \<open>\<open>name = "\<close>, blanks allowed around the sign: what follows the opening quote\<close>

definition label_open :: "string \<Rightarrow> string option" where
  "label_open s =
     (case dropWhile blank s of
        [] \<Rightarrow> None
      | c # r \<Rightarrow>
          if c \<noteq> CHR ''='' then None
          else (case dropWhile blank r of [] \<Rightarrow> None | d # r' \<Rightarrow> if d = DQ then Some r' else None))"

lemma quoted_raw_shrinks: "quoted_raw raw s = Some (x, r) \<Longrightarrow> length r < length s"
  by (induction raw s rule: quoted_raw.induct) (auto split: if_splits)

lemma label_open_shrinks: "label_open s = Some r \<Longrightarrow> length r < length s"
proof -
  assume a: "label_open s = Some r"
  then obtain c x d where "dropWhile blank s = c # x" "dropWhile blank x = d # r"
    by (auto simp: label_open_def split: list.splits if_splits)
  then have "Suc (length x) \<le> length s" "Suc (length r) \<le> length x"
    using length_dropWhile_le [of blank s] length_dropWhile_le [of blank x] by simp_all
  then show "length r < length s" by linarith
qed

lemma label_name_prefix: "LABEL_NAME_RE s = Some name \<Longrightarrow> name \<noteq> [] \<and> length name \<le> length s"
  by (auto simp: LABEL_NAME_RE_def length_takeWhile_le split: list.splits if_splits)

function labels_loop :: "labels \<Rightarrow> string \<Rightarrow> (labels \<times> string) option" where
  "labels_loop ls s =
     (let s1 = dropWhile (\<lambda>c. blank c \<or> c = CHR '','') s
      in if s1 = [] then None
         else if hd s1 = CHR ''}'' then Some (ls, tl s1)
         else
           (case LABEL_NAME_RE s1 of
              None \<Rightarrow> None
            | Some name \<Rightarrow>
                (case label_open (drop (length name) s1) of
                   None \<Rightarrow> None
                 | Some s2 \<Rightarrow>
                     (case quoted_raw [] s2 of
                        None \<Rightarrow> None
                      | Some (raw, s3) \<Rightarrow> labels_loop (set_label name (unescapeValue raw) ls) s3))))"
  by pat_completeness auto
termination
proof (relation "measure (\<lambda>(ls, s). length s)", simp, goal_cases)
  case (1 ls s s1 name s2 p raw s3)
  then show ?case
    using quoted_raw_shrinks [of "[]" s2 raw s3] label_open_shrinks [of "drop (length name) s1" s2] length_dropWhile_le [of "\<lambda>c. blank c \<or> c = CHR '',''" s]
    by simp
qed

declare labels_loop.simps [simp del]

text \<open>\<open>parseLabels\<close> on a line at its opening brace: the labels and the rest of the line\<close>

definition parseLabels :: "string \<Rightarrow> (labels \<times> string) option" where
  "parseLabels s = labels_loop [] (tl s)"

section \<open>Sample lines\<close>

text \<open>\<open>split(/[ \t]+/)\<close>\<close>

function split_blanks :: "string \<Rightarrow> string \<Rightarrow> string list" where
  "split_blanks cur [] = [cur]"
| "split_blanks cur (c # r) = (if blank c then cur # split_blanks [] (dropWhile blank r) else split_blanks (cur @ [c]) r)"
  by pat_completeness auto
termination by (relation "measure (\<lambda>(cur, s). length s)") (auto simp: less_Suc_eq_le length_dropWhile_le)

definition parse_tokens ::
    "(string \<Rightarrow> jsnum) \<Rightarrow> (rat \<Rightarrow> rat) \<Rightarrow> string \<Rightarrow> labels \<Rightarrow> string list \<Rightarrow> PromSample option" where
  "parse_tokens Number times1000 name ls tokens =
     (if tokens = [] \<or> length tokens > 2 then None
      else
        (case parseSampleValue Number (hd tokens) of
           None \<Rightarrow> None
         | Some v \<Rightarrow>
             (case tl tokens of
                [] \<Rightarrow> Some \<lparr>sm_name = name, sm_labels = ls, sm_value = v, sm_timestampMs = None\<rparr>
              | t # _ \<Rightarrow>
                  if Number t = NaN then None
                  else Some \<lparr>sm_name = name, sm_labels = ls, sm_value = v,
                         sm_timestampMs = Some (normalizeTimestamp times1000 (Number t))\<rparr>)))"

definition parseSampleLine :: "(string \<Rightarrow> jsnum) \<Rightarrow> (rat \<Rightarrow> rat) \<Rightarrow> string \<Rightarrow> PromSample option" where
  "parseSampleLine Number times1000 line =
     (case METRIC_NAME_RE line of
        None \<Rightarrow> None
      | Some name \<Rightarrow>
          let r = drop (length name) line
          in (case (if r \<noteq> [] \<and> hd r = CHR ''{'' then parseLabels r else Some ([], r)) of
                None \<Rightarrow> None
              | Some (ls, r') \<Rightarrow>
                  let rest = js_trim r'
                  in if rest = [] then None
                     else
                       let rest' = (if CHR ''#'' \<in> set rest then js_trim (takeWhile (\<lambda>c. c \<noteq> CHR ''#'') rest) else rest)
                       in parse_tokens Number times1000 name ls (split_blanks [] rest')))"

section \<open>Families\<close>

type_synonym families = "(string, PromMetricFamily) jsmap"

definition COMPONENT_SUFFIXES :: "string list" where
  "COMPONENT_SUFFIXES = [''_bucket'', ''_count'', ''_sum'', ''_total'']"

definition ends_with :: "string \<Rightarrow> string \<Rightarrow> bool" where
  "ends_with s suf \<longleftrightarrow> length suf \<le> length s \<and> drop (length s - length suf) s = suf"

definition drop_end :: "string \<Rightarrow> nat \<Rightarrow> string" where
  "drop_end s n = take (length s - n) s"

fun suffix_family :: "families \<Rightarrow> string \<Rightarrow> string list \<Rightarrow> PromMetricFamily option" where
  "suffix_family fams name [] = None"
| "suffix_family fams name (suf # sufs) =
     (if ends_with name suf
      then (case jsmap_get fams (drop_end name (length suf)) of Some f \<Rightarrow> Some f | None \<Rightarrow> suffix_family fams name sufs)
      else suffix_family fams name sufs)"

definition familyForSample :: "families \<Rightarrow> string \<Rightarrow> PromMetricFamily option" where
  "familyForSample fams sampleName =
     (case jsmap_get fams sampleName of Some f \<Rightarrow> Some f | None \<Rightarrow> suffix_family fams sampleName COMPONENT_SUFFIXES)"

definition parseType :: "string \<Rightarrow> PromMetricType" where
  "parseType raw =
     (if raw = ''counter'' then counter else if raw = ''gauge'' then gauge else if raw = ''histogram'' then histogram
      else if raw = ''summary'' then summary else untyped)"

definition new_family :: "string \<Rightarrow> PromMetricFamily" where
  "new_family name = \<lparr>fam_name = name, fam_type = untyped, fam_help = None, fam_unit = None, fam_samples = []\<rparr>"

text \<open>\<open>ensureFamily\<close> and a write to the family it returns\<close>

definition ensureFamily :: "string \<Rightarrow> families \<Rightarrow> PromMetricFamily" where
  "ensureFamily name fams = (case jsmap_get fams name of Some f \<Rightarrow> f | None \<Rightarrow> new_family name)"

definition write_family :: "PromMetricFamily \<Rightarrow> families \<Rightarrow> families" where
  "write_family f fams = jsmap_set (fam_name f) f fams"

section \<open>The whole body\<close>

definition starts_with :: "string \<Rightarrow> string \<Rightarrow> bool" where
  "starts_with s pre \<longleftrightarrow> take (length pre) s = pre"

definition trimStart :: "string \<Rightarrow> string" where
  "trimStart s = dropWhile js_space s"

definition comment_step :: "string \<Rightarrow> families \<times> nat \<Rightarrow> families \<times> nat" where
  "comment_step comment st =
     (let (fams, skipped) = st
      in if starts_with comment ''TYPE '' then
           let rest = js_trim (drop 5 comment)
           in (case METRIC_NAME_RE rest of
                 None \<Rightarrow> (fams, skipped + 1)
               | Some name \<Rightarrow>
                   (write_family ((ensureFamily name fams)\<lparr>fam_type := parseType (js_lower (js_trim (drop (length name) rest)))\<rparr>) fams, skipped))
         else if starts_with comment ''HELP '' then
           let rest = drop 5 comment
           in (case METRIC_NAME_RE (trimStart rest) of
                 None \<Rightarrow> (fams, skipped + 1)
               | Some name \<Rightarrow>
                   (write_family ((ensureFamily name fams)\<lparr>fam_help := Some (unescapeValue (trimStart (drop (length name) (trimStart rest))))\<rparr>) fams,
                    skipped))
         else if starts_with comment ''UNIT '' then
           let rest = js_trim (drop 5 comment)
           in (case METRIC_NAME_RE rest of
                 None \<Rightarrow> (fams, skipped)
               | Some name \<Rightarrow>
                   let u = js_trim (drop (length name) rest)
                   in (write_family ((ensureFamily name fams)\<lparr>fam_unit := (if u = [] then None else Some u)\<rparr>) fams, skipped))
         else (fams, skipped))"

definition sample_step :: "PromSample \<Rightarrow> families \<Rightarrow> families" where
  "sample_step sample fams =
     (if ends_with (sm_name sample) ''_created'' \<and> familyForSample fams (drop_end (sm_name sample) 8) \<noteq> None then fams
      else
        let family = (case familyForSample fams (sm_name sample) of Some f \<Rightarrow> f | None \<Rightarrow> ensureFamily (sm_name sample) fams)
        in write_family (family\<lparr>fam_samples := fam_samples family @ [sample]\<rparr>) fams)"

definition line_step :: "(string \<Rightarrow> jsnum) \<Rightarrow> (rat \<Rightarrow> rat) \<Rightarrow> families \<times> nat \<Rightarrow> string \<Rightarrow> families \<times> nat" where
  "line_step Number times1000 st rawLine =
     (let line = js_trim (if rawLine \<noteq> [] \<and> last rawLine = CR then butlast rawLine else rawLine)
      in if line = [] then st
         else if hd line = CHR ''#'' then comment_step (js_trim (tl line)) st
         else
           (case parseSampleLine Number times1000 line of
              None \<Rightarrow> (fst st, snd st + 1)
            | Some sample \<Rightarrow> (sample_step sample (fst st), snd st)))"

definition parsePrometheusText :: "(string \<Rightarrow> jsnum) \<Rightarrow> (rat \<Rightarrow> rat) \<Rightarrow> string \<Rightarrow> PromParseResult" where
  "parsePrometheusText Number times1000 body =
     (let (fams, skipped) = foldl (line_step Number times1000) ([], 0) (split_char NL [] body)
      in \<lparr>pr_families = filter (\<lambda>f. fam_samples f \<noteq> []) (map snd fams), pr_skippedLineCount = skipped\<rparr>)"

definition countSamples :: "PromMetricFamily list \<Rightarrow> nat" where
  "countSamples fams = foldl (\<lambda>total f. total + length (fam_samples f)) 0 fams"

section \<open>Printing\<close>

definition escape_char :: "char \<Rightarrow> string" where
  "escape_char c = (if c = BS then [BS, BS] else if c = DQ then [BS, DQ] else if c = NL then [BS, CHR ''n''] else [c])"

definition escape :: "string \<Rightarrow> string" where
  "escape v = concat (map escape_char v)"

definition print_label :: "string \<times> string \<Rightarrow> string" where
  "print_label kv = fst kv @ ''='' @ [DQ] @ escape (snd kv) @ [DQ]"

fun print_labels :: "labels \<Rightarrow> string" where
  "print_labels [] = []"
| "print_labels (l # ls) = print_label l @ (if ls = [] then [] else '','' @ print_labels ls)"

fun type_text :: "PromMetricType \<Rightarrow> string" where
  "type_text counter = ''counter''"
| "type_text gauge = ''gauge''"
| "type_text histogram = ''histogram''"
| "type_text summary = ''summary''"
| "type_text untyped = ''untyped''"

text \<open>How numbers are written is up to the exporter: \<open>value_text\<close> and \<open>stamp_text\<close>.\<close>

definition print_sample :: "(jsnum \<Rightarrow> string) \<Rightarrow> (jsnum \<Rightarrow> string) \<Rightarrow> PromSample \<Rightarrow> string" where
  "print_sample value_text stamp_text s =
     sm_name s @ (if sm_labels s = [] then [] else ''{'' @ print_labels (sm_labels s) @ ''}'') @ '' '' @ value_text (sm_value s) @
     (case sm_timestampMs s of None \<Rightarrow> [] | Some t \<Rightarrow> '' '' @ stamp_text t)"

definition header_line :: "string \<Rightarrow> string \<Rightarrow> string \<Rightarrow> string" where
  "header_line keyword name arg = ''# '' @ keyword @ '' '' @ name @ (if arg = [] then [] else '' '' @ arg)"

definition family_lines :: "(jsnum \<Rightarrow> string) \<Rightarrow> (jsnum \<Rightarrow> string) \<Rightarrow> PromMetricFamily \<Rightarrow> string list" where
  "family_lines value_text stamp_text f =
     (case fam_help f of None \<Rightarrow> [] | Some h \<Rightarrow> [header_line ''HELP'' (fam_name f) (escape h)]) @
     [header_line ''TYPE'' (fam_name f) (type_text (fam_type f))] @
     (case fam_unit f of None \<Rightarrow> [] | Some u \<Rightarrow> [header_line ''UNIT'' (fam_name f) u]) @
     map (print_sample value_text stamp_text) (fam_samples f)"

definition print_exposition :: "(jsnum \<Rightarrow> string) \<Rightarrow> (jsnum \<Rightarrow> string) \<Rightarrow> PromMetricFamily list \<Rightarrow> string" where
  "print_exposition value_text stamp_text fams =
     concat (map (\<lambda>l. l @ [NL]) (concat (map (family_lines value_text stamp_text) fams)))"

text \<open>What an exporter writes: names in the grammar, labels without repetition, numbers the reader understands\<close>

definition token :: "string \<Rightarrow> bool" where
  "token w \<longleftrightarrow> w \<noteq> [] \<and> list_all (\<lambda>c. \<not> js_space c \<and> c \<noteq> CHR ''#'') w"

definition metric_name :: "string \<Rightarrow> bool" where
  "metric_name n \<longleftrightarrow> METRIC_NAME_RE n = Some n"

definition labels_ok :: "labels \<Rightarrow> bool" where
  "labels_ok ls \<longleftrightarrow> distinct (map fst ls) \<and> list_all (\<lambda>(k, v). LABEL_NAME_RE k = Some k \<and> k \<noteq> ''__proto__'') ls"

definition value_ok :: "(string \<Rightarrow> jsnum) \<Rightarrow> (rat \<Rightarrow> rat) \<Rightarrow> (jsnum \<Rightarrow> string) \<Rightarrow> (jsnum \<Rightarrow> string) \<Rightarrow> PromSample \<Rightarrow> bool" where
  "value_ok Number times1000 value_text stamp_text s \<longleftrightarrow>
     token (value_text (sm_value s)) \<and> parseSampleValue Number (value_text (sm_value s)) = Some (sm_value s) \<and>
     (case sm_timestampMs s of
        None \<Rightarrow> True
      | Some t \<Rightarrow> token (stamp_text t) \<and> Number (stamp_text t) \<noteq> NaN \<and> normalizeTimestamp times1000 (Number (stamp_text t)) = t)"

definition belongs :: "string set \<Rightarrow> string \<Rightarrow> string \<Rightarrow> bool" where
  "belongs names fam sample \<longleftrightarrow>
     sample = fam \<or> sample \<notin> names \<and> (\<exists>suf\<in>set COMPONENT_SUFFIXES. sample = fam @ suf)"

definition family_ok :: "(string \<Rightarrow> jsnum) \<Rightarrow> (rat \<Rightarrow> rat) \<Rightarrow> (jsnum \<Rightarrow> string) \<Rightarrow> (jsnum \<Rightarrow> string) \<Rightarrow> string set \<Rightarrow> PromMetricFamily \<Rightarrow> bool" where
  "family_ok Number times1000 value_text stamp_text names f \<longleftrightarrow>
     metric_name (fam_name f) \<and> fam_samples f \<noteq> [] \<and>
     (case fam_help f of None \<Rightarrow> True | Some h \<Rightarrow> js_trim (escape h) = escape h) \<and>
     (case fam_unit f of None \<Rightarrow> True | Some u \<Rightarrow> u \<noteq> [] \<and> js_trim u = u \<and> NL \<notin> set u) \<and>
     list_all (\<lambda>s. metric_name (sm_name s) \<and> labels_ok (sm_labels s) \<and> belongs names (fam_name f) (sm_name s) \<and>
       \<not> ends_with (sm_name s) ''_created'' \<and> value_ok Number times1000 value_text stamp_text s) (fam_samples f)"

section \<open>Escapes and labels are read back\<close>

lemma unescape_plain: "c \<noteq> BS \<Longrightarrow> unescape_loop (c # r) = c # unescape_loop r"
  by (cases r) auto

lemma escape_Nil: "escape [] = []"
  by (simp add: escape_def)

lemma escape_Cons: "escape (c # v) = escape_char c @ escape v"
  by (simp add: escape_def)

lemma unescape_escape: "unescapeValue (escape v) = v"
proof -
  have "unescape_loop (escape v) = v"
    by (induction v) (auto simp: escape_Nil escape_Cons escape_char_def unescape_plain)
  moreover have "BS \<notin> set (escape v) \<Longrightarrow> escape v = v"
    by (induction v) (auto simp: escape_Nil escape_Cons escape_char_def split: if_splits)
  ultimately show ?thesis by (simp add: unescapeValue_def)
qed

lemma escape_no_newline: "NL \<notin> set (escape v)"
  by (induction v) (auto simp: escape_Nil escape_Cons escape_char_def)

lemma quoted_plain: "c \<noteq> BS \<Longrightarrow> c \<noteq> DQ \<Longrightarrow> r \<noteq> [] \<Longrightarrow> quoted_raw raw (c # r) = quoted_raw (raw @ [c]) r"
  by (cases r) auto

lemma quoted_escape: "quoted_raw raw (escape v @ DQ # r) = Some (raw @ escape v, r)"
proof (induction v arbitrary: raw)
  case Nil
  then show ?case by (cases r) (simp_all add: escape_Nil)
qed (auto simp: escape_Cons escape_char_def quoted_plain)

lemma label_name_run:
  assumes "LABEL_NAME_RE k = Some k" "x = [] \<or> \<not> letter (hd x) \<and> \<not> decimal_digit (hd x)"
  shows "LABEL_NAME_RE (k @ x) = Some k \<and> k \<noteq> [] \<and> letter (hd k)"
proof -
  obtain c cs where k: "k = c # cs" "letter c" "takeWhile (\<lambda>c. letter c \<or> decimal_digit c) cs = cs"
    using assms(1) by (auto simp: LABEL_NAME_RE_def split: list.splits if_splits)
  have "\<forall>a\<in>set cs. letter a \<or> decimal_digit a" using k(3) by (metis takeWhile_eq_all_conv)
  then have "takeWhile (\<lambda>c. letter c \<or> decimal_digit c) (cs @ x) = cs"
    using assms(2) by (cases x) (simp_all add: takeWhile_append)
  then show ?thesis using k by (simp add: LABEL_NAME_RE_def)
qed

lemma letter_facts:
  assumes "letter c"
  shows "\<not> blank c" "c \<noteq> CHR '',''" "c \<noteq> CHR ''}''" "\<not> js_space c" "c \<noteq> CHR ''#''"
  using assms by (auto simp: letter_def blank_def js_space_def Let_def)

lemma labels_step:
  assumes "LABEL_NAME_RE k = Some k"
  shows "labels_loop acc (print_label (k, v) @ s) = labels_loop (set_label k v acc) s"
proof -
  have "\<not> letter (CHR ''='')" "\<not> decimal_digit (CHR ''='')" "\<not> blank (CHR ''='')" "\<not> blank DQ"
    by (simp_all add: letter_def decimal_digit_def blank_def)
  moreover from this have n: "LABEL_NAME_RE (k @ CHR ''='' # y) = Some k" "k \<noteq> []" "letter (hd k)" for y
    using label_name_run [OF assms, of "CHR ''='' # y"] by simp_all
  moreover have "dropWhile (\<lambda>c. blank c \<or> c = CHR '','') (k @ y) = k @ y" for y
    using n(2,3) letter_facts [of "hd k"] by (cases k) auto
  moreover have "hd k \<noteq> CHR ''}''" using letter_facts n(3) by blast
  ultimately show ?thesis
    using quoted_escape [of "[]" v s] by (subst labels_loop.simps) (simp add: print_label_def label_open_def Let_def unescape_escape)
qed

lemma labels_comma: "labels_loop acc (CHR '','' # s) = labels_loop acc s"
  by (subst (1 2) labels_loop.simps) simp

lemma labels_read:
  assumes "labels_ok ls" "fst ` set acc \<inter> fst ` set ls = {}"
  shows "labels_loop acc (print_labels ls @ CHR ''}'' # r) = Some (acc @ ls, r)"
  using assms
proof (induction ls arbitrary: acc)
  case Nil
  then show ?case by (subst labels_loop.simps) (simp add: blank_def)
next
  case (Cons l ls)
  obtain k v where l: "l = (k, v)" by fastforce
  have k: "LABEL_NAME_RE k = Some k" "k \<noteq> ''__proto__''" "labels_ok ls" "k \<notin> fst ` set ls" "k \<notin> fst ` set acc"
    using Cons.prems by (auto simp: labels_ok_def l)
  have "set_label k v acc = acc @ [(k, v)]" using k(2,5) by (induction acc) (auto simp: set_label_def)
  moreover have "fst ` set (acc @ [(k, v)]) \<inter> fst ` set ls = {}" using Cons.prems(2) k(4) by (auto simp: l)
  ultimately show ?case
    using Cons.IH [OF k(3), of "acc @ [(k, v)]"] labels_step [OF k(1)] by (cases ls) (simp_all add: l labels_comma)
qed

section \<open>Lines are read back\<close>

lemma spaces: "js_space NL" "js_space CR" "js_space (CHR 0x09)" "js_space (CHR '' '')"
  by (simp_all add: js_space_def)

definition name_char :: "char \<Rightarrow> bool" where
  "name_char c \<longleftrightarrow> letter c \<or> decimal_digit c \<or> c = CHR '':''"

lemma name_char_space: "name_char c \<Longrightarrow> \<not> js_space c"
proof -
  have "decimal_digit c \<Longrightarrow> \<not> js_space c" by (auto simp: decimal_digit_def js_space_def)
  moreover have "\<not> js_space (CHR '':'')" by (simp add: js_space_def)
  ultimately show "name_char c \<Longrightarrow> \<not> js_space c" using letter_facts(4) by (auto simp: name_char_def)
qed

lemma metric_parts:
  assumes "metric_name n"
  obtains c cs where "n = c # cs" "letter c \<or> c = CHR '':''" "\<forall>a\<in>set n. name_char a"
proof -
  obtain c cs where k: "n = c # cs" "letter c \<or> c = CHR '':''" "takeWhile name_char cs = cs"
    using assms by (auto simp: metric_name_def METRIC_NAME_RE_def name_char_def [abs_def] split: list.splits if_splits)
  then have "\<forall>a\<in>set cs. name_char a" by (metis takeWhile_eq_all_conv)
  then show ?thesis using that k(1,2) by (auto simp: name_char_def)
qed

lemma metric_name_run:
  assumes "metric_name n" "x = [] \<or> \<not> name_char (hd x)"
  shows "METRIC_NAME_RE (n @ x) = Some n"
proof -
  obtain c cs where k: "n = c # cs" "letter c \<or> c = CHR '':''" "\<forall>a\<in>set n. name_char a" using metric_parts [OF assms(1)] .
  have "takeWhile name_char (cs @ x) = cs" using k(1,3) assms(2) by (cases x) (auto simp: takeWhile_append)
  then show ?thesis using k(1,2) by (simp add: METRIC_NAME_RE_def name_char_def [abs_def])
qed

lemma not_letter: "\<not> name_char (CHR '' '')" "\<not> name_char (CHR ''{'')" "blank (CHR '' '')"
  by (simp_all add: name_char_def letter_def decimal_digit_def blank_def)

lemma metric_head:
  assumes "metric_name n"
  shows "n \<noteq> []" "\<not> js_space (hd n)" "hd n \<noteq> CHR ''#''" "\<not> js_space (last n)" "NL \<notin> set n"
proof -
  obtain c cs where k: "n = c # cs" "letter c \<or> c = CHR '':''" "\<forall>a\<in>set n. name_char a" using metric_parts [OF assms] .
  then have sp: "\<forall>a\<in>set n. \<not> js_space a" using name_char_space by blast
  show "n \<noteq> []" "hd n \<noteq> CHR ''#''" using k(1,2) letter_facts(5) [of c] by auto
  then show "\<not> js_space (hd n)" "\<not> js_space (last n)" using sp hd_in_set last_in_set by blast+
  show "NL \<notin> set n" using sp spaces(1) by blast
qed

lemma token_facts:
  assumes "token w"
  shows "w \<noteq> []" "\<not> js_space (hd w)" "\<not> js_space (last w)" "CHR ''#'' \<notin> set w" "\<forall>c\<in>set w. \<not> blank c" "NL \<notin> set w" "last w \<noteq> CR"
proof -
  have w: "w \<noteq> []" "\<forall>c\<in>set w. \<not> js_space c" "CHR ''#'' \<notin> set w" using assms by (auto simp: token_def list_all_iff)
  have "hd w \<in> set w" "last w \<in> set w" using w(1) by simp_all
  then show "\<not> js_space (hd w)" "\<not> js_space (last w)" using w(2) by blast+
  then show "last w \<noteq> CR" using spaces(2) by metis
  show "NL \<notin> set w" using w(2) spaces(1) by blast
  show "\<forall>c\<in>set w. \<not> blank c" using w(2) spaces(3,4) by (metis blank_def)
qed (use assms in \<open>auto simp: token_def list_all_iff\<close>)

lemma split_token: "\<forall>c\<in>set w. \<not> blank c \<Longrightarrow> split_blanks cur (w @ x) = split_blanks (cur @ w) x"
  by (induction w arbitrary: cur) auto

lemma split_one: "token v \<Longrightarrow> split_blanks [] v = [v]"
  using split_token [of v "[]" "[]"] token_facts(5) by simp

lemma split_two:
  assumes "token v" "token w"
  shows "split_blanks [] (v @ CHR '' '' # w) = [v, w]"
proof -
  have "dropWhile blank w = w" using token_facts(1,5) [OF assms(2)] by (cases w) auto
  moreover have "split_blanks [] (v @ CHR '' '' # w) = split_blanks v (CHR '' '' # w)"
    using split_token [OF token_facts(5) [OF assms(1)], of "[]"] by simp
  ultimately show ?thesis using split_one [OF assms(2)] not_letter(3) by simp
qed

lemma sample_read:
  assumes "metric_name (sm_name s)" "labels_ok (sm_labels s)" "value_ok Number times1000 value_text stamp_text s"
  shows "parseSampleLine Number times1000 (print_sample value_text stamp_text s) = Some s"
proof -
  let ?v = "value_text (sm_value s)"
  define t where "t = (case sm_timestampMs s of None \<Rightarrow> [] | Some t \<Rightarrow> '' '' @ stamp_text t)"
  define ls where "ls = (if sm_labels s = [] then [] else ''{'' @ print_labels (sm_labels s) @ ''}'')"
  have v: "token ?v" "parseSampleValue Number ?v = Some (sm_value s)" using assms(3) by (simp_all add: value_ok_def)
  have line: "print_sample value_text stamp_text s = sm_name s @ ls @ CHR '' '' # ?v @ t" by (simp add: print_sample_def ls_def t_def)
  have name: "METRIC_NAME_RE (print_sample value_text stamp_text s) = Some (sm_name s)"
    unfolding line using metric_name_run [OF assms(1), of "ls @ CHR '' '' # ?v @ t"] not_letter by (simp add: ls_def)
  have labels: "(if ls @ CHR '' '' # x \<noteq> [] \<and> hd (ls @ CHR '' '' # x) = CHR ''{'' then parseLabels (ls @ CHR '' '' # x) else Some ([], ls @ CHR '' '' # x)) =
      Some (sm_labels s, CHR '' '' # x)" for x
    using labels_read [OF assms(2), of "[]" "CHR '' '' # x"] by (simp add: ls_def parseLabels_def)
  have rest: "js_trim (CHR '' '' # ?v @ t) = ?v @ t" "?v @ t \<noteq> []" "CHR ''#'' \<notin> set (?v @ t)"
    "parse_tokens Number times1000 (sm_name s) (sm_labels s) (split_blanks [] (?v @ t)) = Some s"
  proof -
    have "\<not> js_space (last (?v @ t)) \<and> CHR ''#'' \<notin> set (?v @ t) \<and>
        parse_tokens Number times1000 (sm_name s) (sm_labels s) (split_blanks [] (?v @ t)) = Some s"
    proof (cases "sm_timestampMs s")
      case None
      then show ?thesis using token_facts [OF v(1)] split_one [OF v(1)] v(2) by (simp add: t_def parse_tokens_def)
    next
      case (Some u)
      then have w: "token (stamp_text u)" "Number (stamp_text u) \<noteq> NaN" "normalizeTimestamp times1000 (Number (stamp_text u)) = u"
        using assms(3) by (simp_all add: value_ok_def)
      then show ?thesis using Some token_facts [OF v(1)] token_facts [OF w(1)] split_two [OF v(1) w(1)] v(2)
        by (simp add: t_def parse_tokens_def)
    qed
    moreover have "?v @ t \<noteq> []" "\<not> js_space (hd (?v @ t))" using token_facts(1,2) [OF v(1)] by simp_all
    ultimately show "js_trim (CHR '' '' # ?v @ t) = ?v @ t" "?v @ t \<noteq> []" "CHR ''#'' \<notin> set (?v @ t)"
      "parse_tokens Number times1000 (sm_name s) (sm_labels s) (split_blanks [] (?v @ t)) = Some s"
      using trim_leading [OF space_char(1)] trim_tight by auto
  qed
  have "drop (length (sm_name s)) (print_sample value_text stamp_text s) = ls @ CHR '' '' # ?v @ t" by (simp add: line)
  then show ?thesis
    unfolding parseSampleLine_def name option.case Let_def using rest by (simp only: labels option.case prod.case) simp
qed

lemma sample_line_ends:
  assumes "metric_name (sm_name s)" "value_ok Number times1000 value_text stamp_text s"
  shows "print_sample value_text stamp_text s \<noteq> [] \<and> \<not> js_space (hd (print_sample value_text stamp_text s)) \<and>
    \<not> js_space (last (print_sample value_text stamp_text s)) \<and> hd (print_sample value_text stamp_text s) \<noteq> CHR ''#'' \<and>
    last (print_sample value_text stamp_text s) \<noteq> CR"
  using metric_head [OF assms(1)] assms(2) token_facts
  by (auto simp: print_sample_def value_ok_def split: option.splits)

lemma sample_line_step:
  assumes "metric_name (sm_name s)" "labels_ok (sm_labels s)" "value_ok Number times1000 value_text stamp_text s"
  shows "line_step Number times1000 (fams, n) (print_sample value_text stamp_text s) = (sample_step s fams, n)"
  using sample_line_ends [OF assms(1,3)] sample_read [OF assms] trim_tight [of "print_sample value_text stamp_text s"]
  by (simp add: line_step_def Let_def)

text \<open>A header line reaches \<open>comment_step\<close> with its keyword, name and argument.\<close>

lemma header_read:
  assumes "metric_name name" "arg \<noteq> [] \<Longrightarrow> \<not> js_space (hd arg) \<and> \<not> js_space (last arg)" "length keyword = 4" "\<not> js_space (hd keyword)"
  shows "line_step Number times1000 st (header_line keyword name arg) = comment_step (keyword @ '' '' @ name @ (if arg = [] then [] else '' '' @ arg)) st"
    "js_trim (name @ (if arg = [] then [] else '' '' @ arg)) = name @ (if arg = [] then [] else '' '' @ arg)"
    "METRIC_NAME_RE (name @ (if arg = [] then [] else '' '' @ arg)) = Some name"
    "js_trim (drop (length name) (name @ (if arg = [] then [] else '' '' @ arg))) = arg"
    "trimStart (drop (length name) (name @ (if arg = [] then [] else '' '' @ arg))) = arg"
    "trimStart (name @ (if arg = [] then [] else '' '' @ arg)) = name @ (if arg = [] then [] else '' '' @ arg)"
proof -
  let ?a = "if arg = [] then [] else '' '' @ arg"
  have head: "name \<noteq> []" "\<not> js_space (hd name)" using metric_head [OF assms(1)] by simp_all
  have l: "\<not> js_space (last (name @ ?a))" using assms(2) metric_head(4) [OF assms(1)] by auto
  show "js_trim (name @ ?a) = name @ ?a" using l head by (intro trim_tight) auto
  show "METRIC_NAME_RE (name @ ?a) = Some name" using metric_name_run [OF assms(1), of ?a] not_letter by auto
  show "js_trim (drop (length name) (name @ ?a)) = arg" using assms(2) trim_leading [OF space_char(1)] trim_tight [of arg] by (auto simp: js_trim_def [of "[]"])
  have "dropWhile js_space arg = arg" if "arg \<noteq> []" using assms(2) that by (cases arg) auto
  then show "trimStart (drop (length name) (name @ ?a)) = arg" by (auto simp: trimStart_def space_char)
  show "trimStart (name @ ?a) = name @ ?a" using head by (cases name) (auto simp: trimStart_def)
  obtain k ks where k: "keyword = k # ks" using assms(3) by (cases keyword) auto
  have body: "js_trim (keyword @ '' '' @ name @ ?a) = keyword @ '' '' @ name @ ?a"
    using l head assms(4) k by (intro trim_tight) auto
  have hash: "\<not> js_space (CHR ''#'')" by (simp add: js_space_def)
  have "js_trim (header_line keyword name arg) = header_line keyword name arg"
    unfolding header_line_def using l head hash by (intro trim_tight) auto
  moreover have "last (header_line keyword name arg) \<noteq> CR"
    using l head spaces(2) by (auto simp: header_line_def)
  moreover have "js_trim (tl (header_line keyword name arg)) = keyword @ '' '' @ name @ ?a"
    using body trim_leading [OF space_char(1)] by (simp add: header_line_def)
  ultimately show "line_step Number times1000 st (header_line keyword name arg) = comment_step (keyword @ '' '' @ name @ ?a) st"
    by (simp add: line_step_def Let_def) (simp add: header_line_def)
qed

section \<open>Families are read back\<close>

definition entry :: "PromMetricFamily \<Rightarrow> string \<times> PromMetricFamily" where
  "entry f = (fam_name f, f)"

lemma write_new: "fam_name f \<notin> fst ` set fams \<Longrightarrow> write_family f fams = fams @ [entry f]"
  by (induction fams) (auto simp: write_family_def entry_def)

lemma write_last: "fam_name f = fam_name g \<Longrightarrow> fam_name f \<notin> fst ` set fams \<Longrightarrow> write_family f (fams @ [entry g]) = fams @ [entry f]"
  by (induction fams) (auto simp: write_family_def entry_def)

lemma get_last: "fam_name f \<notin> fst ` set fams \<Longrightarrow> jsmap_get (fams @ [entry f]) (fam_name f) = Some f"
  by (induction fams) (auto simp: entry_def)

text \<open>After the header lines the family stands last, with everything but its samples.\<close>

lemma type_text_read: "parseType (js_lower (type_text t)) = t" "type_text t \<noteq> []" "\<not> js_space (hd (type_text t))" "\<not> js_space (last (type_text t))"
proof -
  have low: "lower_char c = c" if "c \<in> set ''counterguhisomplyda''" for c
    using that by (auto simp: lower_char_def)
  show "parseType (js_lower (type_text t)) = t" by (cases t) (simp_all add: js_lower_def low parseType_def)
qed (cases t; simp add: js_space_def)+

lemma comment_type:
  assumes "metric_name name"
  shows "line_step Number times1000 (fams, n) (header_line ''TYPE'' name (type_text t)) =
    (write_family ((ensureFamily name fams)\<lparr>fam_type := t\<rparr>) fams, n)"
proof -
  note h = header_read [OF assms, of "type_text t" "''TYPE''"]
  have sp: "\<not> js_space (CHR ''T'')" by (simp add: js_space_def)
  show ?thesis using h type_text_read [of t] sp by (simp add: comment_step_def starts_with_def)
qed

lemma comment_help:
  assumes "metric_name name" "js_trim (escape h) = escape h"
  shows "line_step Number times1000 (fams, n) (header_line ''HELP'' name (escape h)) =
    (write_family ((ensureFamily name fams)\<lparr>fam_help := Some h\<rparr>) fams, n)"
proof -
  have "escape h \<noteq> [] \<Longrightarrow> \<not> js_space (hd (escape h)) \<and> \<not> js_space (last (escape h))" using trim_ends [of "escape h"] assms(2) by simp
  note h = header_read [OF assms(1) this, of "''HELP''"]
  have sp: "\<not> js_space (CHR ''H'')" by (simp add: js_space_def)
  show ?thesis using h sp by (auto simp: comment_step_def starts_with_def unescape_escape Let_def split: if_splits)
qed

lemma comment_unit:
  assumes "metric_name name" "u \<noteq> []" "js_trim u = u"
  shows "line_step Number times1000 (fams, n) (header_line ''UNIT'' name u) =
    (write_family ((ensureFamily name fams)\<lparr>fam_unit := Some u\<rparr>) fams, n)"
proof -
  have "u \<noteq> [] \<Longrightarrow> \<not> js_space (hd u) \<and> \<not> js_space (last u)" using trim_ends [of u] assms(3) by simp
  note h = header_read [OF assms(1) this, of "''UNIT''"]
  have sp: "\<not> js_space (CHR ''U'')" by (simp add: js_space_def)
  show ?thesis using h sp assms(2) by (simp add: comment_step_def starts_with_def)
qed

definition header_lines :: "PromMetricFamily \<Rightarrow> string list" where
  "header_lines f =
     (case fam_help f of None \<Rightarrow> [] | Some h \<Rightarrow> [header_line ''HELP'' (fam_name f) (escape h)]) @
     [header_line ''TYPE'' (fam_name f) (type_text (fam_type f))] @
     (case fam_unit f of None \<Rightarrow> [] | Some u \<Rightarrow> [header_line ''UNIT'' (fam_name f) u])"

lemma headers_read:
  assumes "family_ok Number times1000 value_text stamp_text names f" "fam_name f \<notin> fst ` set fams"
  shows "foldl (line_step Number times1000) (fams, n) (header_lines f) = (fams @ [entry (f\<lparr>fam_samples := []\<rparr>)], n)"
proof -
  let ?step = "line_step Number times1000" and ?n = "fam_name f"
  have m: "metric_name ?n" using assms(1) by (simp add: family_ok_def)
  have none: "jsmap_get fams ?n = None" using assms(2) by (simp add: map_of_eq_None_iff)
  have ens: "ensureFamily ?n (fams @ [entry g]) = g" if "fam_name g = ?n" for g
    using get_last [of g fams] assms(2) that by (simp add: ensureFamily_def del: map_of_append)
  define h where "h = (new_family ?n)\<lparr>fam_help := fam_help f, fam_type := fam_type f\<rparr>"
  have ht: "foldl ?step (fams, n) ((case fam_help f of None \<Rightarrow> [] | Some x \<Rightarrow> [header_line ''HELP'' ?n (escape x)]) @
      [header_line ''TYPE'' ?n (type_text (fam_type f))]) = (fams @ [entry h], n)"
  proof (cases "fam_help f")
    case None
    then show ?thesis using none assms(2)
      by (simp add: comment_type [OF m] ensureFamily_def write_new new_family_def h_def)
  next
    case (Some x)
    then have x: "js_trim (escape x) = escape x" using assms(1) by (simp add: family_ok_def)
    define g where "g = (new_family ?n)\<lparr>fam_help := Some x\<rparr>"
    have "?step (fams, n) (header_line ''HELP'' ?n (escape x)) = (fams @ [entry g], n)"
      using none assms(2) by (simp add: comment_help [OF m x] ensureFamily_def write_new new_family_def g_def)
    moreover have "?step (fams @ [entry g], n) (header_line ''TYPE'' ?n (type_text (fam_type f))) = (fams @ [entry h], n)"
      using ens [of g] write_last [of h g fams] assms(2) Some by (simp add: comment_type [OF m] g_def h_def new_family_def)
    ultimately show ?thesis using Some by simp
  qed
  show ?thesis
  proof (cases "fam_unit f")
    case None
    then have "h = f\<lparr>fam_samples := []\<rparr>" by (simp add: h_def new_family_def)
    then show ?thesis using ht None by (simp add: header_lines_def)
  next
    case (Some u)
    then have u: "u \<noteq> []" "js_trim u = u" using assms(1) by (simp_all add: family_ok_def)
    have hu: "h\<lparr>fam_unit := Some u\<rparr> = f\<lparr>fam_samples := []\<rparr>" "fam_name h = ?n" using Some by (simp_all add: h_def new_family_def)
    have "?step (fams @ [entry h], n) (header_line ''UNIT'' ?n u) = (fams @ [entry (f\<lparr>fam_samples := []\<rparr>)], n)"
      using ens [OF hu(2)] write_last [of "f\<lparr>fam_samples := []\<rparr>" h fams] assms(2) hu by (simp only: comment_unit [OF m u]) simp
    then show ?thesis using ht Some by (simp add: header_lines_def)
  qed
qed

text \<open>No component suffix ends with another, so a suffixed name belongs to the family without the suffix.\<close>

lemma ends_with_rev: "ends_with s b \<longleftrightarrow> take (length b) (rev s) = rev b"
proof (cases "length b \<le> length s")
  case True
  then show ?thesis unfolding ends_with_def by (metis rev_rev_ident take_rev)
next
  case False
  then have "length (take (length b) (rev s)) \<noteq> length (rev b)" by simp
  then show ?thesis using False unfolding ends_with_def by metis
qed

lemma suffix_owner:
  assumes "suf \<in> set COMPONENT_SUFFIXES" "jsmap_get fams name = Some f"
  shows "suffix_family fams (name @ suf) COMPONENT_SUFFIXES = Some f"
proof -
  have e: "ends_with (name @ suf) suf' \<longleftrightarrow> suf' = suf" if "suf' \<in> set COMPONENT_SUFFIXES" for suf'
    using assms(1) that by (auto simp: ends_with_rev COMPONENT_SUFFIXES_def)
  have d: "drop_end (name @ suf) (length suf) = name" by (simp add: drop_end_def)
  have sub: "suffix_family fams (name @ suf) sufs = Some f" if "suf \<in> set sufs" "set sufs \<subseteq> set COMPONENT_SUFFIXES" for sufs
    using that
  proof (induction sufs)
    case (Cons x sufs)
    then show ?case using e [of x] d assms(2) by (cases "x = suf") auto
  qed simp
  show ?thesis using sub [OF assms(1)] by simp
qed

lemma samples_read:
  assumes "family_ok Number times1000 value_text stamp_text names f" "fam_name f \<notin> fst ` set fams" "fst ` set fams \<subseteq> names"
  shows "foldl (line_step Number times1000) (fams @ [entry (f\<lparr>fam_samples := []\<rparr>)], n) (map (print_sample value_text stamp_text) (fam_samples f)) =
    (fams @ [entry f], n)"
proof -
  have "foldl (line_step Number times1000) (fams @ [entry (f\<lparr>fam_samples := xs\<rparr>)], n) (map (print_sample value_text stamp_text) ys) =
      (fams @ [entry (f\<lparr>fam_samples := xs @ ys\<rparr>)], n)" if "set ys \<subseteq> set (fam_samples f)" for xs ys
    using that
  proof (induction ys arbitrary: xs)
    case (Cons s ys)
    let ?g = "f\<lparr>fam_samples := xs\<rparr>" and ?fams = "fams @ [entry (f\<lparr>fam_samples := xs\<rparr>)]"
    have s: "metric_name (sm_name s)" "labels_ok (sm_labels s)" "belongs names (fam_name f) (sm_name s)"
      "\<not> ends_with (sm_name s) ''_created''" "value_ok Number times1000 value_text stamp_text s"
      using assms(1) Cons.prems by (auto simp: family_ok_def list_all_iff)
    have g: "jsmap_get ?fams (fam_name f) = Some ?g" using get_last [of ?g fams] assms(2) by (simp del: map_of_append)
    have "familyForSample ?fams (sm_name s) = Some ?g"
    proof (cases "sm_name s = fam_name f")
      case True
      then show ?thesis using g by (simp add: familyForSample_def del: map_of_append)
    next
      case False
      then obtain suf where suf: "sm_name s = fam_name f @ suf" "suf \<in> set COMPONENT_SUFFIXES" "sm_name s \<notin> names"
        using s(3) by (auto simp: belongs_def)
      then have "jsmap_get ?fams (sm_name s) = None" using assms(3) False by (auto simp: map_of_eq_None_iff entry_def)
      then show ?thesis using suffix_owner [OF suf(2) g] suf(1) by (simp add: familyForSample_def del: map_of_append)
    qed
    then have "sample_step s ?fams = fams @ [entry (f\<lparr>fam_samples := xs @ [s]\<rparr>)]"
      using s(4) write_last [of "f\<lparr>fam_samples := xs @ [s]\<rparr>" ?g fams] assms(2) by (simp add: sample_step_def)
    then show ?case using Cons.IH [of "xs @ [s]"] Cons.prems sample_line_step [OF s(1,2,5), of ?fams n] by simp
  qed simp
  from this [of "fam_samples f" "[]"] show ?thesis by simp
qed

lemma family_read:
  assumes "family_ok Number times1000 value_text stamp_text names f" "fam_name f \<notin> fst ` set fams" "fst ` set fams \<subseteq> names"
  shows "foldl (line_step Number times1000) (fams, n) (family_lines value_text stamp_text f) = (fams @ [entry f], n)"
proof -
  have "family_lines value_text stamp_text f = header_lines f @ map (print_sample value_text stamp_text) (fam_samples f)"
    by (simp add: family_lines_def header_lines_def)
  then show ?thesis using headers_read [OF assms(1,2)] samples_read [OF assms] by simp
qed

lemma families_read:
  assumes "list_all (family_ok Number times1000 value_text stamp_text names) gs" "distinct (map fam_name gs)"
    "fam_name ` set gs \<inter> fst ` set fams = {}" "fst ` set fams \<union> fam_name ` set gs \<subseteq> names"
  shows "foldl (line_step Number times1000) (fams, n) (concat (map (family_lines value_text stamp_text) gs)) = (fams @ map entry gs, n)"
  using assms
proof (induction gs arbitrary: fams)
  case (Cons g gs)
  have "foldl (line_step Number times1000) (fams, n) (family_lines value_text stamp_text g) = (fams @ [entry g], n)"
    using Cons.prems by (intro family_read) auto
  moreover have "foldl (line_step Number times1000) (fams @ [entry g], n) (concat (map (family_lines value_text stamp_text) gs)) =
      (fams @ [entry g] @ map entry gs, n)"
    using Cons.IH [of "fams @ [entry g]"] Cons.prems by (auto simp: entry_def)
  ultimately show ?case by simp
qed simp

section \<open>Lines of a body\<close>

lemma split_line: "d \<notin> set l \<Longrightarrow> split_char d cur (l @ d # r) = (cur @ l) # split_char d [] r"
  by (induction l arbitrary: cur) auto

lemma split_lines: "(\<forall>l\<in>set ls. d \<notin> set l) \<Longrightarrow> split_char d [] (concat (map (\<lambda>l. l @ [d]) ls)) = ls @ [[]]"
  by (induction ls) (auto simp: split_line)

lemma labels_no_newline: "labels_ok ls \<Longrightarrow> NL \<notin> set (print_labels ls)"
proof (induction ls)
  case (Cons l ls)
  obtain k v where l: "l = (k, v)" by fastforce
  have "LABEL_NAME_RE k = Some k" using Cons.prems by (simp add: labels_ok_def l)
  then obtain c cs where k: "k = c # cs" "letter c" "takeWhile (\<lambda>c. letter c \<or> decimal_digit c) cs = cs"
    by (auto simp: LABEL_NAME_RE_def split: list.splits if_splits)
  then have "\<forall>a\<in>set k. name_char a" by (auto simp: name_char_def dest: set_takeWhileD)
  then have "NL \<notin> set k" using name_char_space spaces(1) by blast
  then show ?case using Cons escape_no_newline by (auto simp: l print_label_def labels_ok_def)
qed simp

lemma sample_no_newline:
  "metric_name (sm_name s) \<Longrightarrow> labels_ok (sm_labels s) \<Longrightarrow> value_ok Number times1000 value_text stamp_text s \<Longrightarrow>
    NL \<notin> set (print_sample value_text stamp_text s)"
  using metric_head(5) labels_no_newline token_facts(6) by (auto simp: print_sample_def value_ok_def split: option.splits)

lemma family_no_newline:
  assumes "family_ok Number times1000 value_text stamp_text names f" "l \<in> set (family_lines value_text stamp_text f)"
  shows "NL \<notin> set l"
proof -
  have t: "NL \<notin> set (type_text t)" for t by (cases t) simp_all
  have h: "NL \<notin> set (header_line kw (fam_name f) arg)" if "NL \<notin> set kw" "NL \<notin> set arg" for kw arg
    using that assms(1) metric_head(5) by (simp add: header_line_def family_ok_def)
  show ?thesis
    using assms h t escape_no_newline sample_no_newline
    by (auto simp: family_lines_def family_ok_def list_all_iff split: option.splits)
qed
section \<open>What every result satisfies\<close>

definition family_inv :: "string \<times> PromMetricFamily \<Rightarrow> bool" where
  "family_inv kf \<longleftrightarrow>
     fam_name (snd kf) = fst kf \<and> metric_name (fst kf) \<and>
     list_all (\<lambda>s. sm_name s = fst kf \<or> (\<exists>suf\<in>set COMPONENT_SUFFIXES. sm_name s = fst kf @ suf)) (fam_samples (snd kf))"

definition families_inv :: "families \<Rightarrow> bool" where
  "families_inv fams \<longleftrightarrow> distinct (map fst fams) \<and> list_all family_inv fams"

definition sample_total :: "families \<Rightarrow> nat" where
  "sample_total fams = sum_list (map (\<lambda>kf. length (fam_samples (snd kf))) fams)"

lemma name_match:
  assumes "METRIC_NAME_RE s = Some n"
  shows "metric_name n"
proof -
  obtain c cs where s: "s = c # cs" "letter c \<or> c = CHR '':''" "n = c # takeWhile name_char cs"
    using assms by (auto simp: METRIC_NAME_RE_def name_char_def [abs_def] split: list.splits if_splits)
  have "takeWhile name_char (takeWhile name_char cs) = takeWhile name_char cs"
    unfolding takeWhile_eq_all_conv by (blast dest: set_takeWhileD)
  then show ?thesis using s by (simp add: metric_name_def METRIC_NAME_RE_def name_char_def [abs_def])
qed

lemma families_get: "families_inv fams \<Longrightarrow> jsmap_get fams k = Some f \<Longrightarrow> family_inv (k, f)"
  by (auto simp: families_inv_def list_all_iff dest: map_of_SomeD)

lemma families_write:
  assumes "families_inv fams" "family_inv (fam_name f, f)"
  shows "families_inv (write_family f fams)"
  using assms by (auto simp: families_inv_def write_family_def list_all_iff set_AList_update distinct_update)

lemma total_write: "sample_total (write_family f fams) + (case jsmap_get fams (fam_name f) of None \<Rightarrow> 0 | Some g \<Rightarrow> length (fam_samples g)) =
    sample_total fams + length (fam_samples f)"
  by (induction fams) (auto simp: sample_total_def write_family_def split: option.splits)

lemma ensure_inv: "families_inv fams \<Longrightarrow> metric_name k \<Longrightarrow> family_inv (k, ensureFamily k fams)"
  using families_get by (auto simp: ensureFamily_def family_inv_def new_family_def split: option.splits)

lemma ensure_total: "length (fam_samples (ensureFamily k fams)) = (case jsmap_get fams k of None \<Rightarrow> 0 | Some g \<Rightarrow> length (fam_samples g))"
  by (simp add: ensureFamily_def new_family_def split: option.splits)

lemma drop_end_suffix: "ends_with s suf \<Longrightarrow> s = drop_end s (length suf) @ suf"
  by (simp add: ends_with_def drop_end_def) (metis append_take_drop_id)

lemma suffix_family_owner:
  "suffix_family fams name sufs = Some f \<Longrightarrow> \<exists>k. jsmap_get fams k = Some f \<and> (\<exists>suf\<in>set sufs. name = k @ suf)"
  by (induction sufs) (auto split: option.splits if_splits dest: drop_end_suffix)

lemma family_owner:
  assumes "familyForSample fams name = Some f"
  obtains k where "jsmap_get fams k = Some f" "name = k \<or> (\<exists>suf\<in>set COMPONENT_SUFFIXES. name = k @ suf)"
  using assms suffix_family_owner that by (auto simp: familyForSample_def split: option.splits) blast

text \<open>A write that keeps the samples of a family\<close>

lemma header_write:
  assumes "families_inv fams" "metric_name k" "fam_name g = k" "fam_samples g = fam_samples (ensureFamily k fams)"
  shows "families_inv (write_family g fams)" "sample_total (write_family g fams) = sample_total fams"
proof -
  have "family_inv (k, g)" using ensure_inv [OF assms(1,2)] assms(2-4) by (simp add: family_inv_def)
  then show "families_inv (write_family g fams)" using families_write [OF assms(1)] assms(3) by blast
  show "sample_total (write_family g fams) = sample_total fams"
    using total_write [of g fams] ensure_total [of k fams] assms(3,4) by simp
qed

lemma ensure_name: "families_inv fams \<Longrightarrow> fam_name (ensureFamily k fams) = k"
  using families_get by (auto simp: ensureFamily_def family_inv_def new_family_def split: option.splits)

lemma comment_step_inv:
  assumes "families_inv fams" "comment_step c (fams, n) = (fams', n')"
  shows "families_inv fams' \<and> sample_total fams' = sample_total fams \<and> n' \<le> n + 1"
proof -
  have w: "families_inv (write_family g fams) \<and> sample_total (write_family g fams) = sample_total fams"
    if "METRIC_NAME_RE x = Some k" "fam_name g = k" "fam_samples g = fam_samples (ensureFamily k fams)" for g k x
    using header_write [OF assms(1) name_match [OF that(1)] that(2,3)] by simp
  show ?thesis
    using assms w ensure_name [OF assms(1)] by (auto simp: comment_step_def Let_def split: if_splits option.splits)
qed

lemma sample_step_inv:
  assumes "families_inv fams" "metric_name (sm_name s)"
  shows "families_inv (sample_step s fams) \<and> sample_total (sample_step s fams) \<le> sample_total fams + 1"
proof (cases "ends_with (sm_name s) ''_created'' \<and> familyForSample fams (drop_end (sm_name s) 8) \<noteq> None")
  case True
  then show ?thesis using assms by (simp add: sample_step_def)
next
  case False
  define f where "f = (case familyForSample fams (sm_name s) of Some f \<Rightarrow> f | None \<Rightarrow> ensureFamily (sm_name s) fams)"
  obtain k where k: "family_inv (k, f)" "sm_name s = k \<or> (\<exists>suf\<in>set COMPONENT_SUFFIXES. sm_name s = k @ suf)"
    "length (fam_samples f) = (case jsmap_get fams k of None \<Rightarrow> 0 | Some g \<Rightarrow> length (fam_samples g))"
  proof (cases "familyForSample fams (sm_name s)")
    case None
    then show ?thesis using that [of "sm_name s"] ensure_inv [OF assms] ensure_total by (simp add: f_def)
  next
    case (Some g)
    then obtain k where "jsmap_get fams k = Some g" "sm_name s = k \<or> (\<exists>suf\<in>set COMPONENT_SUFFIXES. sm_name s = k @ suf)"
      by (rule family_owner)
    then show ?thesis using that [of k] families_get [OF assms(1)] Some by (simp add: f_def)
  qed
  have e: "sample_step s fams = write_family (f\<lparr>fam_samples := fam_samples f @ [s]\<rparr>) fams"
    using False by (auto simp: sample_step_def f_def Let_def)
  have n: "fam_name f = k" using k(1) by (simp add: family_inv_def)
  have "family_inv (k, f\<lparr>fam_samples := fam_samples f @ [s]\<rparr>)" using k(1,2) by (simp add: family_inv_def)
  then show ?thesis
    using families_write [OF assms(1), of "f\<lparr>fam_samples := fam_samples f @ [s]\<rparr>"] total_write [of "f\<lparr>fam_samples := fam_samples f @ [s]\<rparr>" fams] k(3) n
    unfolding e by simp
qed

lemma sample_name: "parseSampleLine Number times1000 line = Some s \<Longrightarrow> metric_name (sm_name s)"
  by (auto simp: parseSampleLine_def parse_tokens_def Let_def name_match split: option.splits if_splits list.splits)

lemma line_step_inv:
  assumes "families_inv fams" "line_step Number times1000 (fams, n) l = (fams', n')"
  shows "families_inv fams' \<and> n' + sample_total fams' \<le> n + sample_total fams + 1"
proof -
  define line where "line = js_trim (if l \<noteq> [] \<and> last l = CR then butlast l else l)"
  have st: "line_step Number times1000 (fams, n) l =
      (if line = [] then (fams, n) else if hd line = CHR ''#'' then comment_step (js_trim (tl line)) (fams, n)
       else case parseSampleLine Number times1000 line of None \<Rightarrow> (fams, n + 1) | Some s \<Rightarrow> (sample_step s fams, n))"
    unfolding line_step_def line_def [symmetric] Let_def by (cases "parseSampleLine Number times1000 line") simp_all
  show ?thesis
  proof (cases "line = []")
    case False
    show ?thesis
    proof (cases "hd line = CHR ''#''")
      case True
      then show ?thesis using False assms st comment_step_inv [OF assms(1), of "js_trim (tl line)" n fams' n'] by auto
    next
      case other: False
      show ?thesis
      proof (cases "parseSampleLine Number times1000 line")
        case (Some s)
        then show ?thesis using other False assms st sample_step_inv [OF assms(1) sample_name [OF Some]] by auto
      qed (use other False assms st in auto)
    qed
  qed (use assms st in auto)
qed

lemma lines_inv:
  assumes "families_inv fams" "foldl (line_step Number times1000) (fams, n) ls = (fams', n')"
  shows "families_inv fams' \<and> n' + sample_total fams' \<le> n + sample_total fams + length ls"
  using assms
proof (induction ls arbitrary: fams n)
  case (Cons l ls)
  obtain g m where g: "line_step Number times1000 (fams, n) l = (g, m)" by fastforce
  then show ?case using line_step_inv [OF Cons.prems(1) g] Cons.IH [of g m] Cons.prems by auto
qed simp

lemma countSamples_sum: "countSamples fams = sum_list (map (\<lambda>f. length (fam_samples f)) fams)"
proof -
  have "foldl (\<lambda>total f. total + length (fam_samples f)) a fams = a + sum_list (map (\<lambda>f. length (fam_samples f)) fams)" for a
    by (induction fams arbitrary: a) simp_all
  then show ?thesis by (simp add: countSamples_def)
qed

lemma exposition_read:
  assumes "list_all (family_ok Number times1000 value_text stamp_text (fam_name ` set fams)) fams" "distinct (map fam_name fams)"
  shows "parsePrometheusText Number times1000 (print_exposition value_text stamp_text fams) =
    \<lparr>pr_families = fams, pr_skippedLineCount = 0\<rparr>"
proof -
  let ?ls = "concat (map (family_lines value_text stamp_text) fams)"
  have "split_char NL [] (print_exposition value_text stamp_text fams) = ?ls @ [[]]"
    unfolding print_exposition_def using assms(1) family_no_newline by (intro split_lines) (fastforce simp: list_all_iff)
  moreover have "foldl (line_step Number times1000) ([], 0) ?ls = (map entry fams, 0)"
    using families_read [OF assms, of "[]" 0] by simp
  moreover have "line_step Number times1000 st [] = st" for st by (simp add: line_step_def js_trim_def)
  moreover have "filter (\<lambda>f. fam_samples f \<noteq> []) (map snd (map entry fams)) = fams"
  proof -
    have "map snd (map entry fams) = fams" by (induction fams) (simp_all add: entry_def)
    then show ?thesis using assms(1) by (simp only:) (auto simp: filter_id_conv family_ok_def list_all_iff)
  qed
  ultimately show ?thesis by (simp add: parsePrometheusText_def)
qed

section \<open>Properties\<close>

text \<open>
  C12. Parsing an exposition returns the families it was printed from, in order, with nothing skipped: help texts and label
  values may hold any character, samples may carry a component suffix, and how numbers are written is up to the exporter as
  long as the reader understands it.
\<close>

theorem parsePrometheusText_print:
  assumes "list_all (family_ok Number times1000 value_text stamp_text (fam_name ` set fams)) fams" "distinct (map fam_name fams)"
  shows "parsePrometheusText Number times1000 (print_exposition value_text stamp_text fams) =
    \<lparr>pr_families = fams, pr_skippedLineCount = 0\<rparr>"
  by (rule exposition_read [OF assms])

definition sample_family :: PromMetricFamily where
  "sample_family = \<lparr>fam_name = ''rpc'', fam_type = histogram, fam_help = Some ''calls'', fam_unit = None, fam_samples =
     [\<lparr>sm_name = ''rpc_count'', sm_labels = [(''job'', [DQ, NL, BS])], sm_value = Fin 1, sm_timestampMs = None\<rparr>]\<rparr>"

lemma sample_family_ok: "list_all (family_ok (\<lambda>_. Fin 1) (\<lambda>r. r) (\<lambda>_. ''1'') (\<lambda>_. []) (fam_name ` set [sample_family])) [sample_family]"
proof -
  have h: "escape ''calls'' = ''calls''" by (simp add: escape_def escape_char_def)
  have n: "metric_name ''rpc''" "metric_name ''rpc_count''" "LABEL_NAME_RE ''job'' = Some ''job''"
    by (simp_all add: metric_name_def METRIC_NAME_RE_def LABEL_NAME_RE_def letter_def)
  have t: "token ''1''" "parseSampleValue (\<lambda>_. Fin 1) ''1'' = Some (Fin 1)" by (simp_all add: token_def js_space_def parseSampleValue_def)
  show ?thesis
    using h n t by (simp add: sample_family_def family_ok_def js_trim_def js_space_def labels_ok_def belongs_def COMPONENT_SUFFIXES_def
      ends_with_def value_ok_def)
qed

theorem parsePrometheusText_print_witness:
  "parsePrometheusText (\<lambda>_. Fin 1) (\<lambda>r. r) (print_exposition (\<lambda>_. ''1'') (\<lambda>_. []) [sample_family]) =
    \<lparr>pr_families = [sample_family], pr_skippedLineCount = 0\<rparr>"
  by (rule parsePrometheusText_print [OF sample_family_ok]) simp

text \<open>
  C37. Whatever the body, the families of the result have different names in the grammar, none is empty, every sample bears the
  family's name or that name with a component suffix, and samples and skipped lines together are no more than the lines.
\<close>

theorem parsePrometheusText_wf:
  "let r = parsePrometheusText Number times1000 body in
     distinct (map fam_name (pr_families r)) \<and>
     list_all (\<lambda>f. fam_samples f \<noteq> [] \<and> family_inv (fam_name f, f)) (pr_families r) \<and>
     countSamples (pr_families r) + pr_skippedLineCount r \<le> length (split_char NL [] body)"
proof -
  obtain fams n where st: "foldl (line_step Number times1000) ([], 0) (split_char NL [] body) = (fams, n)" by fastforce
  have inv: "families_inv fams" "n + sample_total fams \<le> length (split_char NL [] body)"
    using lines_inv [OF _ st] by (simp_all add: families_inv_def sample_total_def)
  then have names: "map fam_name (map snd fams) = map fst fams" by (auto simp: families_inv_def family_inv_def list_all_iff)
  then have "distinct (map fam_name (map snd fams))" using inv(1) unfolding names families_inv_def by blast
  then have "distinct (map fam_name (filter (\<lambda>f. fam_samples f \<noteq> []) (map snd fams)))" by (rule distinct_map_filter)
  moreover have "\<forall>f\<in>set (map snd fams). family_inv (fam_name f, f)" using inv(1) by (auto simp: families_inv_def family_inv_def list_all_iff)
  moreover have "sum_list (map (\<lambda>f. length (fam_samples f)) (filter (\<lambda>f. fam_samples f \<noteq> []) (map snd fams))) = sample_total fams"
    unfolding sample_total_def by (induction fams) auto
  ultimately show ?thesis using st inv(2) by (auto simp: parsePrometheusText_def countSamples_sum list_all_iff)
qed

end
