(* ===== verification/Otlp_Convert.thy ===== *)
theory Otlp_Convert
  imports Prom_Parser Event_Envelope "HOL-Library.Product_Lexorder"
begin

text \<open>
  The conversion of scraped metric families to an OTLP export request, after
  \<^verbatim>\<open>lib/prometheus-otlp/src/otlp.ts\<close>: attributes, counters and gauges, histograms with their cumulative buckets, and
  summaries.

  \<open>toUnixNano\<close> goes through \<open>BigInt\<close>, which throws on a number that is not finite; the conversion is then \<open>None\<close>.
  \<open>subtract\<close>, the subtraction of finite floating-point numbers, is an argument. The JSON of a label set holds no number, so
  the number printer that \<open>stringify\<close> takes is never called.
\<close>

section \<open>Data\<close>

record ScrapeOtlpContext =
  ctx_resource :: labels
  ctx_scopeName :: string
  ctx_job :: string
  ctx_instance :: string
  ctx_targetLabels :: labels
  ctx_scrapeTimeMs :: jsnum

type_synonym OtlpKeyValue = "string \<times> string"

record OtlpNumberDataPoint =
  np_attributes :: "OtlpKeyValue list"
  np_startTimeUnixNano :: string
  np_timeUnixNano :: string
  np_asDouble :: jsnum

record OtlpHistogramDataPoint =
  hp_attributes :: "OtlpKeyValue list"
  hp_startTimeUnixNano :: string
  hp_timeUnixNano :: string
  hp_count :: jsnum
  hp_sum :: "jsnum option"
  hp_bucketCounts :: "jsnum list"
  hp_explicitBounds :: "jsnum list"

record OtlpSum =
  sum_dataPoints :: "OtlpNumberDataPoint list"
  sum_aggregationTemporality :: nat
  sum_isMonotonic :: bool

record OtlpHistogram =
  hist_dataPoints :: "OtlpHistogramDataPoint list"
  hist_aggregationTemporality :: nat

record OtlpMetric =
  m_name :: string
  m_description :: string
  m_unit :: string
  m_gauge :: "OtlpNumberDataPoint list option"
  m_sum :: "OtlpSum option"
  m_histogram :: "OtlpHistogram option"

record ScopeMetrics =
  scope_name :: string
  scope_metrics :: "OtlpMetric list"

record ResourceMetrics =
  rm_resource :: "OtlpKeyValue list"
  rm_scopeMetrics :: "ScopeMetrics list"

type_synonym OtlpExportRequest = "ResourceMetrics list"

record PointCounts =
  cnt_sum :: nat
  cnt_gauge :: nat
  cnt_histogram :: nat

record ConvertedOtlp =
  conv_request :: "OtlpExportRequest option"
  conv_dataPointCounts :: PointCounts
  conv_droppedSeriesCount :: nat

definition CUMULATIVE :: nat where "CUMULATIVE = 2"
definition EPOCH_NANO :: string where "EPOCH_NANO = ''0''"

section \<open>Points\<close>

definition toUnixNano :: "jsnum \<Rightarrow> string option" where
  "toUnixNano epochMs = (case js_round epochMs of Fin r \<Rightarrow> Some (js_String_int (\<lfloor>r\<rfloor> * 1000000)) | _ \<Rightarrow> None)"

text \<open>Object spread: later keys overwrite the value and keep the place. \<open>Object.entries\<close> lists array indices first.\<close>

definition spread :: "labels \<Rightarrow> labels \<Rightarrow> labels" where
  "spread base extra = foldl (\<lambda>m (k, v). jsmap_set k v m) base extra"

definition mergeAttributes :: "ScrapeOtlpContext \<Rightarrow> labels \<Rightarrow> OtlpKeyValue list" where
  "mergeAttributes ctx sampleLabels =
     own_order (jsmap_set ''instance'' (ctx_instance ctx) (jsmap_set ''job'' (ctx_job ctx)
       (spread (spread [] (ctx_targetLabels ctx)) sampleLabels)))"

definition numberDataPoint :: "ScrapeOtlpContext \<Rightarrow> labels \<Rightarrow> jsnum \<Rightarrow> jsnum option \<Rightarrow> OtlpNumberDataPoint option" where
  "numberDataPoint ctx ls v timestampMs =
     map_option (\<lambda>t. \<lparr>np_attributes = mergeAttributes ctx ls, np_startTimeUnixNano = EPOCH_NANO, np_timeUnixNano = t, np_asDouble = v\<rparr>)
       (toUnixNano (case timestampMs of Some t \<Rightarrow> t | None \<Rightarrow> ctx_scrapeTimeMs ctx))"

text \<open>\<open>Object.keys(labels).filter(...).sort()\<close> with the values, as JSON\<close>

definition seriesKey :: "labels \<Rightarrow> string \<Rightarrow> string" where
  "seriesKey ls exclude =
     stringify (\<lambda>_. []) (JArray (map (\<lambda>(k, v). JArray [JString k, JString v]) (sort_key fst (filter (\<lambda>(k, v). k \<noteq> exclude) ls))))"

definition withoutLabel :: "labels \<Rightarrow> string \<Rightarrow> labels" where
  "withoutLabel ls name = filter (\<lambda>(k, v). k \<noteq> name) ls"

record ConversionState =
  st_metrics :: "OtlpMetric list"
  st_counts :: PointCounts
  st_dropped :: nat

definition base_metric :: "string \<Rightarrow> PromMetricFamily \<Rightarrow> OtlpMetric" where
  "base_metric name family =
     \<lparr>m_name = name, m_description = (case fam_help family of Some h \<Rightarrow> h | None \<Rightarrow> []),
      m_unit = (case fam_unit family of Some u \<Rightarrow> u | None \<Rightarrow> []), m_gauge = None, m_sum = None, m_histogram = None\<rparr>"

definition push_sum :: "string \<Rightarrow> PromMetricFamily \<Rightarrow> bool \<Rightarrow> OtlpNumberDataPoint list \<Rightarrow> ConversionState \<Rightarrow> ConversionState" where
  "push_sum name family monotonic dataPoints state =
     state\<lparr>st_metrics := st_metrics state @ [(base_metric name family)\<lparr>m_sum :=
             Some \<lparr>sum_dataPoints = dataPoints, sum_aggregationTemporality = CUMULATIVE, sum_isMonotonic = monotonic\<rparr>\<rparr>],
           st_counts := (st_counts state)\<lparr>cnt_sum := cnt_sum (st_counts state) + length dataPoints\<rparr>\<rparr>"

definition push_gauge :: "string \<Rightarrow> PromMetricFamily \<Rightarrow> OtlpNumberDataPoint list \<Rightarrow> ConversionState \<Rightarrow> ConversionState" where
  "push_gauge name family dataPoints state =
     state\<lparr>st_metrics := st_metrics state @ [(base_metric name family)\<lparr>m_gauge := Some dataPoints\<rparr>],
           st_counts := (st_counts state)\<lparr>cnt_gauge := cnt_gauge (st_counts state) + length dataPoints\<rparr>\<rparr>"

definition push_histogram :: "PromMetricFamily \<Rightarrow> OtlpHistogramDataPoint list \<Rightarrow> ConversionState \<Rightarrow> ConversionState" where
  "push_histogram family dataPoints state =
     state\<lparr>st_metrics := st_metrics state @ [(base_metric (fam_name family) family)\<lparr>m_histogram :=
             Some \<lparr>hist_dataPoints = dataPoints, hist_aggregationTemporality = CUMULATIVE\<rparr>\<rparr>],
           st_counts := (st_counts state)\<lparr>cnt_histogram := cnt_histogram (st_counts state) + length dataPoints\<rparr>\<rparr>"

section \<open>Counters and gauges\<close>

definition groupByName :: "PromSample list \<Rightarrow> (string, PromSample list) jsmap" where
  "groupByName samples =
     foldl (\<lambda>groups s. jsmap_set (sm_name s) ((case jsmap_get groups (sm_name s) of Some g \<Rightarrow> g | None \<Rightarrow> []) @ [s]) groups) [] samples"

text \<open>The points of one group; a sample that is not finite is dropped and counted.\<close>

fun number_points :: "ScrapeOtlpContext \<Rightarrow> PromSample list \<Rightarrow> (OtlpNumberDataPoint list \<times> nat) option" where
  "number_points ctx [] = Some ([], 0)"
| "number_points ctx (s # samples) =
     (if \<not> js_isFinite (sm_value s)
      then map_option (\<lambda>(ps, n). (ps, n + 1)) (number_points ctx samples)
      else
        (case numberDataPoint ctx (sm_labels s) (sm_value s) (sm_timestampMs s) of
           None \<Rightarrow> None
         | Some p \<Rightarrow> map_option (\<lambda>(ps, n). (p # ps, n)) (number_points ctx samples)))"

definition convert_group :: "PromMetricFamily \<Rightarrow> ScrapeOtlpContext \<Rightarrow> bool \<Rightarrow> string \<times> PromSample list \<Rightarrow> ConversionState \<Rightarrow> ConversionState option" where
  "convert_group family ctx is_counter grp state =
     (case number_points ctx (snd grp) of
        None \<Rightarrow> None
      | Some (dataPoints, dropped) \<Rightarrow>
          let state' = state\<lparr>st_dropped := st_dropped state + dropped\<rparr>
          in if dataPoints = [] then Some state'
             else if is_counter then Some (push_sum (fst grp) family True dataPoints state')
             else Some (push_gauge (fst grp) family dataPoints state'))"

text \<open>A loop over a list whose body may throw\<close>

fun fold_throw :: "('a \<Rightarrow> 's \<Rightarrow> 's option) \<Rightarrow> 'a list \<Rightarrow> 's \<Rightarrow> 's option" where
  "fold_throw f [] s = Some s"
| "fold_throw f (x # xs) s = (case f x s of None \<Rightarrow> None | Some s' \<Rightarrow> fold_throw f xs s')"

definition convertNumberFamily :: "PromMetricFamily \<Rightarrow> ScrapeOtlpContext \<Rightarrow> bool \<Rightarrow> ConversionState \<Rightarrow> ConversionState option" where
  "convertNumberFamily family ctx is_counter state =
     fold_throw (convert_group family ctx is_counter) (groupByName (fam_samples family)) state"

section \<open>Histograms\<close>

record HistogramSeries =
  hs_labels :: labels
  hs_buckets :: "(jsnum \<times> jsnum) list"
  hs_sum :: "jsnum option"
  hs_count :: "jsnum option"
  hs_timestampMs :: "jsnum option"

type_synonym series_map = "(string, HistogramSeries) jsmap"

definition seriesFor :: "PromSample \<Rightarrow> series_map \<Rightarrow> HistogramSeries" where
  "seriesFor sample series =
     (case jsmap_get series (seriesKey (sm_labels sample) ''le'') of
        Some e \<Rightarrow> e
      | None \<Rightarrow> \<lparr>hs_labels = withoutLabel (sm_labels sample) ''le'', hs_buckets = [], hs_sum = None, hs_count = None,
                  hs_timestampMs = sm_timestampMs sample\<rparr>)"

definition write_series :: "PromSample \<Rightarrow> HistogramSeries \<Rightarrow> series_map \<Rightarrow> series_map" where
  "write_series sample e series = jsmap_set (seriesKey (sm_labels sample) ''le'') e series"

text \<open>One sample: the series and the number of dropped samples\<close>

definition series_step :: "(string \<Rightarrow> jsnum) \<Rightarrow> string \<Rightarrow> series_map \<times> nat \<Rightarrow> PromSample \<Rightarrow> series_map \<times> nat" where
  "series_step Number family st sample =
     (let (series, dropped) = st
      in if sm_name sample = family @ ''_bucket'' then
           (case jsmap_get (sm_labels sample) ''le'' of
              None \<Rightarrow> (series, dropped + 1)
            | Some text \<Rightarrow>
                let le = (if text = ''+Inf'' then PosInf else Number text)
                in if le = NaN \<or> \<not> js_isFinite (sm_value sample) then (series, dropped + 1)
                   else
                     let e = seriesFor sample series
                     in (write_series sample (e\<lparr>hs_buckets := hs_buckets e @ [(le, sm_value sample)]\<rparr>) series, dropped))
         else if sm_name sample = family @ ''_sum'' then
           (write_series sample ((seriesFor sample series)\<lparr>hs_sum := Some (sm_value sample)\<rparr>) series, dropped)
         else if sm_name sample = family @ ''_count'' then
           (write_series sample ((seriesFor sample series)\<lparr>hs_count := Some (sm_value sample)\<rparr>) series, dropped)
         else (series, dropped))"

text \<open>\<open>sort((a, b) => a.le - b.le)\<close>: stable, by value, the infinities at the ends\<close>

fun le_rank :: "jsnum \<Rightarrow> int \<times> rat" where
  "le_rank NegInf = (- 1, 0)"
| "le_rank (Fin r) = (0, r)"
| "le_rank PosInf = (1, 0)"
| "le_rank NaN = (2, 0)"

definition sort_buckets :: "(jsnum \<times> jsnum) list \<Rightarrow> (jsnum \<times> jsnum) list" where
  "sort_buckets = sort_key (\<lambda>b. le_rank (fst b))"

text \<open>\<open>Math.max(0, a - b)\<close>\<close>

fun floor_zero :: "jsnum \<Rightarrow> jsnum" where
  "floor_zero (Fin r) = Fin (max 0 r)"
| "floor_zero NegInf = Fin 0"
| "floor_zero n = n"

fun js_minus :: "(rat \<Rightarrow> rat \<Rightarrow> jsnum) \<Rightarrow> jsnum \<Rightarrow> jsnum \<Rightarrow> jsnum" where
  "js_minus subtract (Fin a) (Fin b) = subtract a b"
| "js_minus subtract a b =
     (if a = NaN \<or> b = NaN \<or> a = b then NaN else if a = PosInf \<or> b = NegInf then PosInf else NegInf)"

fun bucket_counts :: "(rat \<Rightarrow> rat \<Rightarrow> jsnum) \<Rightarrow> jsnum \<Rightarrow> (jsnum \<times> jsnum) list \<Rightarrow> jsnum \<Rightarrow> jsnum list" where
  "bucket_counts subtract previous [] totalCount = [floor_zero (js_minus subtract totalCount previous)]"
| "bucket_counts subtract previous (b # bs) totalCount =
     floor_zero (js_minus subtract (snd b) previous) # bucket_counts subtract (snd b) bs totalCount"

definition total_count :: "HistogramSeries \<Rightarrow> jsnum option" where
  "total_count e =
     (case hs_count e of
        Some c \<Rightarrow> Some c
      | None \<Rightarrow> map_option snd (find (\<lambda>b. fst b = PosInf) (sort_buckets (hs_buckets e))))"

text \<open>The point of one series: \<open>None\<close> throws, \<open>Some None\<close> is a dropped series.\<close>

definition histogram_point :: "(rat \<Rightarrow> rat \<Rightarrow> jsnum) \<Rightarrow> ScrapeOtlpContext \<Rightarrow> HistogramSeries \<Rightarrow> OtlpHistogramDataPoint option option" where
  "histogram_point subtract ctx e =
     (case total_count e of
        None \<Rightarrow> Some None
      | Some totalCount \<Rightarrow>
          if \<not> js_isFinite totalCount then Some None
          else
            let finiteBuckets = filter (\<lambda>b. js_isFinite (fst b)) (sort_buckets (hs_buckets e))
            in map_option (\<lambda>t. Some
                 \<lparr>hp_attributes = mergeAttributes ctx (hs_labels e), hp_startTimeUnixNano = EPOCH_NANO, hp_timeUnixNano = t,
                  hp_count = totalCount,
                  hp_sum = (case hs_sum e of Some s \<Rightarrow> if js_isFinite s then Some s else None | None \<Rightarrow> None),
                  hp_bucketCounts = bucket_counts subtract (Fin 0) finiteBuckets totalCount,
                  hp_explicitBounds = map fst finiteBuckets\<rparr>)
                 (toUnixNano (case hs_timestampMs e of Some t \<Rightarrow> t | None \<Rightarrow> ctx_scrapeTimeMs ctx)))"

definition histogram_step ::
    "(rat \<Rightarrow> rat \<Rightarrow> jsnum) \<Rightarrow> ScrapeOtlpContext \<Rightarrow> HistogramSeries \<Rightarrow> OtlpHistogramDataPoint list \<times> nat \<Rightarrow> (OtlpHistogramDataPoint list \<times> nat) option" where
  "histogram_step subtract ctx e st =
     (case histogram_point subtract ctx e of
        None \<Rightarrow> None
      | Some None \<Rightarrow> Some (fst st, snd st + 1)
      | Some (Some p) \<Rightarrow> Some (fst st @ [p], snd st))"

definition convertHistogramFamily ::
    "(string \<Rightarrow> jsnum) \<Rightarrow> (rat \<Rightarrow> rat \<Rightarrow> jsnum) \<Rightarrow> PromMetricFamily \<Rightarrow> ScrapeOtlpContext \<Rightarrow> ConversionState \<Rightarrow> ConversionState option" where
  "convertHistogramFamily Number subtract family ctx state =
     (let (series, dropped) = foldl (series_step Number (fam_name family)) ([], 0) (fam_samples family)
      in case fold_throw (histogram_step subtract ctx) (map snd series) ([], 0) of
           None \<Rightarrow> None
         | Some (dataPoints, dropped') \<Rightarrow>
             let state' = state\<lparr>st_dropped := st_dropped state + dropped + dropped'\<rparr>
             in Some (if dataPoints = [] then state' else push_histogram family dataPoints state'))"

section \<open>Summaries\<close>

fun summary_points ::
    "ScrapeOtlpContext \<Rightarrow> string \<Rightarrow> PromSample list \<Rightarrow>
     (OtlpNumberDataPoint list \<times> OtlpNumberDataPoint list \<times> OtlpNumberDataPoint list \<times> nat) option" where
  "summary_points ctx family [] = Some ([], [], [], 0)"
| "summary_points ctx family (s # samples) =
     (if \<not> js_isFinite (sm_value s)
      then map_option (\<lambda>(ss, cs, qs, n). (ss, cs, qs, n + 1)) (summary_points ctx family samples)
      else
        (case numberDataPoint ctx (sm_labels s) (sm_value s) (sm_timestampMs s) of
           None \<Rightarrow> None
         | Some p \<Rightarrow>
             map_option (\<lambda>(ss, cs, qs, n).
                 if sm_name s = family @ ''_sum'' then (p # ss, cs, qs, n)
                 else if sm_name s = family @ ''_count'' then (ss, p # cs, qs, n)
                 else (ss, cs, p # qs, n))
               (summary_points ctx family samples)))"

definition convertSummaryFamily :: "PromMetricFamily \<Rightarrow> ScrapeOtlpContext \<Rightarrow> ConversionState \<Rightarrow> ConversionState option" where
  "convertSummaryFamily family ctx state =
     map_option (\<lambda>(sumPoints, countPoints, quantilePoints, dropped).
         let s0 = state\<lparr>st_dropped := st_dropped state + dropped\<rparr>;
             s1 = (if sumPoints = [] then s0 else push_sum (fam_name family @ ''_sum'') family False sumPoints s0);
             s2 = (if countPoints = [] then s1 else push_sum (fam_name family @ ''_count'') family True countPoints s1)
         in if quantilePoints = [] then s2 else push_gauge (fam_name family) family quantilePoints s2)
       (summary_points ctx (fam_name family) (fam_samples family))"

section \<open>The conversion\<close>

definition convert_family ::
    "(string \<Rightarrow> jsnum) \<Rightarrow> (rat \<Rightarrow> rat \<Rightarrow> jsnum) \<Rightarrow> ScrapeOtlpContext \<Rightarrow> PromMetricFamily \<Rightarrow> ConversionState \<Rightarrow> ConversionState option" where
  "convert_family Number subtract ctx family state =
     (case fam_type family of
        counter \<Rightarrow> convertNumberFamily family ctx True state
      | gauge \<Rightarrow> convertNumberFamily family ctx False state
      | untyped \<Rightarrow> convertNumberFamily family ctx False state
      | histogram \<Rightarrow> convertHistogramFamily Number subtract family ctx state
      | summary \<Rightarrow> convertSummaryFamily family ctx state)"

definition empty_state :: ConversionState where
  "empty_state = \<lparr>st_metrics = [], st_counts = \<lparr>cnt_sum = 0, cnt_gauge = 0, cnt_histogram = 0\<rparr>, st_dropped = 0\<rparr>"

definition convertFamiliesToOtlp ::
    "(string \<Rightarrow> jsnum) \<Rightarrow> (rat \<Rightarrow> rat \<Rightarrow> jsnum) \<Rightarrow> PromMetricFamily list \<Rightarrow> ScrapeOtlpContext \<Rightarrow> ConvertedOtlp option" where
  "convertFamiliesToOtlp Number subtract fams ctx =
     map_option (\<lambda>state.
         \<lparr>conv_request =
            (if st_metrics state = [] then None
             else Some [\<lparr>rm_resource = own_order (ctx_resource ctx),
                         rm_scopeMetrics = [\<lparr>scope_name = ctx_scopeName ctx, scope_metrics = st_metrics state\<rparr>]\<rparr>]),
          conv_dataPointCounts = st_counts state, conv_droppedSeriesCount = st_dropped state\<rparr>)
       (fold_throw (convert_family Number subtract ctx) fams empty_state)"

section \<open>Counting points\<close>

definition metricDataPointCount :: "OtlpMetric \<Rightarrow> nat" where
  "metricDataPointCount m =
     (case m_gauge m of Some ps \<Rightarrow> length ps | None \<Rightarrow> 0) + (case m_sum m of Some s \<Rightarrow> length (sum_dataPoints s) | None \<Rightarrow> 0) +
     (case m_histogram m of Some h \<Rightarrow> length (hist_dataPoints h) | None \<Rightarrow> 0)"

definition countDataPoints :: "OtlpExportRequest \<Rightarrow> nat" where
  "countDataPoints request =
     sum_list (map (\<lambda>rm. sum_list (map (\<lambda>sm. sum_list (map metricDataPointCount (scope_metrics sm))) (rm_scopeMetrics rm))) request)"

section \<open>Attributes\<close>

lemma map_of_set: "distinct (map fst xs) \<Longrightarrow> distinct (map fst ys) \<Longrightarrow> set xs = set ys \<Longrightarrow> map_of xs = map_of ys"
  by (metis map_of_inject_set)

lemma own_order_get: "distinct (map fst fs) \<Longrightarrow> map_of (own_order fs) k = map_of fs k"
proof -
  assume d: "distinct (map fst fs)"
  have "mset (own_order fs) = mset fs" by (rule mset_own_order)
  then have "set (own_order fs) = set fs" "mset (map fst (own_order fs)) = mset (map fst fs)" by (metis set_mset_mset, simp)
  moreover from this(2) d have "distinct (map fst (own_order fs))" by (metis mset_eq_imp_distinct_iff)
  ultimately show ?thesis using d map_of_set by metis
qed

lemma spread_get:
  assumes "distinct (map fst extra)"
  shows "map_of (spread base extra) k = (case map_of extra k of Some v \<Rightarrow> Some v | None \<Rightarrow> map_of base k)"
  using assms unfolding spread_def
proof (induction extra arbitrary: base)
  case (Cons p extra)
  obtain a b where p: "p = (a, b)" by fastforce
  show ?case
  proof (cases "k = a")
    case True
    moreover have "map_of extra a = None" using Cons.prems by (auto simp: p map_of_eq_None_iff)
    ultimately show ?thesis using Cons.IH [of "AList.update a b base"] Cons.prems by (simp add: p update_conv)
  next
    case False
    then show ?thesis using Cons.IH [of "AList.update a b base"] Cons.prems by (simp add: p update_conv split: option.split)
  qed
qed simp

lemma spread_distinct: "distinct (map fst base) \<Longrightarrow> distinct (map fst (spread base extra))"
  unfolding spread_def by (induction extra arbitrary: base) (auto simp: distinct_update case_prod_beta)

lemma merged_get:
  assumes "distinct (map fst (ctx_targetLabels ctx))" "distinct (map fst ls)"
  shows "map_of (mergeAttributes ctx ls) k =
    (if k = ''instance'' then Some (ctx_instance ctx) else if k = ''job'' then Some (ctx_job ctx)
     else case map_of ls k of Some v \<Rightarrow> Some v | None \<Rightarrow> map_of (ctx_targetLabels ctx) k)"
proof -
  have "distinct (map fst (spread (spread [] (ctx_targetLabels ctx)) ls))" by (intro spread_distinct) simp
  then show ?thesis unfolding mergeAttributes_def
    by (subst own_order_get) (auto simp: distinct_update update_conv spread_get assms split: option.splits)
qed

section \<open>Buckets\<close>

fun differences :: "nat \<Rightarrow> nat list \<Rightarrow> nat list" where
  "differences p [] = []"
| "differences p (c # cs) = (c - p) # differences c cs"

lemma differences_sum: "sorted (p # cs) \<Longrightarrow> i < length cs \<Longrightarrow> sum_list (take (Suc i) (differences p cs)) + p = cs ! i"
proof (induction cs arbitrary: p i)
  case (Cons c cs)
  then show ?case
  proof (cases i)
    case (Suc j)
    then have "sum_list (take (Suc j) (differences c cs)) + c = cs ! j" using Cons by simp
    then show ?thesis using Cons.prems Suc by simp
  qed simp
qed simp

lemma length_differences [simp]: "length (differences p cs) = length cs"
  by (induction cs arbitrary: p) auto

definition exact_on_counts :: "(rat \<Rightarrow> rat \<Rightarrow> jsnum) \<Rightarrow> bool" where
  "exact_on_counts subtract \<longleftrightarrow>
     (\<forall>a b :: nat. a < 2 ^ 53 \<longrightarrow> b < 2 ^ 53 \<longrightarrow> subtract (of_nat a) (of_nat b) = Fin (of_nat a - of_nat b))"

lemma bucket_counts_differences:
  assumes "exact_on_counts subtract" "sorted (p # cs @ [n])" "n < 2 ^ 53" "map snd bs = map (\<lambda>c. Fin (of_nat c)) cs"
  shows "bucket_counts subtract (Fin (of_nat p)) bs (Fin (of_nat n)) = map (\<lambda>c. Fin (of_nat c)) (differences p (cs @ [n]))"
  using assms(2,4)
proof (induction bs arbitrary: p cs)
  case Nil
  then have "cs = []" "p \<le> n" by auto
  moreover have "subtract (of_nat n) (of_nat p) = Fin (of_nat n - of_nat p)" using assms(1,3) \<open>p \<le> n\<close> by (auto simp: exact_on_counts_def)
  ultimately show ?case by (simp add: of_nat_diff)
next
  case (Cons b bs)
  then obtain c cs' where cs: "cs = c # cs'" "snd b = Fin (of_nat c)" by (cases cs) auto
  then have le: "p \<le> c" "c \<le> n" "sorted (c # cs' @ [n])" using Cons.prems(1) by auto
  then have "subtract (of_nat c) (of_nat p) = Fin (of_nat c - of_nat p)" using assms(1,3) by (auto simp: exact_on_counts_def)
  then show ?case using Cons.IH [OF le(3)] Cons.prems(2) cs le(1) by (simp add: of_nat_diff)
qed

lemma length_bucket_counts [simp]: "length (bucket_counts subtract p bs n) = length bs + 1"
  by (induction bs arbitrary: p) auto

lemma sorted_bounds: "sorted_wrt (\<lambda>a b. \<not> js_lt b a) (map fst (filter (\<lambda>b. js_isFinite (fst b)) (sort_buckets bs)))"
proof -
  let ?s = "filter (\<lambda>b. js_isFinite (fst b)) (sort_buckets bs)"
  have "sorted (map (\<lambda>b. le_rank (fst b)) (sort_buckets bs))" unfolding sort_buckets_def by (rule sorted_sort_key)
  then have "sorted_wrt (\<lambda>a b. le_rank (fst a) \<le> le_rank (fst b)) ?s" by (simp add: sorted_map sorted_wrt_filter)
  then have "sorted_wrt (\<lambda>a b. \<not> js_lt (fst b) (fst a)) ?s"
  proof (rule sorted_wrt_mono_rel [rotated])
    fix x y assume "x \<in> set ?s" "y \<in> set ?s" "le_rank (fst x) \<le> le_rank (fst y)"
    then show "\<not> js_lt (fst y) (fst x)" by (cases "fst x"; cases "fst y") auto
  qed
  then show ?thesis by (simp add: sorted_wrt_map)
qed

section \<open>What a converted request holds\<close>

definition number_point_ok :: "OtlpNumberDataPoint \<Rightarrow> bool" where
  "number_point_ok p \<longleftrightarrow> js_isFinite (np_asDouble p)"

definition histogram_point_ok :: "OtlpHistogramDataPoint \<Rightarrow> bool" where
  "histogram_point_ok p \<longleftrightarrow>
     js_isFinite (hp_count p) \<and> (case hp_sum p of Some s \<Rightarrow> js_isFinite s | None \<Rightarrow> True) \<and> list_all js_isFinite (hp_explicitBounds p) \<and>
     length (hp_bucketCounts p) = length (hp_explicitBounds p) + 1 \<and> sorted_wrt (\<lambda>a b. \<not> js_lt b a) (hp_explicitBounds p)"

text \<open>Exactly one aggregation, with at least one point\<close>

definition metric_ok :: "OtlpMetric \<Rightarrow> bool" where
  "metric_ok m \<longleftrightarrow>
     (\<exists>ps. m_gauge m = Some ps \<and> m_sum m = None \<and> m_histogram m = None \<and> ps \<noteq> [] \<and> list_all number_point_ok ps) \<or>
     (\<exists>s. m_gauge m = None \<and> m_sum m = Some s \<and> m_histogram m = None \<and> sum_dataPoints s \<noteq> [] \<and> list_all number_point_ok (sum_dataPoints s)) \<or>
     (\<exists>h. m_gauge m = None \<and> m_sum m = None \<and> m_histogram m = Some h \<and> hist_dataPoints h \<noteq> [] \<and> list_all histogram_point_ok (hist_dataPoints h))"

definition gauge_points :: "OtlpMetric \<Rightarrow> nat" where
  "gauge_points m = (case m_gauge m of Some ps \<Rightarrow> length ps | None \<Rightarrow> 0)"

definition sum_points :: "OtlpMetric \<Rightarrow> nat" where
  "sum_points m = (case m_sum m of Some s \<Rightarrow> length (sum_dataPoints s) | None \<Rightarrow> 0)"

definition histogram_points :: "OtlpMetric \<Rightarrow> nat" where
  "histogram_points m = (case m_histogram m of Some h \<Rightarrow> length (hist_dataPoints h) | None \<Rightarrow> 0)"

lemmas point_defs = gauge_points_def sum_points_def histogram_points_def

definition state_ok :: "ConversionState \<Rightarrow> bool" where
  "state_ok st \<longleftrightarrow>
     list_all metric_ok (st_metrics st) \<and> cnt_gauge (st_counts st) = sum_list (map gauge_points (st_metrics st)) \<and>
     cnt_sum (st_counts st) = sum_list (map sum_points (st_metrics st)) \<and>
     cnt_histogram (st_counts st) = sum_list (map histogram_points (st_metrics st))"

lemma push_ok:
  "state_ok st \<Longrightarrow> ps \<noteq> [] \<Longrightarrow> list_all number_point_ok ps \<Longrightarrow> state_ok (push_sum name family monotonic ps st)"
  "state_ok st \<Longrightarrow> ps \<noteq> [] \<Longrightarrow> list_all number_point_ok ps \<Longrightarrow> state_ok (push_gauge name family ps st)"
  "state_ok st \<Longrightarrow> hs \<noteq> [] \<Longrightarrow> list_all histogram_point_ok hs \<Longrightarrow> state_ok (push_histogram family hs st)"
  by (simp_all add: state_ok_def push_sum_def push_gauge_def push_histogram_def metric_ok_def base_metric_def point_defs)

lemma drop_ok: "state_ok st \<Longrightarrow> state_ok (st\<lparr>st_dropped := n\<rparr>)"
  by (simp add: state_ok_def)

lemma fold_throw_inv:
  assumes "fold_throw f xs s = Some s'" "P s" "\<And>x s s'. x \<in> set xs \<Longrightarrow> P s \<Longrightarrow> f x s = Some s' \<Longrightarrow> P s'"
  shows "P s'"
  using assms
proof (induction xs arbitrary: s)
  case (Cons x xs)
  then obtain t where t: "f x s = Some t" "fold_throw f xs t = Some s'" by (auto split: option.splits)
  show ?case by (rule Cons.IH [OF t(2)]) (use Cons.prems(2,3) t(1) in auto)
qed simp

lemma number_points_ok: "number_points ctx samples = Some (ps, n) \<Longrightarrow> list_all number_point_ok ps \<and> length ps + n = length samples"
  by (induction samples arbitrary: ps n) (auto simp: number_point_ok_def numberDataPoint_def split: if_splits option.splits)

lemma convert_group_ok: "convert_group family ctx c g st = Some st' \<Longrightarrow> state_ok st \<Longrightarrow> state_ok st'"
  using number_points_ok push_ok drop_ok by (auto simp: convert_group_def Let_def split: option.splits if_splits)

lemma histogram_point_fields:
  assumes "histogram_point subtract ctx e = Some (Some p)"
  obtains totalCount fb where "total_count e = Some totalCount" "js_isFinite totalCount" "fb = filter (\<lambda>b. js_isFinite (fst b)) (sort_buckets (hs_buckets e))"
    "hp_count p = totalCount" "hp_bucketCounts p = bucket_counts subtract (Fin 0) fb totalCount" "hp_explicitBounds p = map fst fb"
    "hp_sum p = (case hs_sum e of Some s \<Rightarrow> if js_isFinite s then Some s else None | None \<Rightarrow> None)"
  using assms by (auto simp: histogram_point_def Let_def split: option.splits if_splits)

lemma histogram_point_good: "histogram_point subtract ctx e = Some (Some p) \<Longrightarrow> histogram_point_ok p"
  by (erule histogram_point_fields)
    (auto simp: histogram_point_ok_def list_all_iff sorted_bounds split: option.splits)

lemma histogram_step_ok:
  "histogram_step subtract ctx e st = Some st' \<Longrightarrow> list_all histogram_point_ok (fst st) \<Longrightarrow> list_all histogram_point_ok (fst st')"
  using histogram_point_good by (auto simp: histogram_step_def split: option.splits)

lemma convert_histogram_ok:
  assumes "convertHistogramFamily Number subtract family ctx st = Some st'" "state_ok st"
  shows "state_ok st'"
proof -
  obtain series dropped where s: "foldl (series_step Number (fam_name family)) ([], 0) (fam_samples family) = (series, dropped)" by fastforce
  obtain ps d where p: "fold_throw (histogram_step subtract ctx) (map snd series) ([], 0) = Some (ps, d)"
    and st': "st' = (let st0 = st\<lparr>st_dropped := st_dropped st + dropped + d\<rparr> in if ps = [] then st0 else push_histogram family ps st0)"
    using assms(1) s by (auto simp: convertHistogramFamily_def Let_def split: option.splits)
  have "list_all histogram_point_ok (fst (ps, d))"
    by (rule fold_throw_inv [OF p, where P = "\<lambda>s. list_all histogram_point_ok (fst s)"]) (use histogram_step_ok in auto)
  then show ?thesis using st' assms(2) push_ok(3) drop_ok by (simp add: Let_def)
qed

lemma summary_points_ok:
  "summary_points ctx family samples = Some (ss, cs, qs, n) \<Longrightarrow>
     list_all number_point_ok ss \<and> list_all number_point_ok cs \<and> list_all number_point_ok qs \<and> length ss + length cs + length qs + n = length samples"
proof (induction samples arbitrary: ss cs qs n)
  case (Cons s samples)
  obtain ss' cs' qs' n' where r: "summary_points ctx family samples = Some (ss', cs', qs', n')"
    using Cons.prems by (auto split: if_splits option.splits)
  show ?case using Cons.prems Cons.IH [OF r] r
    by (auto simp: number_point_ok_def numberDataPoint_def split: if_splits option.splits)
qed simp

lemma convert_summary_ok: "convertSummaryFamily family ctx st = Some st' \<Longrightarrow> state_ok st \<Longrightarrow> state_ok st'"
  using summary_points_ok by (fastforce simp: convertSummaryFamily_def Let_def intro!: push_ok drop_ok)

lemma convert_family_ok: "convert_family Number subtract ctx family st = Some st' \<Longrightarrow> state_ok st \<Longrightarrow> state_ok st'"
proof -
  assume a: "convert_family Number subtract ctx family st = Some st'" "state_ok st"
  have n: "state_ok st'" if "convertNumberFamily family ctx c st = Some st'" for c
    using that a(2) fold_throw_inv [of "convert_group family ctx c" "groupByName (fam_samples family)" st st' state_ok] convert_group_ok
    by (auto simp: convertNumberFamily_def)
  show "state_ok st'"
    using a n convert_histogram_ok convert_summary_ok by (cases "fam_type family") (auto simp: convert_family_def)
qed

lemma converted:
  assumes "convertFamiliesToOtlp Number subtract fams ctx = Some r"
  obtains st where "state_ok st" "conv_dataPointCounts r = st_counts st"
    "conv_request r = (if st_metrics st = [] then None else Some [\<lparr>rm_resource = own_order (ctx_resource ctx),
       rm_scopeMetrics = [\<lparr>scope_name = ctx_scopeName ctx, scope_metrics = st_metrics st\<rparr>]\<rparr>])"
proof -
  obtain st where st: "fold_throw (convert_family Number subtract ctx) fams empty_state = Some st"
    using assms by (auto simp: convertFamiliesToOtlp_def)
  have "state_ok empty_state" by (simp add: state_ok_def empty_state_def)
  then have "state_ok st" using fold_throw_inv [OF st, of state_ok] convert_family_ok by blast
  then show ?thesis using that st assms by (auto simp: convertFamiliesToOtlp_def)
qed

section \<open>The conversion returns\<close>

definition stamp_ok :: "jsnum option \<Rightarrow> bool" where
  "stamp_ok t \<longleftrightarrow> (case t of Some n \<Rightarrow> js_isFinite n | None \<Rightarrow> True)"

lemma toUnixNano_returns: "js_isFinite (ctx_scrapeTimeMs ctx) \<Longrightarrow> stamp_ok t \<Longrightarrow>
    \<exists>s. toUnixNano (case t of Some t \<Rightarrow> t | None \<Rightarrow> ctx_scrapeTimeMs ctx) = Some s"
  by (cases t; cases "the t"; cases "ctx_scrapeTimeMs ctx") (auto simp: toUnixNano_def stamp_ok_def)

lemma fold_throw_returns:
  assumes "\<And>x s. x \<in> set xs \<Longrightarrow> \<exists>s'. f x s = Some s'"
  shows "\<exists>s'. fold_throw f xs s = Some s'"
  using assms
proof (induction xs arbitrary: s)
  case (Cons x xs)
  obtain t where "f x s = Some t" using Cons.prems [of x s] by auto
  then show ?case using Cons.IH [of t] Cons.prems by simp
qed simp

lemma groupByName_samples: "(n, g) \<in> set (groupByName samples) \<Longrightarrow> set g \<subseteq> set samples"
proof -
  have "\<forall>(n, g)\<in>set (groupByName samples). set g \<subseteq> set samples"
    unfolding groupByName_def
  proof (induction samples rule: rev_induct)
    case (snoc s samples)
    then show ?case
      by (auto split: option.splits dest!: AList_update_set dest: map_of_SomeD)
        (blast dest: map_of_SomeD)+
  qed simp
  then show "(n, g) \<in> set (groupByName samples) \<Longrightarrow> set g \<subseteq> set samples" by blast
qed

lemma numberDataPoint_returns:
  "js_isFinite (ctx_scrapeTimeMs ctx) \<Longrightarrow> stamp_ok t \<Longrightarrow> \<exists>p. numberDataPoint ctx ls v t = Some p"
  using toUnixNano_returns by (fastforce simp: numberDataPoint_def)

lemma number_points_returns:
  "js_isFinite (ctx_scrapeTimeMs ctx) \<Longrightarrow> \<forall>s\<in>set samples. stamp_ok (sm_timestampMs s) \<Longrightarrow> \<exists>r. number_points ctx samples = Some r"
proof (induction samples)
  case (Cons s samples)
  then obtain r where r: "number_points ctx samples = Some r" by auto
  obtain p where "numberDataPoint ctx (sm_labels s) (sm_value s) (sm_timestampMs s) = Some p"
    using numberDataPoint_returns Cons.prems by fastforce
  then show ?case using r by simp
qed simp

lemma summary_points_returns:
  "js_isFinite (ctx_scrapeTimeMs ctx) \<Longrightarrow> \<forall>s\<in>set samples. stamp_ok (sm_timestampMs s) \<Longrightarrow> \<exists>r. summary_points ctx family samples = Some r"
proof (induction samples)
  case (Cons s samples)
  then obtain r where r: "summary_points ctx family samples = Some r" by auto
  obtain p where "numberDataPoint ctx (sm_labels s) (sm_value s) (sm_timestampMs s) = Some p"
    using numberDataPoint_returns Cons.prems by fastforce
  then show ?case using r by (cases r) simp
qed simp

lemma series_stamps:
  assumes "\<forall>s\<in>set samples. stamp_ok (sm_timestampMs s)"
  shows "\<forall>(k, e)\<in>set (fst (foldl (series_step Number family) ([], 0) samples)). stamp_ok (hs_timestampMs e)"
  using assms
proof (induction samples rule: rev_induct)
  case (snoc s samples)
  obtain series dropped where st: "foldl (series_step Number family) ([], 0) samples = (series, dropped)" by fastforce
  then have inv: "\<forall>(k, e)\<in>set series. stamp_ok (hs_timestampMs e)" using snoc by simp
  have new: "stamp_ok (hs_timestampMs (seriesFor s series))"
    using inv snoc.prems by (auto simp: seriesFor_def split: option.splits dest!: map_of_SomeD)
  have stored: "\<forall>(k, e)\<in>set (write_series s e series). stamp_ok (hs_timestampMs e)" if "stamp_ok (hs_timestampMs e)" for e
    using inv that by (auto simp: write_series_def dest!: AList_update_set)
  have "fst (series_step Number family (series, dropped) s) = series \<or>
      (\<exists>e. fst (series_step Number family (series, dropped) s) = write_series s e series \<and> hs_timestampMs e = hs_timestampMs (seriesFor s series))"
    by (auto simp: series_step_def Let_def split: option.splits)
  then show ?case
  proof
    assume "\<exists>e. fst (series_step Number family (series, dropped) s) = write_series s e series \<and> hs_timestampMs e = hs_timestampMs (seriesFor s series)"
    then obtain e where e: "fst (series_step Number family (series, dropped) s) = write_series s e series" "stamp_ok (hs_timestampMs e)"
      using new by metis
    show ?thesis using stored [OF e(2)] e(1) st by simp
  qed (use inv st in simp)
qed simp

lemma histogram_step_returns:
  "js_isFinite (ctx_scrapeTimeMs ctx) \<Longrightarrow> stamp_ok (hs_timestampMs e) \<Longrightarrow> \<exists>s'. histogram_step subtract ctx e s = Some s'"
  using toUnixNano_returns [of ctx "hs_timestampMs e"] by (auto simp: histogram_step_def histogram_point_def Let_def split: option.splits)

lemma convert_family_returns:
  assumes "js_isFinite (ctx_scrapeTimeMs ctx)" "\<forall>s\<in>set (fam_samples f). stamp_ok (sm_timestampMs s)"
  shows "\<exists>s'. convert_family Number subtract ctx f s = Some s'"
proof -
  have n: "\<exists>s'. convertNumberFamily f ctx c s = Some s'" for c unfolding convertNumberFamily_def
  proof (rule fold_throw_returns)
    fix g s assume g: "g \<in> set (groupByName (fam_samples f))"
    have "\<forall>s\<in>set (snd g). stamp_ok (sm_timestampMs s)" using groupByName_samples [of "fst g" "snd g"] g assms(2) by auto
    then obtain r where "number_points ctx (snd g) = Some r" using number_points_returns assms(1) by blast
    then show "\<exists>s'. convert_group f ctx c g s = Some s'" by (cases r) (auto simp: convert_group_def Let_def)
  qed
  obtain series dropped where st: "foldl (series_step Number (fam_name f)) ([], 0) (fam_samples f) = (series, dropped)" by fastforce
  have "\<exists>r. fold_throw (histogram_step subtract ctx) (map snd series) ([], 0) = Some r"
    using series_stamps [OF assms(2), of Number "fam_name f"] st by (intro fold_throw_returns histogram_step_returns [OF assms(1)]) auto
  then have h: "\<exists>s'. convertHistogramFamily Number subtract f ctx s = Some s'"
    using st by (auto simp: convertHistogramFamily_def Let_def)
  have q: "\<exists>s'. convertSummaryFamily f ctx s = Some s'"
    using summary_points_returns [OF assms] by (auto simp: convertSummaryFamily_def)
  show ?thesis using n h q by (cases "fam_type f") (simp_all add: convert_family_def)
qed

section \<open>Properties\<close>

text \<open>
  C38. The attributes of a point: \<open>job\<close> and \<open>instance\<close> are the target's whatever the scraped body claims, any other key has
  the scraped value if there is one, and otherwise the label configured on the target.
\<close>

theorem mergeAttributes_get:
  assumes "distinct (map fst (ctx_targetLabels ctx))" "distinct (map fst sampleLabels)"
  shows "map_of (mergeAttributes ctx sampleLabels) k =
    (if k = ''instance'' then Some (ctx_instance ctx) else if k = ''job'' then Some (ctx_job ctx)
     else case map_of sampleLabels k of Some v \<Rightarrow> Some v | None \<Rightarrow> map_of (ctx_targetLabels ctx) k)"
  by (rule merged_get [OF assms])

definition sample_context :: ScrapeOtlpContext where
  "sample_context = \<lparr>ctx_resource = [(''service'', ''db'')], ctx_scopeName = ''maple'', ctx_job = ''j'', ctx_instance = ''h'',
     ctx_targetLabels = [(''zone'', ''a''), (''env'', ''prod'')], ctx_scrapeTimeMs = Fin 1700000000000\<rparr>"

theorem mergeAttributes_get_witness:
  "map_of (mergeAttributes sample_context [(''job'', ''forged''), (''zone'', ''b'')]) ''job'' = Some ''j'' \<and>
   map_of (mergeAttributes sample_context [(''job'', ''forged''), (''zone'', ''b'')]) ''zone'' = Some ''b''"
  using mergeAttributes_get [of sample_context "[(''job'', ''forged''), (''zone'', ''b'')]" "''job''"]
    mergeAttributes_get [of sample_context "[(''job'', ''forged''), (''zone'', ''b'')]" "''zone''"]
  by (simp add: sample_context_def)

text \<open>
  C39. The per-bucket counts of a histogram. Prometheus counts are cumulative: when the counts of the finite bounds are natural
  numbers that do not decrease and end below the total, and subtraction is exact below two to the 53, then the OTLP counts up
  to a bound add up to the scraped count of that bound, and all of them to the point's count.
\<close>

theorem histogram_point_telescopes:
  assumes "exact_on_counts subtract" "histogram_point subtract ctx e = Some (Some p)"
    "map snd (filter (\<lambda>b. js_isFinite (fst b)) (sort_buckets (hs_buckets e))) = map (\<lambda>c. Fin (of_nat c)) cs"
    "hp_count p = Fin (of_nat n)" "n < 2 ^ 53" "sorted (cs @ [n])"
  shows "\<exists>ds. hp_bucketCounts p = map (\<lambda>c. Fin (of_nat c)) ds \<and> length ds = length (hp_explicitBounds p) + 1 \<and> sum_list ds = n \<and>
    (\<forall>i<length cs. sum_list (take (Suc i) ds) = cs ! i)"
proof -
  let ?ds = "differences 0 (cs @ [n])"
  have s: "sorted (0 # cs @ [n])" using assms(6) by simp
  obtain fb where fb: "fb = filter (\<lambda>b. js_isFinite (fst b)) (sort_buckets (hs_buckets e))"
      "hp_bucketCounts p = bucket_counts subtract (Fin 0) fb (Fin (of_nat n))" "hp_explicitBounds p = map fst fb"
    using assms(2,4) by (elim histogram_point_fields) auto
  have len: "length fb = length cs" using arg_cong [OF assms(3), of length] fb(1) by simp
  have "sum_list (take (Suc i) ?ds) = (cs @ [n]) ! i" if "i \<le> length cs" for i
    using differences_sum [OF s, of i] that by simp
  from this [of "length cs"] this have "sum_list ?ds = n" "\<forall>i<length cs. sum_list (take (Suc i) ?ds) = cs ! i"
    by (simp_all add: nth_append)
  moreover have "hp_bucketCounts p = map (\<lambda>c. Fin (of_nat c)) ?ds"
    using bucket_counts_differences [OF assms(1) s assms(5), of fb] assms(3) fb(1,2) by simp
  ultimately show ?thesis using fb(3) len by (intro exI [of _ ?ds]) simp
qed

definition sample_series :: HistogramSeries where
  "sample_series = \<lparr>hs_labels = [], hs_buckets = [(Fin 5, Fin 3), (PosInf, Fin 7), (Fin 1, Fin 2)], hs_sum = None, hs_count = None,
     hs_timestampMs = None\<rparr>"

theorem histogram_point_telescopes_witness:
  "\<exists>p ds. histogram_point (\<lambda>a b. Fin (a - b)) sample_context sample_series = Some (Some p) \<and>
     hp_bucketCounts p = map (\<lambda>c. Fin (of_nat c)) ds \<and> length ds = 3 \<and> sum_list ds = 7 \<and>
     (\<forall>i<2. sum_list (take (Suc i) ds) = [2, 3] ! i)"
proof -
  have sb: "sort_buckets (hs_buckets sample_series) = [(Fin 1, Fin 2), (Fin 5, Fin 3), (PosInf, Fin 7)]"
    by (simp add: sort_buckets_def sample_series_def)
  obtain p where p: "histogram_point (\<lambda>a b. Fin (a - b)) sample_context sample_series = Some (Some p)" "hp_count p = Fin 7"
      "hp_explicitBounds p = [Fin 1, Fin 5]"
    using toUnixNano_returns [of sample_context None] sb
    by (auto simp: histogram_point_def total_count_def Let_def sample_context_def stamp_ok_def) (simp add: sample_series_def)
  have e: "exact_on_counts (\<lambda>a b. Fin (a - b))" by (simp add: exact_on_counts_def)
  show ?thesis using histogram_point_telescopes [OF e p(1), of "[2, 3]" 7] p sb by auto
qed

lemma conversion_total:
  assumes "js_isFinite (ctx_scrapeTimeMs ctx)" "\<forall>f\<in>set fams. \<forall>s\<in>set (fam_samples f). stamp_ok (sm_timestampMs s)"
  shows "\<exists>r. convertFamiliesToOtlp Number subtract fams ctx = Some r \<and>
    (let c = conv_dataPointCounts r in
       case conv_request r of
         None \<Rightarrow> cnt_sum c + cnt_gauge c + cnt_histogram c = 0
       | Some request \<Rightarrow>
           list_all (\<lambda>rm. list_all (\<lambda>sm. list_all metric_ok (scope_metrics sm)) (rm_scopeMetrics rm)) request \<and>
           countDataPoints request = cnt_sum c + cnt_gauge c + cnt_histogram c \<and> 0 < countDataPoints request)"
proof -
  obtain st where "fold_throw (convert_family Number subtract ctx) fams empty_state = Some st"
    using fold_throw_returns [of fams "convert_family Number subtract ctx"] convert_family_returns [OF assms(1)] assms(2) by blast
  then obtain r where r: "convertFamiliesToOtlp Number subtract fams ctx = Some r" by (simp add: convertFamiliesToOtlp_def)
  then obtain st where st: "state_ok st" "conv_dataPointCounts r = st_counts st"
    "conv_request r = (if st_metrics st = [] then None else Some [\<lparr>rm_resource = own_order (ctx_resource ctx),
       rm_scopeMetrics = [\<lparr>scope_name = ctx_scopeName ctx, scope_metrics = st_metrics st\<rparr>]\<rparr>])" by (rule converted)
  have count: "sum_list (map metricDataPointCount ms) = sum_list (map sum_points ms) + sum_list (map gauge_points ms) + sum_list (map histogram_points ms)" for ms
    by (induction ms) (simp_all add: metricDataPointCount_def point_defs)
  have "0 < metricDataPointCount m" if "metric_ok m" for m using that by (auto simp: metric_ok_def metricDataPointCount_def)
  then have "0 < sum_list (map metricDataPointCount (st_metrics st))" if "st_metrics st \<noteq> []"
    using that st(1) by (cases "st_metrics st") (auto simp: state_ok_def)
  then show ?thesis using r st count [of "st_metrics st"] by (auto simp: state_ok_def countDataPoints_def Let_def)
qed

text \<open>
  C40. The conversion returns when the scrape time and every timestamp are finite. Every metric of the request then has exactly
  one aggregation with at least one point; every value, count, sum and bound is finite, so that JSON can carry it; a histogram
  has one count more than bounds, and the bounds are in order. The three counts reported are the points of the request, and
  there is no request only when there is no point.
\<close>

theorem convertFamiliesToOtlp_total:
  assumes "js_isFinite (ctx_scrapeTimeMs ctx)" "\<forall>f\<in>set fams. \<forall>s\<in>set (fam_samples f). stamp_ok (sm_timestampMs s)"
  shows "\<exists>r. convertFamiliesToOtlp Number subtract fams ctx = Some r \<and>
    (let c = conv_dataPointCounts r in
       case conv_request r of
         None \<Rightarrow> cnt_sum c + cnt_gauge c + cnt_histogram c = 0
       | Some request \<Rightarrow>
           list_all (\<lambda>rm. list_all (\<lambda>sm. list_all metric_ok (scope_metrics sm)) (rm_scopeMetrics rm)) request \<and>
           countDataPoints request = cnt_sum c + cnt_gauge c + cnt_histogram c \<and> 0 < countDataPoints request)"
  by (rule conversion_total [OF assms])

theorem convertFamiliesToOtlp_total_witness:
  "\<exists>r. convertFamiliesToOtlp (\<lambda>_. Fin 1) (\<lambda>a b. Fin (a - b)) [sample_family] sample_context = Some r \<and>
    (let c = conv_dataPointCounts r in
       case conv_request r of
         None \<Rightarrow> cnt_sum c + cnt_gauge c + cnt_histogram c = 0
       | Some request \<Rightarrow>
           list_all (\<lambda>rm. list_all (\<lambda>sm. list_all metric_ok (scope_metrics sm)) (rm_scopeMetrics rm)) request \<and>
           countDataPoints request = cnt_sum c + cnt_gauge c + cnt_histogram c \<and> 0 < countDataPoints request)"
  by (rule convertFamiliesToOtlp_total) (simp_all add: sample_context_def sample_family_def stamp_ok_def)

text \<open>
  One sample whose timestamp is too large for a number, such as \<open>1e999\<close>, is accepted by the parser, with no line skipped,
  and then makes the conversion of the whole scrape throw: \<open>BigInt\<close> does not take infinity.
\<close>

definition stamped_family :: PromMetricFamily where
  "stamped_family = \<lparr>fam_name = ''up'', fam_type = gauge, fam_help = None, fam_unit = None, fam_samples =
     [\<lparr>sm_name = ''up'', sm_labels = [], sm_value = Fin 1, sm_timestampMs = None\<rparr>,
      \<lparr>sm_name = ''up'', sm_labels = [], sm_value = Fin 1, sm_timestampMs = Some PosInf\<rparr>]\<rparr>"

theorem infinite_timestamp_throws:
  assumes "Number ''1'' = Fin 1" "Number ''1e999'' = PosInf"
  shows "parsePrometheusText Number times1000 (''# TYPE up gauge'' @ [NL] @ ''up 1'' @ [NL] @ ''up 1 1e999'' @ [NL]) =
      \<lparr>pr_families = [stamped_family], pr_skippedLineCount = 0\<rparr> \<and>
    convertFamiliesToOtlp Number subtract [stamped_family] ctx = None"
proof
  let ?v = "\<lambda>_ :: jsnum. ''1''" and ?t = "\<lambda>_ :: jsnum. ''1e999''"
  have n: "metric_name ''up''" by (simp add: metric_name_def METRIC_NAME_RE_def letter_def)
  have t: "token ''1''" "token ''1e999''" "parseSampleValue Number ''1'' = Some (Fin 1)"
    using assms by (simp_all add: token_def js_space_def parseSampleValue_def)
  have "list_all (family_ok Number times1000 ?v ?t (fam_name ` set [stamped_family])) [stamped_family]"
    using n t assms by (simp add: stamped_family_def family_ok_def labels_ok_def belongs_def ends_with_def value_ok_def)
  then have "parsePrometheusText Number times1000 (print_exposition ?v ?t [stamped_family]) = \<lparr>pr_families = [stamped_family], pr_skippedLineCount = 0\<rparr>"
    by (rule exposition_read) simp
  moreover have "print_exposition ?v ?t [stamped_family] = ''# TYPE up gauge'' @ [NL] @ ''up 1'' @ [NL] @ ''up 1 1e999'' @ [NL]"
    by (simp add: print_exposition_def family_lines_def stamped_family_def print_sample_def header_line_def)
  ultimately show "parsePrometheusText Number times1000 (''# TYPE up gauge'' @ [NL] @ ''up 1'' @ [NL] @ ''up 1 1e999'' @ [NL]) =
      \<lparr>pr_families = [stamped_family], pr_skippedLineCount = 0\<rparr>" by simp
  have "number_points ctx (fam_samples stamped_family) = None"
    by (simp add: stamped_family_def numberDataPoint_def toUnixNano_def split: option.split)
  then have "convert_group stamped_family ctx False (''up'', fam_samples stamped_family) st = None" for st
    by (simp add: convert_group_def)
  moreover have "groupByName (fam_samples stamped_family) = [(''up'', fam_samples stamped_family)]"
    by (simp add: groupByName_def stamped_family_def)
  moreover have "fam_type stamped_family = gauge" by (simp add: stamped_family_def)
  ultimately show "convertFamiliesToOtlp Number subtract [stamped_family] ctx = None"
    by (simp add: convertFamiliesToOtlp_def convert_family_def convertNumberFamily_def)
qed

theorem infinite_timestamp_throws_witness:
  "parsePrometheusText (\<lambda>t. if t = ''1e999'' then PosInf else Fin 1) (\<lambda>r. r * 1000) (''# TYPE up gauge'' @ [NL] @ ''up 1'' @ [NL] @ ''up 1 1e999'' @ [NL]) =
      \<lparr>pr_families = [stamped_family], pr_skippedLineCount = 0\<rparr> \<and>
    convertFamiliesToOtlp (\<lambda>t. if t = ''1e999'' then PosInf else Fin 1) (\<lambda>a b. Fin (a - b)) [stamped_family] sample_context = None"
  by (rule infinite_timestamp_throws) simp_all

end
