(* ===== verification/Otlp_Split.thy ===== *)
theory Otlp_Split
  imports Otlp_Convert
begin

text \<open>
  Splitting an export request for delivery, after the second half of \<^verbatim>\<open>lib/prometheus-otlp/src/otlp.ts\<close>: \<open>slicerFor\<close>,
  \<open>mergeExportRequests\<close>, \<open>splitExportRequest\<close> and \<open>encodeExportRequestChunks\<close>.

  The variables that the closures \<open>flush\<close> and \<open>close\<close> share are the fields of a state record. The budget of points is an
  integer, or \<open>None\<close> for a number that is not finite. The \<open>while\<close> loop over a metric is a partial function, whose value
  \<open>None\<close> is not returning; that it returns is proved. \<open>encode\<close>, the bytes of a request, and \<open>ratio\<close>, the floor of
  \<open>points * maxBytes * 0.9 / byteLength\<close> in floating point, are arguments.
\<close>

section \<open>Slices\<close>

record MetricSlicer =
  sl_count :: nat
  sl_slice :: "nat \<Rightarrow> nat \<Rightarrow> OtlpMetric"

definition slice_range :: "nat \<Rightarrow> nat \<Rightarrow> 'a list \<Rightarrow> 'a list" where
  "slice_range from_i to_i xs = take (to_i - from_i) (drop from_i xs)"

definition metric_head :: "OtlpMetric \<Rightarrow> OtlpMetric" where
  "metric_head m = m\<lparr>m_gauge := None, m_sum := None, m_histogram := None\<rparr>"

definition slicerFor :: "OtlpMetric \<Rightarrow> MetricSlicer" where
  "slicerFor m =
     (case m_gauge m of
        Some ps \<Rightarrow> \<lparr>sl_count = length ps, sl_slice = (\<lambda>i j. (metric_head m)\<lparr>m_gauge := Some (slice_range i j ps)\<rparr>)\<rparr>
      | None \<Rightarrow>
          (case m_sum m of
             Some s \<Rightarrow> \<lparr>sl_count = length (sum_dataPoints s),
               sl_slice = (\<lambda>i j. (metric_head m)\<lparr>m_sum := Some (s\<lparr>sum_dataPoints := slice_range i j (sum_dataPoints s)\<rparr>)\<rparr>)\<rparr>
           | None \<Rightarrow>
               (case m_histogram m of
                  Some h \<Rightarrow> \<lparr>sl_count = length (hist_dataPoints h),
                    sl_slice = (\<lambda>i j. (metric_head m)\<lparr>m_histogram := Some (h\<lparr>hist_dataPoints := slice_range i j (hist_dataPoints h)\<rparr>)\<rparr>)\<rparr>
                | None \<Rightarrow> \<lparr>sl_count = 0, sl_slice = (\<lambda>_ _. m)\<rparr>)))"

definition mergeExportRequests :: "OtlpExportRequest list \<Rightarrow> OtlpExportRequest" where
  "mergeExportRequests requests = concat requests"

section \<open>Splitting by points\<close>

record SplitState =
  sp_chunks :: "OtlpExportRequest list"
  sp_chunk :: OtlpExportRequest
  sp_batched :: nat
  sp_metrics :: "OtlpMetric list"

definition flush :: "SplitState \<Rightarrow> SplitState" where
  "flush st = st\<lparr>sp_chunks := (if sp_chunk st \<noteq> [] then sp_chunks st @ [sp_chunk st] else sp_chunks st), sp_chunk := [], sp_batched := 0\<rparr>"

definition close_scope :: "OtlpKeyValue list \<Rightarrow> string \<Rightarrow> SplitState \<Rightarrow> SplitState" where
  "close_scope res scope st =
     (if sp_metrics st = [] then st
      else st\<lparr>sp_chunk := sp_chunk st @ [\<lparr>rm_resource = res, rm_scopeMetrics = [\<lparr>scope_name = scope, scope_metrics = sp_metrics st\<rparr>]\<rparr>],
              sp_metrics := []\<rparr>)"

definition push_slice :: "nat \<Rightarrow> OtlpKeyValue list \<Rightarrow> string \<Rightarrow> MetricSlicer \<Rightarrow> nat \<Rightarrow> nat \<Rightarrow> SplitState \<Rightarrow> SplitState" where
  "push_slice budget res scope slicer offset n st =
     (let st' = st\<lparr>sp_metrics := sp_metrics st @ [sl_slice slicer offset (offset + n)], sp_batched := sp_batched st + n\<rparr>
      in if budget \<le> sp_batched st' then flush (close_scope res scope st') else st')"

partial_function (option) slice_loop ::
    "nat \<Rightarrow> OtlpKeyValue list \<Rightarrow> string \<Rightarrow> MetricSlicer \<Rightarrow> nat \<Rightarrow> SplitState \<Rightarrow> SplitState option" where
  "slice_loop budget res scope slicer offset st =
     (if offset < sl_count slicer
      then let n = min (budget - sp_batched st) (sl_count slicer - offset)
           in slice_loop budget res scope slicer (offset + n) (push_slice budget res scope slicer offset n st)
      else Some st)"

definition split_scope :: "nat \<Rightarrow> OtlpKeyValue list \<Rightarrow> ScopeMetrics \<Rightarrow> SplitState \<Rightarrow> SplitState option" where
  "split_scope budget res sm st =
     map_option (close_scope res (scope_name sm))
       (fold_throw (\<lambda>m. slice_loop budget res (scope_name sm) (slicerFor m) 0) (scope_metrics sm) (st\<lparr>sp_metrics := []\<rparr>))"

definition split_resource :: "nat \<Rightarrow> ResourceMetrics \<Rightarrow> SplitState \<Rightarrow> SplitState option" where
  "split_resource budget rm st = fold_throw (split_scope budget (rm_resource rm)) (rm_scopeMetrics rm) st"

definition start_split :: SplitState where
  "start_split = \<lparr>sp_chunks = [], sp_chunk = [], sp_batched = 0, sp_metrics = []\<rparr>"

definition splitExportRequest :: "OtlpExportRequest \<Rightarrow> int option \<Rightarrow> OtlpExportRequest list option" where
  "splitExportRequest request maxDataPoints =
     (case maxDataPoints of
        None \<Rightarrow> Some [request]
      | Some budget \<Rightarrow>
          if budget \<le> 0 then Some [request]
          else if int (countDataPoints request) \<le> budget then Some [request]
          else map_option (\<lambda>st. sp_chunks (flush st)) (fold_throw (split_resource (nat budget)) request start_split))"

section \<open>The points of a request\<close>

datatype aggregation = AggGauge | AggSum nat bool | AggHistogram nat

type_synonym any_point = "OtlpNumberDataPoint + OtlpHistogramDataPoint"
type_synonym placed_point = "OtlpKeyValue list \<times> string \<times> (string \<times> string \<times> string) \<times> aggregation \<times> any_point"

definition gauge_list :: "OtlpMetric \<Rightarrow> (aggregation \<times> any_point) list" where
  "gauge_list m = (case m_gauge m of Some ps \<Rightarrow> map (\<lambda>p. (AggGauge, Inl p)) ps | None \<Rightarrow> [])"

definition sum_points_list :: "OtlpMetric \<Rightarrow> (aggregation \<times> any_point) list" where
  "sum_points_list m = (case m_sum m of
     Some s \<Rightarrow> map (\<lambda>p. (AggSum (sum_aggregationTemporality s) (sum_isMonotonic s), Inl p)) (sum_dataPoints s) | None \<Rightarrow> [])"

definition histogram_list :: "OtlpMetric \<Rightarrow> (aggregation \<times> any_point) list" where
  "histogram_list m = (case m_histogram m of
     Some h \<Rightarrow> map (\<lambda>p. (AggHistogram (hist_aggregationTemporality h), Inr p)) (hist_dataPoints h) | None \<Rightarrow> [])"

lemmas point_lists = gauge_list_def sum_points_list_def histogram_list_def

text \<open>Every point, with the resource, the scope, the metric and the aggregation it stands under\<close>

definition placed :: "OtlpKeyValue list \<Rightarrow> string \<Rightarrow> OtlpMetric \<Rightarrow> placed_point list" where
  "placed res scope m = map (\<lambda>p. (res, scope, (m_name m, m_description m, m_unit m), p)) (gauge_list m @ sum_points_list m @ histogram_list m)"

definition request_points :: "OtlpExportRequest \<Rightarrow> placed_point list" where
  "request_points request =
     concat (map (\<lambda>rm. concat (map (\<lambda>sm. concat (map (placed (rm_resource rm) (scope_name sm)) (scope_metrics sm))) (rm_scopeMetrics rm))) request)"

text \<open>At most one aggregation\<close>

definition one_aggregation :: "OtlpMetric \<Rightarrow> bool" where
  "one_aggregation m \<longleftrightarrow>
     (m_gauge m = None \<or> m_sum m = None) \<and> (m_gauge m = None \<or> m_histogram m = None) \<and> (m_sum m = None \<or> m_histogram m = None)"

definition request_ok :: "OtlpExportRequest \<Rightarrow> bool" where
  "request_ok request \<longleftrightarrow> list_all (\<lambda>rm. list_all (\<lambda>sm. list_all one_aggregation (scope_metrics sm)) (rm_scopeMetrics rm)) request"

section \<open>One metric\<close>

definition first_only :: "OtlpMetric \<Rightarrow> OtlpMetric" where
  "first_only m = (if m_gauge m \<noteq> None then m\<lparr>m_sum := None, m_histogram := None\<rparr> else if m_sum m \<noteq> None then m\<lparr>m_histogram := None\<rparr> else m)"

lemma first_only_id: "one_aggregation m \<Longrightarrow> first_only m = m"
  by (cases m) (auto simp: one_aggregation_def first_only_def)

lemma slice_range_map: "slice_range i j (map f xs) = map f (slice_range i j xs)"
  by (simp add: slice_range_def take_map drop_map)

lemma slice_points:
  "i < sl_count (slicerFor m) \<Longrightarrow> placed res scope (sl_slice (slicerFor m) i j) = slice_range i j (placed res scope (first_only m))"
  by (auto simp: slicerFor_def placed_def point_lists first_only_def metric_head_def slice_range_map split: option.splits)

lemma slice_one: "i < sl_count (slicerFor m) \<Longrightarrow> one_aggregation (sl_slice (slicerFor m) i j)"
  by (auto simp: slicerFor_def one_aggregation_def metric_head_def split: option.splits)

lemma slicer_count: "sl_count (slicerFor m) = length (placed res scope (first_only m))"
  by (auto simp: slicerFor_def placed_def point_lists first_only_def split: option.splits)

lemma length_placed: "length (placed res scope m) = metricDataPointCount m"
  by (simp add: placed_def point_lists metricDataPointCount_def split: option.split)

lemma countDataPoints_length: "countDataPoints request = length (request_points request)"
  by (simp add: countDataPoints_def request_points_def length_concat comp_def length_placed)

lemma request_points_append: "request_points (a @ b) = request_points a @ request_points b"
  by (simp add: request_points_def)

lemma request_points_one:
  "request_points [\<lparr>rm_resource = res, rm_scopeMetrics = [\<lparr>scope_name = scope, scope_metrics = ms\<rparr>]\<rparr>] = concat (map (placed res scope) ms)"
  by (simp add: request_points_def)

section \<open>The state of a split\<close>

definition open_points :: "OtlpKeyValue list \<Rightarrow> string \<Rightarrow> SplitState \<Rightarrow> placed_point list" where
  "open_points res scope st = request_points (sp_chunk st) @ concat (map (placed res scope) (sp_metrics st))"

definition all_points :: "OtlpKeyValue list \<Rightarrow> string \<Rightarrow> SplitState \<Rightarrow> placed_point list" where
  "all_points res scope st = concat (map request_points (sp_chunks st)) @ open_points res scope st"

definition split_inv :: "nat \<Rightarrow> OtlpKeyValue list \<Rightarrow> string \<Rightarrow> SplitState \<Rightarrow> bool" where
  "split_inv budget res scope st \<longleftrightarrow>
     sp_batched st = length (open_points res scope st) \<and> sp_batched st < budget \<and>
     (sp_batched st = 0 \<longrightarrow> sp_chunk st = [] \<and> sp_metrics st = []) \<and>
     list_all (\<lambda>c. length (request_points c) = budget \<and> request_ok c) (sp_chunks st) \<and>
     request_ok (sp_chunk st) \<and> list_all one_aggregation (sp_metrics st)"

lemma close_points:
  "open_points res' scope' (close_scope res scope st) = request_points (sp_chunk (close_scope res scope st))"
  "request_points (sp_chunk (close_scope res scope st)) = open_points res scope st"
  "sp_chunks (close_scope res scope st) = sp_chunks st" "sp_batched (close_scope res scope st) = sp_batched st"
  "sp_metrics (close_scope res scope st) = []"
  by (simp_all add: close_scope_def open_points_def request_points_append request_points_one)

lemma close_ok: "request_ok (sp_chunk st) \<Longrightarrow> list_all one_aggregation (sp_metrics st) \<Longrightarrow> request_ok (sp_chunk (close_scope res scope st))"
  by (simp add: close_scope_def request_ok_def)

lemma close_inv: "split_inv budget res scope st \<Longrightarrow> split_inv budget res' scope' (close_scope res scope st)"
  unfolding split_inv_def by (auto simp: close_points close_ok) (auto simp: close_scope_def open_points_def)

lemma empty_request [simp]: "request_points [] = []" "request_ok []"
  by (simp_all add: request_points_def request_ok_def)

lemma flush_inv:
  assumes "length (request_points (sp_chunk st)) = budget" "0 < budget" "request_ok (sp_chunk st)" "sp_metrics st = []"
    "list_all (\<lambda>c. length (request_points c) = budget \<and> request_ok c) (sp_chunks st)"
  shows "split_inv budget res scope (flush st)"
  using assms by (simp add: split_inv_def flush_def open_points_def)

text \<open>One turn of the loop: the next points go in, and a full chunk is put away.\<close>

lemma push_slice_inv:
  assumes "split_inv budget res scope st" "offset < sl_count (slicerFor m)"
    "n = min (budget - sp_batched st) (sl_count (slicerFor m) - offset)"
  shows "split_inv budget res scope (push_slice budget res scope (slicerFor m) offset n st)"
    "all_points res scope (push_slice budget res scope (slicerFor m) offset n st) =
       all_points res scope st @ take n (drop offset (placed res scope (first_only m)))"
    "0 < n"
proof -
  let ?s = "sl_slice (slicerFor m) offset (offset + n)"
  define st' where "st' = st\<lparr>sp_metrics := sp_metrics st @ [?s], sp_batched := sp_batched st + n\<rparr>"
  have pts: "placed res scope ?s = take n (drop offset (placed res scope (first_only m)))"
    using slice_points [OF assms(2)] by (simp add: slice_range_def)
  have "n \<le> length (placed res scope (first_only m)) - offset" using assms(3) slicer_count [of m res scope] by simp
  then have len: "length (placed res scope ?s) = n" by (simp add: pts min_absorb2)
  have inv: "sp_batched st < budget" "sp_batched st = length (open_points res scope st)"
      "list_all (\<lambda>c. length (request_points c) = budget \<and> request_ok c) (sp_chunks st)" "request_ok (sp_chunk st)"
      "list_all one_aggregation (sp_metrics st')"
    using assms(1) slice_one [OF assms(2)] by (simp_all add: split_inv_def st'_def)
  show pos: "0 < n" using inv(1) assms(2,3) by simp
  have opened: "open_points res scope st' = open_points res scope st @ placed res scope ?s" by (simp add: st'_def open_points_def)
  have step: "push_slice budget res scope (slicerFor m) offset n st = (if budget \<le> sp_batched st + n then flush (close_scope res scope st') else st')"
    by (simp add: push_slice_def st'_def)
  have same: "sp_chunks st' = sp_chunks st" "sp_chunk st' = sp_chunk st" "sp_batched st' = sp_batched st + n" by (simp_all add: st'_def)
  show "split_inv budget res scope (push_slice budget res scope (slicerFor m) offset n st)"
  proof (cases "budget \<le> sp_batched st + n")
    case True
    then have "length (open_points res scope st') = budget" using inv(1,2) assms(3) opened len by simp
    then have "split_inv budget res scope (flush (close_scope res scope st'))"
      using inv same by (intro flush_inv) (simp_all add: close_points close_ok)
    then show ?thesis using True by (simp add: step)
  next
    case False
    then show ?thesis using inv same pos opened len by (simp add: step split_inv_def)
  qed
  have "sp_chunk (close_scope res scope st') \<noteq> []" by (simp add: close_scope_def st'_def)
  then have "all_points res scope (flush (close_scope res scope st')) = all_points res scope st'"
    by (simp add: all_points_def flush_def close_points) (simp add: open_points_def request_points_def close_points)
  then have "all_points res scope (push_slice budget res scope (slicerFor m) offset n st) = all_points res scope st'" by (simp add: step)
  then show "all_points res scope (push_slice budget res scope (slicerFor m) offset n st) =
      all_points res scope st @ take n (drop offset (placed res scope (first_only m)))"
    using opened pts same by (simp add: all_points_def)
qed

lemma slice_loop_points:
  assumes "split_inv budget res scope st" "offset \<le> sl_count (slicerFor m)"
  shows "\<exists>st'. slice_loop budget res scope (slicerFor m) offset st = Some st' \<and> split_inv budget res scope st' \<and>
    all_points res scope st' = all_points res scope st @ drop offset (placed res scope (first_only m))"
  using assms
proof (induction "sl_count (slicerFor m) - offset" arbitrary: offset st rule: less_induct)
  case less
  let ?c = "sl_count (slicerFor m)" and ?ps = "placed res scope (first_only m)"
  show ?case
  proof (cases "offset < ?c")
    case True
    define n where "n = min (budget - sp_batched st) (?c - offset)"
    let ?st = "push_slice budget res scope (slicerFor m) offset n st"
    note turn = push_slice_inv [OF less.prems(1) True n_def]
    have "?c - (offset + n) < ?c - offset" "offset + n \<le> ?c" using turn(3) True n_def by auto
    from less.hyps [OF this(1) turn(1) this(2)] obtain st' where st': "slice_loop budget res scope (slicerFor m) (offset + n) ?st = Some st'"
      "split_inv budget res scope st'" "all_points res scope st' = all_points res scope ?st @ drop (offset + n) ?ps" by blast
    have "take n (drop offset ?ps) @ drop (offset + n) ?ps = drop offset ?ps"
      using append_take_drop_id [of n "drop offset ?ps"] by (simp add: add.commute)
    then have "all_points res scope st' = all_points res scope st @ drop offset ?ps" using st'(3) turn(2) by simp
    moreover have "slice_loop budget res scope (slicerFor m) offset st = slice_loop budget res scope (slicerFor m) (offset + n) ?st"
      using True by (subst slice_loop.simps) (simp only: Let_def n_def if_True)
    ultimately show ?thesis using st'(1,2) by simp
  next
    case False
    then show ?thesis using less.prems slicer_count [of m res scope] by (subst slice_loop.simps) simp
  qed
qed

section \<open>The whole request\<close>

lemma fold_throw_appends:
  assumes "\<And>x s. x \<in> set xs \<Longrightarrow> I s \<Longrightarrow> \<exists>s'. f x s = Some s' \<and> I s' \<and> A s' = A s @ g x" "I s"
  shows "\<exists>s'. fold_throw f xs s = Some s' \<and> I s' \<and> A s' = A s @ concat (map g xs)"
  using assms
proof (induction xs arbitrary: s)
  case (Cons x xs)
  obtain t where t: "f x s = Some t" "I t" "A t = A s @ g x" using Cons.prems by fastforce
  show ?case using Cons.IH [OF Cons.prems(1) t(2)] t by fastforce
qed simp

text \<open>Between two scopes there is no open metric.\<close>

definition between :: "nat \<Rightarrow> SplitState \<Rightarrow> bool" where
  "between budget st \<longleftrightarrow> split_inv budget [] [] st \<and> sp_metrics st = []"

lemma between_iff: "sp_metrics st = [] \<Longrightarrow> between budget st \<longleftrightarrow> split_inv budget res scope st"
  "sp_metrics st = [] \<Longrightarrow> all_points res scope st = all_points [] [] st"
  by (simp_all add: between_def split_inv_def all_points_def open_points_def)

lemma split_scope_points:
  assumes "between budget st"
  shows "\<exists>st'. split_scope budget res sm st = Some st' \<and> between budget st' \<and>
    all_points [] [] st' = all_points [] [] st @ concat (map (placed res (scope_name sm) \<circ> first_only) (scope_metrics sm))"
proof -
  let ?sc = "scope_name sm"
  have e: "sp_metrics st = []" "st\<lparr>sp_metrics := []\<rparr> = st" using assms by (auto simp: between_def)
  then have i: "split_inv budget res ?sc st" using assms between_iff(1) by blast
  obtain s' where s': "fold_throw (\<lambda>m. slice_loop budget res ?sc (slicerFor m) 0) (scope_metrics sm) st = Some s'"
    "split_inv budget res ?sc s'" "all_points res ?sc s' = all_points res ?sc st @ concat (map (placed res ?sc \<circ> first_only) (scope_metrics sm))"
    using fold_throw_appends [where I = "split_inv budget res ?sc" and A = "all_points res ?sc" and s = st and xs = "scope_metrics sm"
        and f = "\<lambda>m. slice_loop budget res ?sc (slicerFor m) 0" and g = "placed res ?sc \<circ> first_only"] slice_loop_points i
    by fastforce
  have "between budget (close_scope res ?sc s')" using close_inv [OF s'(2)] by (simp add: between_def close_points)
  moreover have "all_points [] [] (close_scope res ?sc s') = all_points res ?sc s'" by (simp add: all_points_def close_points)
  moreover have "split_scope budget res sm st = Some (close_scope res ?sc s')" unfolding split_scope_def e(2) using s'(1) by simp
  ultimately show ?thesis using s'(3) between_iff(2) [OF e(1), of res ?sc] by simp
qed

definition first_points :: "OtlpExportRequest \<Rightarrow> placed_point list" where
  "first_points request =
     concat (map (\<lambda>rm. concat (map (\<lambda>sm. concat (map (placed (rm_resource rm) (scope_name sm) \<circ> first_only) (scope_metrics sm))) (rm_scopeMetrics rm))) request)"

lemma first_points_all: "request_ok request \<Longrightarrow> first_points request = request_points request"
  unfolding first_points_def request_points_def request_ok_def
  by (intro arg_cong [where f = concat] map_cong refl) (auto simp: list_all_iff first_only_id)

lemma split_loop:
  assumes "0 < budget"
  shows "\<exists>st. fold_throw (split_resource budget) request start_split = Some st \<and> between budget st \<and> all_points [] [] st = first_points request"
proof -
  let ?g = "\<lambda>rm sm. concat (map (placed (rm_resource rm) (scope_name sm) \<circ> first_only) (scope_metrics sm))"
  have r: "\<exists>st'. split_resource budget rm st = Some st' \<and> between budget st' \<and> all_points [] [] st' = all_points [] [] st @ concat (map (?g rm) (rm_scopeMetrics rm))"
    if "between budget st" for rm st
    unfolding split_resource_def by (rule fold_throw_appends [where I = "between budget"]) (use split_scope_points that in auto)
  have "between budget start_split" "all_points [] [] start_split = []"
    using assms by (simp_all add: between_def split_inv_def start_split_def open_points_def all_points_def request_points_def request_ok_def)
  then show ?thesis
    using fold_throw_appends [where I = "between budget" and A = "all_points [] []" and s = start_split and xs = request and f = "split_resource budget"
        and g = "\<lambda>rm. concat (map (?g rm) (rm_scopeMetrics rm))"] r
    by (simp add: first_points_def)
qed

lemma split_chunks:
  assumes "0 < budget" "budget < int (countDataPoints request)"
  obtains full rest where "splitExportRequest request (Some budget) = Some (full @ rest)"
    "concat (map request_points (full @ rest)) = first_points request" "list_all request_ok (full @ rest)"
    "\<forall>c\<in>set full. int (countDataPoints c) = budget" "length rest \<le> 1" "\<forall>c\<in>set rest. int (countDataPoints c) < budget \<and> 0 < countDataPoints c"
proof -
  obtain st where st: "fold_throw (split_resource (nat budget)) request start_split = Some st" "between (nat budget) st"
      "all_points [] [] st = first_points request" using split_loop [of "nat budget"] assms(1) by auto
  define rest where "rest = (if sp_chunk st = [] then [] else [sp_chunk st])"
  have inv: "sp_metrics st = []" "split_inv (nat budget) [] [] st" using st(2) by (auto simp: between_def)
  have "splitExportRequest request (Some budget) = Some (sp_chunks st @ rest)"
    using assms st(1) by (simp add: splitExportRequest_def rest_def flush_def)
  moreover have "concat (map request_points (sp_chunks st @ rest)) = first_points request"
    using st(3) inv(1) by (simp add: all_points_def open_points_def rest_def) (auto simp: request_points_def)
  moreover have "list_all request_ok (sp_chunks st @ rest)" using inv(2) by (auto simp: split_inv_def rest_def list_all_iff)
  moreover have "\<forall>c\<in>set (sp_chunks st). int (countDataPoints c) = budget"
    using inv(2) assms(1) by (auto simp: split_inv_def countDataPoints_length list_all_iff)
  moreover have "length rest \<le> 1" by (simp add: rest_def)
  moreover have "\<forall>c\<in>set rest. int (countDataPoints c) < budget \<and> 0 < countDataPoints c"
    using inv assms(1) by (auto simp: split_inv_def rest_def countDataPoints_length open_points_def)
  ultimately show ?thesis by (rule that)
qed

section \<open>Encoding\<close>

lemma splitExportRequest_budget:
  "splitExportRequest request maxDataPoints = Some chunks \<Longrightarrow> c \<in> set chunks \<Longrightarrow>
     (case maxDataPoints of Some b \<Rightarrow> if 0 < b then int (countDataPoints c) \<le> b else c = request | None \<Rightarrow> c = request)"
proof (cases "\<exists>b. maxDataPoints = Some b \<and> 0 < b \<and> b < int (countDataPoints request)")
  case True
  assume s: "splitExportRequest request maxDataPoints = Some chunks" "c \<in> set chunks"
  from True obtain b where b: "maxDataPoints = Some b" "0 < b" "b < int (countDataPoints request)" by blast
  from b(2,3) show ?thesis by (rule split_chunks) (use s b(1,2) in force)
qed (auto simp: splitExportRequest_def split: option.splits if_splits)

definition fit_points :: "(nat \<Rightarrow> nat \<Rightarrow> nat \<Rightarrow> nat) \<Rightarrow> nat \<Rightarrow> nat \<Rightarrow> nat \<Rightarrow> nat" where
  "fit_points ratio points maxBytes byteLength = max 1 (min (points - 1) (ratio points maxBytes byteLength))"

function encodeExportRequestChunks ::
    "(OtlpExportRequest \<Rightarrow> 'b list) \<Rightarrow> (nat \<Rightarrow> nat \<Rightarrow> nat \<Rightarrow> nat) \<Rightarrow> OtlpExportRequest \<Rightarrow> int option \<Rightarrow> nat \<Rightarrow> 'b list list option" where
  "encodeExportRequestChunks encode ratio request maxDataPoints maxBytes =
     (case splitExportRequest request maxDataPoints of
        None \<Rightarrow> None
      | Some chunks \<Rightarrow>
          map_option concat (those (map (\<lambda>chunk.
              let body = encode chunk; points = countDataPoints chunk
              in if length body \<le> maxBytes \<or> points \<le> 1 then Some [body]
                 else encodeExportRequestChunks encode ratio chunk (Some (int (fit_points ratio points maxBytes (length body)))) maxBytes)
            chunks)))"
  by pat_completeness auto

text \<open>
  The next budget is below the points of the chunk, which is within the last budget; where there was none, the chunk is
  the request.
\<close>

definition split_budget :: "OtlpExportRequest \<Rightarrow> int option \<Rightarrow> nat" where
  "split_budget request maxDataPoints =
     (case maxDataPoints of Some b \<Rightarrow> if 0 < b then nat b else countDataPoints request | None \<Rightarrow> countDataPoints request)"

lemma split_budget_decreases:
  assumes "splitExportRequest request maxDataPoints = Some chunks" "c \<in> set chunks" "\<not> countDataPoints c \<le> 1"
  shows "split_budget c (Some (int (fit_points ratio (countDataPoints c) maxBytes n))) < split_budget request maxDataPoints"
proof -
  have "fit_points ratio (countDataPoints c) maxBytes n < countDataPoints c" "0 < fit_points ratio (countDataPoints c) maxBytes n"
    using assms(3) by (auto simp: fit_points_def)
  moreover have "countDataPoints c \<le> split_budget request maxDataPoints"
    using splitExportRequest_budget [OF assms(1,2)] by (auto simp: split_budget_def split: option.splits if_splits)
  ultimately show ?thesis by (simp add: split_budget_def)
qed

termination encodeExportRequestChunks
  by (relation "measure (\<lambda>(encode, ratio, request, maxDataPoints, maxBytes). split_budget request maxDataPoints)")
    (auto simp: split_budget_decreases)

declare encodeExportRequestChunks.simps [simp del]

lemma those_map:
  assumes "\<And>x. x \<in> set xs \<Longrightarrow> \<exists>y. f x = Some y \<and> P x y"
  shows "\<exists>ys. those (map f xs) = Some ys \<and> list_all2 P xs ys"
  using assms
proof (induction xs)
  case (Cons x xs)
  obtain ys where "those (map f xs) = Some ys" "list_all2 P xs ys" using Cons by auto
  moreover obtain y where "f x = Some y" "P x y" using Cons.prems by auto
  ultimately show ?case by (intro exI [of _ "y # ys"]) simp
qed simp

lemma split_partition:
  assumes "request_ok request"
  shows "\<exists>chunks. splitExportRequest request maxDataPoints = Some chunks \<and> concat (map request_points chunks) = request_points request \<and>
    list_all request_ok chunks \<and>
    (case maxDataPoints of
       Some b \<Rightarrow> 0 < b \<longrightarrow> (\<forall>c\<in>set chunks. int (countDataPoints c) \<le> b) \<and> (\<forall>c\<in>set (butlast chunks). int (countDataPoints c) = b)
     | None \<Rightarrow> chunks = [request])"
proof (cases "\<exists>b. maxDataPoints = Some b \<and> 0 < b \<and> b < int (countDataPoints request)")
  case True
  then obtain b where b: "maxDataPoints = Some b" "0 < b" "b < int (countDataPoints request)" by blast
  obtain full rest where c: "splitExportRequest request (Some b) = Some (full @ rest)"
    "concat (map request_points (full @ rest)) = first_points request" "list_all request_ok (full @ rest)"
    "\<forall>c\<in>set full. int (countDataPoints c) = b" "length rest \<le> 1" "\<forall>c\<in>set rest. int (countDataPoints c) < b \<and> 0 < countDataPoints c"
    using split_chunks [OF b(2,3)] by blast
  have "set (butlast (full @ rest)) \<subseteq> set full" using c(5) by (cases rest) (auto simp: butlast_append dest: in_set_butlastD)
  then show ?thesis using b(1) c first_points_all [OF assms] by (intro exI [of _ "full @ rest"]) force
next
  case False
  then have "b \<le> 0 \<or> int (countDataPoints request) \<le> b" if "maxDataPoints = Some b" for b using that by fastforce
  then show ?thesis using assms
    by (intro exI [of _ "[request]"]) (cases maxDataPoints; auto simp: splitExportRequest_def)
qed

definition encoded :: "(OtlpExportRequest \<Rightarrow> 'b list) \<Rightarrow> nat \<Rightarrow> OtlpExportRequest \<Rightarrow> 'b list list \<Rightarrow> bool" where
  "encoded encode maxBytes request bodies \<longleftrightarrow>
     (\<exists>chunks. bodies = map encode chunks \<and> concat (map request_points chunks) = request_points request \<and>
        (\<forall>c\<in>set chunks. (length (encode c) \<le> maxBytes \<or> countDataPoints c \<le> 1) \<and> countDataPoints c \<le> countDataPoints request))"

lemma encoded_concat:
  assumes "list_all2 (encoded encode maxBytes) chunks bodies"
  shows "\<exists>cs. concat bodies = map encode cs \<and> concat (map request_points cs) = concat (map request_points chunks) \<and>
    (\<forall>c\<in>set cs. (length (encode c) \<le> maxBytes \<or> countDataPoints c \<le> 1) \<and> (\<exists>d\<in>set chunks. countDataPoints c \<le> countDataPoints d))"
  using assms
proof (induction rule: list_all2_induct)
  case (Cons x xs b bs)
  then obtain cs where cs: "concat bs = map encode cs" "concat (map request_points cs) = concat (map request_points xs)"
    "\<forall>c\<in>set cs. (length (encode c) \<le> maxBytes \<or> countDataPoints c \<le> 1) \<and> (\<exists>d\<in>set xs. countDataPoints c \<le> countDataPoints d)" by blast
  obtain zs where zs: "b = map encode zs" "concat (map request_points zs) = request_points x"
    "\<forall>c\<in>set zs. (length (encode c) \<le> maxBytes \<or> countDataPoints c \<le> 1) \<and> countDataPoints c \<le> countDataPoints x"
    using Cons.hyps(1) by (auto simp: encoded_def)
  show ?case using cs zs by (intro exI [of _ "zs @ cs"]) auto
qed simp

lemma encoded_self: "length (encode c) \<le> maxBytes \<or> countDataPoints c \<le> 1 \<Longrightarrow> encoded encode maxBytes c [encode c]"
  unfolding encoded_def by (intro exI [of _ "[c]"]) simp

lemma encode_chunks:
  assumes "request_ok request"
  shows "\<exists>bodies. encodeExportRequestChunks encode ratio request maxDataPoints maxBytes = Some bodies \<and>
    (\<exists>chunks. bodies = map encode chunks \<and> concat (map request_points chunks) = request_points request \<and>
       (\<forall>c\<in>set chunks. (length (encode c) \<le> maxBytes \<or> countDataPoints c \<le> 1) \<and>
          (case maxDataPoints of Some b \<Rightarrow> 0 < b \<longrightarrow> int (countDataPoints c) \<le> b | None \<Rightarrow> True)))"
  using assms
proof (induction encode ratio request maxDataPoints maxBytes rule: encodeExportRequestChunks.induct)
  case (1 encode ratio request maxDataPoints maxBytes)
  let ?fit = "\<lambda>c. int (fit_points ratio (countDataPoints c) maxBytes (length (encode c)))"
  let ?f = "\<lambda>c. let body = encode c; points = countDataPoints c in if length body \<le> maxBytes \<or> points \<le> 1 then Some [body]
      else encodeExportRequestChunks encode ratio c (Some (int (fit_points ratio points maxBytes (length body)))) maxBytes"
  obtain chunks where s: "splitExportRequest request maxDataPoints = Some chunks" "concat (map request_points chunks) = request_points request"
      "list_all request_ok chunks"
    using split_partition [OF "1.prems"] by blast
  have "\<exists>y. ?f c = Some y \<and> encoded encode maxBytes c y" if c: "c \<in> set chunks" for c
  proof (cases "length (encode c) \<le> maxBytes \<or> countDataPoints c \<le> 1")
    case False
    then have fit: "0 < ?fit c" "?fit c \<le> int (countDataPoints c)" by (auto simp: fit_points_def)
    have "request_ok c" using s(3) c by (simp add: list_all_iff)
    from "1.IH" [OF s(1) c refl refl False this] obtain cs where
      cs: "encodeExportRequestChunks encode ratio c (Some (?fit c)) maxBytes = Some (map encode cs)"
      "concat (map request_points cs) = request_points c"
      "\<forall>d\<in>set cs. (length (encode d) \<le> maxBytes \<or> countDataPoints d \<le> 1) \<and> (0 < ?fit c \<longrightarrow> int (countDataPoints d) \<le> ?fit c)"
      by auto
    have "encoded encode maxBytes c (map encode cs)" unfolding encoded_def using cs(2,3) fit by (intro exI [of _ cs]) force
    then show ?thesis using cs(1) False by (auto simp: Let_def)
  qed (use encoded_self in \<open>auto simp: Let_def\<close>)
  then obtain bodies where b: "those (map ?f chunks) = Some bodies" "list_all2 (encoded encode maxBytes) chunks bodies"
    using those_map [of chunks ?f "encoded encode maxBytes"] by blast
  obtain cs where cs: "concat bodies = map encode cs" "concat (map request_points cs) = concat (map request_points chunks)"
    "\<forall>c\<in>set cs. (length (encode c) \<le> maxBytes \<or> countDataPoints c \<le> 1) \<and> (\<exists>d\<in>set chunks. countDataPoints c \<le> countDataPoints d)"
    using encoded_concat [OF b(2)] by blast
  have "encodeExportRequestChunks encode ratio request maxDataPoints maxBytes = Some (concat bodies)"
    using b(1) s(1) by (subst encodeExportRequestChunks.simps) simp
  moreover have "case maxDataPoints of Some b \<Rightarrow> 0 < b \<longrightarrow> int (countDataPoints c) \<le> b | None \<Rightarrow> True" if "c \<in> set cs" for c
    using cs(3) that splitExportRequest_budget [OF s(1)] by (fastforce split: option.splits)
  ultimately show ?case using cs s(2) by auto
qed

section \<open>Properties\<close>

text \<open>
  C11. Splitting a request whose metrics have one aggregation each, as the conversion makes them, returns, loses no point, makes
  none up, keeps the order and leaves every point under its resource, scope, metric, temporality and monotonicity. With a
  positive budget no chunk is over it, and every chunk but the last is filled exactly.
\<close>

theorem splitExportRequest_partition:
  assumes "request_ok request"
  shows "\<exists>chunks. splitExportRequest request maxDataPoints = Some chunks \<and> concat (map request_points chunks) = request_points request \<and>
    list_all request_ok chunks \<and>
    (case maxDataPoints of
       Some b \<Rightarrow> 0 < b \<longrightarrow> (\<forall>c\<in>set chunks. int (countDataPoints c) \<le> b) \<and> (\<forall>c\<in>set (butlast chunks). int (countDataPoints c) = b)
     | None \<Rightarrow> chunks = [request])"
  by (rule split_partition [OF assms])

definition number_point :: "rat \<Rightarrow> OtlpNumberDataPoint" where
  "number_point r = \<lparr>np_attributes = [], np_startTimeUnixNano = EPOCH_NANO, np_timeUnixNano = ''1'', np_asDouble = Fin r\<rparr>"

definition sample_request :: OtlpExportRequest where
  "sample_request = [\<lparr>rm_resource = [(''service'', ''db'')], rm_scopeMetrics = [\<lparr>scope_name = ''maple'', scope_metrics =
     [\<lparr>m_name = ''up'', m_description = [], m_unit = [], m_gauge = Some (map number_point [1, 2, 3]), m_sum = None, m_histogram = None\<rparr>]\<rparr>]\<rparr>]"

theorem splitExportRequest_partition_witness:
  "\<exists>chunks. splitExportRequest sample_request (Some 2) = Some chunks \<and> concat (map request_points chunks) = request_points sample_request \<and>
    list_all request_ok chunks \<and> (\<forall>c\<in>set chunks. countDataPoints c \<le> 2) \<and> (\<forall>c\<in>set (butlast chunks). countDataPoints c = 2)"
  using splitExportRequest_partition [of sample_request "Some 2"]
  by (force simp: sample_request_def request_ok_def one_aggregation_def)

text \<open>
  C14. Encoding a request in chunks returns whatever the encoder and the estimate of how many points fit: every further split
  has a smaller budget. The bodies are those of requests that hold the points of the request, in order and each once; every
  body is within the byte limit unless it holds a single point, and none is over the budget of points.
\<close>

theorem encodeExportRequestChunks_delivers:
  assumes "request_ok request"
  shows "\<exists>bodies. encodeExportRequestChunks encode ratio request maxDataPoints maxBytes = Some bodies \<and>
    (\<exists>chunks. bodies = map encode chunks \<and> concat (map request_points chunks) = request_points request \<and>
       (\<forall>c\<in>set chunks. (length (encode c) \<le> maxBytes \<or> countDataPoints c \<le> 1) \<and>
          (case maxDataPoints of Some b \<Rightarrow> 0 < b \<longrightarrow> int (countDataPoints c) \<le> b | None \<Rightarrow> True)))"
  by (rule encode_chunks [OF assms])

theorem encodeExportRequestChunks_delivers_witness:
  "\<exists>bodies. encodeExportRequestChunks request_points (\<lambda>points maxBytes n. points * maxBytes * 9 div (10 * n)) sample_request None 2 = Some bodies \<and>
    (\<exists>chunks. bodies = map request_points chunks \<and> concat (map request_points chunks) = request_points sample_request \<and>
       (\<forall>c\<in>set chunks. length (request_points c) \<le> 2 \<or> countDataPoints c \<le> 1))"
  using encodeExportRequestChunks_delivers
    [of sample_request request_points "\<lambda>points maxBytes n. points * maxBytes * 9 div (10 * n)" None 2]
  by (force simp: sample_request_def request_ok_def one_aggregation_def)

text \<open>Requests merged for one delivery keep their points, and what the conversion makes can be split.\<close>

theorem mergeExportRequests_points:
  "request_points (mergeExportRequests requests) = concat (map request_points requests)"
  "list_all request_ok requests \<Longrightarrow> request_ok (mergeExportRequests requests)"
  by (induction requests) (auto simp: mergeExportRequests_def request_points_append request_ok_def)

lemma metric_ok_one: "metric_ok m \<Longrightarrow> one_aggregation m"
  by (auto simp: metric_ok_def one_aggregation_def)

theorem converted_splits: "convertFamiliesToOtlp Number subtract fams ctx = Some r \<Longrightarrow> conv_request r = Some request \<Longrightarrow> request_ok request"
  by (erule converted) (auto simp: request_ok_def state_ok_def list_all_iff metric_ok_one split: if_splits)

end
