(* ===== verification/Formula_Compile.thy ===== *)
theory Formula_Compile
  imports Js_Text Event_Envelope
begin

text \<open>
  The formula language of the query builder, after \<^verbatim>\<open>packages/query-engine/src/formula-results.ts\<close>: the tokenizer, the
  shunting-yard compiler to reverse Polish notation, and the stack machine that evaluates it.

  A stack is a list with its top first. The \<open>Set\<close> of identifiers is a list in order of insertion. Error texts are the
  constructors of a datatype. \<open>upper\<close> is \<open>toUpperCase\<close>, \<open>parseFloat\<close> the reading of a number, and \<open>arith\<close> the four
  floating-point operations; they are arguments.
\<close>

section \<open>Tokens\<close>

datatype FormulaOperator = f_plus | f_minus | f_times | f_divide

datatype FormulaToken = NumberTok jsnum | IdentTok string | OpTok FormulaOperator | UnaryMinus | LeftParen | RightParen

datatype CompileError = EmptyExpression | InvalidTokenNear string | MismatchedParentheses

definition alpha :: "char \<Rightarrow> bool" where
  "alpha c \<longleftrightarrow> (let n = (of_char c :: nat) in (65 \<le> n \<and> n \<le> 90) \<or> (97 \<le> n \<and> n \<le> 122))"

definition numeral_char :: "char \<Rightarrow> bool" where
  "numeral_char c \<longleftrightarrow> 48 \<le> (of_char c :: nat) \<and> (of_char c :: nat) \<le> 57"

definition word_char :: "char \<Rightarrow> bool" where
  "word_char c \<longleftrightarrow> alpha c \<or> numeral_char c \<or> c = CHR ''_''"

abbreviation DOT :: char where "DOT \<equiv> CHR ''.''"

text \<open>\<open>[A-Za-z][A-Za-z0-9_]*|\d+(?:\.\d+)?|\.\d+|[()+\-*/]\<close> at the start of a text: the match and what follows it\<close>

definition raw_token :: "string \<Rightarrow> (string \<times> string) option" where
  "raw_token s =
     (case s of
        [] \<Rightarrow> None
      | c # r \<Rightarrow>
          if alpha c then Some (c # takeWhile word_char r, dropWhile word_char r)
          else if numeral_char c then
            let whole = takeWhile numeral_char s; r1 = dropWhile numeral_char s; fraction = takeWhile numeral_char (tl r1)
            in if r1 \<noteq> [] \<and> hd r1 = DOT \<and> fraction \<noteq> [] then Some (whole @ DOT # fraction, dropWhile numeral_char (tl r1))
               else Some (whole, r1)
          else if c = DOT then
            if takeWhile numeral_char r \<noteq> [] then Some (DOT # takeWhile numeral_char r, dropWhile numeral_char r) else None
          else if c \<in> set ''()+-*/'' then Some ([c], r)
          else None)"

definition token_of :: "(string \<Rightarrow> string) \<Rightarrow> (string \<Rightarrow> jsnum) \<Rightarrow> string \<Rightarrow> FormulaToken" where
  "token_of upper parseFloat raw =
     (if raw = ''('' then LeftParen
      else if raw = '')'' then RightParen
      else if raw = ''+'' then OpTok f_plus
      else if raw = ''-'' then OpTok f_minus
      else if raw = ''*'' then OpTok f_times
      else if raw = ''/'' then OpTok f_divide
      else if raw \<noteq> [] \<and> (numeral_char (hd raw) \<or> hd raw = DOT) then NumberTok (parseFloat raw)
      else IdentTok (upper raw))"

lemma dropWhile_length: "length (dropWhile P xs) \<le> length xs"
  by (rule length_dropWhile_le)

lemma raw_token_shrinks: "raw_token s = Some (raw, rest) \<Longrightarrow> length rest < length s"
proof -
  assume a: "raw_token s = Some (raw, rest)"
  then obtain c r where s: "s = c # r" by (cases s) (auto simp: raw_token_def)
  have "length (dropWhile P (tl (dropWhile Q r))) \<le> length r" for P Q
    using dropWhile_length [of P "tl (dropWhile Q r)"] dropWhile_length [of Q r] by simp
  then show ?thesis using a by (auto simp: s raw_token_def Let_def dropWhile_length less_Suc_eq_le split: if_splits)
qed

function tokenizeFormula :: "(string \<Rightarrow> string) \<Rightarrow> (string \<Rightarrow> jsnum) \<Rightarrow> string \<Rightarrow> CompileError + FormulaToken list" where
  "tokenizeFormula upper parseFloat s =
     (if s = [] then Inr []
      else
        (case raw_token (dropWhile js_space s) of
           None \<Rightarrow>
             let remaining = js_trim s in if remaining = [] then Inr [] else Inl (InvalidTokenNear (take 16 remaining))
         | Some (raw, rest) \<Rightarrow>
             (case tokenizeFormula upper parseFloat rest of
                Inl e \<Rightarrow> Inl e
              | Inr tokens \<Rightarrow> Inr (token_of upper parseFloat raw # tokens))))"
  by pat_completeness auto
termination
proof (relation "measure (\<lambda>(upper, parseFloat, s). length s)", simp, goal_cases)
  case (1 upper parseFloat s p raw rest)
  then show ?case using raw_token_shrinks [of "dropWhile js_space s" raw rest] dropWhile_length [of js_space s] by simp
qed

declare tokenizeFormula.simps [simp del]

section \<open>Compilation\<close>

fun precedence :: "FormulaOperator \<Rightarrow> nat" where
  "precedence f_plus = 1"
| "precedence f_minus = 1"
| "precedence f_times = 2"
| "precedence f_divide = 2"

record CompileState =
  cs_output :: "FormulaToken list"
  cs_stack :: "FormulaToken list"
  cs_identifiers :: "string list"
  cs_previous :: "FormulaToken option"

text \<open>The pops for a closing parenthesis: what was emitted, whether the opening one was found, and the rest\<close>

fun pop_group :: "FormulaToken list \<Rightarrow> FormulaToken list \<times> bool \<times> FormulaToken list" where
  "pop_group [] = ([], False, [])"
| "pop_group (op1 # st) =
     (if op1 = LeftParen then ([], True, st) else (case pop_group st of (emitted, found, rest) \<Rightarrow> (op1 # emitted, found, rest)))"

text \<open>The pops before a binary operator is pushed\<close>

fun pop_operators :: "FormulaOperator \<Rightarrow> FormulaToken list \<Rightarrow> FormulaToken list \<times> FormulaToken list" where
  "pop_operators p [] = ([], [])"
| "pop_operators p (UnaryMinus # st) = (case pop_operators p st of (emitted, rest) \<Rightarrow> (UnaryMinus # emitted, rest))"
| "pop_operators p (OpTok op1 # st) =
     (if precedence op1 < precedence p then ([], OpTok op1 # st)
      else (case pop_operators p st of (emitted, rest) \<Rightarrow> (OpTok op1 # emitted, rest)))"
| "pop_operators p (op1 # st) = ([], op1 # st)"

definition js_add :: "'a \<Rightarrow> 'a list \<Rightarrow> 'a list" where
  "js_add x s = (if x \<in> set s then s else s @ [x])"

definition unary_context :: "FormulaToken option \<Rightarrow> bool" where
  "unary_context previous \<longleftrightarrow> previous = None \<or> previous = Some LeftParen \<or> (\<exists>p\<in>{f_plus, f_minus, f_times, f_divide}. previous = Some (OpTok p))"

fun compile_step :: "FormulaToken \<Rightarrow> CompileState \<Rightarrow> CompileError + CompileState" where
  "compile_step (NumberTok n) st = Inr (st\<lparr>cs_output := cs_output st @ [NumberTok n], cs_previous := Some (NumberTok n)\<rparr>)"
| "compile_step (IdentTok x) st =
     Inr (st\<lparr>cs_identifiers := js_add x (cs_identifiers st), cs_output := cs_output st @ [IdentTok x], cs_previous := Some (IdentTok x)\<rparr>)"
| "compile_step LeftParen st = Inr (st\<lparr>cs_stack := LeftParen # cs_stack st, cs_previous := Some LeftParen\<rparr>)"
| "compile_step RightParen st =
     (let (emitted, foundLeftParen, rest) = pop_group (cs_stack st);
          unaries = takeWhile (\<lambda>t. t = UnaryMinus) rest
      in if \<not> foundLeftParen then Inl MismatchedParentheses
         else Inr (st\<lparr>cs_output := cs_output st @ emitted @ unaries, cs_stack := drop (length unaries) rest, cs_previous := Some RightParen\<rparr>))"
| "compile_step (OpTok p) st =
     (if p = f_minus \<and> unary_context (cs_previous st)
      then Inr (st\<lparr>cs_stack := UnaryMinus # cs_stack st, cs_previous := Some (OpTok p)\<rparr>)
      else
        let (emitted, rest) = pop_operators p (cs_stack st)
        in Inr (st\<lparr>cs_output := cs_output st @ emitted, cs_stack := OpTok p # rest, cs_previous := Some (OpTok p)\<rparr>))"
| "compile_step UnaryMinus st = Inr st"

fun compile_tokens :: "FormulaToken list \<Rightarrow> CompileState \<Rightarrow> CompileError + CompileState" where
  "compile_tokens [] st = Inr st"
| "compile_tokens (t # ts) st = (case compile_step t st of Inl e \<Rightarrow> Inl e | Inr st' \<Rightarrow> compile_tokens ts st')"

definition start_compile :: CompileState where
  "start_compile = \<lparr>cs_output = [], cs_stack = [], cs_identifiers = [], cs_previous = None\<rparr>"

definition finish_compile :: "CompileState \<Rightarrow> CompileError + FormulaToken list \<times> string list" where
  "finish_compile st =
     (if LeftParen \<in> set (cs_stack st) \<or> RightParen \<in> set (cs_stack st) then Inl MismatchedParentheses
      else Inr (cs_output st @ cs_stack st, cs_identifiers st))"

definition compileFormula :: "(string \<Rightarrow> string) \<Rightarrow> (string \<Rightarrow> jsnum) \<Rightarrow> string \<Rightarrow> CompileError + FormulaToken list \<times> string list" where
  "compileFormula upper parseFloat expression =
     (let trimmed = js_trim expression
      in if trimmed = [] then Inl EmptyExpression
         else
           (case tokenizeFormula upper parseFloat trimmed of
              Inl e \<Rightarrow> Inl e
            | Inr tokens \<Rightarrow> (case compile_tokens tokens start_compile of Inl e \<Rightarrow> Inl e | Inr st \<Rightarrow> finish_compile st)))"

section \<open>Evaluation\<close>

datatype EvalError = UnknownReference string | InvalidExpression | InvalidFormulaToken | DivisionByZero | NotFinite

fun js_negate :: "jsnum \<Rightarrow> jsnum" where
  "js_negate (Fin r) = Fin (- r)"
| "js_negate PosInf = NegInf"
| "js_negate NegInf = PosInf"
| "js_negate NaN = NaN"

type_synonym arithmetic = "FormulaOperator \<Rightarrow> jsnum \<Rightarrow> jsnum \<Rightarrow> jsnum"

definition apply_operator :: "arithmetic \<Rightarrow> FormulaOperator \<Rightarrow> jsnum \<Rightarrow> jsnum \<Rightarrow> EvalError + jsnum" where
  "apply_operator arith p left right =
     (if p = f_divide \<and> js_eq right (Fin 0) then Inl DivisionByZero else Inr (arith p left right))"

fun machine_step :: "arithmetic \<Rightarrow> (string, jsnum) jsmap \<Rightarrow> FormulaToken \<Rightarrow> jsnum list \<Rightarrow> EvalError + jsnum list" where
  "machine_step arith vars (NumberTok n) stack = Inr (n # stack)"
| "machine_step arith vars (IdentTok x) stack = (case jsmap_get vars x of None \<Rightarrow> Inl (UnknownReference x) | Some v \<Rightarrow> Inr (v # stack))"
| "machine_step arith vars UnaryMinus stack = (case stack of [] \<Rightarrow> Inl InvalidExpression | v # rest \<Rightarrow> Inr (js_negate v # rest))"
| "machine_step arith vars (OpTok p) stack =
     (case stack of
        right # left # rest \<Rightarrow> (case apply_operator arith p left right of Inl e \<Rightarrow> Inl e | Inr v \<Rightarrow> Inr (v # rest))
      | _ \<Rightarrow> Inl InvalidExpression)"
| "machine_step arith vars LeftParen stack = Inl InvalidFormulaToken"
| "machine_step arith vars RightParen stack = Inl InvalidFormulaToken"

fun machine :: "arithmetic \<Rightarrow> (string, jsnum) jsmap \<Rightarrow> FormulaToken list \<Rightarrow> jsnum list \<Rightarrow> EvalError + jsnum list" where
  "machine arith vars [] stack = Inr stack"
| "machine arith vars (t # ts) stack = (case machine_step arith vars t stack of Inl e \<Rightarrow> Inl e | Inr s \<Rightarrow> machine arith vars ts s)"

definition finish_value :: "jsnum list \<Rightarrow> EvalError + jsnum" where
  "finish_value stack =
     (case stack of [v] \<Rightarrow> if js_isFinite v then Inr v else Inl NotFinite | _ \<Rightarrow> Inl InvalidExpression)"

definition evaluateCompiledFormula :: "arithmetic \<Rightarrow> FormulaToken list \<Rightarrow> (string, jsnum) jsmap \<Rightarrow> EvalError + jsnum" where
  "evaluateCompiledFormula arith rpn vars = (case machine arith vars rpn [] of Inl e \<Rightarrow> Inl e | Inr stack \<Rightarrow> finish_value stack)"

section \<open>The grammar and its meaning\<close>

datatype formula = Num jsnum | Ref string | Neg formula | Bin FormulaOperator formula formula

text \<open>Products bind tighter than sums, both to the left; a minus sign in front of a factor binds tightest.\<close>

inductive is_factor :: "FormulaToken list \<Rightarrow> formula \<Rightarrow> bool"
  and is_term :: "FormulaToken list \<Rightarrow> formula \<Rightarrow> bool"
  and is_expr :: "FormulaToken list \<Rightarrow> formula \<Rightarrow> bool" where
  factor_number: "is_factor [NumberTok n] (Num n)"
| factor_identifier: "is_factor [IdentTok x] (Ref x)"
| factor_minus: "is_factor ts e \<Longrightarrow> is_factor (OpTok f_minus # ts) (Neg e)"
| factor_group: "is_expr ts e \<Longrightarrow> is_factor (LeftParen # ts @ [RightParen]) e"
| term_factor: "is_factor ts e \<Longrightarrow> is_term ts e"
| term_binary: "is_term ts a \<Longrightarrow> is_factor us b \<Longrightarrow> precedence p = 2 \<Longrightarrow> is_term (ts @ OpTok p # us) (Bin p a b)"
| expr_term: "is_term ts e \<Longrightarrow> is_expr ts e"
| expr_binary: "is_expr ts a \<Longrightarrow> is_term us b \<Longrightarrow> precedence p = 1 \<Longrightarrow> is_expr (ts @ OpTok p # us) (Bin p a b)"

fun postfix :: "formula \<Rightarrow> FormulaToken list" where
  "postfix (Num n) = [NumberTok n]"
| "postfix (Ref x) = [IdentTok x]"
| "postfix (Neg e) = postfix e @ [UnaryMinus]"
| "postfix (Bin p a b) = postfix a @ postfix b @ [OpTok p]"

fun references :: "formula \<Rightarrow> string list" where
  "references (Num n) = []"
| "references (Ref x) = [x]"
| "references (Neg e) = references e"
| "references (Bin p a b) = references a @ references b"

fun denote :: "arithmetic \<Rightarrow> (string, jsnum) jsmap \<Rightarrow> formula \<Rightarrow> EvalError + jsnum" where
  "denote arith vars (Num n) = Inr n"
| "denote arith vars (Ref x) = (case jsmap_get vars x of None \<Rightarrow> Inl (UnknownReference x) | Some v \<Rightarrow> Inr v)"
| "denote arith vars (Neg e) = (case denote arith vars e of Inl err \<Rightarrow> Inl err | Inr v \<Rightarrow> Inr (js_negate v))"
| "denote arith vars (Bin p a b) =
     (case denote arith vars a of
        Inl err \<Rightarrow> Inl err
      | Inr l \<Rightarrow> (case denote arith vars b of Inl err \<Rightarrow> Inl err | Inr r \<Rightarrow> apply_operator arith p l r))"

section \<open>The machine computes the meaning\<close>

lemma machine_postfix:
  "machine arith vars (postfix e @ rest) stack =
     (case denote arith vars e of Inl err \<Rightarrow> Inl err | Inr v \<Rightarrow> machine arith vars rest (v # stack))"
  by (induction e arbitrary: rest stack) (auto split: sum.splits option.splits)

section \<open>The compiler emits the postfix form\<close>

abbreviation compile_state :: "FormulaToken list \<Rightarrow> FormulaToken list \<Rightarrow> string list \<Rightarrow> FormulaToken option \<Rightarrow> CompileState" where
  "compile_state out st ids pv \<equiv> \<lparr>cs_output = out, cs_stack = st, cs_identifiers = ids, cs_previous = pv\<rparr>"

definition add_all :: "'a list \<Rightarrow> 'a list \<Rightarrow> 'a list" where
  "add_all s xs = foldl (\<lambda>s x. js_add x s) s xs"

lemma add_all_simps [simp]: "add_all s [] = s" "add_all s (x # xs) = add_all (js_add x s) xs" "add_all s (xs @ ys) = add_all (add_all s xs) ys"
  by (simp_all add: add_all_def)

lemma compile_tokens_append:
  "compile_tokens (ts @ us) st = (case compile_tokens ts st of Inl e \<Rightarrow> Inl e | Inr st' \<Rightarrow> compile_tokens us st')"
  by (induction ts arbitrary: st) (auto split: sum.splits)

text \<open>Where the pops for an operator stop, and what they take\<close>

definition stops :: "nat \<Rightarrow> FormulaToken list \<Rightarrow> bool" where
  "stops n st \<longleftrightarrow> st = [] \<or> hd st = LeftParen \<or> (\<exists>q. hd st = OpTok q \<and> precedence q < n)"

definition pending :: "nat \<Rightarrow> FormulaToken list \<Rightarrow> bool" where
  "pending n ps \<longleftrightarrow> (\<forall>t\<in>set ps. t = UnaryMinus \<or> (\<exists>q. t = OpTok q \<and> n \<le> precedence q))"

lemma pop_operators_all:
  assumes "pending (precedence p) ps" "stops (precedence p) st"
  shows "pop_operators p (ps @ st) = (ps, st)"
  using assms(1) unfolding pending_def
proof (induction ps)
  case Nil
  show ?case using assms(2) by (cases st) (auto simp: stops_def)
next
  case (Cons t ps)
  then show ?case by auto
qed

lemma pop_group_all: "\<forall>t\<in>set ps. t \<noteq> LeftParen \<Longrightarrow> pop_group (ps @ LeftParen # st) = (ps, True, st)"
  by (induction ps) auto

definition operand_end :: "FormulaToken option \<Rightarrow> bool" where
  "operand_end pv \<longleftrightarrow> \<not> unary_context pv"

lemma context_simps [simp]:
  "unary_context None" "unary_context (Some LeftParen)" "unary_context (Some (OpTok p))"
  "operand_end (Some (NumberTok n))" "operand_end (Some (IdentTok x))" "operand_end (Some RightParen)"
  by (cases p; simp add: unary_context_def operand_end_def)+

lemma binary_step:
  assumes "operand_end pv" "pending (precedence p) ps" "stops (precedence p) st"
  shows "compile_step (OpTok p) (compile_state out (ps @ st) ids pv) = Inr (compile_state (out @ ps) (OpTok p # st) ids (Some (OpTok p)))"
  using assms(1) pop_operators_all [OF assms(2,3)] by (simp add: operand_end_def)

text \<open>
  What a factor, a term and an expression do to the state. Operators that wait on the stack when the phrase ends are \<open>ps\<close>;
  together with what was emitted they are the postfix form. A closing parenthesis also emits the signs \<open>us\<close> in front.
\<close>

definition after_factor :: "FormulaToken list \<Rightarrow> formula \<Rightarrow> bool" where
  "after_factor ts e \<longleftrightarrow>
     (\<forall>out us st ids pv. unary_context pv \<longrightarrow> set us \<subseteq> {UnaryMinus} \<longrightarrow> st = [] \<or> hd st \<noteq> UnaryMinus \<longrightarrow>
       (\<exists>w us' pv'. compile_tokens ts (compile_state out (us @ st) ids pv) = Inr (compile_state (out @ w) (us' @ st) (add_all ids (references e)) pv') \<and>
          w @ us' = postfix e @ us \<and> set us' \<subseteq> {UnaryMinus} \<and> operand_end pv'))"

definition after_phrase :: "nat \<Rightarrow> FormulaToken list \<Rightarrow> formula \<Rightarrow> bool" where
  "after_phrase n ts e \<longleftrightarrow>
     (\<forall>out st ids pv. unary_context pv \<longrightarrow> stops n st \<longrightarrow>
       (\<exists>w ps pv'. compile_tokens ts (compile_state out st ids pv) = Inr (compile_state (out @ w) (ps @ st) (add_all ids (references e)) pv') \<and>
          w @ ps = postfix e \<and> pending n ps \<and> operand_end pv'))"

lemma factor_phrase:
  assumes "after_factor ts e"
  shows "after_phrase n ts e"
  unfolding after_phrase_def
proof (intro allI impI)
  fix out st ids pv
  assume "unary_context pv" "stops n st"
  then show "\<exists>w ps pv'. compile_tokens ts (compile_state out st ids pv) = Inr (compile_state (out @ w) (ps @ st) (add_all ids (references e)) pv') \<and>
      w @ ps = postfix e \<and> pending n ps \<and> operand_end pv'"
    using assms [unfolded after_factor_def, rule_format, of pv "[]" st out ids] by (fastforce simp: stops_def pending_def)
qed

text \<open>An operator between two phrases: the left one is emitted, and the right one starts above the operator.\<close>

lemma binary_phrase:
  assumes "after_phrase (precedence p) ts a" "after_phrase (Suc (precedence p)) us b"
  shows "after_phrase (precedence p) (ts @ OpTok p # us) (Bin p a b)"
  unfolding after_phrase_def
proof (intro allI impI)
  fix out st ids pv
  assume pv: "unary_context pv" and st: "stops (precedence p) st"
  obtain w ps pv1 where left: "compile_tokens ts (compile_state out st ids pv) = Inr (compile_state (out @ w) (ps @ st) (add_all ids (references a)) pv1)"
    "w @ ps = postfix a" "pending (precedence p) ps" "operand_end pv1"
    using assms(1) [unfolded after_phrase_def, rule_format, OF pv st, of out ids] by blast
  have step: "compile_step (OpTok p) (compile_state (out @ w) (ps @ st) (add_all ids (references a)) pv1) =
      Inr (compile_state (out @ postfix a) (OpTok p # st) (add_all ids (references a)) (Some (OpTok p)))"
    using binary_step [OF left(4,3) st, of "out @ w" "add_all ids (references a)"] left(2) by simp
  obtain w' ps' pv2 where right: "compile_tokens us (compile_state (out @ postfix a) (OpTok p # st) (add_all ids (references a)) (Some (OpTok p))) =
      Inr (compile_state ((out @ postfix a) @ w') (ps' @ OpTok p # st) (add_all (add_all ids (references a)) (references b)) pv2)"
    "w' @ ps' = postfix b" "pending (Suc (precedence p)) ps'" "operand_end pv2"
    using assms(2) [unfolded after_phrase_def, rule_format, of "Some (OpTok p)" "OpTok p # st" "out @ postfix a" "add_all ids (references a)"]
    by (auto simp: stops_def)
  have "compile_tokens (ts @ OpTok p # us) (compile_state out st ids pv) =
      Inr (compile_state (out @ (postfix a @ w')) ((ps' @ [OpTok p]) @ st) (add_all ids (references (Bin p a b))) pv2)"
    using left(1) step right(1) by (simp add: compile_tokens_append)
  moreover have "(postfix a @ w') @ ps' @ [OpTok p] = postfix (Bin p a b)" using right(2) by simp
  moreover have "pending (precedence p) (ps' @ [OpTok p])"
    using right(3) by (auto simp: pending_def)
  ultimately show "\<exists>w ps pv'. compile_tokens (ts @ OpTok p # us) (compile_state out st ids pv) =
        Inr (compile_state (out @ w) (ps @ st) (add_all ids (references (Bin p a b))) pv') \<and>
      w @ ps = postfix (Bin p a b) \<and> pending (precedence p) ps \<and> operand_end pv'"
    using right(4) by blast
qed

lemma takeWhile_signs: "set us \<subseteq> {UnaryMinus} \<Longrightarrow> st = [] \<or> hd st \<noteq> UnaryMinus \<Longrightarrow> takeWhile (\<lambda>t. t = UnaryMinus) (us @ st) = us"
  by (induction us) (cases st; auto)+

lemma group_factor:
  assumes "after_phrase 1 ts e"
  shows "after_factor (LeftParen # ts @ [RightParen]) e"
  unfolding after_factor_def
proof (intro allI impI)
  fix out us st ids pv
  assume us: "set us \<subseteq> {UnaryMinus}" "st = [] \<or> hd st \<noteq> UnaryMinus"
  obtain w ps pv1 where inner: "compile_tokens ts (compile_state out (LeftParen # us @ st) ids (Some LeftParen)) =
      Inr (compile_state (out @ w) (ps @ LeftParen # us @ st) (add_all ids (references e)) pv1)"
    "w @ ps = postfix e" "pending 1 ps"
    using assms [unfolded after_phrase_def, rule_format, of "Some LeftParen" "LeftParen # us @ st" out ids] by (auto simp: stops_def)
  have "pop_group (ps @ LeftParen # us @ st) = (ps, True, us @ st)" by (rule pop_group_all) (use inner(3) in \<open>auto simp: pending_def\<close>)
  then have "compile_tokens (LeftParen # ts @ [RightParen]) (compile_state out (us @ st) ids pv) =
      Inr (compile_state (out @ (postfix e @ us)) ([] @ st) (add_all ids (references e)) (Some RightParen))"
    using inner(1,2) takeWhile_signs [OF us] by (simp add: compile_tokens_append)
  then show "\<exists>w us' pv'. compile_tokens (LeftParen # ts @ [RightParen]) (compile_state out (us @ st) ids pv) =
        Inr (compile_state (out @ w) (us' @ st) (add_all ids (references e)) pv') \<and>
      w @ us' = postfix e @ us \<and> set us' \<subseteq> {UnaryMinus} \<and> operand_end pv'"
    by (intro exI [of _ "postfix e @ us"] exI [of _ "[]"] exI [of _ "Some RightParen"]) simp
qed

lemma minus_factor:
  assumes "after_factor ts e"
  shows "after_factor (OpTok f_minus # ts) (Neg e)"
  unfolding after_factor_def
proof (intro allI impI)
  fix out us st ids pv
  assume pv: "unary_context pv" "set us \<subseteq> {UnaryMinus}" "st = [] \<or> hd st \<noteq> UnaryMinus"
  then show "\<exists>w us' pv'. compile_tokens (OpTok f_minus # ts) (compile_state out (us @ st) ids pv) =
        Inr (compile_state (out @ w) (us' @ st) (add_all ids (references (Neg e))) pv') \<and>
      w @ us' = postfix (Neg e) @ us \<and> set us' \<subseteq> {UnaryMinus} \<and> operand_end pv'"
    using assms [unfolded after_factor_def, rule_format, of "Some (OpTok f_minus)" "UnaryMinus # us" st out ids] by simp
qed

lemma phrase_weaken:
  assumes "after_phrase 2 ts e"
  shows "after_phrase 1 ts e"
  unfolding after_phrase_def
proof (intro allI impI)
  fix out st ids pv
  assume a: "unary_context pv" "stops 1 st"
  have "stops 2 st" using a(2) by (auto simp: stops_def)
  from assms [unfolded after_phrase_def, rule_format, OF a(1) this, of out ids]
  show "\<exists>w ps pv'. compile_tokens ts (compile_state out st ids pv) = Inr (compile_state (out @ w) (ps @ st) (add_all ids (references e)) pv') \<and>
      w @ ps = postfix e \<and> pending 1 ps \<and> operand_end pv'"
    by (elim exE conjE) (intro exI conjI, assumption, assumption, fastforce simp: pending_def, assumption)
qed

lemma grammar_compiles:
  "is_factor ts e \<Longrightarrow> after_factor ts e" "is_term ts e \<Longrightarrow> after_phrase 2 ts e" "is_expr ts e \<Longrightarrow> after_phrase 1 ts e"
proof (induction rule: is_factor_is_term_is_expr.inducts)
  case (term_binary ts a us b p)
  then show ?case using binary_phrase [of p ts a us b] factor_phrase [of us b 3] by simp
next
  case (expr_binary ts a us b p)
  then show ?case using binary_phrase [of p ts a us b] by (simp add: numeral_2_eq_2)
qed (simp_all add: after_factor_def [of "[_]"] minus_factor group_factor factor_phrase phrase_weaken del: One_nat_def)

lemma expr_compiles:
  assumes "is_expr ts e"
  shows "\<exists>st. compile_tokens ts start_compile = Inr st \<and> finish_compile st = Inr (postfix e, add_all [] (references e))"
proof -
  obtain w ps pv where c: "compile_tokens ts start_compile = Inr (compile_state w ps (add_all [] (references e)) pv)"
    "w @ ps = postfix e" "pending 1 ps"
    using grammar_compiles(3) [OF assms, unfolded after_phrase_def, rule_format, of None "[]" "[]" "[]"] by (auto simp: start_compile_def stops_def)
  then show ?thesis by (auto simp: finish_compile_def pending_def)
qed

section \<open>Every compiled formula\<close>

definition compile_inv :: "CompileState \<Rightarrow> bool" where
  "compile_inv st \<longleftrightarrow>
     LeftParen \<notin> set (cs_output st) \<and> RightParen \<notin> set (cs_output st) \<and> (\<forall>x. IdentTok x \<in> set (cs_output st) \<longleftrightarrow> x \<in> set (cs_identifiers st)) \<and>
     distinct (cs_identifiers st) \<and> (\<forall>t\<in>set (cs_stack st). t = LeftParen \<or> t = UnaryMinus \<or> (\<exists>p. t = OpTok p))"

lemma pop_group_sets: "pop_group st = (emitted, found, rest) \<Longrightarrow> set emitted \<union> set rest \<subseteq> set st \<and> LeftParen \<notin> set emitted"
  by (induction st arbitrary: emitted found rest) (auto split: if_splits prod.splits)

lemma pop_operators_append: "pop_operators p st = (emitted, rest) \<Longrightarrow> st = emitted @ rest \<and> (\<forall>t\<in>set emitted. t = UnaryMinus \<or> (\<exists>q. t = OpTok q))"
  by (induction p st arbitrary: emitted rest rule: pop_operators.induct) (auto split: if_splits prod.splits)

lemma js_add_set [simp]: "set (js_add x s) = insert x (set s)" "distinct (js_add x s) \<longleftrightarrow> distinct s"
  by (auto simp: js_add_def)

lemma compile_step_inv: "compile_step t st = Inr st' \<Longrightarrow> compile_inv st \<Longrightarrow> compile_inv st'"
proof (induction t st rule: compile_step.induct)
  case (4 st)
  obtain emitted found rest where p: "pop_group (cs_stack st) = (emitted, found, rest)" by (metis prod_cases3)
  let ?u = "takeWhile (\<lambda>t. t = UnaryMinus) rest"
  have st': "cs_output st' = cs_output st @ emitted @ ?u" "cs_stack st' = drop (length ?u) rest" "cs_identifiers st' = cs_identifiers st"
    using 4(1) by (auto simp: Let_def p split: if_splits)
  have stack: "\<forall>t\<in>set (cs_stack st). t = LeftParen \<or> t = UnaryMinus \<or> (\<exists>p. t = OpTok p)" using 4(2) by (simp add: compile_inv_def)
  have sets: "set emitted \<subseteq> set (cs_stack st)" "set rest \<subseteq> set (cs_stack st)" "LeftParen \<notin> set emitted" using pop_group_sets [OF p] by auto
  have e: "\<forall>t\<in>set (emitted @ ?u). t = UnaryMinus \<or> (\<exists>p. t = OpTok p)" using sets stack by (auto dest: set_takeWhileD)
  have "set (drop (length ?u) rest) \<subseteq> set (cs_stack st)" using set_drop_subset sets(2) by fast
  then have "\<forall>t\<in>set (cs_stack st'). t = LeftParen \<or> t = UnaryMinus \<or> (\<exists>p. t = OpTok p)" using stack st'(2) by auto
  moreover have "LeftParen \<notin> set (emitted @ ?u)" "RightParen \<notin> set (emitted @ ?u)" "IdentTok x \<notin> set (emitted @ ?u)" for x using e by auto
  ultimately show ?case using 4(2) st'(1,3) by (simp add: compile_inv_def)
next
  case (5 p st)
  obtain emitted rest where q: "pop_operators p (cs_stack st) = (emitted, rest)" by fastforce
  show ?case
  proof (cases "p = f_minus \<and> unary_context (cs_previous st)")
    case True
    then show ?thesis using 5 by (auto simp: compile_inv_def)
  next
    case False
    then have st': "cs_output st' = cs_output st @ emitted" "cs_stack st' = OpTok p # rest" "cs_identifiers st' = cs_identifiers st"
      using 5(1) q by auto
    have "\<forall>t\<in>set emitted. t = UnaryMinus \<or> (\<exists>q. t = OpTok q)" "set rest \<subseteq> set (cs_stack st)" using pop_operators_append [OF q] by auto
    then show ?thesis using 5(2) st' by (auto simp: compile_inv_def)
  qed
qed (auto simp: compile_inv_def)

lemma compile_tokens_inv: "compile_tokens ts st = Inr st' \<Longrightarrow> compile_inv st \<Longrightarrow> compile_inv st'"
  by (induction ts arbitrary: st) (auto split: sum.splits dest: compile_step_inv)

lemma compiled_names:
  assumes "compileFormula upper parseFloat expression = Inr (rpn, identifiers)"
  shows "LeftParen \<notin> set rpn" "RightParen \<notin> set rpn" "IdentTok x \<in> set rpn \<longleftrightarrow> x \<in> set identifiers" "distinct identifiers"
proof -
  obtain tokens st where st: "compile_tokens tokens start_compile = Inr st" "finish_compile st = Inr (rpn, identifiers)"
    using assms by (auto simp: compileFormula_def Let_def split: if_splits sum.splits)
  have "compile_inv start_compile" by (simp add: compile_inv_def start_compile_def)
  then have "compile_inv st" using compile_tokens_inv [OF st(1)] by simp
  then show "LeftParen \<notin> set rpn" "RightParen \<notin> set rpn" "IdentTok x \<in> set rpn \<longleftrightarrow> x \<in> set identifiers" "distinct identifiers"
    using st(2) by (auto simp: compile_inv_def finish_compile_def split: if_splits)
qed

lemma machine_bound:
  assumes "\<forall>x. IdentTok x \<in> set rpn \<longrightarrow> jsmap_get vars x \<noteq> None" "LeftParen \<notin> set rpn" "RightParen \<notin> set rpn" "machine arith vars rpn stack = Inl err"
  shows "err = InvalidExpression \<or> err = DivisionByZero"
  using assms
proof (induction rpn arbitrary: stack)
  case (Cons t rpn)
  show ?case
  proof (cases "machine_step arith vars t stack")
    case (Inl e)
    then show ?thesis using Cons.prems by (cases t) (auto simp: apply_operator_def split: list.splits option.splits sum.splits if_splits)
  next
    case (Inr s)
    then show ?thesis using Cons.IH [of s] Cons.prems by auto
  qed
qed simp

section \<open>Text\<close>

text \<open>A text that is one token\<close>

definition raw_ok :: "string \<Rightarrow> bool" where
  "raw_ok raw \<longleftrightarrow> raw_token raw = Some (raw, [])"

lemma space_classes: "js_space c \<Longrightarrow> \<not> word_char c \<and> \<not> numeral_char c \<and> \<not> alpha c \<and> c \<noteq> DOT \<and> c \<notin> set ''()+-*/''"
  by (auto simp: js_space_def word_char_def numeral_char_def alpha_def Let_def)

lemma takeWhile_all: "takeWhile P xs = xs \<Longrightarrow> \<not> P c \<Longrightarrow> takeWhile P (xs @ c # ys) = xs \<and> dropWhile P (xs @ c # ys) = c # ys"
  by (induction xs) (auto split: if_splits)

lemma raw_token_before_space:
  assumes "raw_ok raw" "js_space c"
  shows "raw_token (raw @ c # rest) = Some (raw, c # rest)"
proof -
  obtain d r where raw: "raw = d # r" using assms(1) by (cases raw) (auto simp: raw_ok_def raw_token_def)
  note cl = space_classes [OF assms(2)]
  have all: "takeWhile P xs = xs" if "dropWhile P xs = []" for P and xs :: string
    using that takeWhile_dropWhile_id [of P xs] by simp
  consider "alpha d" | "\<not> alpha d" "numeral_char d" | "\<not> alpha d" "\<not> numeral_char d" by blast
  then show ?thesis
  proof cases
    case 1
    then have "dropWhile word_char r = []" using assms(1) by (simp add: raw raw_ok_def raw_token_def)
    then show ?thesis using 1 takeWhile_all [OF all, of word_char r c rest] cl by (simp add: raw raw_token_def)
  next
    case 2
    let ?r1 = "dropWhile numeral_char r" and ?w = "takeWhile numeral_char r"
    show ?thesis
    proof (cases "?r1 = []")
      case True
      then show ?thesis using 2 takeWhile_all [OF all [OF True], of c rest] cl by (simp add: raw raw_token_def Let_def)
    next
      case False
      let ?f = "tl ?r1"
      from False 2 assms(1) have f: "hd ?r1 = DOT" "takeWhile numeral_char ?f \<noteq> []" "dropWhile numeral_char ?f = []"
        by (auto simp: raw raw_ok_def raw_token_def Let_def split: if_splits)
      have r: "r = ?w @ DOT # ?f" using f(1) False by (metis list.collapse takeWhile_dropWhile_id)
      have n: "\<not> numeral_char DOT" by (simp add: numeral_char_def)
      have w: "takeWhile numeral_char ?w = ?w" by simp
      have "takeWhile numeral_char (r @ c # rest) = ?w" "dropWhile numeral_char (r @ c # rest) = DOT # ?f @ c # rest"
        using takeWhile_all [OF w n, of "?f @ c # rest"] r by (metis append.assoc append_Cons)+
      then show ?thesis using 2 f takeWhile_all [OF all [OF f(3)], of c rest] cl all [OF f(3)] r
        by (simp add: raw raw_token_def Let_def)
    qed
  next
    case 3
    show ?thesis
    proof (cases "d = DOT")
      case True
      then have f: "takeWhile numeral_char r \<noteq> []" "dropWhile numeral_char r = []"
        using 3 assms(1) by (auto simp: raw raw_ok_def raw_token_def split: if_splits)
      then show ?thesis using 3 True takeWhile_all [OF all [OF f(2)], of c rest] all [OF f(2)] cl by (simp add: raw raw_token_def)
    next
      case False
      then have "r = []" "d \<in> set ''()+-*/''" using 3 assms(1) by (auto simp: raw raw_ok_def raw_token_def split: if_splits)
      then show ?thesis using 3 False by (simp add: raw raw_token_def)
    qed
  qed
qed

lemma raw_token_chars: "raw_token s = Some (raw, rest) \<Longrightarrow> \<forall>c\<in>set raw. word_char c \<or> c = DOT \<or> c \<in> set ''()+-*/''"
  by (cases s) (auto simp: raw_token_def Let_def word_char_def dest!: set_takeWhileD split: if_splits)

lemma raw_ok_ends: "raw_ok raw \<Longrightarrow> raw \<noteq> [] \<and> \<not> js_space (hd raw) \<and> \<not> js_space (last raw)"
proof -
  assume a: "raw_ok raw"
  then have "raw \<noteq> []" by (cases raw) (auto simp: raw_ok_def raw_token_def)
  moreover have "\<forall>c\<in>set raw. \<not> js_space c" using raw_token_chars [of raw raw "[]"] a space_classes by (auto simp: raw_ok_def)
  ultimately show ?thesis by simp
qed

lemma tokenize_nil [simp]: "tokenizeFormula upper parseFloat [] = Inr []"
  by (simp add: tokenizeFormula.simps)

lemma tokenize_step:
  assumes "raw_token s = Some (raw, rest)" "s \<noteq> []" "\<not> js_space (hd s)"
  shows "tokenizeFormula upper parseFloat (replicate n (CHR '' '') @ s) =
    (case tokenizeFormula upper parseFloat rest of Inl e \<Rightarrow> Inl e | Inr tokens \<Rightarrow> Inr (token_of upper parseFloat raw # tokens))"
proof -
  have "dropWhile js_space (replicate n (CHR '' '') @ s) = s"
    using assms(2,3) by (induction n) (auto simp: space_char dropWhile_eq_self_iff)
  then show ?thesis using assms(1,2) by (subst tokenizeFormula.simps) simp
qed

lemma tokenize_spaced:
  "list_all raw_ok raws \<Longrightarrow> tokenizeFormula upper parseFloat (replicate n (CHR '' '') @ js_join '' '' raws) = Inr (map (token_of upper parseFloat) raws) \<or> raws = []"
proof (induction raws arbitrary: n rule: induct_list012)
  case (2 raw)
  then show ?case using tokenize_step [of raw raw "[]" upper parseFloat n] raw_ok_ends by (simp add: raw_ok_def)
next
  case (3 raw raw' raws)
  have e: "raw \<noteq> []" "\<not> js_space (hd raw)" using 3 raw_ok_ends by auto
  have "raw_token (raw @ '' '' @ js_join '' '' (raw' # raws)) = Some (raw, '' '' @ js_join '' '' (raw' # raws))"
    using raw_token_before_space [of raw "CHR '' ''"] 3 space_char by simp
  then show ?case using tokenize_step [of "raw @ '' '' @ js_join '' '' (raw' # raws)" raw _ upper parseFloat n] e 3 "3.IH"(2) [of 1] by simp
qed simp

lemma join_ends: "list_all raw_ok raws \<Longrightarrow> raws \<noteq> [] \<Longrightarrow> js_join '' '' raws \<noteq> [] \<and> \<not> js_space (hd (js_join '' '' raws)) \<and> \<not> js_space (last (js_join '' '' raws))"
proof (induction raws rule: induct_list012)
  case (2 raw)
  then show ?case using raw_ok_ends by simp
next
  case (3 raw raw' raws)
  then show ?case using raw_ok_ends [of raw] by simp
qed simp

lemma grammar_not_empty: "is_factor ts e \<Longrightarrow> ts \<noteq> []" "is_term ts e \<Longrightarrow> ts \<noteq> []" "is_expr ts e \<Longrightarrow> ts \<noteq> []"
  by (induction rule: is_factor_is_term_is_expr.inducts) auto

lemma compile_spelled:
  assumes "list_all raw_ok raws" "is_expr (map (token_of upper parseFloat) raws) e"
  shows "compileFormula upper parseFloat (js_join '' '' raws) = Inr (postfix e, add_all [] (references e))"
proof -
  have "raws \<noteq> []" using grammar_not_empty(3) [OF assms(2)] by auto
  then have "js_trim (js_join '' '' raws) = js_join '' '' raws" "js_join '' '' raws \<noteq> []"
    "tokenizeFormula upper parseFloat (js_join '' '' raws) = Inr (map (token_of upper parseFloat) raws)"
    using join_ends [OF assms(1)] trim_tight tokenize_spaced [OF assms(1), of upper parseFloat 0] by auto
  then show ?thesis using expr_compiles [OF assms(2)] by (auto simp: compileFormula_def)
qed

section \<open>Properties\<close>

text \<open>
  C7. For every formula spelled in the grammar (products before sums, both to the left, signs tightest, any parentheses), the
  compiler returns its postfix form and its references in order, and the machine then computes its value: the same
  operations in the same order as the tree, with a division by zero, a reference without a value or a result that is not
  finite reported as such.
\<close>

theorem formula_evaluates:
  assumes "list_all raw_ok raws" "is_expr (map (token_of upper parseFloat) raws) e"
  shows "compileFormula upper parseFloat (js_join '' '' raws) = Inr (postfix e, add_all [] (references e)) \<and>
    evaluateCompiledFormula arith (postfix e) vars =
      (case denote arith vars e of Inl err \<Rightarrow> Inl err | Inr v \<Rightarrow> if js_isFinite v then Inr v else Inl NotFinite)"
  using compile_spelled [OF assms] machine_postfix [of arith vars e "[]" "[]"]
  by (simp add: evaluateCompiledFormula_def finish_value_def split: sum.split)

definition sample_raws :: "string list" where
  "sample_raws = [''-'', ''A'', ''*'', ''('', ''B'', ''+'', ''1.5'', '')'']"

theorem formula_evaluates_witness:
  "compileFormula (\<lambda>s. s) (\<lambda>_. Fin (3 / 2)) (js_join '' '' sample_raws) =
     Inr (postfix (Bin f_times (Neg (Ref ''A'')) (Bin f_plus (Ref ''B'') (Num (Fin (3 / 2))))), [''A'', ''B'']) \<and>
   evaluateCompiledFormula (\<lambda>p a b. if p = f_plus then b else a) (postfix (Bin f_times (Neg (Ref ''A'')) (Bin f_plus (Ref ''B'') (Num (Fin (3 / 2))))))
     [(''A'', Fin 2), (''B'', Fin 5)] = Inr (Fin (- 2))"
proof -
  let ?e = "Bin f_times (Neg (Ref ''A'')) (Bin f_plus (Ref ''B'') (Num (Fin (3 / 2))))"
  have f: "is_term [IdentTok ''B''] (Ref ''B'')" "is_term [NumberTok (Fin (3 / 2))] (Num (Fin (3 / 2)))"
    "is_term [OpTok f_minus, IdentTok ''A''] (Neg (Ref ''A''))"
    by (intro term_factor factor_minus factor_identifier factor_number)+
  have "is_expr ([IdentTok ''B''] @ OpTok f_plus # [NumberTok (Fin (3 / 2))]) (Bin f_plus (Ref ''B'') (Num (Fin (3 / 2))))"
    by (intro expr_binary expr_term f) simp
  then have "is_factor (LeftParen # ([IdentTok ''B''] @ OpTok f_plus # [NumberTok (Fin (3 / 2))]) @ [RightParen]) (Bin f_plus (Ref ''B'') (Num (Fin (3 / 2))))"
    by (rule factor_group)
  from term_binary [OF f(3) this, of f_times]
  have e: "is_expr (map (token_of (\<lambda>s. s) (\<lambda>_. Fin (3 / 2))) sample_raws) ?e"
    by (intro expr_term) (simp add: sample_raws_def token_of_def numeral_char_def)
  have r: "list_all raw_ok sample_raws"
    by (simp add: sample_raws_def raw_ok_def raw_token_def alpha_def numeral_char_def word_char_def)
  show ?thesis using formula_evaluates [OF r e, of "\<lambda>p a b. if p = f_plus then b else a" "[(''A'', Fin 2), (''B'', Fin 5)]"]
    by (simp add: js_add_def apply_operator_def)
qed

text \<open>
  C33. The compiler also accepts texts that are no formula: \<open>A B +\<close> has no parse in the grammar, but it compiles without an
  error and evaluates to the sum of \<open>A\<close> and \<open>B\<close>.
\<close>

theorem postfix_formula_accepted:
  "compileFormula (\<lambda>s. s) parseFloat ''A B +'' = Inr ([IdentTok ''A'', IdentTok ''B'', OpTok f_plus], [''A'', ''B'']) \<and>
   evaluateCompiledFormula arith [IdentTok ''A'', IdentTok ''B'', OpTok f_plus] [(''A'', a), (''B'', b)] = finish_value [arith f_plus a b] \<and>
   (\<nexists>e. is_expr [IdentTok ''A'', IdentTok ''B'', OpTok f_plus] e)"
proof (intro conjI notI)
  have "list_all raw_ok [''A'', ''B'', ''+'']" by (simp add: raw_ok_def raw_token_def alpha_def numeral_char_def)
  from tokenize_spaced [OF this, of "\<lambda>s. s" parseFloat 0]
  have "tokenizeFormula (\<lambda>s. s) parseFloat ''A B +'' = Inr [IdentTok ''A'', IdentTok ''B'', OpTok f_plus]"
    by (simp add: token_of_def numeral_char_def)
  then show "compileFormula (\<lambda>s. s) parseFloat ''A B +'' = Inr ([IdentTok ''A'', IdentTok ''B'', OpTok f_plus], [''A'', ''B''])"
    by (simp add: compileFormula_def js_trim_def js_space_def start_compile_def finish_compile_def js_add_def)
  show "evaluateCompiledFormula arith [IdentTok ''A'', IdentTok ''B'', OpTok f_plus] [(''A'', a), (''B'', b)] = finish_value [arith f_plus a b]"
    by (simp add: evaluateCompiledFormula_def apply_operator_def)
  assume "\<exists>e. is_expr [IdentTok ''A'', IdentTok ''B'', OpTok f_plus] e"
  then obtain e where "after_phrase 1 [IdentTok ''A'', IdentTok ''B'', OpTok f_plus] e" using grammar_compiles(3) by blast
  from this [unfolded after_phrase_def, rule_format, of None "[]" "[]" "[]"] show False by (auto simp: stops_def operand_end_def)
qed

text \<open>
  A formula that compiles never meets a parenthesis in the machine, and when all its identifiers have values the only errors
  are a division by zero, a result that is not finite, and an expression with operands missing or left over.
\<close>

theorem compiled_formula_errors:
  assumes "compileFormula upper parseFloat expression = Inr (rpn, identifiers)" "\<forall>x\<in>set identifiers. jsmap_get vars x \<noteq> None"
    "evaluateCompiledFormula arith rpn vars = Inl err"
  shows "err \<in> {InvalidExpression, DivisionByZero, NotFinite}"
proof (cases "machine arith vars rpn []")
  case (Inl e)
  then show ?thesis using machine_bound [of rpn vars arith "[]" e] compiled_names [OF assms(1)] assms(2,3) by (auto simp: evaluateCompiledFormula_def)
next
  case (Inr st)
  then show ?thesis using assms(3) by (auto simp: evaluateCompiledFormula_def finish_value_def split: list.splits if_splits)
qed

end
