(* ===== verification/Formula_Results.thy ===== *)
theory Formula_Results
  imports Formula_Compile
begin

text \<open>
  Formulas over the results of queries, after \<open>buildFormulaResults\<close> and its helpers in
  \<^verbatim>\<open>packages/query-engine/src/formula-results.ts\<close>: values per bucket, the buckets where every operand has a value, one
  result per formula, and formulas that refer to earlier ones.

  A \<open>Record\<close> of series is the list of its entries in the order of \<open>Object.entries\<close>; a \<open>Map\<close> is a list in insertion order.
  Errors are constructors of a datatype; warnings are texts.
\<close>

section \<open>Data\<close>

record FormulaDraft =
  fd_id :: string
  fd_name :: string
  fd_expression :: string
  fd_legend :: string

record TimeseriesPoint =
  tp_bucket :: string
  tp_series :: "(string \<times> jsnum) list"

datatype RunError =
    QueryFailed string
  | CompileFailed CompileError
  | UnknownReferences "string list"
  | NoQueryData
  | UnknownAtBucket string string
  | EvalFailed EvalError string
  | NoBucketsDivision
  | NoBucketsEmpty "string list"
  | NoBuckets

datatype RunStatus = run_success | run_error

record QueryRunResult =
  qr_queryId :: string
  qr_queryName :: string
  qr_source :: string
  qr_status :: RunStatus
  qr_error :: "RunError option"
  qr_warnings :: "string list"
  qr_data :: "TimeseriesPoint list"

type_synonym bucket_map = "(string, jsnum) jsmap"
type_synonym alias_map = "(string, bucket_map) jsmap"

definition WARNING_BUCKET_SAMPLE_SIZE :: nat where "WARNING_BUCKET_SAMPLE_SIZE = 3"

section \<open>Buckets\<close>

definition series_total :: "arithmetic \<Rightarrow> (string \<times> jsnum) list \<Rightarrow> jsnum" where
  "series_total arith series = foldl (\<lambda>total p. arith f_plus total (if js_isFinite (snd p) then snd p else Fin 0)) (Fin 0) series"

definition aggregateByBucket :: "arithmetic \<Rightarrow> TimeseriesPoint list \<Rightarrow> bucket_map" where
  "aggregateByBucket arith points =
     foldl (\<lambda>m p. if tp_series p = [] then m else jsmap_set (tp_bucket p) (series_total arith (tp_series p)) m) [] points"

definition listIntersectedBuckets :: "bucket_map list \<Rightarrow> string list" where
  "listIntersectedBuckets maps =
     (case maps of [] \<Rightarrow> [] | m # rest \<Rightarrow> sort (filter (\<lambda>b. list_all (\<lambda>m'. jsmap_get m' b \<noteq> None) rest) (map fst m)))"

definition listUnionBuckets :: "bucket_map list \<Rightarrow> string list" where
  "listUnionBuckets maps = sort (foldl (\<lambda>s m. foldl (\<lambda>s b. js_add b s) s (map fst m)) [] maps)"

definition formatBucketWarning :: "string \<Rightarrow> string list \<Rightarrow> string" where
  "formatBucketWarning reason buckets =
     (if buckets = [] then []
      else
        let sample = take WARNING_BUCKET_SAMPLE_SIZE buckets;
            suffix =
              (if length buckets > WARNING_BUCKET_SAMPLE_SIZE
               then '' (examples: '' @ js_join '', '' sample @ '', +'' @ js_String_nat (length buckets - length sample) @ '' more)''
               else '' (bucket'' @ (if length sample = 1 then [] else ''s'') @ '': '' @ js_join '', '' sample @ '')'')
        in ''Skipped '' @ js_String_nat (length buckets) @ '' '' @ (if length buckets = 1 then ''bucket'' else ''buckets'') @
           '' due to '' @ reason @ suffix)"

definition push_warning :: "string \<Rightarrow> string list \<Rightarrow> string list \<Rightarrow> string list" where
  "push_warning reason buckets warnings =
     (if buckets \<noteq> [] \<and> formatBucketWarning reason buckets \<noteq> [] then warnings @ [formatBucketWarning reason buckets] else warnings)"

section \<open>One formula\<close>

text \<open>The values of the operands in a bucket\<close>

fun bucket_values :: "alias_map \<Rightarrow> string \<Rightarrow> string list \<Rightarrow> bucket_map \<Rightarrow> RunError + bucket_map" where
  "bucket_values series b [] vars = Inr vars"
| "bucket_values series b (x # xs) vars =
     (case jsmap_get series x of
        None \<Rightarrow> Inl (UnknownAtBucket x b)
      | Some m \<Rightarrow> (case jsmap_get m b of None \<Rightarrow> Inl (UnknownAtBucket x b) | Some v \<Rightarrow> bucket_values series b xs (jsmap_set x v vars)))"

text \<open>The loop over the eligible buckets: the points, the buckets that divide by zero, and the error that broke the loop\<close>

fun evaluate_buckets ::
    "arithmetic \<Rightarrow> alias_map \<Rightarrow> FormulaToken list \<Rightarrow> string list \<Rightarrow> string \<Rightarrow> string list \<Rightarrow>
     TimeseriesPoint list \<times> string list \<times> RunError option" where
  "evaluate_buckets arith series rpn identifiers seriesName [] = ([], [], None)"
| "evaluate_buckets arith series rpn identifiers seriesName (b # bs) =
     (case bucket_values series b identifiers [] of
        Inl e \<Rightarrow> ([], [], Some e)
      | Inr vars \<Rightarrow>
          (case evaluateCompiledFormula arith rpn vars of
             Inl e \<Rightarrow>
               if e = DivisionByZero
               then (case evaluate_buckets arith series rpn identifiers seriesName bs of (data, zeros, err) \<Rightarrow> (data, b # zeros, err))
               else ([], [], Some (EvalFailed e b))
           | Inr v \<Rightarrow>
               (case evaluate_buckets arith series rpn identifiers seriesName bs of (data, zeros, err) \<Rightarrow>
                  (\<lparr>tp_bucket = b, tp_series = [(seriesName, v)]\<rparr> # data, zeros, err))))"

definition formula_result :: "FormulaDraft \<Rightarrow> RunError option \<Rightarrow> string list \<Rightarrow> TimeseriesPoint list \<Rightarrow> QueryRunResult" where
  "formula_result f err warnings data =
     \<lparr>qr_queryId = fd_id f, qr_queryName = fd_name f, qr_source = ''formula'',
      qr_status = (if err = None then run_success else run_error), qr_error = err, qr_warnings = warnings, qr_data = data\<rparr>"

definition referenced_maps :: "alias_map \<Rightarrow> string list \<Rightarrow> bucket_map list" where
  "referenced_maps series identifiers = List.map_filter (jsmap_get series) identifiers"

definition eligible_buckets :: "string list \<Rightarrow> bucket_map list \<Rightarrow> string list" where
  "eligible_buckets allBuckets maps = (if maps = [] then allBuckets else listIntersectedBuckets maps)"

definition empty_error :: "alias_map \<Rightarrow> string list \<Rightarrow> string list \<Rightarrow> RunError" where
  "empty_error series identifiers zeros =
     (let emptyOperands = filter (\<lambda>x. case jsmap_get series x of Some m \<Rightarrow> m = [] | None \<Rightarrow> True) identifiers
      in if zeros \<noteq> [] then NoBucketsDivision else if emptyOperands \<noteq> [] then NoBucketsEmpty emptyOperands else NoBuckets)"

definition run_compiled ::
    "arithmetic \<Rightarrow> (string \<Rightarrow> string) \<Rightarrow> string list \<Rightarrow> FormulaDraft \<Rightarrow> FormulaToken list \<Rightarrow> string list \<Rightarrow> alias_map \<Rightarrow> QueryRunResult \<times> alias_map" where
  "run_compiled arith upper allBuckets f rpn identifiers series =
     (let maps = referenced_maps series identifiers;
          eligible = eligible_buckets allBuckets maps;
          missing = (if maps = [] then [] else filter (\<lambda>b. b \<notin> set eligible) (listUnionBuckets maps));
          seriesName = (if js_trim (fd_legend f) = [] then fd_name f else js_trim (fd_legend f));
          (data, zeros, err) = evaluate_buckets arith series rpn identifiers seriesName eligible;
          warnings = push_warning ''division by zero in formula'' zeros (push_warning ''missing values for formula operands'' missing [])
      in case err of
           Some e \<Rightarrow> (formula_result f (Some e) warnings [], series)
         | None \<Rightarrow>
             if data = [] then (formula_result f (Some (empty_error series identifiers zeros)) warnings [], series)
             else (formula_result f None warnings data, jsmap_set (upper (fd_name f)) (aggregateByBucket arith data) series))"

definition run_formula ::
    "arithmetic \<Rightarrow> (string \<Rightarrow> string) \<Rightarrow> (string \<Rightarrow> jsnum) \<Rightarrow> string list \<Rightarrow> FormulaDraft \<Rightarrow> alias_map \<Rightarrow> QueryRunResult \<times> alias_map" where
  "run_formula arith upper parseFloat allBuckets f series =
     (case compileFormula upper parseFloat (fd_expression f) of
        Inl e \<Rightarrow> (formula_result f (Some (CompileFailed e)) [] [], series)
      | Inr (rpn, identifiers) \<Rightarrow>
          let missing = filter (\<lambda>x. jsmap_get series x = None) identifiers
          in if missing \<noteq> [] then (formula_result f (Some (UnknownReferences missing)) [] [], series)
             else if allBuckets = [] then (formula_result f (Some NoQueryData) [] [], series)
             else run_compiled arith upper allBuckets f rpn identifiers series)"

section \<open>All formulas\<close>

definition query_series :: "arithmetic \<Rightarrow> (string \<Rightarrow> string) \<Rightarrow> QueryRunResult list \<Rightarrow> alias_map" where
  "query_series arith upper results =
     foldl (\<lambda>s r. if qr_status r \<noteq> run_success then s else jsmap_set (upper (qr_queryName r)) (aggregateByBucket arith (qr_data r)) s) [] results"

fun run_formulas ::
    "arithmetic \<Rightarrow> (string \<Rightarrow> string) \<Rightarrow> (string \<Rightarrow> jsnum) \<Rightarrow> string list \<Rightarrow> FormulaDraft list \<Rightarrow> alias_map \<Rightarrow> QueryRunResult list" where
  "run_formulas arith upper parseFloat allBuckets [] series = []"
| "run_formulas arith upper parseFloat allBuckets (f # fs) series =
     (case run_formula arith upper parseFloat allBuckets f series of
        (r, series') \<Rightarrow> r # run_formulas arith upper parseFloat allBuckets fs series')"

definition buildFormulaResults ::
    "arithmetic \<Rightarrow> (string \<Rightarrow> string) \<Rightarrow> (string \<Rightarrow> jsnum) \<Rightarrow> FormulaDraft list \<Rightarrow> QueryRunResult list \<Rightarrow> QueryRunResult list" where
  "buildFormulaResults arith upper parseFloat formulas queryResults =
     (if formulas = [] then []
      else
        let series = query_series arith upper queryResults; allBuckets = listUnionBuckets (map snd series)
        in run_formulas arith upper parseFloat allBuckets formulas series)"

section \<open>Operands\<close>

definition operand :: "alias_map \<Rightarrow> string \<Rightarrow> string \<Rightarrow> jsnum option" where
  "operand series x b = (case jsmap_get series x of None \<Rightarrow> None | Some m \<Rightarrow> jsmap_get m b)"

definition operands :: "alias_map \<Rightarrow> string list \<Rightarrow> string \<Rightarrow> bucket_map" where
  "operands series xs b = map (\<lambda>x. (x, the (operand series x b))) xs"

lemma update_fresh: "k \<notin> fst ` set m \<Longrightarrow> AList.update k v m = m @ [(k, v)]"
  by (induction m) auto

lemma bucket_values_operands:
  assumes "distinct xs" "\<forall>x\<in>set xs. operand series x b \<noteq> None" "set xs \<inter> fst ` set vars = {}"
  shows "bucket_values series b xs vars = Inr (vars @ operands series xs b)"
  using assms
proof (induction xs arbitrary: vars)
  case (Cons x xs)
  then obtain m v where v: "jsmap_get series x = Some m" "jsmap_get m b = Some v" by (auto simp: operand_def split: option.splits)
  have "bucket_values series b xs (vars @ [(x, v)]) = Inr ((vars @ [(x, v)]) @ operands series xs b)"
    by (rule Cons.IH) (use Cons.prems in auto)
  then show ?case using v Cons.prems by (simp add: update_fresh operands_def operand_def)
qed (simp add: operands_def)

lemma evaluate_buckets_points:
  assumes "evaluate_buckets arith series rpn xs name bs = (data, zeros, None)" "distinct xs" "\<forall>b\<in>set bs. \<forall>x\<in>set xs. operand series x b \<noteq> None"
  shows "map tp_bucket data = filter (\<lambda>b. evaluateCompiledFormula arith rpn (operands series xs b) \<noteq> Inl DivisionByZero) bs \<and>
    (\<forall>p\<in>set data. \<exists>v. evaluateCompiledFormula arith rpn (operands series xs (tp_bucket p)) = Inr v \<and> tp_series p = [(name, v)])"
  using assms(1,3)
proof (induction bs arbitrary: data zeros)
  case (Cons b bs)
  have "bucket_values series b xs [] = Inr (operands series xs b)"
    using bucket_values_operands [OF assms(2), of series b "[]"] Cons.prems(2) by simp
  then show ?case using Cons by (auto split: sum.splits if_splits prod.splits)
qed simp

section \<open>Buckets of maps\<close>

definition maps_ok :: "alias_map \<Rightarrow> bool" where
  "maps_ok series \<longleftrightarrow> (\<forall>p\<in>set series. distinct (map fst (snd p)))"

lemma maps_ok_get: "maps_ok series \<Longrightarrow> jsmap_get series x = Some m \<Longrightarrow> distinct (map fst m)"
  by (auto simp: maps_ok_def dest!: map_of_SomeD)

lemma maps_ok_update: "maps_ok series \<Longrightarrow> distinct (map fst m) \<Longrightarrow> maps_ok (AList.update x m series)"
  by (auto simp: maps_ok_def dest!: AList_update_set)

lemma foldl_distinct: "distinct (map fst m) \<Longrightarrow> distinct (map fst (foldl (\<lambda>m p. if tp_series p = [] then m else jsmap_set (tp_bucket p) (g p) m) m ps))"
  by (induction ps arbitrary: m) (simp_all add: distinct_update)

lemma aggregate_distinct: "distinct (map fst (aggregateByBucket arith ps))"
  unfolding aggregateByBucket_def by (rule foldl_distinct) simp

lemma query_series_ok: "maps_ok (query_series arith upper results)"
proof -
  have "maps_ok s \<Longrightarrow> maps_ok (foldl (\<lambda>s r. if qr_status r \<noteq> run_success then s else jsmap_set (upper (qr_queryName r)) (aggregateByBucket arith (qr_data r)) s) s results)" for s
    by (induction results arbitrary: s) (simp_all add: maps_ok_update aggregate_distinct)
  from this [of "[]"] show ?thesis unfolding query_series_def by (simp add: maps_ok_def)
qed

lemma run_formula_ok: "maps_ok series \<Longrightarrow> maps_ok (snd (run_formula arith upper parseFloat allBuckets f series))"
  by (auto simp: run_formula_def run_compiled_def Let_def maps_ok_update aggregate_distinct split: sum.splits prod.splits option.splits)

lemma add_each_distinct: "distinct s \<Longrightarrow> distinct (foldl (\<lambda>s b. js_add b s) s bs)"
  by (induction bs arbitrary: s) simp_all

lemma union_distinct: "distinct (listUnionBuckets maps)"
proof -
  have "distinct s \<Longrightarrow> distinct (foldl (\<lambda>s m. foldl (\<lambda>s b. js_add b s) s (map fst m)) s maps)" for s
    by (induction maps arbitrary: s) (simp_all add: add_each_distinct)
  then show ?thesis by (simp add: listUnionBuckets_def)
qed

lemma referenced_all: "\<forall>x\<in>set xs. jsmap_get series x \<noteq> None \<Longrightarrow> referenced_maps series xs = map (\<lambda>x. the (jsmap_get series x)) xs"
  by (induction xs) (auto simp: referenced_maps_def List.map_filter_def)

lemma eligible_iff:
  assumes "\<forall>x\<in>set xs. jsmap_get series x \<noteq> None"
  shows "b \<in> set (eligible_buckets allBuckets (referenced_maps series xs)) \<longleftrightarrow> (if xs = [] then b \<in> set allBuckets else \<forall>x\<in>set xs. operand series x b \<noteq> None)"
proof (cases xs)
  case (Cons x ys)
  have op: "operand series y b = jsmap_get (the (jsmap_get series y)) b" if "y \<in> set xs" for y
    using assms that by (auto simp: operand_def)
  have "b \<in> fst ` set m \<longleftrightarrow> jsmap_get m b \<noteq> None" for m :: bucket_map by (simp add: map_of_eq_None_iff)
  then show ?thesis using op unfolding referenced_all [OF assms] by (auto simp: Cons eligible_buckets_def listIntersectedBuckets_def list_all_iff)
qed (simp add: eligible_buckets_def referenced_maps_def List.map_filter_def)

lemma eligible_sorted:
  assumes "maps_ok series" "\<forall>x\<in>set xs. jsmap_get series x \<noteq> None"
  shows "sorted (eligible_buckets (listUnionBuckets ms) (referenced_maps series xs))" "distinct (eligible_buckets (listUnionBuckets ms) (referenced_maps series xs))"
proof -
  have "distinct (map fst (the (jsmap_get series x)))" if "x \<in> set xs" for x using maps_ok_get [OF assms(1)] assms(2) that by fastforce
  then show "distinct (eligible_buckets (listUnionBuckets ms) (referenced_maps series xs))"
    unfolding referenced_all [OF assms(2)] by (cases xs) (simp_all add: eligible_buckets_def listIntersectedBuckets_def union_distinct)
  show "sorted (eligible_buckets (listUnionBuckets ms) (referenced_maps series xs))"
    unfolding referenced_all [OF assms(2)] by (cases xs) (simp_all add: eligible_buckets_def listIntersectedBuckets_def listUnionBuckets_def)
qed

section \<open>Formulas in turn\<close>

text \<open>The series by alias after some formulas have run\<close>

fun series_after ::
    "arithmetic \<Rightarrow> (string \<Rightarrow> string) \<Rightarrow> (string \<Rightarrow> jsnum) \<Rightarrow> string list \<Rightarrow> FormulaDraft list \<Rightarrow> alias_map \<Rightarrow> alias_map" where
  "series_after arith upper parseFloat allBuckets [] series = series"
| "series_after arith upper parseFloat allBuckets (f # fs) series =
     series_after arith upper parseFloat allBuckets fs (snd (run_formula arith upper parseFloat allBuckets f series))"

lemma series_after_ok: "maps_ok series \<Longrightarrow> maps_ok (series_after arith upper parseFloat allBuckets fs series)"
  by (induction fs arbitrary: series) (simp_all add: run_formula_ok)

lemma run_formulas_nth:
  "i < length fs \<Longrightarrow> run_formulas arith upper parseFloat allBuckets fs series ! i =
     fst (run_formula arith upper parseFloat allBuckets (fs ! i) (series_after arith upper parseFloat allBuckets (take i fs) series))"
  by (induction fs arbitrary: series i) (auto simp: nth_Cons split: nat.splits prod.splits)

lemma run_formula_id: "qr_queryId (fst (run_formula arith upper parseFloat allBuckets f series)) = fd_id f"
  by (auto simp: run_formula_def run_compiled_def formula_result_def Let_def split: sum.splits prod.splits option.splits)

lemma run_formula_success:
  assumes "compileFormula upper parseFloat (fd_expression f) = Inr (rpn, xs)"
    "r = fst (run_formula arith upper parseFloat (listUnionBuckets ms) f series)" "qr_status r = run_success" "maps_ok series"
  shows "let E = (\<lambda>b. evaluateCompiledFormula arith rpn (operands series xs b)) in
    sorted (map tp_bucket (qr_data r)) \<and> distinct (map tp_bucket (qr_data r)) \<and>
    (\<forall>p\<in>set (qr_data r). \<exists>v. E (tp_bucket p) = Inr v \<and> map snd (tp_series p) = [v]) \<and>
    (\<forall>b. b \<in> tp_bucket ` set (qr_data r) \<longleftrightarrow>
       (if xs = [] then b \<in> set (listUnionBuckets ms) else \<forall>x\<in>set xs. operand series x b \<noteq> None) \<and> E b \<noteq> Inl DivisionByZero)"
proof -
  let ?el = "eligible_buckets (listUnionBuckets ms) (referenced_maps series xs)"
  let ?name = "if js_trim (fd_legend f) = [] then fd_name f else js_trim (fd_legend f)"
  have all: "\<forall>x\<in>set xs. jsmap_get series x \<noteq> None"
    using assms(1-3) by (auto simp: run_formula_def formula_result_def Let_def filter_empty_conv split: if_splits)
  obtain data zeros err where ev: "evaluate_buckets arith series rpn xs ?name ?el = (data, zeros, err)" by (metis prod_cases3)
  have r: "r = fst (run_compiled arith upper (listUnionBuckets ms) f rpn xs series)"
    using assms(1-3) by (auto simp: run_formula_def formula_result_def Let_def split: if_splits)
  have data: "err = None" "qr_data r = data"
    using assms(3) unfolding r run_compiled_def Let_def ev by (auto simp: formula_result_def split: option.splits if_splits)
  have el: "\<forall>b\<in>set ?el. \<forall>x\<in>set xs. operand series x b \<noteq> None" using eligible_iff [OF all, of _ "listUnionBuckets ms"] by (auto split: if_splits)
  note pts = evaluate_buckets_points [OF ev [unfolded data(1)] compiled_names(4) [OF assms(1)] el]
  have "sorted (map tp_bucket data)" "distinct (map tp_bucket data)" using eligible_sorted [OF assms(4) all, of ms] pts [THEN conjunct1] by (simp_all add: sorted_wrt_filter)
  moreover have "b \<in> tp_bucket ` set data \<longleftrightarrow> b \<in> set ?el \<and> evaluateCompiledFormula arith rpn (operands series xs b) \<noteq> Inl DivisionByZero" for b
    using arg_cong [OF pts [THEN conjunct1], of set] by auto
  ultimately show ?thesis using pts [THEN conjunct2] eligible_iff [OF all] data(2) by (fastforce simp: Let_def)
qed

section \<open>Properties\<close>

text \<open>
  C34. The points of a formula. There is one result per formula, in order, and a formula sees the queries and the formulas
  before it. The points of a successful one are at the buckets where every operand has a value and the formula does not
  divide by zero, each bucket once and in order, and each point is the value that the machine computes from the operands there.
\<close>

theorem buildFormulaResults_points:
  assumes "i < length formulas" "compileFormula upper parseFloat (fd_expression (formulas ! i)) = Inr (rpn, identifiers)"
    "qr_status (buildFormulaResults arith upper parseFloat formulas queryResults ! i) = run_success"
  shows "let r = buildFormulaResults arith upper parseFloat formulas queryResults ! i;
      queries = query_series arith upper queryResults;
      allBuckets = listUnionBuckets (map snd queries);
      series = series_after arith upper parseFloat allBuckets (take i formulas) queries;
      E = (\<lambda>b. evaluateCompiledFormula arith rpn (operands series identifiers b)) in
    qr_queryId r = fd_id (formulas ! i) \<and> sorted (map tp_bucket (qr_data r)) \<and> distinct (map tp_bucket (qr_data r)) \<and>
    (\<forall>p\<in>set (qr_data r). \<exists>v. E (tp_bucket p) = Inr v \<and> map snd (tp_series p) = [v]) \<and>
    (\<forall>b. b \<in> tp_bucket ` set (qr_data r) \<longleftrightarrow>
       (if identifiers = [] then b \<in> set allBuckets else \<forall>x\<in>set identifiers. operand series x b \<noteq> None) \<and> E b \<noteq> Inl DivisionByZero)"
proof -
  let ?q = "query_series arith upper queryResults"
  let ?all = "listUnionBuckets (map snd ?q)"
  let ?s = "series_after arith upper parseFloat ?all (take i formulas) ?q"
  have r: "buildFormulaResults arith upper parseFloat formulas queryResults ! i = fst (run_formula arith upper parseFloat ?all (formulas ! i) ?s)"
    using run_formulas_nth [OF assms(1)] assms(1) by (auto simp: buildFormulaResults_def Let_def)
  have "maps_ok ?s" by (rule series_after_ok [OF query_series_ok])
  from run_formula_success [OF assms(2) r assms(3) this] show ?thesis using run_formula_id r by (simp add: Let_def)
qed

fun sample_arith :: arithmetic where
  "sample_arith f_plus (Fin a) (Fin b) = Fin (a + b)"
| "sample_arith f_divide (Fin a) (Fin b) = Fin (a / b)"
| "sample_arith _ _ _ = NaN"

definition sample_query :: "string \<Rightarrow> (string \<times> jsnum) list \<Rightarrow> QueryRunResult" where
  "sample_query name points = \<lparr>qr_queryId = name, qr_queryName = name, qr_source = ''traces'', qr_status = run_success, qr_error = None,
     qr_warnings = [], qr_data = map (\<lambda>(b, v). \<lparr>tp_bucket = b, tp_series = [(''all'', v)]\<rparr>) points\<rparr>"

definition sample_draft :: FormulaDraft where
  "sample_draft = \<lparr>fd_id = ''f'', fd_name = ''F'', fd_expression = ''A / B'', fd_legend = []\<rparr>"

definition sample_results :: "QueryRunResult list" where
  "sample_results = buildFormulaResults sample_arith (\<lambda>s. s) (\<lambda>_. NaN) [sample_draft]
     [sample_query ''A'' [(''t1'', Fin 6), (''t2'', Fin 4), (''t3'', Fin 1)], sample_query ''B'' [(''t1'', Fin 2), (''t2'', Fin 0)]]"

theorem buildFormulaResults_points_witness:
  "qr_status (sample_results ! 0) = run_success \<and> sorted (map tp_bucket (qr_data (sample_results ! 0))) \<and>
   ''t1'' \<in> tp_bucket ` set (qr_data (sample_results ! 0)) \<and> ''t2'' \<notin> tp_bucket ` set (qr_data (sample_results ! 0))"
proof -
  have c: "compileFormula (\<lambda>s. s) (\<lambda>_. NaN) (fd_expression ([sample_draft] ! 0)) = Inr ([IdentTok ''A'', IdentTok ''B'', OpTok f_divide], [''A'', ''B''])"
    by code_simp
  have s: "qr_status (sample_results ! 0) = run_success" by code_simp
  let ?q = "query_series sample_arith (\<lambda>s. s)
    [sample_query ''A'' [(''t1'', Fin 6), (''t2'', Fin 4), (''t3'', Fin 1)], sample_query ''B'' [(''t1'', Fin 2), (''t2'', Fin 0)]]"
  have q: "?q = [(''A'', [(''t1'', Fin 6), (''t2'', Fin 4), (''t3'', Fin 1)]), (''B'', [(''t1'', Fin 2), (''t2'', Fin 0)])]" by code_simp
  show ?thesis using s buildFormulaResults_points [OF _ c, of sample_arith
      "[sample_query ''A'' [(''t1'', Fin 6), (''t2'', Fin 4), (''t3'', Fin 1)], sample_query ''B'' [(''t1'', Fin 2), (''t2'', Fin 0)]]"]
    unfolding sample_results_def
    by (simp add: Let_def q operands_def operand_def evaluateCompiledFormula_def apply_operator_def finish_value_def)
qed

text \<open>Every formula has a result under its own id.\<close>

theorem buildFormulaResults_ids: "map qr_queryId (buildFormulaResults arith upper parseFloat formulas queryResults) = map fd_id formulas"
proof -
  have "map qr_queryId (run_formulas arith upper parseFloat allBuckets fs series) = map fd_id fs" for allBuckets fs series
    by (induction fs arbitrary: series) (auto split: prod.splits dest!: arg_cong [where f = "\<lambda>p. qr_queryId (fst p)"] simp: run_formula_id)
  then show ?thesis by (simp add: buildFormulaResults_def Let_def)
qed

end
